(* ===== verification/Prelude.thy ===== *)
theory Prelude
  imports Main "HOL-Library.Word" "HOL-Library.Char_ord"
begin

text \<open>
  Shared vocabulary of the development: the C integer types as words, the result type of code that
  can panic, fail an assertion or leave the bounds of an array, the little-endian view of words as
  byte lists, and the generic lemmas the component theories use.
\<close>

unbundle bit_operations_syntax

type_synonym u8 = "8 word"
type_synonym u16 = "16 word"
type_synonym u32 = "32 word"
type_synonym u64 = "64 word"

named_theorems nemu_simps \<open>unfolding rules of the straight-line model definitions\<close>

section \<open>Results\<close>

text \<open>
  A run of the C code either continues with a value or stops for good: \<open>panic\<close> (with its message),
  a failed \<open>assert\<close>, an access outside an array or a signed overflow, which C leaves undefined and no theorem
  may rely on, or a loop that does not end.
\<close>

datatype abort = Panic string | Assert_fail | Out_of_bounds | Int_overflow | Diverges

type_synonym 'a result = "abort + 'a"

definition bindE :: "'a result \<Rightarrow> ('a \<Rightarrow> 'b result) \<Rightarrow> 'b result" where
  "bindE r f = (case r of Inl e \<Rightarrow> Inl e | Inr x \<Rightarrow> f x)"

definition assertE :: "bool \<Rightarrow> unit result" where
  "assertE b = (if b then Inr () else Inl Assert_fail)"

lemma bindE_Inl [simp]: "bindE (Inl e) f = Inl e"
  by (simp add: bindE_def)

lemma bindE_Inr [simp]: "bindE (Inr x) f = f x"
  by (simp add: bindE_def)

lemma bindE_eq_Inr: "bindE r f = Inr y \<longleftrightarrow> (\<exists>x. r = Inr x \<and> f x = Inr y)"
  by (cases r) auto

lemma bindE_eq_Inl: "bindE r f = Inl e \<longleftrightarrow> r = Inl e \<or> (\<exists>x. r = Inr x \<and> f x = Inl e)"
  by (cases r) auto

lemma bindE_assoc: "bindE (bindE r f) g = bindE r (\<lambda>x. bindE (f x) g)"
  by (cases r) auto

lemma bindE_cong [fundef_cong]:
  "r = r' \<Longrightarrow> (\<And>x. r' = Inr x \<Longrightarrow> f x = f' x) \<Longrightarrow> bindE r f = bindE r' f'"
  by (cases r') auto

lemma assertE_True [simp]: "assertE True = Inr ()"
  by (simp add: assertE_def)

lemma assertE_False [simp]: "assertE False = Inl Assert_fail"
  by (simp add: assertE_def)

lemma assertE_eq_Inr: "assertE b = Inr u \<longleftrightarrow> b"
  by (cases b) auto

section \<open>Computations over a state\<close>

text \<open>
  Code that works on the state \<open>'s\<close> and may stop. An abort loses the state: the process is gone.
\<close>

type_synonym ('s, 'a) comp = "'s \<Rightarrow> ('a \<times> 's) result"

definition retM :: "'a \<Rightarrow> ('s, 'a) comp" where
  "retM x = (\<lambda>s. Inr (x, s))"

definition bindM :: "('s, 'a) comp \<Rightarrow> ('a \<Rightarrow> ('s, 'b) comp) \<Rightarrow> ('s, 'b) comp" where
  "bindM m f = (\<lambda>s. case m s of Inl e \<Rightarrow> Inl e | Inr (x, s') \<Rightarrow> f x s')"

definition thenM :: "('s, 'a) comp \<Rightarrow> ('s, 'b) comp \<Rightarrow> ('s, 'b) comp" where
  "thenM m k = bindM m (\<lambda>_. k)"

definition getsM :: "('s \<Rightarrow> 'a) \<Rightarrow> ('s, 'a) comp" where
  "getsM f = (\<lambda>s. Inr (f s, s))"

definition modifyM :: "('s \<Rightarrow> 's) \<Rightarrow> ('s, unit) comp" where
  "modifyM f = (\<lambda>s. Inr ((), f s))"

definition failM :: "abort \<Rightarrow> ('s, 'a) comp" where
  "failM e = (\<lambda>s. Inl e)"

definition assertM :: "bool \<Rightarrow> ('s, unit) comp" where
  "assertM b = (if b then retM () else failM Assert_fail)"

definition liftM :: "'a result \<Rightarrow> ('s, 'a) comp" where
  "liftM r = (\<lambda>s. case r of Inl e \<Rightarrow> Inl e | Inr x \<Rightarrow> Inr (x, s))"

definition whenM :: "bool \<Rightarrow> ('s, unit) comp \<Rightarrow> ('s, unit) comp" where
  "whenM b m = (if b then m else retM ())"

lemma retM_apply [simp]: "retM x s = Inr (x, s)"
  by (simp add: retM_def)

lemma getsM_apply [simp]: "getsM f s = Inr (f s, s)"
  by (simp add: getsM_def)

lemma modifyM_apply [simp]: "modifyM f s = Inr ((), f s)"
  by (simp add: modifyM_def)

lemma failM_apply [simp]: "failM e s = Inl e"
  by (simp add: failM_def)

lemma liftM_Inr [simp]: "liftM (Inr x) s = Inr (x, s)"
  by (simp add: liftM_def)

lemma liftM_Inl [simp]: "liftM (Inl e) s = Inl e"
  by (simp add: liftM_def)

lemma assertM_apply [simp]: "assertM b s = (if b then Inr ((), s) else Inl Assert_fail)"
  by (simp add: assertM_def)

lemma whenM_apply [simp]: "whenM b m s = (if b then m s else Inr ((), s))"
  by (simp add: whenM_def)

lemma bindM_Inr [simp]: "m s = Inr (x, s') \<Longrightarrow> bindM m f s = f x s'"
  by (simp add: bindM_def)

lemma bindM_Inl [simp]: "m s = Inl e \<Longrightarrow> bindM m f s = Inl e"
  by (simp add: bindM_def)

lemma thenM_Inr [simp]: "m s = Inr (x, s') \<Longrightarrow> thenM m k s = k s'"
  by (simp add: thenM_def)

lemma thenM_Inl [simp]: "m s = Inl e \<Longrightarrow> thenM m k s = Inl e"
  by (simp add: thenM_def)

lemma bindM_eq_Inr:
  "bindM m f s = Inr r \<longleftrightarrow> (\<exists>x s'. m s = Inr (x, s') \<and> f x s' = Inr r)"
  by (auto simp: bindM_def split: sum.splits)

lemma thenM_eq_Inr:
  "thenM m k s = Inr r \<longleftrightarrow> (\<exists>x s'. m s = Inr (x, s') \<and> k s' = Inr r)"
  by (simp add: thenM_def bindM_eq_Inr)

lemma liftM_eq_Inr: "liftM r s = Inr (x, s') \<longleftrightarrow> r = Inr x \<and> s' = s"
  by (cases r) auto

lemma bindM_retM [simp]: "bindM (retM x) f = f x"
  by (rule ext) simp

lemma failM_bindM [simp]: "bindM (failM e) f = failM e"
  by (rule ext) simp

lemma bindM_assoc: "bindM (bindM m f) g = bindM m (\<lambda>x. bindM (f x) g)"
  by (rule ext) (auto simp: bindM_def split: sum.splits)

lemmas comp_elims = bindM_eq_Inr thenM_eq_Inr liftM_eq_Inr

text \<open>A computation keeps a state predicate if no successful run breaks it.\<close>

definition keeps :: "('s \<Rightarrow> bool) \<Rightarrow> ('s, 'a) comp \<Rightarrow> bool" where
  "keeps P m \<longleftrightarrow> (\<forall>s x s'. P s \<longrightarrow> m s = Inr (x, s') \<longrightarrow> P s')"

named_theorems keeps_intros \<open>rules that show a computation keeps an invariant\<close>

lemma keepsI: "(\<And>s x s'. P s \<Longrightarrow> m s = Inr (x, s') \<Longrightarrow> P s') \<Longrightarrow> keeps P m"
  by (auto simp: keeps_def)

lemma keepsD: "keeps P m \<Longrightarrow> P s \<Longrightarrow> m s = Inr (x, s') \<Longrightarrow> P s'"
  by (auto simp: keeps_def)

lemma keeps_retM [keeps_intros]: "keeps P (retM x)"
  by (auto simp: keeps_def)

lemma keeps_getsM [keeps_intros]: "keeps P (getsM f)"
  by (auto simp: keeps_def)

lemma keeps_failM [keeps_intros]: "keeps P (failM e)"
  by (auto simp: keeps_def)

lemma keeps_assertM [keeps_intros]: "keeps P (assertM b)"
  by (auto simp: keeps_def split: if_splits)

lemma keeps_liftM [keeps_intros]: "keeps P (liftM r)"
  by (auto simp: keeps_def liftM_eq_Inr)

lemma keeps_modifyM [keeps_intros]: "(\<And>s. P s \<Longrightarrow> P (f s)) \<Longrightarrow> keeps P (modifyM f)"
  by (auto simp: keeps_def)

lemma keeps_bindM [keeps_intros]:
  "keeps P m \<Longrightarrow> (\<And>x. keeps P (f x)) \<Longrightarrow> keeps P (bindM m f)"
  by (rule keepsI) (unfold bindM_eq_Inr, elim exE conjE, metis keepsD)

lemma keeps_thenM [keeps_intros]: "keeps P m \<Longrightarrow> keeps P k \<Longrightarrow> keeps P (thenM m k)"
  by (simp add: thenM_def keeps_bindM)

lemma keeps_whenM [keeps_intros]: "(b \<Longrightarrow> keeps P m) \<Longrightarrow> keeps P (whenM b m)"
  by (simp add: whenM_def keeps_retM)

lemma keeps_if [keeps_intros]:
  "(b \<Longrightarrow> keeps P m) \<Longrightarrow> (\<not> b \<Longrightarrow> keeps P k) \<Longrightarrow> keeps P (if b then m else k)"
  by simp

section \<open>Words\<close>

text \<open>Shifting one bit into a word from the right, as the decoding and division loops do.\<close>

lemma bit_shift_in:
  fixes k :: "'a::len word"
  shows "bit (push_bit 1 k OR (if b then 1 else 0)) j
    \<longleftrightarrow> (case j of 0 \<Rightarrow> b | Suc i \<Rightarrow> Suc i < LENGTH('a) \<and> bit k i)"
  unfolding bit_or_iff bit_push_bit_iff
  by (cases j) (auto simp: bit_1_iff dest: bit_imp_le_length)

lemma ucast_u8_ucast: "(ucast (ucast w :: u8) :: u32) = take_bit 8 w" for w :: u32
  by (rule bit_word_eqI) (auto simp: bit_simps)

subsection \<open>Words as little-endian bytes\<close>

fun of_bytes :: "u8 list \<Rightarrow> 'a::len word" where
  "of_bytes [] = 0"
| "of_bytes (b # bs) = ucast b OR push_bit 8 (of_bytes bs)"

fun to_bytes :: "nat \<Rightarrow> 'a::len word \<Rightarrow> u8 list" where
  "to_bytes 0 w = []"
| "to_bytes (Suc n) w = ucast w # to_bytes n (drop_bit 8 w)"

lemma length_to_bytes [simp]: "length (to_bytes n w) = n"
  by (induction n arbitrary: w) auto

lemma of_bytes_to_bytes: "of_bytes (to_bytes n w) = take_bit (8 * n) w"
proof (induction n arbitrary: w)
  case 0
  show ?case by simp
next
  case (Suc n)
  have "ucast (ucast w :: u8) OR push_bit 8 (take_bit (8 * n) (drop_bit 8 w))
        = take_bit (8 * Suc n) w"
    by (rule bit_word_eqI) (auto simp: bit_simps)
  then show ?case by (simp add: Suc.IH)
qed

lemma of_bytes_to_bytes_full:
  "LENGTH('a) \<le> 8 * n \<Longrightarrow> of_bytes (to_bytes n w) = (w :: 'a::len word)"
  by (simp add: of_bytes_to_bytes take_bit_word_eq_self)

lemma to_bytes_nth: "i < n \<Longrightarrow> to_bytes n w ! i = ucast (drop_bit (8 * i) w)"
  by (induction n arbitrary: i w) (auto simp: nth_Cons' drop_bit_drop_bit algebra_simps)

section \<open>Words as numbers\<close>

lemma u32_bound: "unat (x :: u32) < 2 ^ 32"
  using unsigned_less [of x, where ?'a = nat] by simp

lemma unat_drop_bit: "unat (drop_bit n x) = unat x div 2 ^ n"
proof -
  have "unat (drop_bit n x) = drop_bit n (unat x)" by (simp add: unsigned_drop_bit_eq take_bit_nat_eq_self)
  then show ?thesis by (simp add: drop_bit_eq_div)
qed

lemma u64_bound: "unat (x :: u64) < 2 ^ 64"
  using unsigned_less [of x, where ?'a = nat] by simp

lemma unat_of_small: "k < 2 ^ 32 \<Longrightarrow> unat (of_nat k :: u32) = k"
  by (simp add: unsigned_of_nat take_bit_eq_mod)

end
