(* ===== verification/Config.thy ===== *)
theory Config
  imports Prelude
begin

text \<open>
  The build configuration of NEMU and the bit macros of \<open>include/macro.h\<close>. The C sources are
  specialised by the preprocessor (\<open>MUXDEF\<close>, \<open>IFDEF\<close>, \<open>#if defined\<close>); here the options are a
  record passed to the definitions, so that one model covers the configurations. The guest is the
  32-bit one (\<open>CONFIG_ISA64\<close> undefined: \<open>word_t\<close> is \<open>uint32_t\<close>) and the host target is
  native (\<open>CONFIG_TARGET_AM\<close> undefined).
\<close>

section \<open>Configuration\<close>

record config =
  CONFIG_MBASE :: u32
  CONFIG_MSIZE :: u32
  CONFIG_PC_RESET_OFFSET :: u32
  CONFIG_MROM_BASE :: u32
  CONFIG_MROM_SIZE :: u32
  CONFIG_SRAM_BASE :: u32
  CONFIG_SRAM_SIZE :: u32
  CONFIG_FLASH_BASE :: u32
  CONFIG_FLASH_SIZE :: u32
  CONFIG_PSRAM_BASE :: u32
  CONFIG_PSRAM_SIZE :: u32
  CONFIG_SDRAM_BASE :: u32
  CONFIG_SDRAM_SIZE :: u32
  CONFIG_TARGET_SHARE :: bool
  CONFIG_PC_TRACE :: bool
  CONFIG_BRANCH_TRACE :: bool
  CONFIG_ITRACE :: bool
  CONFIG_DIFFTEST :: bool
  CONFIG_WATCHPOINT :: bool
  CONFIG_RT_CHECK :: bool
  CONFIG_RVE :: bool
  CONFIG_DEVICE :: bool
  CONFIG_HAS_PORT_IO :: bool
  CONFIG_HAS_SERIAL :: bool
  CONFIG_SERIAL_PORT :: u16
  CONFIG_SERIAL_MMIO :: u32
  CONFIG_HAS_TIMER :: bool
  CONFIG_RTC_PORT :: u16
  CONFIG_RTC_MMIO :: u32
  CONFIG_HAS_KEYBOARD :: bool
  CONFIG_I8042_DATA_PORT :: u16
  CONFIG_I8042_DATA_MMIO :: u32
  CONFIG_HAS_VGA :: bool
  CONFIG_FB_ADDR :: u32
  CONFIG_VGA_CTL_PORT :: u16
  CONFIG_VGA_CTL_MMIO :: u32
  CONFIG_VGA_SHOW_SCREEN :: bool
  CONFIG_VGA_SIZE_800x600 :: bool
  CONFIG_HAS_AUDIO :: bool
  CONFIG_SB_ADDR :: u32
  CONFIG_SB_SIZE :: u32
  CONFIG_AUDIO_CTL_PORT :: u16
  CONFIG_AUDIO_CTL_MMIO :: u32
  CONFIG_HAS_DISK :: bool
  CONFIG_HAS_SDCARD :: bool
  CONFIG_SDCARD_CTL_MMIO :: u32

text \<open>
  The defaults of the \<open>Kconfig\<close> files for the riscv guest: devices, tracing and differential
  testing are off, run-time checks and watchpoints are on.
\<close>

definition kconfig_default :: config where
  "kconfig_default = \<lparr>
     CONFIG_MBASE = 0x80000000, CONFIG_MSIZE = 0x2000000, CONFIG_PC_RESET_OFFSET = 0,
     CONFIG_MROM_BASE = 0x20000000, CONFIG_MROM_SIZE = 0x1000,
     CONFIG_SRAM_BASE = 0x0f000000, CONFIG_SRAM_SIZE = 0x2000,
     CONFIG_FLASH_BASE = 0x30000000, CONFIG_FLASH_SIZE = 0x10000000,
     CONFIG_PSRAM_BASE = 0x80000000, CONFIG_PSRAM_SIZE = 0x20000000,
     CONFIG_SDRAM_BASE = 0xa0000000, CONFIG_SDRAM_SIZE = 0x20000000,
     CONFIG_TARGET_SHARE = False, CONFIG_PC_TRACE = False, CONFIG_BRANCH_TRACE = False,
     CONFIG_ITRACE = False, CONFIG_DIFFTEST = False, CONFIG_WATCHPOINT = True,
     CONFIG_RT_CHECK = True, CONFIG_RVE = False,
     CONFIG_DEVICE = False, CONFIG_HAS_PORT_IO = False,
     CONFIG_HAS_SERIAL = True, CONFIG_SERIAL_PORT = 0x3f8, CONFIG_SERIAL_MMIO = 0xa00003f8,
     CONFIG_HAS_TIMER = True, CONFIG_RTC_PORT = 0x48, CONFIG_RTC_MMIO = 0xa0000048,
     CONFIG_HAS_KEYBOARD = True, CONFIG_I8042_DATA_PORT = 0x60,
     CONFIG_I8042_DATA_MMIO = 0xa0000060,
     CONFIG_HAS_VGA = True, CONFIG_FB_ADDR = 0xa1000000, CONFIG_VGA_CTL_PORT = 0x100,
     CONFIG_VGA_CTL_MMIO = 0xa0000100, CONFIG_VGA_SHOW_SCREEN = True,
     CONFIG_VGA_SIZE_800x600 = False,
     CONFIG_HAS_AUDIO = True, CONFIG_SB_ADDR = 0xa1200000, CONFIG_SB_SIZE = 0x10000,
     CONFIG_AUDIO_CTL_PORT = 0x200, CONFIG_AUDIO_CTL_MMIO = 0xa0000200,
     CONFIG_HAS_DISK = True, CONFIG_HAS_SDCARD = False, CONFIG_SDCARD_CTL_MMIO = 0xa3000000\<rparr>"

text \<open>The guard \<open>defined(CONFIG_TARGET_SHARE) || defined(CONFIG_PC_TRACE) || ...\<close>.\<close>

definition soc_memory :: "config \<Rightarrow> bool" where
  "soc_memory c = (CONFIG_TARGET_SHARE c \<or> CONFIG_PC_TRACE c \<or> CONFIG_BRANCH_TRACE c)"

definition trace_target :: "config \<Rightarrow> bool" where
  "trace_target c = (CONFIG_PC_TRACE c \<or> CONFIG_BRANCH_TRACE c)"

definition RISCV_GPR_NUM :: "config \<Rightarrow> nat" where
  "RISCV_GPR_NUM c = (if CONFIG_RVE c then 16 else 32)"

section \<open>Bit macros\<close>

definition BITMASK :: "nat \<Rightarrow> u64" where
  "BITMASK bits = push_bit bits 1 - 1"

definition BITS :: "u32 \<Rightarrow> nat \<Rightarrow> nat \<Rightarrow> u64" where
  "BITS x hi lo = ucast (drop_bit lo x) AND BITMASK (hi - lo + 1)"

text \<open>\<open>SEXT(x, len)\<close> stores \<open>x\<close> in a signed bit-field of \<open>len\<close> bits and reads it back.\<close>

definition SEXT :: "u64 \<Rightarrow> nat \<Rightarrow> u64" where
  "SEXT x len = signed_take_bit (len - 1) x"

lemma BITMASK_eq_mask: "BITMASK n = mask n"
  by (simp add: BITMASK_def mask_eq_exp_minus_1 push_bit_eq_mult)

lemma BITS_eq: "BITS x hi lo = ucast (take_bit (hi - lo + 1) (drop_bit lo x))"
  unfolding BITS_def BITMASK_eq_mask
  by (rule bit_word_eqI) (auto simp: bit_simps)

lemma bit_BITS [simp]: "bit (BITS x hi lo) n \<longleftrightarrow> n \<le> hi - lo \<and> bit x (lo + n)"
  by (auto simp: BITS_eq bit_simps dest: bit_imp_le_length)

lemma BITS_bound: "hi - lo + 1 < 64 \<Longrightarrow> unat (BITS x hi lo) < 2 ^ (hi - lo + 1)"
proof -
  assume small: "hi - lo + 1 < 64"
  have "BITS x hi lo = take_bit (hi - lo + 1) (BITS x hi lo)"
    by (rule bit_word_eqI) (auto simp: bit_simps)
  then have "unat (BITS x hi lo) = take_bit (hi - lo + 1) (unat (BITS x hi lo))"
    by (metis unsigned_take_bit_eq)
  then show ?thesis by (metis take_bit_nat_less_exp)
qed

lemma bit_SEXT:
  "0 < len \<Longrightarrow> bit (SEXT x len) n \<longleftrightarrow> n < 64 \<and> bit x (min n (len - 1))"
  by (auto simp: SEXT_def bit_simps min_def)

section \<open>The memory map\<close>

text \<open>
  The range tests of \<open>include/memory/paddr.h\<close>: one unsigned comparison that relies on the
  wrap-around of the subtraction.
\<close>

definition in_pmem :: "config \<Rightarrow> u32 \<Rightarrow> bool" where
  "in_pmem c addr \<longleftrightarrow> addr - CONFIG_MBASE c < CONFIG_MSIZE c"

definition in_mrom :: "config \<Rightarrow> u32 \<Rightarrow> bool" where
  "in_mrom c addr \<longleftrightarrow> addr - CONFIG_MROM_BASE c < CONFIG_MROM_SIZE c"

definition in_sram :: "config \<Rightarrow> u32 \<Rightarrow> bool" where
  "in_sram c addr \<longleftrightarrow> addr - CONFIG_SRAM_BASE c < CONFIG_SRAM_SIZE c"

definition in_flash :: "config \<Rightarrow> u32 \<Rightarrow> bool" where
  "in_flash c addr \<longleftrightarrow> addr - CONFIG_FLASH_BASE c < CONFIG_FLASH_SIZE c"

definition in_psram :: "config \<Rightarrow> u32 \<Rightarrow> bool" where
  "in_psram c addr \<longleftrightarrow> addr - CONFIG_PSRAM_BASE c < CONFIG_PSRAM_SIZE c"

definition in_sdram :: "config \<Rightarrow> u32 \<Rightarrow> bool" where
  "in_sdram c addr \<longleftrightarrow> addr - CONFIG_SDRAM_BASE c < CONFIG_SDRAM_SIZE c"

definition PMEM_LEFT :: "config \<Rightarrow> u32" where
  "PMEM_LEFT c = CONFIG_MBASE c"

definition PMEM_RIGHT :: "config \<Rightarrow> u32" where
  "PMEM_RIGHT c = CONFIG_MBASE c + CONFIG_MSIZE c - 1"

definition RESET_VECTOR :: "config \<Rightarrow> u32" where
  "RESET_VECTOR c = (if trace_target c then 0x30000000 else PMEM_LEFT c + CONFIG_PC_RESET_OFFSET c)"

text \<open>The comparison is the interval test when the area does not reach past the address space.\<close>

lemma window_iff:
  fixes a b n :: u32
  assumes "uint b + uint n \<le> 2 ^ 32"
  shows "a - b < n \<longleftrightarrow> uint b \<le> uint a \<and> uint a < uint b + uint n"
proof -
  have eq: "uint (a - b) = (if uint b \<le> uint a then uint a - uint b else uint a - uint b + 2 ^ 32)"
    using uint_sub_if' [of a b] by simp
  show ?thesis
  proof (cases "uint b \<le> uint a")
    case True
    with eq have "uint (a - b) = uint a - uint b" by simp
    with True show ?thesis unfolding word_less_def by linarith
  next
    case False
    with eq have "uint (a - b) = uint a - uint b + 2 ^ 32" by simp
    with False assms uint_ge_0 [of a] show ?thesis unfolding word_less_def by linarith
  qed
qed

lemma in_pmem_iff:
  "uint (CONFIG_MBASE c) + uint (CONFIG_MSIZE c) \<le> 2 ^ 32 \<Longrightarrow>
   in_pmem c a \<longleftrightarrow> uint (CONFIG_MBASE c) \<le> uint a \<and> uint a < uint (CONFIG_MBASE c) + uint (CONFIG_MSIZE c)"
  by (simp add: in_pmem_def window_iff)

end
