(* ===== verification/Host_Memory.thy ===== *)
theory Host_Memory
  imports Config
begin

text \<open>
  Host memory as NEMU uses it: the static byte arrays that back the guest memories and the
  allocated device space, pointers into them, and the sized accesses of \<open>include/memory/host.h\<close>.
  The interface \<open>sized_memory\<close> states what the rest of the emulator relies on.
\<close>

section \<open>Arrays, pointers and accesses\<close>

datatype region = PMEM | MROM | SRAM | FLASH | PSRAM | SDRAM | IO_SPACE

type_synonym hptr = "region \<times> int"

type_synonym hmem = "region \<Rightarrow> int \<Rightarrow> u8"

definition IO_SPACE_MAX :: int where
  "IO_SPACE_MAX = 32 * 1024 * 1024"

fun region_size :: "config \<Rightarrow> region \<Rightarrow> int" where
  "region_size c PMEM = uint (CONFIG_MSIZE c)"
| "region_size c MROM = uint (CONFIG_MROM_SIZE c)"
| "region_size c SRAM = uint (CONFIG_SRAM_SIZE c)"
| "region_size c FLASH = uint (CONFIG_FLASH_SIZE c)"
| "region_size c PSRAM = uint (CONFIG_PSRAM_SIZE c)"
| "region_size c SDRAM = uint (CONFIG_SDRAM_SIZE c)"
| "region_size c IO_SPACE = IO_SPACE_MAX"

definition ptr_ok :: "config \<Rightarrow> hptr \<Rightarrow> int \<Rightarrow> bool" where
  "ptr_ok c p n \<longleftrightarrow> 0 \<le> snd p \<and> snd p + n \<le> region_size c (fst p)"

definition load :: "hmem \<Rightarrow> hptr \<Rightarrow> nat \<Rightarrow> u8 list" where
  "load m p n = map (\<lambda>i. m (fst p) (snd p + int i)) [0..<n]"

definition store :: "hmem \<Rightarrow> hptr \<Rightarrow> u8 list \<Rightarrow> hmem" where
  "store m p bs = m(fst p := (\<lambda>a. if snd p \<le> a \<and> a < snd p + int (length bs)
                              then bs ! nat (a - snd p) else m (fst p) a))"

definition host_read :: "config \<Rightarrow> hmem \<Rightarrow> hptr \<Rightarrow> int \<Rightarrow> u32 result" where
  "host_read c m addr len =
     (if len = 1 \<or> len = 2 \<or> len = 4
      then if ptr_ok c addr len then Inr (of_bytes (load m addr (nat len))) else Inl Out_of_bounds
      else if CONFIG_RT_CHECK c then Inl Assert_fail else Inr 0)"

definition host_write :: "config \<Rightarrow> hmem \<Rightarrow> hptr \<Rightarrow> int \<Rightarrow> u32 \<Rightarrow> hmem result" where
  "host_write c m addr len data =
     (if len = 1 \<or> len = 2 \<or> len = 4
      then if ptr_ok c addr len then Inr (store m addr (to_bytes (nat len) data))
           else Inl Out_of_bounds
      else if CONFIG_RT_CHECK c then Inl Assert_fail else Inr m)"

definition access_size :: "int \<Rightarrow> bool" where
  "access_size n \<longleftrightarrow> n = 1 \<or> n = 2 \<or> n = 4"

definition ptr_disjoint :: "hptr \<Rightarrow> int \<Rightarrow> hptr \<Rightarrow> int \<Rightarrow> bool" where
  "ptr_disjoint p n q k \<longleftrightarrow> fst p \<noteq> fst q \<or> snd p + n \<le> snd q \<or> snd q + k \<le> snd p"

section \<open>Loads over stores\<close>

lemma length_load [simp]: "length (load m p n) = n"
  by (simp add: load_def)

lemma load_nth: "i < n \<Longrightarrow> load m p n ! i = m (fst p) (snd p + int i)"
  by (simp add: load_def)

lemma load_store_same [simp]: "n = length bs \<Longrightarrow> load (store m p bs) p n = bs"
  by (rule nth_equalityI) (auto simp: load_nth store_def)

lemma load_store_disjoint:
  "ptr_disjoint p (int (length bs)) q (int n) \<Longrightarrow> load (store m p bs) q n = load m q n"
  by (rule nth_equalityI) (auto simp: load_nth store_def ptr_disjoint_def)

lemma store_outside:
  "a < snd p \<or> snd p + int (length bs) \<le> a \<Longrightarrow> store m p bs r a = m r a"
  by (auto simp: store_def)

lemma store_other_region [simp]: "r \<noteq> fst p \<Longrightarrow> store m p bs r = m r"
  by (simp add: store_def)

lemma store_store_same:
  "length bs = length bs' \<Longrightarrow> store (store m p bs) p bs' = store m p bs'"
  by (auto simp: store_def fun_eq_iff)

section \<open>The interface of a sized memory\<close>

text \<open>
  A memory with accesses of 1, 2 and 4 bytes: a read returns the low bytes of what was last
  written there, writes elsewhere do not disturb it, and reads and writes succeed together.
\<close>

locale sized_memory =
  fixes rd :: "'m \<Rightarrow> 'a \<Rightarrow> int \<Rightarrow> u32 result"
    and wr :: "'m \<Rightarrow> 'a \<Rightarrow> int \<Rightarrow> u32 \<Rightarrow> 'm result"
    and apart :: "'a \<Rightarrow> int \<Rightarrow> 'a \<Rightarrow> int \<Rightarrow> bool"
  assumes rd_wr_same: "access_size n \<Longrightarrow> wr m a n v = Inr m' \<Longrightarrow> rd m' a n = Inr (take_bit (8 * nat n) v)"
    and rd_wr_apart: "access_size n \<Longrightarrow> access_size k \<Longrightarrow> wr m a n v = Inr m' \<Longrightarrow> apart a n b k \<Longrightarrow>
      rd m' b k = rd m b k"
    and rd_iff_wr: "access_size n \<Longrightarrow> (\<exists>x. rd m a n = Inr x) \<longleftrightarrow> (\<exists>m'. wr m a n v = Inr m')"
    and apart_sym: "apart a n b k \<Longrightarrow> apart b k a n"
begin

lemma rd_wr_word: "wr m a 4 v = Inr m' \<Longrightarrow> rd m' a 4 = Inr v"
  using rd_wr_same [of 4 m a v m'] by (simp add: access_size_def take_bit_word_eq_self)

lemma last_write_wins:
  "access_size n \<Longrightarrow> wr m a n v = Inr m1 \<Longrightarrow> wr m1 a n w = Inr m2 \<Longrightarrow>
   rd m2 a n = Inr (take_bit (8 * nat n) w)"
  by (rule rd_wr_same)

lemma writes_commute:
  assumes "access_size n" "access_size k" "apart a n b k"
    and "wr m a n v = Inr m1" "wr m1 b k w = Inr m2"
    and "wr m b k w = Inr m3" "wr m3 a n v = Inr m4"
  shows "rd m2 a n = rd m4 a n \<and> rd m2 b k = rd m4 b k"
  using assms rd_wr_same rd_wr_apart apart_sym by metis

lemma write_again:
  assumes "access_size n" and "wr m a n v = Inr m1"
  shows "\<exists>m2. wr m1 a n w = Inr m2"
  using rd_iff_wr [OF assms(1), of m1 a w] rd_wr_same [OF assms] by blast

lemma save_restore:
  assumes "wr m a 4 v = Inr m1" "wr m1 b 4 w = Inr m2" "apart a 4 b 4"
  shows "rd m2 a 4 = Inr v"
proof -
  have "access_size 4" by (simp add: access_size_def)
  with assms show ?thesis
    using rd_wr_word [OF assms(1)] rd_wr_apart [of 4 4 m1 b w m2 a] apart_sym by metis
qed

end

interpretation host: sized_memory "host_read c" "host_write c" ptr_disjoint
proof
  show "host_read c m' a n = Inr (take_bit (8 * nat n) v)"
    if "access_size n" "host_write c m a n v = Inr m'" for n m a v m'
    using that
    by (auto simp: access_size_def host_write_def host_read_def of_bytes_to_bytes
        ucast_u8_ucast split: if_splits)
  show "host_read c m' b k = host_read c m b k"
    if "access_size n" "access_size k" "host_write c m a n v = Inr m'" "ptr_disjoint a n b k"
    for n k m a v m' b
    using that load_store_disjoint [of a "to_bytes (nat n) v" b "nat k" m]
    by (auto simp: access_size_def host_write_def host_read_def split: if_splits)
  show "(\<exists>x. host_read c m a n = Inr x) \<longleftrightarrow> (\<exists>m'. host_write c m a n v = Inr m')"
    if "access_size n" for n m a v
    using that by (auto simp: access_size_def host_write_def host_read_def)
  show "ptr_disjoint b k a n" if "ptr_disjoint a n b k" for a n b k
    using that by (auto simp: ptr_disjoint_def)
qed

lemma host_read_ok:
  "access_size n \<Longrightarrow> ptr_ok c p n \<Longrightarrow> host_read c m p n = Inr (of_bytes (load m p (nat n)))"
  by (auto simp: host_read_def access_size_def)

lemma host_write_ok:
  "access_size n \<Longrightarrow> ptr_ok c p n \<Longrightarrow> host_write c m p n v = Inr (store m p (to_bytes (nat n) v))"
  by (auto simp: host_write_def access_size_def)

text \<open>A write changes no byte outside the addressed ones.\<close>

lemma host_write_frame:
  assumes "host_write c m p n v = Inr m'" and "r \<noteq> fst p \<or> a < snd p \<or> snd p + n \<le> a"
  shows "m' r a = m r a"
  using assms by (auto simp: host_write_def store_def split: if_splits)

lemma host_write_in_bounds:
  "access_size n \<Longrightarrow> host_write c m p n v = Inr m' \<Longrightarrow> ptr_ok c p n"
  by (auto simp: host_write_def access_size_def split: if_splits)

end
