(* ===== verification/Keyboard.thy ===== *)
theory Keyboard
  imports Host_Memory
begin

text \<open>
  The key queue and the key map of \<open>src/device/keyboard.c\<close> (native target). The ring buffer is
  shown to be a bounded first-in first-out queue: the interface \<open>bounded_queue\<close> is interpreted on
  \<open>key_enqueue\<close> and \<open>key_dequeue\<close>.
\<close>

section \<open>Keys and the key map\<close>

text \<open>The X-macro list \<open>NEMU_KEYS\<close>; \<open>NEMU_KEY_k\<close> is one more than the position of \<open>k\<close>.\<close>

definition NEMU_KEYS :: "string list" where
  "NEMU_KEYS =
    [''ESCAPE'', ''F1'', ''F2'', ''F3'', ''F4'', ''F5'', ''F6'', ''F7'', ''F8'', ''F9'', ''F10'',
     ''F11'', ''F12'',
     ''GRAVE'', ''1'', ''2'', ''3'', ''4'', ''5'', ''6'', ''7'', ''8'', ''9'', ''0'', ''MINUS'',
     ''EQUALS'', ''BACKSPACE'',
     ''TAB'', ''Q'', ''W'', ''E'', ''R'', ''T'', ''Y'', ''U'', ''I'', ''O'', ''P'', ''LEFTBRACKET'',
     ''RIGHTBRACKET'', ''BACKSLASH'',
     ''CAPSLOCK'', ''A'', ''S'', ''D'', ''F'', ''G'', ''H'', ''J'', ''K'', ''L'', ''SEMICOLON'',
     ''APOSTROPHE'', ''RETURN'',
     ''LSHIFT'', ''Z'', ''X'', ''C'', ''V'', ''B'', ''N'', ''M'', ''COMMA'', ''PERIOD'', ''SLASH'',
     ''RSHIFT'',
     ''LCTRL'', ''APPLICATION'', ''LALT'', ''SPACE'', ''RALT'', ''RCTRL'',
     ''UP'', ''DOWN'', ''LEFT'', ''RIGHT'', ''INSERT'', ''DELETE'', ''HOME'', ''END'', ''PAGEUP'',
     ''PAGEDOWN'']"

definition NEMU_KEY_NONE :: u32 where
  "NEMU_KEY_NONE = 0"

definition KEYDOWN_MASK :: u32 where
  "KEYDOWN_MASK = 0x8000"

record keyboard =
  keymap :: "u8 \<Rightarrow> u32"
  key_queue :: "u32 list"
  key_f :: nat
  key_r :: nat
  i8042_data_port_base :: "hptr option"

definition KEY_QUEUE_LEN :: nat where
  "KEY_QUEUE_LEN = 1024"

text \<open>The static initialisers: everything is zero.\<close>

definition keyboard_init :: keyboard where
  "keyboard_init = \<lparr>keymap = (\<lambda>_. NEMU_KEY_NONE), key_queue = replicate KEY_QUEUE_LEN 0,
     key_f = 0, key_r = 0, i8042_data_port_base = None\<rparr>"

text \<open>
  \<open>MAP(NEMU_KEYS, SDL_KEYMAP)\<close>: one assignment per key, in the order of the list. The scan codes
  are constants of SDL and a parameter here.
\<close>

fun assign_keys :: "(string \<Rightarrow> u8) \<Rightarrow> string list \<Rightarrow> u32 \<Rightarrow> (u8 \<Rightarrow> u32) \<Rightarrow> u8 \<Rightarrow> u32" where
  "assign_keys SDL_SCANCODE [] n km = km"
| "assign_keys SDL_SCANCODE (k # ks) n km =
     assign_keys SDL_SCANCODE ks (n + 1) (km(SDL_SCANCODE k := n))"

definition init_keymap :: "(string \<Rightarrow> u8) \<Rightarrow> keyboard \<Rightarrow> keyboard" where
  "init_keymap SDL_SCANCODE kb = kb\<lparr>keymap := assign_keys SDL_SCANCODE NEMU_KEYS 1 (keymap kb)\<rparr>"

section \<open>The queue\<close>

definition key_enqueue :: "u32 \<Rightarrow> keyboard \<Rightarrow> keyboard result" where
  "key_enqueue am_scancode kb =
     (let kb1 = kb\<lparr>key_queue := (key_queue kb)[key_r kb := am_scancode]\<rparr>;
          kb2 = kb1\<lparr>key_r := (key_r kb1 + 1) mod KEY_QUEUE_LEN\<rparr>
      in if key_r kb2 \<noteq> key_f kb2 then Inr kb2 else Inl (Panic ''key queue overflow!''))"

definition key_dequeue :: "keyboard \<Rightarrow> u32 \<times> keyboard" where
  "key_dequeue kb =
     (if key_f kb \<noteq> key_r kb
      then (key_queue kb ! key_f kb, kb\<lparr>key_f := (key_f kb + 1) mod KEY_QUEUE_LEN\<rparr>)
      else (NEMU_KEY_NONE, kb))"

definition send_key :: "bool \<Rightarrow> u8 \<Rightarrow> bool \<Rightarrow> keyboard \<Rightarrow> keyboard result" where
  "send_key running scancode is_keydown kb =
     (if running \<and> keymap kb scancode \<noteq> NEMU_KEY_NONE
      then key_enqueue (keymap kb scancode OR (if is_keydown then KEYDOWN_MASK else 0)) kb
      else Inr kb)"

section \<open>The queue as a list\<close>

definition kb_inv :: "keyboard \<Rightarrow> bool" where
  "kb_inv kb \<longleftrightarrow> length (key_queue kb) = KEY_QUEUE_LEN \<and> key_f kb < KEY_QUEUE_LEN
     \<and> key_r kb < KEY_QUEUE_LEN"

definition kb_count :: "keyboard \<Rightarrow> nat" where
  "kb_count kb = (key_r kb + KEY_QUEUE_LEN - key_f kb) mod KEY_QUEUE_LEN"

definition kb_list :: "keyboard \<Rightarrow> u32 list" where
  "kb_list kb = map (\<lambda>i. key_queue kb ! ((key_f kb + i) mod KEY_QUEUE_LEN)) [0..<kb_count kb]"

text \<open>
  A bounded queue whose insertion fails when it is full and whose removal returns a default on an
  empty queue.
\<close>

locale bounded_queue =
  fixes empty :: 'q
    and enq :: "'a \<Rightarrow> 'q \<Rightarrow> 'q result"
    and deq :: "'q \<Rightarrow> 'a \<times> 'q"
    and elems :: "'q \<Rightarrow> 'a list"
    and inv :: "'q \<Rightarrow> bool"
    and cap :: nat
    and dflt :: 'a
  assumes inv_empty: "inv empty"
    and elems_empty: "elems empty = []"
    and enq_ok: "inv q \<Longrightarrow> length (elems q) < cap \<Longrightarrow>
      \<exists>q'. enq x q = Inr q' \<and> inv q' \<and> elems q' = elems q @ [x]"
    and enq_full: "inv q \<Longrightarrow> length (elems q) \<ge> cap \<Longrightarrow> \<exists>e. enq x q = Inl e"
    and deq_empty: "inv q \<Longrightarrow> elems q = [] \<Longrightarrow> deq q = (dflt, q)"
    and deq_ok: "inv q \<Longrightarrow> elems q = x # xs \<Longrightarrow>
      fst (deq q) = x \<and> elems (snd (deq q)) = xs \<and> inv (snd (deq q))"
begin

fun enq_all :: "'a list \<Rightarrow> 'q \<Rightarrow> 'q result" where
  "enq_all [] q = Inr q"
| "enq_all (x # xs) q = bindE (enq x q) (enq_all xs)"

fun deq_n :: "nat \<Rightarrow> 'q \<Rightarrow> 'a list \<times> 'q" where
  "deq_n 0 q = ([], q)"
| "deq_n (Suc n) q = (let (x, q1) = deq q; (xs, q2) = deq_n n q1 in (x # xs, q2))"

lemma enq_all_ok:
  "inv q \<Longrightarrow> length (elems q) + length xs \<le> cap \<Longrightarrow>
   \<exists>q'. enq_all xs q = Inr q' \<and> inv q' \<and> elems q' = elems q @ xs"
proof (induction xs arbitrary: q)
  case (Cons x xs)
  then obtain q1 where q1: "enq x q = Inr q1" "inv q1" "elems q1 = elems q @ [x]"
    using enq_ok [of q x] by auto
  with Cons.IH [of q1] Cons.prems show ?case by auto
qed simp

lemma deq_n_elems:
  "inv q \<Longrightarrow> n \<le> length (elems q) \<Longrightarrow>
   fst (deq_n n q) = take n (elems q) \<and> elems (snd (deq_n n q)) = drop n (elems q)
   \<and> inv (snd (deq_n n q))"
proof (induction n arbitrary: q)
  case (Suc n)
  then obtain x xs where e: "elems q = x # xs" by (cases "elems q") auto
  note d = deq_ok [OF Suc.prems(1) e]
  with Suc.IH [of "snd (deq q)"] Suc.prems e show ?case
    by (auto simp: Let_def split_beta)
qed simp

text \<open>Whatever fits comes out in the order it went in.\<close>

lemma fifo:
  assumes "length xs \<le> cap"
  shows "\<exists>q. enq_all xs empty = Inr q \<and> fst (deq_n (length xs) q) = xs"
proof -
  obtain q where "enq_all xs empty = Inr q" "inv q" "elems q = xs"
    using enq_all_ok [OF inv_empty, of xs] assms by (auto simp: elems_empty)
  then show ?thesis using deq_n_elems [of q "length xs"] by auto
qed

end

lemma kb_count_lt: "kb_inv kb \<Longrightarrow> kb_count kb < KEY_QUEUE_LEN"
  by (simp add: kb_count_def KEY_QUEUE_LEN_def)

lemma length_kb_list [simp]: "length (kb_list kb) = kb_count kb"
  by (simp add: kb_list_def)

lemma ring_mod: "a < 2 * n \<Longrightarrow> a mod n = (if a < n then a else a - n)" for a n :: nat
  by (simp add: mod_if [of a] le_mod_geq)

lemma kb_count_if:
  "kb_inv kb \<Longrightarrow> kb_count kb
    = (if key_f kb \<le> key_r kb then key_r kb - key_f kb else key_r kb + KEY_QUEUE_LEN - key_f kb)"
  by (auto simp: kb_inv_def kb_count_def ring_mod)

lemma kb_next_slot: "i < KEY_QUEUE_LEN \<Longrightarrow>
    Suc i mod KEY_QUEUE_LEN = (if Suc i < KEY_QUEUE_LEN then Suc i else 0)"
  using ring_mod [of "Suc i" KEY_QUEUE_LEN] by auto

lemma kb_inv_step:
  "kb_inv kb \<Longrightarrow> kb_inv (kb\<lparr>key_queue := (key_queue kb)[j := k], key_r := Suc (key_r kb) mod KEY_QUEUE_LEN\<rparr>)"
  "kb_inv kb \<Longrightarrow> kb_inv (kb\<lparr>key_f := Suc (key_f kb) mod KEY_QUEUE_LEN\<rparr>)"
  by (auto simp: kb_inv_def kb_next_slot)

lemma kb_count_enq:
  assumes "kb_inv kb" and "kb_count kb < KEY_QUEUE_LEN - 1"
  shows "kb_count (kb\<lparr>key_queue := (key_queue kb)[j := k], key_r := Suc (key_r kb) mod KEY_QUEUE_LEN\<rparr>)
      = Suc (kb_count kb)"
    and "Suc (key_r kb) mod KEY_QUEUE_LEN \<noteq> key_f kb"
  using assms kb_count_if [OF assms(1)] kb_count_if [OF kb_inv_step(1) [OF assms(1)], of j k]
  by (auto simp: kb_inv_def kb_next_slot split: if_splits)

lemma kb_slot:
  "kb_inv kb \<Longrightarrow> i \<le> kb_count kb \<Longrightarrow> (key_f kb + i) mod KEY_QUEUE_LEN
    = (if key_f kb + i < KEY_QUEUE_LEN then key_f kb + i else key_f kb + i - KEY_QUEUE_LEN)"
  using kb_count_lt [of kb] by (auto simp: kb_inv_def ring_mod)

lemma kb_slot_r:
  "kb_inv kb \<Longrightarrow> (key_f kb + kb_count kb) mod KEY_QUEUE_LEN = key_r kb"
  using kb_slot [of kb "kb_count kb"] kb_count_if [of kb] by (auto simp: kb_inv_def split: if_splits)

lemma kb_slot_other:
  "kb_inv kb \<Longrightarrow> i < kb_count kb \<Longrightarrow> (key_f kb + i) mod KEY_QUEUE_LEN \<noteq> key_r kb"
  using kb_slot [of kb i] kb_count_if [of kb] by (auto simp: kb_inv_def split: if_splits)

lemma key_enqueue_room:
  assumes inv: "kb_inv kb" and room: "kb_count kb < KEY_QUEUE_LEN - 1"
  shows "\<exists>kb'. key_enqueue k kb = Inr kb' \<and> kb_inv kb' \<and> kb_list kb' = kb_list kb @ [k]"
proof -
  let ?q = "(key_queue kb)[key_r kb := k]"
  let ?kb = "kb\<lparr>key_queue := ?q, key_r := Suc (key_r kb) mod KEY_QUEUE_LEN\<rparr>"
  have "key_enqueue k kb = Inr ?kb"
    using kb_count_enq(2) [OF inv room] by (simp add: key_enqueue_def Let_def)
  moreover have "kb_inv ?kb"
    using inv by (rule kb_inv_step)
  moreover have "kb_list ?kb = kb_list kb @ [k]"
    using inv kb_slot_r [OF inv] kb_slot_other [OF inv, THEN not_sym]
    by (auto simp: kb_list_def kb_count_enq(1) [OF inv room] kb_inv_def)
  ultimately show ?thesis by blast
qed

lemma key_enqueue_full:
  assumes "kb_inv kb" and "kb_count kb \<ge> KEY_QUEUE_LEN - 1"
  shows "key_enqueue k kb = Inl (Panic ''key queue overflow!'')"
  using assms kb_count_if [OF assms(1)]
  by (auto simp: key_enqueue_def Let_def kb_inv_def kb_next_slot split: if_splits)

lemma key_dequeue_head:
  assumes inv: "kb_inv kb" and e: "kb_list kb = x # xs"
  shows "fst (key_dequeue kb) = x \<and> kb_list (snd (key_dequeue kb)) = xs
    \<and> kb_inv (snd (key_dequeue kb))"
proof -
  let ?kb = "kb\<lparr>key_f := Suc (key_f kb) mod KEY_QUEUE_LEN\<rparr>"
  have cnt: "kb_count kb = Suc (length xs)"
    using e length_kb_list [of kb] by simp
  then have ne: "key_f kb \<noteq> key_r kb"
    by (auto simp: kb_count_def)
  have cnt': "kb_count ?kb = length xs"
    using inv cnt ne kb_count_if [OF inv] kb_count_if [OF kb_inv_step(2) [OF inv]]
    by (auto simp: kb_inv_def kb_next_slot split: if_splits)
  have x: "x = key_queue kb ! key_f kb"
    using e inv cnt by (auto simp: kb_list_def kb_inv_def upt_rec)
  have "xs = kb_list ?kb"
  proof (rule nth_equalityI)
    fix i
    assume i: "i < length xs"
    then have "xs ! i = kb_list kb ! Suc i" by (simp add: e)
    also have "\<dots> = key_queue kb ! ((key_f kb + Suc i) mod KEY_QUEUE_LEN)"
      using i cnt by (simp add: kb_list_def del: upt_Suc)
    also have "\<dots> = kb_list ?kb ! i"
      using i cnt' by (simp add: kb_list_def mod_simps)
    finally show "xs ! i = kb_list ?kb ! i" .
  qed (simp add: cnt')
  then show ?thesis
    using ne x kb_inv_step(2) [OF inv] by (simp add: key_dequeue_def)
qed

interpretation kq: bounded_queue keyboard_init key_enqueue key_dequeue kb_list kb_inv
  "KEY_QUEUE_LEN - 1" NEMU_KEY_NONE
proof
  show "kb_inv keyboard_init"
    by (simp add: kb_inv_def keyboard_init_def KEY_QUEUE_LEN_def)
  show "kb_list keyboard_init = []"
    by (simp add: kb_list_def kb_count_def keyboard_init_def)
  show "\<exists>q'. key_enqueue x q = Inr q' \<and> kb_inv q' \<and> kb_list q' = kb_list q @ [x]"
    if "kb_inv q" "length (kb_list q) < KEY_QUEUE_LEN - 1" for q x
    using that by (simp add: key_enqueue_room)
  show "\<exists>e. key_enqueue x q = Inl e"
    if "kb_inv q" "KEY_QUEUE_LEN - 1 \<le> length (kb_list q)" for q x
    using that by (simp add: key_enqueue_full)
  show "key_dequeue q = (NEMU_KEY_NONE, q)" if "kb_inv q" "kb_list q = []" for q
    using that kb_count_if [OF that(1)]
    by (auto simp: key_dequeue_def kb_list_def kb_inv_def split: if_splits)
  show "fst (key_dequeue q) = x \<and> kb_list (snd (key_dequeue q)) = xs \<and> kb_inv (snd (key_dequeue q))"
    if "kb_inv q" "kb_list q = x # xs" for q x xs
    using that by (rule key_dequeue_head)
qed

section \<open>The key map\<close>

lemma assign_keys_other:
  "sc \<notin> SDL ` set ks \<Longrightarrow> assign_keys SDL ks n km sc = km sc"
  by (induction ks arbitrary: n km) auto

lemma assign_keys_nth:
  "i < length ks \<Longrightarrow> inj_on SDL (set ks) \<Longrightarrow> distinct ks \<Longrightarrow>
   assign_keys SDL ks n km (SDL (ks ! i)) = n + of_nat i"
proof (induction ks arbitrary: n km i)
  case (Cons k ks)
  show ?case
  proof (cases i)
    case 0
    have "SDL k \<notin> SDL ` set ks"
      using Cons.prems by (auto simp: inj_on_def)
    then show ?thesis by (simp add: 0 assign_keys_other)
  next
    case (Suc j)
    with Cons show ?thesis by (auto simp: inj_on_insert algebra_simps)
  qed
qed simp

end
