(* ===== verification/Watchpoint.thy ===== *)
theory Watchpoint
  imports Prelude
begin

text \<open>
  The watchpoint pool of \<open>src/monitor/sdb/watchpoint.c\<close>: a static array of 32 nodes threaded into
  a list of used and a list of free nodes by their \<open>next\<close> pointers. Pointers into the pool are
  indices, \<open>NULL\<close> is \<open>None\<close>. The interface \<open>slot_pool\<close> states what the debugger relies on and is
  interpreted on \<open>new_wp\<close> and \<open>free_wp\<close>.
\<close>

section \<open>The code\<close>

record WP =
  NO :: int
  wp_next :: "nat option"
  addr_expr :: string
  last_val :: u32
  cnt :: int

record wp_state =
  wp_pool :: "WP list"
  wp_head :: "nat option"
  free_list :: "nat option"

definition NR_WP :: nat where
  "NR_WP = 32"

definition set_next :: "nat \<Rightarrow> nat option \<Rightarrow> WP list \<Rightarrow> WP list" where
  "set_next i p pool = pool[i := (pool ! i)\<lparr>wp_next := p\<rparr>]"

definition init_wp_pool :: "wp_state \<Rightarrow> wp_state" where
  "init_wp_pool s = s\<lparr>
     wp_pool := map (\<lambda>i. (wp_pool s ! i)\<lparr>NO := int i,
                  wp_next := (if i = NR_WP - 1 then None else Some (i + 1))\<rparr>) [0..<NR_WP],
     wp_head := None, free_list := Some 0\<rparr>"

text \<open>\<open>new_wp\<close> returns the new head; with no free node it prints a message and asserts.\<close>

definition new_wp :: "wp_state \<Rightarrow> (nat \<times> wp_state) result" where
  "new_wp s = (case free_list s of
     Some f \<Rightarrow> (let tmp = wp_next (wp_pool s ! f)
               in Inr (f, s\<lparr>wp_pool := set_next f (wp_head s) (wp_pool s), wp_head := Some f, free_list := tmp\<rparr>))
   | None \<Rightarrow> Inl Assert_fail)"

definition find_head_wp :: "wp_state \<Rightarrow> nat option" where
  "find_head_wp s = wp_head s"

text \<open>
  The search loop of \<open>free_wp\<close>: the predecessor of the node with number \<open>no\<close>, \<open>Some None\<close> when
  the list ends first, and \<open>None\<close> when the loop does not end.
\<close>

partial_function (option) find_pred :: "WP list \<Rightarrow> int \<Rightarrow> nat \<Rightarrow> nat option option" where
  "find_pred pool no tmp = (case wp_next (pool ! tmp) of
     None \<Rightarrow> Some None
   | Some n \<Rightarrow> if no = NO (pool ! n) then Some (Some tmp) else find_pred pool no n)"

definition push_free :: "nat \<Rightarrow> wp_state \<Rightarrow> wp_state" where
  "push_free wp s = s\<lparr>wp_pool := set_next wp (free_list s) (wp_pool s), free_list := Some wp\<rparr>"

definition free_wp :: "nat \<Rightarrow> wp_state \<Rightarrow> wp_state option" where
  "free_wp wp s = (case wp_head s of
     None \<Rightarrow> Some s
   | Some h \<Rightarrow>
       if NO (wp_pool s ! wp) = NO (wp_pool s ! h)
       then Some (push_free wp (s\<lparr>wp_head := wp_next (wp_pool s ! h)\<rparr>))
       else (case find_pred (wp_pool s) (NO (wp_pool s ! wp)) h of
           None \<Rightarrow> None
         | Some None \<Rightarrow> Some s
         | Some (Some tmp) \<Rightarrow>
             Some (push_free wp (s\<lparr>wp_pool :=
               set_next tmp (wp_next (wp_pool s ! wp)) (wp_pool s)\<rparr>))))"

section \<open>Chains\<close>

text \<open>\<open>chain pool p xs\<close>: following \<open>next\<close> from \<open>p\<close> visits the nodes \<open>xs\<close> and ends at \<open>NULL\<close>.\<close>

fun chain :: "WP list \<Rightarrow> nat option \<Rightarrow> nat list \<Rightarrow> bool" where
  "chain pool p [] \<longleftrightarrow> p = None"
| "chain pool p (x # xs) \<longleftrightarrow> p = Some x \<and> x < length pool \<and> chain pool (wp_next (pool ! x)) xs"

lemma chain_Some: "chain pool (Some x) xs \<Longrightarrow> \<exists>ys. xs = x # ys"
  by (cases xs) auto

lemma length_set_next [simp]: "length (set_next i p pool) = length pool"
  by (simp add: set_next_def)

lemma NO_set_next [simp]: "NO (set_next i p pool ! j) = NO (pool ! j)"
  by (cases "i < length pool") (auto simp: set_next_def nth_list_update list_update_beyond)

lemma next_set_next_same [simp]: "i < length pool \<Longrightarrow> wp_next (set_next i p pool ! i) = p"
  by (simp add: set_next_def)

lemma next_set_next_other [simp]: "i \<noteq> j \<Longrightarrow> set_next i p pool ! j = pool ! j"
  by (simp add: set_next_def)

lemma chain_set_next [simp]:
  "i \<notin> set xs \<Longrightarrow> chain (set_next i q pool) p xs = chain pool p xs"
proof (induction xs arbitrary: p)
  case (Cons x xs)
  then have "i \<noteq> x" by auto
  with Cons show ?case by simp
qed simp

lemma chain_append:
  "chain pool p (xs @ y # ys) \<Longrightarrow> xs \<noteq> [] \<Longrightarrow> wp_next (pool ! last xs) = Some y"
proof (induction xs arbitrary: p)
  case (Cons x xs)
  then show ?case by (cases xs) auto
qed simp

text \<open>Unlinking the successor of \<open>last xs\<close> from a chain without repetitions.\<close>

lemma chain_unlink:
  "chain pool p (xs @ y # ys) \<Longrightarrow> xs \<noteq> [] \<Longrightarrow> distinct (xs @ y # ys) \<Longrightarrow>
   chain (set_next (last xs) (wp_next (pool ! y)) pool) p (xs @ ys)"
proof (induction xs arbitrary: p)
  case (Cons x xs)
  show ?case
  proof (cases xs)
    case Nil
    with Cons.prems show ?thesis by auto
  next
    case (Cons z zs)
    with Cons.IH [of "wp_next (pool ! x)"] Cons.prems have
      "chain (set_next (last xs) (wp_next (pool ! y)) pool) (wp_next (pool ! x)) (xs @ ys)"
      by auto
    moreover have "last xs \<noteq> x"
      using Cons.prems Cons by (auto dest: last_in_set)
    ultimately show ?thesis
      using Cons.prems Cons by simp
  qed
qed simp

section \<open>The pool invariant\<close>

definition pool_view :: "wp_state \<Rightarrow> nat list \<Rightarrow> nat list \<Rightarrow> bool" where
  "pool_view s used free \<longleftrightarrow>
     length (wp_pool s) = NR_WP \<and> (\<forall>i < NR_WP. NO (wp_pool s ! i) = int i)
     \<and> chain (wp_pool s) (wp_head s) used \<and> chain (wp_pool s) (free_list s) free
     \<and> distinct (used @ free) \<and> set (used @ free) = {..<NR_WP}"

lemma chain_upt:
  "(\<And>i. i < n \<Longrightarrow> wp_next (pool ! i) = (if i = n - 1 then None else Some (i + 1))) \<Longrightarrow>
   n \<le> length pool \<Longrightarrow> k < n \<Longrightarrow> chain pool (Some k) [k..<n]"
proof (induction "n - k" arbitrary: k)
  case (Suc d)
  show ?case
  proof (cases "Suc k < n")
    case True
    with Suc have "chain pool (Some (Suc k)) [Suc k..<n]" by simp
    with Suc.prems True show ?thesis by (simp add: upt_conv_Cons)
  next
    case False
    with Suc.prems have "n = Suc k" by simp
    with Suc.prems show ?thesis by simp
  qed
qed simp

lemma init_wp_pool_view: "pool_view (init_wp_pool s) [] [0..<NR_WP]"
proof -
  have "chain (wp_pool (init_wp_pool s)) (Some 0) [0..<NR_WP]"
    by (rule chain_upt) (auto simp: init_wp_pool_def NR_WP_def)
  then show ?thesis
    by (auto simp: pool_view_def init_wp_pool_def)
qed

lemma new_wp_view:
  assumes "pool_view s used (f # free)"
  shows "\<exists>s'. new_wp s = Inr (f, s') \<and> pool_view s' (f # used) free"
  using assms by (auto simp: pool_view_def new_wp_def Let_def)

lemma new_wp_exhausted: "pool_view s used [] \<Longrightarrow> new_wp s = Inl Assert_fail"
  by (simp add: pool_view_def new_wp_def)

text \<open>The search of \<open>free_wp\<close> ends and finds the node in front of \<open>wp\<close>.\<close>

lemma find_pred_found:
  "chain pool (Some h) (h # xs @ wp # ys) \<Longrightarrow> distinct (h # xs @ wp # ys) \<Longrightarrow>
   (\<And>i. i \<in> set (h # xs @ wp # ys) \<Longrightarrow> NO (pool ! i) = int i) \<Longrightarrow>
   find_pred pool (int wp) h = Some (Some (last (h # xs)))"
proof (induction xs arbitrary: h)
  case Nil
  then show ?case by (simp add: find_pred.simps)
next
  case (Cons x xs)
  have "find_pred pool (int wp) x = Some (Some (last (x # xs)))"
    by (rule Cons.IH) (use Cons.prems in auto)
  with Cons.prems show ?case by (auto simp: find_pred.simps [of pool _ h])
qed

lemma push_free_view:
  assumes "length (wp_pool s) = NR_WP" and "\<forall>i < NR_WP. NO (wp_pool s ! i) = int i"
    and "chain (wp_pool s) (wp_head s) used" and "chain (wp_pool s) (free_list s) free"
    and "distinct (wp # used @ free)" and "set (wp # used @ free) = {..<NR_WP}"
  shows "pool_view (push_free wp s) used (wp # free)"
proof -
  have "wp < NR_WP" using assms(6) by auto
  with assms show ?thesis by (auto simp: pool_view_def push_free_def)
qed

lemma free_wp_head_view:
  assumes "pool_view s (h # used) free"
  shows "\<exists>s'. free_wp h s = Some s' \<and> pool_view s' used (h # free)"
proof -
  have "pool_view (push_free h (s\<lparr>wp_head := wp_next (wp_pool s ! h)\<rparr>)) used (h # free)"
    by (rule push_free_view) (use assms in \<open>auto simp: pool_view_def\<close>)
  moreover have "free_wp h s = Some (push_free h (s\<lparr>wp_head := wp_next (wp_pool s ! h)\<rparr>))"
    using assms by (simp add: pool_view_def free_wp_def)
  ultimately show ?thesis by blast
qed

lemma free_wp_inner_view:
  assumes v: "pool_view s (h # xs @ wp # ys) free"
  shows "\<exists>s'. free_wp wp s = Some s' \<and> pool_view s' (h # xs @ ys) (wp # free)"
proof -
  let ?l = "last (h # xs)"
  let ?s = "s\<lparr>wp_pool := set_next ?l (wp_next (wp_pool s ! wp)) (wp_pool s)\<rparr>"
  have ch: "chain (wp_pool s) (Some h) (h # xs @ wp # ys)"
    and no: "\<forall>i < NR_WP. NO (wp_pool s ! i) = int i"
    and dist: "distinct ((h # xs @ wp # ys) @ free)"
    and cover: "set ((h # xs @ wp # ys) @ free) = {..<NR_WP}"
    using v by (auto simp: pool_view_def)
  have no': "NO (wp_pool s ! i) = int i" if "i \<in> set (h # xs @ wp # ys)" for i
    using that no cover by auto
  have "find_pred (wp_pool s) (int wp) h = Some (Some ?l)"
    by (rule find_pred_found) (use ch dist no' in auto)
  moreover have "NO (wp_pool s ! wp) = int wp" "NO (wp_pool s ! h) = int h" "h \<noteq> wp"
    "wp_head s = Some h"
    using no' dist v by (auto simp: pool_view_def)
  ultimately have "free_wp wp s = Some (push_free wp ?s)"
    by (simp add: free_wp_def)
  moreover have "pool_view (push_free wp ?s) (h # xs @ ys) (wp # free)"
  proof (rule push_free_view)
    have "chain (set_next ?l (wp_next (wp_pool s ! wp)) (wp_pool s)) (Some h) ((h # xs) @ ys)"
      by (rule chain_unlink) (use ch dist in auto)
    then show "chain (wp_pool ?s) (wp_head ?s) (h # xs @ ys)"
      using v by (simp add: pool_view_def)
    have "?l \<in> set (h # xs)" by simp
    then have "?l \<notin> set free" using dist by auto
    then show "chain (wp_pool ?s) (free_list ?s) free"
      using v by (simp add: pool_view_def)
    show "length (wp_pool ?s) = NR_WP" "\<forall>i < NR_WP. NO (wp_pool ?s ! i) = int i"
      using v by (auto simp: pool_view_def)
    show "distinct (wp # (h # xs @ ys) @ free)" "set (wp # (h # xs @ ys) @ free) = {..<NR_WP}"
      using dist cover by auto
  qed
  ultimately show ?thesis by blast
qed

lemma free_wp_view:
  assumes v: "pool_view s used free" and "wp \<in> set used"
  shows "\<exists>s'. free_wp wp s = Some s' \<and> pool_view s' (remove1 wp used) (wp # free)"
proof -
  obtain xs ys where u: "used = xs @ wp # ys" and new: "wp \<notin> set xs"
    using split_list_first [OF assms(2)] by blast
  have dist: "distinct used" using v by (auto simp: pool_view_def)
  show ?thesis
  proof (cases xs)
    case Nil
    with v u show ?thesis using free_wp_head_view [of s wp ys free] by simp
  next
    case (Cons h zs)
    with v u new show ?thesis
      using free_wp_inner_view [of s h zs wp ys free] by (auto simp: remove1_append)
  qed
qed

section \<open>The interface of a slot pool\<close>

locale slot_pool =
  fixes alloc :: "'s \<Rightarrow> (nat \<times> 's) result"
    and release :: "nat \<Rightarrow> 's \<Rightarrow> 's option"
    and view :: "'s \<Rightarrow> nat list \<Rightarrow> nat list \<Rightarrow> bool"
    and N :: nat
  assumes view_distinct: "view s used free \<Longrightarrow> distinct (used @ free)"
    and view_cover: "view s used free \<Longrightarrow> set (used @ free) = {..<N}"
    and alloc_ok: "view s used (f # free) \<Longrightarrow> \<exists>s'. alloc s = Inr (f, s') \<and> view s' (f # used) free"
    and alloc_full: "view s used [] \<Longrightarrow> alloc s = Inl Assert_fail"
    and release_ok: "view s used free \<Longrightarrow> w \<in> set used \<Longrightarrow>
      \<exists>s'. release w s = Some s' \<and> view s' (remove1 w used) (w # free)"
begin

fun alloc_n :: "nat \<Rightarrow> 's \<Rightarrow> (nat list \<times> 's) result" where
  "alloc_n 0 s = Inr ([], s)"
| "alloc_n (Suc n) s =
     bindE (alloc s) (\<lambda>(x, s1). bindE (alloc_n n s1) (\<lambda>(xs, s2). Inr (x # xs, s2)))"

lemma view_length: "view s used free \<Longrightarrow> length used + length free = N"
  using view_distinct [of s used free] view_cover [of s used free] distinct_card [of "used @ free"]
  by simp

lemma alloc_fresh:
  assumes "view s used free" "alloc s = Inr (x, s')"
  shows "x \<notin> set used \<and> x < N \<and> (\<exists>free'. free = x # free' \<and> view s' (x # used) free')"
proof (cases free)
  case Nil
  with assms alloc_full show ?thesis by auto
next
  case (Cons f free')
  with assms alloc_ok [of s used f free'] have "x = f" "view s' (f # used) free'"
    by auto
  with Cons show ?thesis
    using view_distinct [OF assms(1)] view_cover [OF assms(1)] by auto
qed

text \<open>As many allocations as there are free slots succeed, with pairwise distinct results.\<close>

lemma alloc_n_ok:
  "view s used free \<Longrightarrow> n \<le> length free \<Longrightarrow>
   \<exists>s'. alloc_n n s = Inr (take n free, s') \<and> view s' (rev (take n free) @ used) (drop n free)"
proof (induction n arbitrary: s used free)
  case (Suc n)
  then obtain f free' where f: "free = f # free'" by (cases free) auto
  with Suc.prems obtain s1 where s1: "alloc s = Inr (f, s1)" "view s1 (f # used) free'"
    using alloc_ok by blast
  then obtain s2 where "alloc_n n s1 = Inr (take n free', s2)"
    "view s2 (rev (take n free') @ f # used) (drop n free')"
    using Suc.IH [of s1 "f # used" free'] Suc.prems f by auto
  with s1 f show ?case by auto
qed simp

lemma alloc_exhausts:
  assumes "view s [] free"
  shows "\<exists>s'. alloc_n N s = Inr (free, s') \<and> alloc s' = Inl Assert_fail"
proof -
  have len: "length free = N" using view_length [OF assms] by simp
  with alloc_n_ok [OF assms, of N] obtain s' where
    "alloc_n N s = Inr (free, s')" "view s' (rev free) []" by auto
  with alloc_full show ?thesis by blast
qed

text \<open>A released slot is the next one handed out.\<close>

lemma release_then_alloc:
  assumes "view s used free" "w \<in> set used"
  shows "\<exists>s1 s2. release w s = Some s1 \<and> alloc s1 = Inr (w, s2)"
  using release_ok [OF assms] alloc_ok by blast

end

interpretation wp: slot_pool new_wp free_wp pool_view NR_WP
proof
  show "distinct (used @ free)" "set (used @ free) = {..<NR_WP}"
    if "pool_view s used free" for s used free
    using that by (auto simp: pool_view_def)
qed (simp_all add: new_wp_view new_wp_exhausted free_wp_view)

end
