(* ===== verification/Trace.thy ===== *)
theory Trace
  imports Prelude
begin

text \<open>
  The tracers of \<open>src/monitor/sdb/trace.c\<close>: the ring buffer of the last executed instructions, the
  function table read from an ELF file and its lookup, and the PC and branch trace files. Files are
  byte lists; what a short file would leave uninitialised is \<open>Out_of_bounds\<close>.
\<close>

section \<open>Instruction ring buffer\<close>

record IRingBuf =
  logbuf :: string
  valid :: int

record itrace =
  iringbuf :: "IRingBuf list"
  ring_p :: nat

definition NR_RB :: nat where
  "NR_RB = 16"

definition itrace_init :: itrace where
  "itrace_init = \<lparr>iringbuf = replicate NR_RB \<lparr>logbuf = [], valid = 0\<rparr>, ring_p = 0\<rparr>"

text \<open>\<open>strcpy\<close> into the 128-byte buffer needs room for the terminating zero.\<close>

definition itrace_push :: "string \<Rightarrow> itrace \<Rightarrow> itrace result" where
  "itrace_push str1 t =
     (if length str1 < 128
      then Inr (t\<lparr>iringbuf := (iringbuf t)[ring_p t := \<lparr>logbuf = str1, valid = 1\<rparr>],
                  ring_p := (ring_p t + 1) mod NR_RB\<rparr>)
      else Inl Out_of_bounds)"

text \<open>The lines \<open>itrace_dump\<close> prints.\<close>

definition itrace_dump :: "itrace \<Rightarrow> string list" where
  "itrace_dump t =
     map (\<lambda>i. (if i = ring_p t then ''  --->'' @ [CHR 0x09] else [CHR 0x09])
              @ logbuf (iringbuf t ! i))
       (filter (\<lambda>i. valid (iringbuf t ! i) = 1) [0..<NR_RB])"

fun itrace_push_all :: "string list \<Rightarrow> itrace \<Rightarrow> itrace result" where
  "itrace_push_all [] t = Inr t"
| "itrace_push_all (x # xs) t = bindE (itrace_push x t) (itrace_push_all xs)"

lemma itrace_push_all_append:
  "itrace_push_all (xs @ ys) t = bindE (itrace_push_all xs t) (itrace_push_all ys)"
  by (induction xs arbitrary: t) (auto simp: bindE_assoc intro!: bindE_cong)

text \<open>
  After \<open>xs\<close> has been pushed into the empty buffer, the slot of every one of the last 16 lines
  holds that line, and the write position is the number of lines modulo 16.
\<close>

lemma itrace_push_all_ring:
  assumes "\<forall>x \<in> set xs. length x < 128"
  shows "\<exists>t. itrace_push_all xs itrace_init = Inr t
    \<and> length (iringbuf t) = NR_RB \<and> ring_p t = length xs mod NR_RB
    \<and> (\<forall>k < length xs. length xs \<le> k + NR_RB \<longrightarrow>
         iringbuf t ! (k mod NR_RB) = \<lparr>logbuf = xs ! k, valid = 1\<rparr>)
    \<and> (\<forall>i < NR_RB. length xs \<le> i \<longrightarrow> valid (iringbuf t ! i) = 0)"
  using assms
proof (induction xs rule: rev_induct)
  case Nil
  then show ?case by (simp add: itrace_init_def NR_RB_def)
next
  case (snoc x xs)
  then obtain t where t: "itrace_push_all xs itrace_init = Inr t" "length (iringbuf t) = NR_RB"
    "ring_p t = length xs mod NR_RB"
    "\<And>k. k < length xs \<Longrightarrow> length xs \<le> k + NR_RB \<Longrightarrow>
       iringbuf t ! (k mod NR_RB) = \<lparr>logbuf = xs ! k, valid = 1\<rparr>"
    "\<And>i. i < NR_RB \<Longrightarrow> length xs \<le> i \<Longrightarrow> valid (iringbuf t ! i) = 0"
    by auto
  let ?t = "t\<lparr>iringbuf := (iringbuf t)[ring_p t := \<lparr>logbuf = x, valid = 1\<rparr>],
              ring_p := (ring_p t + 1) mod NR_RB\<rparr>"
  have "itrace_push_all (xs @ [x]) itrace_init = Inr ?t"
    using t(1) snoc.prems by (simp add: itrace_push_all_append itrace_push_def)
  moreover have "iringbuf ?t ! (k mod NR_RB) = \<lparr>logbuf = (xs @ [x]) ! k, valid = 1\<rparr>"
    if k: "k < length (xs @ [x])" "length (xs @ [x]) \<le> k + NR_RB" for k
  proof (cases "k = length xs")
    case True
    then show ?thesis using t(2,3) by (simp add: NR_RB_def)
  next
    case False
    with k have "k < length xs" "length xs < k + NR_RB" by auto
    then have "k mod NR_RB \<noteq> length xs mod NR_RB"
      by (auto simp: NR_RB_def mod_eq_nat1E elim!: mod_eq_nat2E)
    with k False t(4) [of k] t(3) show ?thesis
      by (simp add: nth_append)
  qed
  moreover have "valid (iringbuf ?t ! i) = 0" if "i < NR_RB" "length (xs @ [x]) \<le> i" for i
    using that t(3) t(5) [of i] by (simp add: NR_RB_def)
  ultimately show ?case
    using t(2,3) by (auto simp: mod_simps)
qed

section \<open>Function tracer\<close>

text \<open>The fields of the ELF structures that are read, at their offsets of the 32-bit format.\<close>

definition file_u32 :: "u8 list \<Rightarrow> nat \<Rightarrow> u32 result" where
  "file_u32 f off = (if off + 4 \<le> length f then Inr (of_bytes (take 4 (drop off f))) else Inl Out_of_bounds)"

definition file_u16 :: "u8 list \<Rightarrow> nat \<Rightarrow> u16 result" where
  "file_u16 f off = (if off + 2 \<le> length f then Inr (of_bytes (take 2 (drop off f))) else Inl Out_of_bounds)"

record Elf32_Shdr =
  sh_type :: u32
  sh_offset :: u32
  sh_size :: u32
  sh_link :: u32

record Elf32_Sym =
  st_name :: u32
  st_value :: u32
  st_size :: u32
  st_info :: u8

record FuncInfo =
  fi_name :: nat
  fi_addr :: u32
  fi_size :: u32

record ftrace =
  func_table :: "FuncInfo list"
  strtab :: "u8 list"

definition read_shdr :: "u8 list \<Rightarrow> nat \<Rightarrow> Elf32_Shdr result" where
  "read_shdr f off =
     bindE (file_u32 f (off + 4)) (\<lambda>ty.
     bindE (file_u32 f (off + 16)) (\<lambda>so.
     bindE (file_u32 f (off + 20)) (\<lambda>sz.
     bindE (file_u32 f (off + 24)) (\<lambda>ln.
       Inr \<lparr>sh_type = ty, sh_offset = so, sh_size = sz, sh_link = ln\<rparr>))))"

definition read_sym :: "u8 list \<Rightarrow> nat \<Rightarrow> Elf32_Sym result" where
  "read_sym f off =
     bindE (file_u32 f off) (\<lambda>n.
     bindE (file_u32 f (off + 4)) (\<lambda>v.
     bindE (file_u32 f (off + 8)) (\<lambda>sz.
       if off + 16 \<le> length f
       then Inr \<lparr>st_name = n, st_value = v, st_size = sz, st_info = f ! (off + 12)\<rparr>
       else Inl Out_of_bounds)))"

fun read_n :: "(nat \<Rightarrow> 'a result) \<Rightarrow> nat \<Rightarrow> nat \<Rightarrow> nat \<Rightarrow> 'a list result" where
  "read_n rd off sz 0 = Inr []"
| "read_n rd off sz (Suc n) =
     bindE (rd off) (\<lambda>x. bindE (read_n rd (off + sz) sz n) (\<lambda>xs. Inr (x # xs)))"

definition SHT_SYMTAB :: u32 where
  "SHT_SYMTAB = 2"

definition STT_FUNC :: u8 where
  "STT_FUNC = 2"

text \<open>The loop that remembers the last section of type \<open>SHT_SYMTAB\<close>, starting from \<open>-1\<close>.\<close>

fun find_symtab :: "Elf32_Shdr list \<Rightarrow> nat \<Rightarrow> nat option \<Rightarrow> nat option" where
  "find_symtab [] i idx = idx"
| "find_symtab (s # ss) i idx = find_symtab ss (i + 1) (if sh_type s = SHT_SYMTAB then Some i else idx)"

definition func_of_sym :: "Elf32_Sym \<Rightarrow> FuncInfo" where
  "func_of_sym y = \<lparr>fi_name = unat (st_name y), fi_addr = st_value y, fi_size = st_size y\<rparr>"

definition init_ftrace :: "u8 list option \<Rightarrow> ftrace \<Rightarrow> ftrace result" where
  "init_ftrace elf_file ft = (case elf_file of None \<Rightarrow> Inr ft | Some f \<Rightarrow>
     bindE (file_u32 f 32) (\<lambda>e_shoff.
     bindE (file_u16 f 48) (\<lambda>e_shnum.
     bindE (read_n (read_shdr f) (unat e_shoff) 40 (unat e_shnum)) (\<lambda>shdr.
       (case find_symtab shdr 0 None of
          None \<Rightarrow> Inl Out_of_bounds
        | Some symtab_idx \<Rightarrow>
            let symtab = shdr ! symtab_idx; strtab_idx = unat (sh_link symtab);
                sym_num = unat (sh_size symtab) div 16
            in bindE (read_n (read_sym f) (unat (sh_offset symtab)) 16 sym_num) (\<lambda>syms.
               if strtab_idx < length shdr
               then let so = unat (sh_offset (shdr ! strtab_idx)); n = unat (sh_size (shdr ! strtab_idx))
                    in if so + n \<le> length f
                       then Inr (ft\<lparr>strtab := take n (drop so f),
                              func_table := func_table ft
                                @ map func_of_sym (filter (\<lambda>s. st_info s AND 0xf = STT_FUNC) syms)\<rparr>)
                       else Inl Assert_fail
               else Inl Out_of_bounds))))))"

definition cstring_at :: "u8 list \<Rightarrow> nat \<Rightarrow> u8 list" where
  "cstring_at bs off = takeWhile (\<lambda>b. b \<noteq> 0) (drop off bs)"

definition in_func :: "u32 \<Rightarrow> FuncInfo \<Rightarrow> bool" where
  "in_func addr fi \<longleftrightarrow> addr \<ge> fi_addr fi \<and> addr < fi_addr fi + fi_size fi"

text \<open>The name found, or \<open>"???"\<close> (as bytes) when no function covers the address.\<close>

definition find_func :: "ftrace \<Rightarrow> u32 \<Rightarrow> u8 list" where
  "find_func ft addr = (case List.find (in_func addr) (func_table ft) of
     Some fi \<Rightarrow> cstring_at (strtab ft) (fi_name fi)
   | None \<Rightarrow> [0x3f, 0x3f, 0x3f])"

section \<open>PC and branch traces\<close>

record BranchTrace =
  bt_pc :: u32
  bt_target :: u32
  bt_taken :: u32

definition pc_trace_push :: "u32 \<Rightarrow> u8 list \<Rightarrow> u8 list" where
  "pc_trace_push pc file = file @ to_bytes 4 pc"

definition branch_trace_push :: "u32 \<Rightarrow> u32 \<Rightarrow> bool \<Rightarrow> u8 list \<Rightarrow> u8 list" where
  "branch_trace_push pc target taken file =
     (let trace = \<lparr>bt_pc = pc, bt_target = target, bt_taken = (if taken then 1 else 0)\<rparr>
      in file @ to_bytes 4 (bt_pc trace) @ to_bytes 4 (bt_target trace) @ to_bytes 4 (bt_taken trace))"

end
