(* ===== verification/Machine.thy ===== *)
theory Machine
  imports Host_Memory Keyboard Watchpoint Trace
begin

text \<open>
  The state of the emulator: the global and static variables of NEMU, grouped by the file that
  declares them, and the small operations on them that every other part calls (\<open>utils/state.c\<close>,
  \<open>utils/timer.c\<close>, \<open>set_nemu_state\<close>, \<open>difftest_skip_ref\<close>). The reference design of differential
  testing is loaded from a shared object; its state is the type parameter \<open>'r\<close>.
\<close>

section \<open>Variables\<close>

record CPU_state =
  gpr :: "u32 list"
  pc :: u32
  csr :: "nat \<Rightarrow> u32"

datatype nemu_st = NEMU_RUNNING | NEMU_STOP | NEMU_END | NEMU_ABORT | NEMU_QUIT

record NEMUState =
  state :: nemu_st
  halt_pc :: u32
  halt_ret :: u32

text \<open>The I/O callbacks that the device files register; \<open>NULL\<close> is \<open>None\<close>.\<close>

datatype io_callback =
  serial_io | rtc_io | i8042_data_io | audio_io | sdcard_io

record IOMap =
  map_name :: string
  low :: u32
  high :: u32
  space :: hptr
  callback :: "io_callback option"

record io_maps =
  p_space :: int
  mmio_maps :: "IOMap list"
  pio_maps :: "IOMap list"

record sdcard =
  sd_base :: "hptr option"
  sd_fp :: "u8 list option"
  sd_pos :: nat
  blkcnt :: u32
  blk_addr :: u64
  sd_addr :: u32
  write_cmd :: bool
  read_ext_csd :: bool

datatype sdl_event = SDL_QUIT | SDL_KEYDOWN u8 | SDL_KEYUP u8 | SDL_OTHER

record devices =
  serial_base :: "hptr option"
  serial_out :: "u8 list"
  rtc_port_base :: "hptr option"
  audio_base :: "hptr option"
  sbuf :: "hptr option"
  vgactl_port_base :: "hptr option"
  vmem :: "hptr option"
  screen_updates :: nat
  nr_alarm_handler :: nat
  sdl_queue :: "sdl_event list"
  last_update :: u64

text \<open>
  The host clock: \<open>host_clock k\<close> is the microsecond value the \<open>k\<close>-th query of the system clock
  returns, \<open>clock_reads\<close> how many queries were made.
\<close>

record clock =
  boot_time :: u64
  host_clock :: "nat \<Rightarrow> u64"
  clock_reads :: nat

record 'r difftest =
  is_skip_ref :: bool
  skip_dut_nr_inst :: int
  ref_st :: 'r

record 'r nemu =
  cpu :: CPU_state
  mem :: hmem
  nemu_state :: NEMUState
  io :: io_maps
  dev :: devices
  kbd :: keyboard
  sd :: sdcard
  clk :: clock
  dt :: "'r difftest"
  wps :: wp_state
  itr :: itrace
  pc_trace_file :: "u8 list"
  g_nr_guest_inst :: u64
  g_timer :: u64
  g_print_step :: bool

type_synonym ('r, 'a) M = "('r nemu, 'a) comp"

section \<open>Time\<close>

definition get_time_internal :: "clock \<Rightarrow> u64 \<times> clock" where
  "get_time_internal k = (host_clock k (clock_reads k), k\<lparr>clock_reads := clock_reads k + 1\<rparr>)"

definition clock_get_time :: "clock \<Rightarrow> u64 \<times> clock" where
  "clock_get_time k =
     (let k1 = (if boot_time k = 0
                then (let (b, k') = get_time_internal k in k'\<lparr>boot_time := b\<rparr>) else k);
          (now, k2) = get_time_internal k1
      in (now - boot_time k2, k2))"

definition get_time :: "('r, u64) M" where
  "get_time = (\<lambda>s. let (t, k) = clock_get_time (clk s) in Inr (t, s\<lparr>clk := k\<rparr>))"

text \<open>The time reported never runs backwards while the host clock does not.\<close>

lemma clock_get_time_mono:
  assumes mono: "\<And>i j. i \<le> j \<Longrightarrow> host_clock k i \<le> host_clock k j" and "boot_time k \<noteq> 0"
    and "boot_time k \<le> host_clock k (clock_reads k)"
  shows "fst (clock_get_time k) \<le> fst (clock_get_time (snd (clock_get_time k)))"
  using assms by (simp add: clock_get_time_def get_time_internal_def Let_def word_le_minus_mono_left)

section \<open>Emulator state\<close>

definition difftest_skip_ref :: "config \<Rightarrow> ('r, unit) M" where
  "difftest_skip_ref c = whenM (CONFIG_DIFFTEST c)
     (modifyM (\<lambda>s. s\<lparr>dt := (dt s)\<lparr>is_skip_ref := True, skip_dut_nr_inst := 0\<rparr>\<rparr>))"

definition set_nemu_state :: "config \<Rightarrow> nemu_st \<Rightarrow> u32 \<Rightarrow> u32 \<Rightarrow> ('r, unit) M" where
  "set_nemu_state c st pc0 ret =
     thenM (difftest_skip_ref c)
       (modifyM (\<lambda>s. s\<lparr>nemu_state := \<lparr>state = st, halt_pc = pc0, halt_ret = ret\<rparr>\<rparr>))"

definition is_exit_status_bad :: "NEMUState \<Rightarrow> bool" where
  "is_exit_status_bad ns =
     (let good = (state ns = NEMU_END \<and> halt_ret ns = 0) \<or> state ns = NEMU_QUIT in \<not> good)"

lemma set_nemu_state_apply [simp]:
  "set_nemu_state c st p r s =
     Inr ((), s\<lparr>nemu_state := \<lparr>state = st, halt_pc = p, halt_ret = r\<rparr>,
       dt := (if CONFIG_DIFFTEST c then (dt s)\<lparr>is_skip_ref := True, skip_dut_nr_inst := 0\<rparr> else dt s)\<rparr>)"
  by (simp add: set_nemu_state_def difftest_skip_ref_def thenM_def bindM_def)

end
