(* ===== verification/Devices.thy ===== *)
theory Devices
  imports Machine
begin

text \<open>
  The I/O handlers of the devices: serial port, real-time clock, keyboard controller, audio and
  SD card (\<open>src/device/serial.c\<close>, \<open>timer.c\<close>, \<open>keyboard.c\<close>, \<open>audio.c\<close>, \<open>sdcard.c\<close>), the VGA screen
  update (\<open>vga.c\<close>), the alarm table (\<open>alarm.c\<close>) and the dispatch on a registered callback
  (\<open>invoke_callback\<close> of \<open>io/map.c\<close>). Device registers are bytes of the I/O space.
\<close>

section \<open>Access to host memory from a computation\<close>

definition hp_add :: "hptr \<Rightarrow> int \<Rightarrow> hptr" where
  "hp_add p i = (fst p, snd p + i)"

definition host_readM :: "config \<Rightarrow> hptr \<Rightarrow> int \<Rightarrow> ('r, u32) M" where
  "host_readM c p len = bindM (getsM mem) (\<lambda>m. liftM (host_read c m p len))"

definition host_writeM :: "config \<Rightarrow> hptr \<Rightarrow> int \<Rightarrow> u32 \<Rightarrow> ('r, unit) M" where
  "host_writeM c p len data =
     bindM (getsM mem) (\<lambda>m. bindM (liftM (host_write c m p len data))
       (\<lambda>m'. modifyM (\<lambda>s. s\<lparr>mem := m'\<rparr>)))"

text \<open>\<open>base[i]\<close> for a device register block; a null base is an invalid access.\<close>

definition reg_ptr :: "hptr option \<Rightarrow> int \<Rightarrow> ('r, hptr) M" where
  "reg_ptr base off = (case base of None \<Rightarrow> failM Out_of_bounds | Some p \<Rightarrow> retM (hp_add p off))"

definition reg8 :: "config \<Rightarrow> hptr option \<Rightarrow> int \<Rightarrow> ('r, u32) M" where
  "reg8 c base i = bindM (reg_ptr base i) (\<lambda>p. host_readM c p 1)"

definition set_reg8 :: "config \<Rightarrow> hptr option \<Rightarrow> int \<Rightarrow> u32 \<Rightarrow> ('r, unit) M" where
  "set_reg8 c base i v = bindM (reg_ptr base i) (\<lambda>p. host_writeM c p 1 v)"

definition reg32 :: "config \<Rightarrow> hptr option \<Rightarrow> int \<Rightarrow> ('r, u32) M" where
  "reg32 c base i = bindM (reg_ptr base (4 * i)) (\<lambda>p. host_readM c p 4)"

definition set_reg32 :: "config \<Rightarrow> hptr option \<Rightarrow> int \<Rightarrow> u32 \<Rightarrow> ('r, unit) M" where
  "set_reg32 c base i v = bindM (reg_ptr base (4 * i)) (\<lambda>p. host_writeM c p 4 v)"

lemma host_readM_apply:
  "host_readM c p len s = (case host_read c (mem s) p len of Inl e \<Rightarrow> Inl e | Inr x \<Rightarrow> Inr (x, s))"
  by (simp add: host_readM_def bindM_def liftM_def split: sum.split)

lemma host_writeM_apply:
  "host_writeM c p len v s =
     (case host_write c (mem s) p len v of Inl e \<Rightarrow> Inl e | Inr m \<Rightarrow> Inr ((), s\<lparr>mem := m\<rparr>))"
  by (simp add: host_writeM_def bindM_def liftM_def split: sum.split)

section \<open>Serial port\<close>

definition serial_putc :: "u8 \<Rightarrow> ('r, unit) M" where
  "serial_putc ch = modifyM (\<lambda>s. s\<lparr>dev := (dev s)\<lparr>serial_out := serial_out (dev s) @ [ch]\<rparr>\<rparr>)"

definition serial_io_handler :: "config \<Rightarrow> u32 \<Rightarrow> int \<Rightarrow> bool \<Rightarrow> ('r, unit) M" where
  "serial_io_handler c offset len is_write =
     thenM (assertM (len = 1))
     (bindM (getsM (\<lambda>s. serial_base (dev s))) (\<lambda>base.
        if offset = 0 then
          (if is_write
           then bindM (reg8 c base 3) (\<lambda>lcr.
                  whenM (\<not> (lcr AND 0x80 \<noteq> 0)) (bindM (reg8 c base 0) (\<lambda>ch. serial_putc (ucast ch))))
           else retM ())
        else if offset \<in> {1, 2, 3, 4, 6, 7} then retM ()
        else if offset = 5 then set_reg8 c base 5 0x60
        else failM (Panic ''do not support offset'')))"

section \<open>Real-time clock\<close>

definition rtc_io_handler :: "config \<Rightarrow> u32 \<Rightarrow> int \<Rightarrow> bool \<Rightarrow> ('r, unit) M" where
  "rtc_io_handler c offset len is_write =
     thenM (assertM (offset = 0 \<or> offset = 4))
     (whenM (\<not> is_write \<and> offset = 4)
        (bindM get_time (\<lambda>us.
         bindM (getsM (\<lambda>s. rtc_port_base (dev s))) (\<lambda>base.
           thenM (set_reg32 c base 0 (ucast us)) (set_reg32 c base 1 (ucast (drop_bit 32 us)))))))"

section \<open>Keyboard controller\<close>

definition key_dequeueM :: "('r, u32) M" where
  "key_dequeueM = (\<lambda>s. let (k, kb) = key_dequeue (kbd s) in Inr (k, s\<lparr>kbd := kb\<rparr>))"

definition i8042_data_io_handler :: "config \<Rightarrow> u32 \<Rightarrow> int \<Rightarrow> bool \<Rightarrow> ('r, unit) M" where
  "i8042_data_io_handler c offset len is_write =
     thenM (assertM (\<not> is_write))
     (thenM (assertM (offset = 0))
        (bindM key_dequeueM (\<lambda>k.
         bindM (getsM (\<lambda>s. i8042_data_port_base (kbd s))) (\<lambda>base. set_reg32 c base 0 k))))"

section \<open>Audio\<close>

definition audio_io_handler :: "u32 \<Rightarrow> int \<Rightarrow> bool \<Rightarrow> ('r, unit) M" where
  "audio_io_handler offset len is_write = retM ()"

section \<open>SD card\<close>

definition MEMORY_SIZE :: u64 where
  "MEMORY_SIZE = 16 * 1024 * 1024 * 1024"

definition READ_BL_LEN :: nat where
  "READ_BL_LEN = 15"

definition C_SIZE_MULT :: nat where
  "C_SIZE_MULT = 7"

definition C_SIZE :: u64 where
  "C_SIZE = MEMORY_SIZE div push_bit READ_BL_LEN 1 div push_bit (C_SIZE_MULT + 2) 1 - 1"

text \<open>Register indices of the enumeration.\<close>

abbreviation (input) SDCMD :: int where "SDCMD \<equiv> 0"
abbreviation (input) SDARG :: int where "SDARG \<equiv> 1"
abbreviation (input) SDRSP0 :: int where "SDRSP0 \<equiv> 4"
abbreviation (input) SDRSP1 :: int where "SDRSP1 \<equiv> 5"
abbreviation (input) SDRSP2 :: int where "SDRSP2 \<equiv> 6"
abbreviation (input) SDRSP3 :: int where "SDRSP3 \<equiv> 7"
abbreviation (input) SDDATA :: int where "SDDATA \<equiv> 16"

definition modify_sd :: "(sdcard \<Rightarrow> sdcard) \<Rightarrow> ('r, unit) M" where
  "modify_sd f = modifyM (\<lambda>s. s\<lparr>sd := f (sd s)\<rparr>)"

definition sd_reg :: "config \<Rightarrow> int \<Rightarrow> ('r, u32) M" where
  "sd_reg c i = bindM (getsM (\<lambda>s. sd_base (sd s))) (\<lambda>base. reg32 c base i)"

definition set_sd_reg :: "config \<Rightarrow> int \<Rightarrow> u32 \<Rightarrow> ('r, unit) M" where
  "set_sd_reg c i v = bindM (getsM (\<lambda>s. sd_base (sd s))) (\<lambda>base. set_reg32 c base i v)"

definition prepare_rw :: "config \<Rightarrow> bool \<Rightarrow> ('r, unit) M" where
  "prepare_rw c is_write =
     bindM (sd_reg c SDARG) (\<lambda>arg.
       modify_sd (\<lambda>d. d\<lparr>blk_addr := ucast arg, sd_addr := 0,
         sd_pos := (if sd_fp d \<noteq> None then unat (push_bit 9 (ucast arg :: u64)) else sd_pos d),
         write_cmd := is_write\<rparr>))"

text \<open>The commands of \<open>mmc.h\<close> by number.\<close>

definition sdcard_handle_cmd :: "config \<Rightarrow> u32 \<Rightarrow> ('r, unit) M" where
  "sdcard_handle_cmd c cmd =
     (if cmd = 0 then retM ()
      else if cmd = 1 then set_sd_reg c SDRSP0 0x80ff8000
      else if cmd = 2 then
        thenM (set_sd_reg c SDRSP0 0x00000001) (thenM (set_sd_reg c SDRSP1 0x00000000)
        (thenM (set_sd_reg c SDRSP2 0x00000000) (set_sd_reg c SDRSP3 0x15000000)))
      else if cmd = 52 then retM ()
      else if cmd = 9 then
        thenM (set_sd_reg c SDRSP0 0x92404001)
        (thenM (set_sd_reg c SDRSP1 (0x124b97e3 OR ucast (push_bit 30 (C_SIZE AND 0x3))))
        (thenM (set_sd_reg c SDRSP2
           (0x0f508000 OR ucast (drop_bit 2 C_SIZE) OR push_bit 16 (of_nat READ_BL_LEN)))
           (set_sd_reg c SDRSP3 0x9026012a)))
      else if cmd = 8 then modify_sd (\<lambda>d. d\<lparr>read_ext_csd := True, sd_addr := 0\<rparr>)
      else if cmd \<in> {5, 55, 3, 7} then retM ()
      else if cmd = 23 then
        bindM (sd_reg c SDARG) (\<lambda>arg. modify_sd (\<lambda>d. d\<lparr>blkcnt := arg AND 0xffff\<rparr>))
      else if cmd = 18 then prepare_rw c False
      else if cmd = 25 then prepare_rw c True
      else if cmd = 13 then
        thenM (set_sd_reg c SDRSP0 0x900) (thenM (set_sd_reg c SDRSP3 0)
        (thenM (set_sd_reg c SDRSP2 0) (set_sd_reg c SDRSP1 0)))
      else if cmd = 12 then retM ()
      else failM (Panic ''unhandled command''))"

text \<open>
  \<open>fread\<close> and \<open>fwrite\<close> of one 4-byte item at the current position of the image file; a read near
  the end of the file delivers the bytes that are left.
\<close>

definition file_read4 :: "sdcard \<Rightarrow> u8 list \<times> sdcard" where
  "file_read4 d = (case sd_fp d of None \<Rightarrow> ([], d)
     | Some f \<Rightarrow> (let bs = take 4 (drop (sd_pos d) f) in (bs, d\<lparr>sd_pos := sd_pos d + length bs\<rparr>)))"

definition overwrite :: "nat \<Rightarrow> u8 list \<Rightarrow> u8 list \<Rightarrow> u8 list" where
  "overwrite pos bs f = take pos (f @ replicate (pos - length f) 0) @ bs @ drop (pos + length bs) f"

definition file_write4 :: "u8 list \<Rightarrow> sdcard \<Rightarrow> sdcard" where
  "file_write4 bs d = (case sd_fp d of None \<Rightarrow> d
     | Some f \<Rightarrow> d\<lparr>sd_fp := Some (overwrite (sd_pos d) bs f), sd_pos := sd_pos d + length bs\<rparr>)"

definition store_reg_bytes :: "config \<Rightarrow> hptr option \<Rightarrow> int \<Rightarrow> u8 list \<Rightarrow> ('r, unit) M" where
  "store_reg_bytes c base i bs =
     bindM (reg_ptr base (4 * i)) (\<lambda>p.
       if ptr_ok c p (int (length bs)) then modifyM (\<lambda>s. s\<lparr>mem := store (mem s) p bs\<rparr>)
       else failM Out_of_bounds)"

definition sd_data_file :: "config \<Rightarrow> ('r, unit) M" where
  "sd_data_file c =
     bindM (getsM sd) (\<lambda>d.
       if \<not> write_cmd d
       then (let (bs, d') = file_read4 d
             in thenM (modify_sd (\<lambda>_. d')) (store_reg_bytes c (sd_base d) SDDATA bs))
       else bindM (sd_reg c SDDATA) (\<lambda>w. modify_sd (file_write4 (to_bytes 4 w))))"

definition sdcard_io_handler :: "config \<Rightarrow> u32 \<Rightarrow> int \<Rightarrow> bool \<Rightarrow> ('r, unit) M" where
  "sdcard_io_handler c offset len is_write =
     (let idx = uint (offset div 4) in
      if idx = SDCMD then bindM (sd_reg c SDCMD) (\<lambda>v. sdcard_handle_cmd c (v AND 0x3f))
      else if idx \<in> {SDARG, SDRSP0, SDRSP1, SDRSP2, SDRSP3} then retM ()
      else if idx = SDDATA then
        bindM (getsM sd) (\<lambda>d.
          thenM
            (if read_ext_csd d
             then thenM
               (set_sd_reg c SDDATA
                  (if sd_addr d = 192 then 2 else if sd_addr d = 212 then ucast (MEMORY_SIZE div 512) else 0))
               (whenM (sd_addr d = 512 - 4) (modify_sd (\<lambda>d. d\<lparr>read_ext_csd := False\<rparr>)))
             else whenM (sd_fp d \<noteq> None) (sd_data_file c))
            (modify_sd (\<lambda>d. d\<lparr>sd_addr := sd_addr d + 4\<rparr>)))
      else failM (Panic ''unhandle offset''))"

section \<open>Alarm table\<close>

definition MAX_HANDLER :: nat where
  "MAX_HANDLER = 8"

definition add_alarm_handle :: "('r, unit) M" where
  "add_alarm_handle =
     bindM (getsM (\<lambda>s. nr_alarm_handler (dev s))) (\<lambda>idx.
       thenM (assertM (idx < MAX_HANDLER))
         (modifyM (\<lambda>s. s\<lparr>dev := (dev s)\<lparr>nr_alarm_handler := idx + 1\<rparr>\<rparr>)))"

section \<open>VGA\<close>

definition SCREEN_W :: "config \<Rightarrow> u32" where
  "SCREEN_W c = (if CONFIG_VGA_SIZE_800x600 c then 800 else 400)"

definition SCREEN_H :: "config \<Rightarrow> u32" where
  "SCREEN_H c = (if CONFIG_VGA_SIZE_800x600 c then 600 else 300)"

definition screen_size :: "config \<Rightarrow> u32" where
  "screen_size c = SCREEN_W c * SCREEN_H c * 4"

text \<open>\<open>update_screen\<close> hands the frame buffer to SDL: counted, not drawn.\<close>

definition update_screen :: "('r, unit) M" where
  "update_screen = modifyM (\<lambda>s. s\<lparr>dev := (dev s)\<lparr>screen_updates := screen_updates (dev s) + 1\<rparr>\<rparr>)"

definition vga_update_screen :: "config \<Rightarrow> ('r, unit) M" where
  "vga_update_screen c =
     bindM (getsM (\<lambda>s. vgactl_port_base (dev s))) (\<lambda>base.
     bindM (reg32 c base 1) (\<lambda>sync.
       thenM (whenM (sync = 1) update_screen) (set_reg32 c base 1 0)))"

section \<open>Callbacks\<close>

fun run_callback :: "config \<Rightarrow> io_callback \<Rightarrow> u32 \<Rightarrow> int \<Rightarrow> bool \<Rightarrow> ('r, unit) M" where
  "run_callback c serial_io = serial_io_handler c"
| "run_callback c rtc_io = rtc_io_handler c"
| "run_callback c i8042_data_io = i8042_data_io_handler c"
| "run_callback c audio_io = audio_io_handler"
| "run_callback c sdcard_io = sdcard_io_handler c"

definition invoke_callback :: "config \<Rightarrow> io_callback option \<Rightarrow> u32 \<Rightarrow> int \<Rightarrow> bool \<Rightarrow> ('r, unit) M" where
  "invoke_callback c cb offset len is_write =
     (case cb of None \<Rightarrow> retM () | Some f \<Rightarrow> run_callback c f offset len is_write)"

section \<open>What handlers leave alone\<close>

text \<open>
  A computation that keeps the guest RAM and the CPU: of the memory only the I/O space changes,
  and neither the registers nor the list of registered maps do.
\<close>

definition same_guest :: "'r nemu \<Rightarrow> 'r nemu \<Rightarrow> bool" where
  "same_guest s0 s \<longleftrightarrow> cpu s = cpu s0 \<and> nemu_state s = nemu_state s0 \<and> io s = io s0
     \<and> (\<forall>r. r \<noteq> IO_SPACE \<longrightarrow> mem s r = mem s0 r)"

definition io_base :: "hptr option \<Rightarrow> bool" where
  "io_base b \<longleftrightarrow> (case b of None \<Rightarrow> True | Some p \<Rightarrow> fst p = IO_SPACE)"

text \<open>Every register block the devices hold lies in the I/O space.\<close>

definition dev_inv :: "'r nemu \<Rightarrow> bool" where
  "dev_inv s \<longleftrightarrow> io_base (serial_base (dev s)) \<and> io_base (rtc_port_base (dev s))
     \<and> io_base (i8042_data_port_base (kbd s)) \<and> io_base (sd_base (sd s))
     \<and> io_base (vgactl_port_base (dev s))"

definition guest_frame :: "'r nemu \<Rightarrow> 'r nemu \<Rightarrow> bool" where
  "guest_frame s0 s \<longleftrightarrow> dev_inv s \<and> same_guest s0 s"

lemma keeps_host_readM [keeps_intros]: "keeps P (host_readM c p len)"
  by (rule keepsI) (auto simp: host_readM_apply split: sum.splits)

lemma keeps_host_writeM_io:
  "fst p = IO_SPACE \<Longrightarrow> keeps (guest_frame s0) (host_writeM c p len v)"
  by (rule keepsI)
    (auto simp: host_writeM_apply host_write_def guest_frame_def dev_inv_def same_guest_def
      split: sum.splits if_splits)

lemma keeps_reg_ptr [keeps_intros]: "keeps P (reg_ptr b off)"
  by (auto simp: reg_ptr_def intro: keeps_intros split: option.split)

lemma keeps_reg8 [keeps_intros]: "keeps P (reg8 c b i)"
  by (auto simp: reg8_def intro!: keeps_intros)

lemma keeps_reg32 [keeps_intros]: "keeps P (reg32 c b i)"
  by (auto simp: reg32_def intro!: keeps_intros)

lemma keeps_set_reg8: "io_base b \<Longrightarrow> keeps (guest_frame s0) (set_reg8 c b i v)"
  by (cases b) (simp_all add: set_reg8_def reg_ptr_def hp_add_def io_base_def keeps_host_writeM_io
      failM_bindM keeps_failM)

lemma keeps_set_reg32: "io_base b \<Longrightarrow> keeps (guest_frame s0) (set_reg32 c b i v)"
  by (cases b) (simp_all add: set_reg32_def reg_ptr_def hp_add_def io_base_def keeps_host_writeM_io
      failM_bindM keeps_failM)

lemma keeps_getsM_bind:
  assumes "\<And>s. P s \<Longrightarrow> Q (f s)" and "\<And>x. Q x \<Longrightarrow> keeps P (g x)"
  shows "keeps P (bindM (getsM f) g)"
proof (rule keepsI)
  fix s x s'
  assume "P s" and "bindM (getsM f) g s = Inr (x, s')"
  then show "P s'" using keepsD [OF assms(2) [OF assms(1) [OF \<open>P s\<close>]] \<open>P s\<close>] by simp
qed

lemma keeps_get_time [keeps_intros]: "keeps (guest_frame s0) get_time"
  by (rule keepsI)
    (auto simp: get_time_def guest_frame_def dev_inv_def same_guest_def Let_def split: prod.splits)

lemma keeps_serial: "keeps (guest_frame s0) (serial_io_handler c offset len w)"
  unfolding serial_io_handler_def serial_putc_def
  by (intro keeps_intros keeps_getsM_bind [where Q = io_base] keeps_set_reg8)
    (auto simp: guest_frame_def dev_inv_def same_guest_def)

lemma keeps_rtc: "keeps (guest_frame s0) (rtc_io_handler c offset len w)"
  unfolding rtc_io_handler_def
  by (intro keeps_thenM keeps_assertM keeps_whenM keeps_bindM [OF keeps_get_time]
      keeps_getsM_bind [where Q = io_base] keeps_set_reg32)
    (auto simp: guest_frame_def dev_inv_def same_guest_def)

lemma key_dequeue_base:
  "i8042_data_port_base (snd (key_dequeue kb)) = i8042_data_port_base kb"
  by (simp add: key_dequeue_def)

lemma keeps_i8042: "keeps (guest_frame s0) (i8042_data_io_handler c offset len w)"
proof -
  have "keeps (guest_frame s0) key_dequeueM"
    by (rule keepsI)
      (auto simp: key_dequeueM_def guest_frame_def dev_inv_def same_guest_def Let_def split_beta
        key_dequeue_base)
  then show ?thesis
    unfolding i8042_data_io_handler_def
    by (intro keeps_thenM keeps_assertM keeps_bindM keeps_getsM_bind [where Q = io_base] keeps_set_reg32)
      (auto simp: guest_frame_def dev_inv_def same_guest_def)
qed

lemma keeps_set_sd_reg [keeps_intros]: "keeps (guest_frame s0) (set_sd_reg c i v)"
  unfolding set_sd_reg_def
  by (intro keeps_getsM_bind [where Q = io_base] keeps_set_reg32)
    (auto simp: guest_frame_def dev_inv_def)

lemma keeps_sd_reg [keeps_intros]: "keeps P (sd_reg c i)"
  unfolding sd_reg_def by (intro keeps_intros)

lemma keeps_modify_sd:
  "(\<And>d. sd_base (f d) = sd_base d) \<Longrightarrow> keeps (guest_frame s0) (modify_sd f)"
  unfolding modify_sd_def
  by (rule keeps_modifyM) (auto simp: guest_frame_def dev_inv_def same_guest_def)

lemma keeps_sdcard_cmd: "keeps (guest_frame s0) (sdcard_handle_cmd c cmd)"
  unfolding sdcard_handle_cmd_def prepare_rw_def
  by (intro keeps_intros keeps_modify_sd) auto

lemma sd_base_file_read4: "sd_base (snd (file_read4 d)) = sd_base d"
  by (simp add: file_read4_def Let_def split: option.split)

lemma sd_base_file_write4: "sd_base (file_write4 bs d) = sd_base d"
  by (cases "sd_fp d") (simp_all add: file_write4_def)

lemma guest_frame_store:
  "guest_frame s0 s \<Longrightarrow> fst p = IO_SPACE \<Longrightarrow> guest_frame s0 (s\<lparr>mem := store (mem s) p bs\<rparr>)"
  by (simp add: guest_frame_def dev_inv_def same_guest_def)

lemma keeps_store_reg_bytes: "io_base b \<Longrightarrow> keeps (guest_frame s0) (store_reg_bytes c b i bs)"
  by (cases b)
    (auto simp: store_reg_bytes_def reg_ptr_def hp_add_def io_base_def keeps_failM
      intro!: keeps_modifyM guest_frame_store)

lemma keeps_sd_data_file: "keeps (guest_frame s0) (sd_data_file c)"
proof (rule keepsI)
  fix s :: "'a nemu" and x s'
  assume P: "guest_frame s0 s" and run: "sd_data_file c s = Inr (x, s')"
  let ?rd = "thenM (modify_sd (\<lambda>_. snd (file_read4 (sd s))))
    (store_reg_bytes c (sd_base (sd s)) 16 (fst (file_read4 (sd s))))"
  let ?wr = "bindM (sd_reg c 16) (\<lambda>w. modify_sd (file_write4 (to_bytes 4 w)))"
  have base: "io_base (sd_base (sd s))"
    using P by (simp add: guest_frame_def dev_inv_def)
  have "guest_frame s0 (s\<lparr>sd := snd (file_read4 (sd s))\<rparr>)"
    using P by (simp add: guest_frame_def dev_inv_def same_guest_def sd_base_file_read4)
  then have "?rd s = Inr (x, s') \<Longrightarrow> guest_frame s0 s'"
    using keepsD [OF keeps_store_reg_bytes [OF base]] by (auto simp: modify_sd_def)
  moreover have "keeps (guest_frame s0) ?wr"
    by (intro keeps_intros keeps_modify_sd) (simp add: sd_base_file_write4)
  then have "?wr s = Inr (x, s') \<Longrightarrow> guest_frame s0 s'"
    using P by (rule keepsD)
  ultimately show "guest_frame s0 s'"
    using run by (auto simp: sd_data_file_def Let_def split_beta split: if_splits)
qed

lemma keeps_sdcard: "keeps (guest_frame s0) (sdcard_io_handler c offset len w)"
  unfolding sdcard_io_handler_def Let_def
  by (intro keeps_intros keeps_modify_sd keeps_sdcard_cmd keeps_sd_data_file) auto

lemma keeps_invoke_callback: "keeps (guest_frame s0) (invoke_callback c cb offset len w)"
proof (cases cb)
  case (Some f)
  then show ?thesis
    by (cases f) (simp_all add: invoke_callback_def audio_io_handler_def keeps_serial keeps_rtc
        keeps_i8042 keeps_sdcard keeps_retM)
qed (simp add: invoke_callback_def keeps_retM)

lemma keeps_vga_update_screen: "keeps (guest_frame s0) (vga_update_screen c)"
  unfolding vga_update_screen_def update_screen_def
  by (intro keeps_getsM_bind [where Q = io_base] keeps_bindM keeps_thenM keeps_whenM keeps_reg32
      keeps_modifyM keeps_set_reg32)
    (auto simp: guest_frame_def dev_inv_def same_guest_def)

end
