(* ===== verification/Device_Map.thy ===== *)
theory Device_Map
  imports Devices
begin

text \<open>
  The I/O maps: allocation of device space and the accesses of \<open>src/device/io/map.c\<close>, the lookup of
  \<open>include/device/map.h\<close>, the MMIO and port-I/O tables of \<open>io/mmio.c\<close> and \<open>io/port-io.c\<close>, the
  initialisation of the devices and the periodic update of \<open>src/device/device.c\<close>.
\<close>

section \<open>Device space\<close>

definition PAGE_SIZE :: u64 where
  "PAGE_SIZE = push_bit 12 1"

definition PAGE_MASK :: u64 where
  "PAGE_MASK = PAGE_SIZE - 1"

definition page_align :: "u32 \<Rightarrow> u32" where
  "page_align sz = ucast ((scast sz + (PAGE_SIZE - 1)) AND NOT PAGE_MASK)"

text \<open>The old top of the space is returned before the bound is asserted on the new one.\<close>

definition new_space :: "u32 \<Rightarrow> ('r, hptr) M" where
  "new_space sz =
     bindM (getsM (\<lambda>s. p_space (io s))) (\<lambda>p.
     thenM (modifyM (\<lambda>s. s\<lparr>io := (io s)\<lparr>p_space := p + sint (page_align sz)\<rparr>\<rparr>))
     (thenM (assertM (p + sint (page_align sz) < IO_SPACE_MAX))
       (retM (IO_SPACE, p))))"

definition init_map :: "('r, unit) M" where
  "init_map = modifyM (\<lambda>s. s\<lparr>io := (io s)\<lparr>p_space := 0\<rparr>\<rparr>)"

section \<open>Lookup and registration\<close>

definition map_inside :: "IOMap \<Rightarrow> u32 \<Rightarrow> bool" where
  "map_inside m addr \<longleftrightarrow> addr \<ge> low m \<and> addr \<le> high m"

text \<open>The loop of \<open>find_mapid_by_addr\<close>: the first map that holds the address.\<close>

fun lookup_map :: "IOMap list \<Rightarrow> u32 \<Rightarrow> IOMap option" where
  "lookup_map [] addr = None"
| "lookup_map (m # ms) addr = (if map_inside m addr then Some m else lookup_map ms addr)"

definition find_map_by_addr :: "config \<Rightarrow> IOMap list \<Rightarrow> u32 \<Rightarrow> ('r, IOMap option) M" where
  "find_map_by_addr c maps addr = (case lookup_map maps addr of
     Some m \<Rightarrow> thenM (difftest_skip_ref c) (retM (Some m))
   | None \<Rightarrow> retM None)"

definition fetch_mmio_map :: "config \<Rightarrow> u32 \<Rightarrow> ('r, IOMap option) M" where
  "fetch_mmio_map c addr = bindM (getsM (\<lambda>s. mmio_maps (io s))) (\<lambda>maps. find_map_by_addr c maps addr)"

definition NR_MAP :: nat where
  "NR_MAP = 16"

definition mk_iomap :: "string \<Rightarrow> u32 \<Rightarrow> hptr \<Rightarrow> u32 \<Rightarrow> io_callback option \<Rightarrow> IOMap" where
  "mk_iomap name addr sp len cb =
     \<lparr>map_name = name, low = addr, high = addr + len - 1, space = sp, callback = cb\<rparr>"

definition overlaps :: "u32 \<Rightarrow> u32 \<Rightarrow> IOMap \<Rightarrow> bool" where
  "overlaps left right m \<longleftrightarrow> left \<le> high m \<and> right \<ge> low m"

definition add_mmio_map ::
    "config \<Rightarrow> string \<Rightarrow> u32 \<Rightarrow> hptr \<Rightarrow> u32 \<Rightarrow> io_callback option \<Rightarrow> IOMap list \<Rightarrow> IOMap list result" where
  "add_mmio_map c name addr sp len cb maps =
     (if \<not> length maps < NR_MAP then Inl Assert_fail
      else let left = addr; right = addr + len - 1 in
        if in_pmem c left \<or> in_pmem c right then Inl (Panic ''MMIO region is overlapped'')
        else if list_ex (overlaps left right) maps then Inl (Panic ''MMIO region is overlapped'')
        else Inr (maps @ [mk_iomap name addr sp len cb]))"

definition PORT_IO_SPACE_MAX :: int where
  "PORT_IO_SPACE_MAX = 65535"

definition add_pio_map ::
    "string \<Rightarrow> u16 \<Rightarrow> hptr \<Rightarrow> u32 \<Rightarrow> io_callback option \<Rightarrow> IOMap list \<Rightarrow> IOMap list result" where
  "add_pio_map name addr sp len cb maps =
     (if \<not> length maps < NR_MAP then Inl Assert_fail
      else if \<not> uint (ucast addr + len) \<le> PORT_IO_SPACE_MAX then Inl Assert_fail
      else Inr (maps @ [mk_iomap name (ucast addr) sp len cb]))"

section \<open>Accesses\<close>

definition check_bound :: "IOMap option \<Rightarrow> u32 \<Rightarrow> ('r, IOMap) M" where
  "check_bound mp addr = (case mp of
     None \<Rightarrow> failM (Panic ''address is out of bound'')
   | Some m \<Rightarrow> if addr \<le> high m \<and> addr \<ge> low m then retM m
              else failM (Panic ''address is out of bound''))"

definition map_read :: "config \<Rightarrow> u32 \<Rightarrow> int \<Rightarrow> IOMap option \<Rightarrow> ('r, u32) M" where
  "map_read c addr len mp =
     thenM (assertM (len \<ge> 1 \<and> len \<le> 8))
     (bindM (check_bound mp addr) (\<lambda>m.
        let offset = addr - low m in
        thenM (invoke_callback c (callback m) offset len False)
          (host_readM c (hp_add (space m) (uint offset)) len)))"

definition map_write :: "config \<Rightarrow> u32 \<Rightarrow> int \<Rightarrow> u32 \<Rightarrow> IOMap option \<Rightarrow> ('r, unit) M" where
  "map_write c addr len data mp =
     thenM (assertM (len \<ge> 1 \<and> len \<le> 8))
     (bindM (check_bound mp addr) (\<lambda>m.
        let offset = addr - low m in
        thenM (host_writeM c (hp_add (space m) (uint offset)) len data)
          (invoke_callback c (callback m) offset len True)))"

definition mmio_read :: "config \<Rightarrow> u32 \<Rightarrow> int \<Rightarrow> ('r, u32) M" where
  "mmio_read c addr len = bindM (fetch_mmio_map c addr) (\<lambda>m. map_read c addr len m)"

definition mmio_write :: "config \<Rightarrow> u32 \<Rightarrow> int \<Rightarrow> u32 \<Rightarrow> ('r, unit) M" where
  "mmio_write c addr len data = bindM (fetch_mmio_map c addr) (\<lambda>m. map_write c addr len data m)"

definition find_pio :: "config \<Rightarrow> u16 \<Rightarrow> int \<Rightarrow> ('r, IOMap) M" where
  "find_pio c addr len =
     thenM (assertM (uint addr + len - 1 < PORT_IO_SPACE_MAX))
     (bindM (getsM (\<lambda>s. pio_maps (io s))) (\<lambda>maps.
      bindM (find_map_by_addr c maps (ucast addr)) (\<lambda>r.
        (case r of None \<Rightarrow> failM Assert_fail | Some m \<Rightarrow> retM m))))"

definition pio_read :: "config \<Rightarrow> u16 \<Rightarrow> int \<Rightarrow> ('r, u32) M" where
  "pio_read c addr len = bindM (find_pio c addr len) (\<lambda>m. map_read c (ucast addr) len (Some m))"

definition pio_write :: "config \<Rightarrow> u16 \<Rightarrow> int \<Rightarrow> u32 \<Rightarrow> ('r, unit) M" where
  "pio_write c addr len data =
     bindM (find_pio c addr len) (\<lambda>m. map_write c (ucast addr) len data (Some m))"

section \<open>Initialisation of the devices\<close>

definition register_mmio ::
    "config \<Rightarrow> string \<Rightarrow> u32 \<Rightarrow> hptr \<Rightarrow> u32 \<Rightarrow> io_callback option \<Rightarrow> ('r, unit) M" where
  "register_mmio c name addr sp len cb =
     bindM (getsM (\<lambda>s. mmio_maps (io s))) (\<lambda>maps.
     bindM (liftM (add_mmio_map c name addr sp len cb maps)) (\<lambda>maps'.
       modifyM (\<lambda>s. s\<lparr>io := (io s)\<lparr>mmio_maps := maps'\<rparr>\<rparr>)))"

definition register_pio :: "string \<Rightarrow> u16 \<Rightarrow> hptr \<Rightarrow> u32 \<Rightarrow> io_callback option \<Rightarrow> ('r, unit) M" where
  "register_pio name addr sp len cb =
     bindM (getsM (\<lambda>s. pio_maps (io s))) (\<lambda>maps.
     bindM (liftM (add_pio_map name addr sp len cb maps)) (\<lambda>maps'.
       modifyM (\<lambda>s. s\<lparr>io := (io s)\<lparr>pio_maps := maps'\<rparr>\<rparr>)))"

definition register ::
    "config \<Rightarrow> string \<Rightarrow> u16 \<Rightarrow> u32 \<Rightarrow> hptr \<Rightarrow> u32 \<Rightarrow> io_callback option \<Rightarrow> ('r, unit) M" where
  "register c name port addr sp len cb =
     (if CONFIG_HAS_PORT_IO c then register_pio name port sp len cb
      else register_mmio c name addr sp len cb)"

definition modify_dev :: "(devices \<Rightarrow> devices) \<Rightarrow> ('r, unit) M" where
  "modify_dev f = modifyM (\<lambda>s. s\<lparr>dev := f (dev s)\<rparr>)"

definition init_serial :: "config \<Rightarrow> ('r, unit) M" where
  "init_serial c =
     bindM (new_space 8) (\<lambda>base.
     thenM (modify_dev (\<lambda>d. d\<lparr>serial_base := Some base\<rparr>))
     (thenM (set_reg8 c (Some base) 3 0) (thenM (set_reg8 c (Some base) 5 0x60)
     (if trace_target c then register_mmio c ''serial'' 0x10000000 base 8 (Some serial_io)
      else register c ''serial'' (CONFIG_SERIAL_PORT c) (CONFIG_SERIAL_MMIO c) base 8 (Some serial_io)))))"

definition init_timer :: "config \<Rightarrow> ('r, unit) M" where
  "init_timer c =
     bindM (new_space 8) (\<lambda>base.
     thenM (modify_dev (\<lambda>d. d\<lparr>rtc_port_base := Some base\<rparr>))
     (thenM (if trace_target c then register_mmio c ''rtc'' 0x02000048 base 8 (Some rtc_io)
             else register c ''rtc'' (CONFIG_RTC_PORT c) (CONFIG_RTC_MMIO c) base 8 (Some rtc_io))
       add_alarm_handle))"

definition init_vga :: "config \<Rightarrow> ('r, unit) M" where
  "init_vga c =
     bindM (new_space 8) (\<lambda>base.
     thenM (modify_dev (\<lambda>d. d\<lparr>vgactl_port_base := Some base\<rparr>))
     (thenM (set_reg32 c (Some base) 0 (push_bit 16 (SCREEN_W c) OR SCREEN_H c))
     (thenM (register c ''vgactl'' (CONFIG_VGA_CTL_PORT c) (CONFIG_VGA_CTL_MMIO c) base 8 None)
     (bindM (new_space (screen_size c)) (\<lambda>vm.
      thenM (modify_dev (\<lambda>d. d\<lparr>vmem := Some vm\<rparr>))
      (thenM (register_mmio c ''vmem'' (CONFIG_FB_ADDR c) vm (screen_size c) None)
        (whenM (CONFIG_VGA_SHOW_SCREEN c)
          (modifyM (\<lambda>s. s\<lparr>mem := store (mem s) vm (replicate (unat (screen_size c)) 0)\<rparr>)))))))))"

definition init_i8042 :: "config \<Rightarrow> (string \<Rightarrow> u8) \<Rightarrow> ('r, unit) M" where
  "init_i8042 c SDL_SCANCODE =
     bindM (new_space 4) (\<lambda>base.
     thenM (modifyM (\<lambda>s. s\<lparr>kbd := (kbd s)\<lparr>i8042_data_port_base := Some base\<rparr>\<rparr>))
     (thenM (set_reg32 c (Some base) 0 NEMU_KEY_NONE)
     (thenM (register c ''keyboard'' (CONFIG_I8042_DATA_PORT c) (CONFIG_I8042_DATA_MMIO c) base 4
               (Some i8042_data_io))
       (modifyM (\<lambda>s. s\<lparr>kbd := init_keymap SDL_SCANCODE (kbd s)\<rparr>)))))"

definition init_audio :: "config \<Rightarrow> ('r, unit) M" where
  "init_audio c =
     bindM (new_space (4 * 6)) (\<lambda>base.
     thenM (modify_dev (\<lambda>d. d\<lparr>audio_base := Some base\<rparr>))
     (thenM (register c ''audio'' (CONFIG_AUDIO_CTL_PORT c) (CONFIG_AUDIO_CTL_MMIO c) base (4 * 6)
               (Some audio_io))
     (bindM (new_space (CONFIG_SB_SIZE c)) (\<lambda>sb.
      thenM (modify_dev (\<lambda>d. d\<lparr>sbuf := Some sb\<rparr>))
        (register_mmio c ''audio-sbuf'' (CONFIG_SB_ADDR c) sb (CONFIG_SB_SIZE c) None)))))"

text \<open>The image file is what \<open>fopen\<close> finds; \<open>C_SIZE\<close> has to fit in 12 bits.\<close>

definition init_sdcard :: "config \<Rightarrow> u8 list option \<Rightarrow> ('r, unit) M" where
  "init_sdcard c img =
     bindM (new_space 0x80) (\<lambda>base.
     thenM (modify_sd (\<lambda>d. d\<lparr>sd_base := Some base\<rparr>))
     (thenM (register_mmio c ''sdhci'' (CONFIG_SDCARD_CTL_MMIO c) base 0x80 (Some sdcard_io))
     (thenM (if C_SIZE < push_bit 12 1 then retM () else failM (Panic ''shoule be fit in 12 bits''))
       (modify_sd (\<lambda>d. d\<lparr>sd_fp := img, sd_pos := 0\<rparr>)))))"

definition init_device :: "config \<Rightarrow> (string \<Rightarrow> u8) \<Rightarrow> u8 list option \<Rightarrow> ('r, unit) M" where
  "init_device c SDL_SCANCODE sd_img =
     thenM init_map
     (thenM (whenM (CONFIG_HAS_SERIAL c) (init_serial c))
     (thenM (whenM (CONFIG_HAS_TIMER c) (init_timer c))
     (thenM (whenM (CONFIG_HAS_VGA c) (init_vga c))
     (thenM (whenM (CONFIG_HAS_KEYBOARD c) (init_i8042 c SDL_SCANCODE))
     (thenM (whenM (CONFIG_HAS_AUDIO c) (init_audio c))
       (whenM (CONFIG_HAS_SDCARD c) (init_sdcard c sd_img)))))))"

section \<open>Periodic update\<close>

definition TIMER_HZ :: u64 where
  "TIMER_HZ = 60"

definition send_keyM :: "u8 \<Rightarrow> bool \<Rightarrow> ('r, unit) M" where
  "send_keyM k down = (\<lambda>s. case send_key (state (nemu_state s) = NEMU_RUNNING) k down (kbd s) of
     Inl e \<Rightarrow> Inl e | Inr kb \<Rightarrow> Inr ((), s\<lparr>kbd := kb\<rparr>))"

fun handle_event :: "config \<Rightarrow> sdl_event \<Rightarrow> ('r, unit) M" where
  "handle_event c SDL_QUIT = modifyM (\<lambda>s. s\<lparr>nemu_state := (nemu_state s)\<lparr>state := NEMU_QUIT\<rparr>\<rparr>)"
| "handle_event c (SDL_KEYDOWN k) = whenM (CONFIG_HAS_KEYBOARD c) (send_keyM k True)"
| "handle_event c (SDL_KEYUP k) = whenM (CONFIG_HAS_KEYBOARD c) (send_keyM k False)"
| "handle_event c SDL_OTHER = retM ()"

fun handle_events :: "config \<Rightarrow> sdl_event list \<Rightarrow> ('r, unit) M" where
  "handle_events c [] = retM ()"
| "handle_events c (e # es) = thenM (handle_event c e) (handle_events c es)"

definition device_update :: "config \<Rightarrow> ('r, unit) M" where
  "device_update c =
     bindM get_time (\<lambda>now.
     bindM (getsM (\<lambda>s. last_update (dev s))) (\<lambda>last.
       if now - last < 1000000 div TIMER_HZ then retM ()
       else
         thenM (modify_dev (\<lambda>d. d\<lparr>last_update := now\<rparr>))
         (thenM (whenM (CONFIG_HAS_VGA c) (vga_update_screen c))
         (bindM (getsM (\<lambda>s. sdl_queue (dev s))) (\<lambda>evs.
           thenM (modify_dev (\<lambda>d. d\<lparr>sdl_queue := []\<rparr>)) (handle_events c evs))))))"

definition sdl_clear_event_queue :: "('r, unit) M" where
  "sdl_clear_event_queue = modify_dev (\<lambda>d. d\<lparr>sdl_queue := []\<rparr>)"

section \<open>The tables hold disjoint areas\<close>

definition maps_inv :: "IOMap list \<Rightarrow> bool" where
  "maps_inv maps \<longleftrightarrow> length maps \<le> NR_MAP
     \<and> (\<forall>i < length maps. \<forall>j < length maps. \<forall>a.
          map_inside (maps ! i) a \<longrightarrow> map_inside (maps ! j) a \<longrightarrow> i = j)"

lemma lookup_map_append:
  "lookup_map (ms @ ns) a = (case lookup_map ms a of Some m \<Rightarrow> Some m | None \<Rightarrow> lookup_map ns a)"
  by (induction ms) auto

lemma lookup_map_Some: "lookup_map ms a = Some m \<Longrightarrow> m \<in> set ms \<and> map_inside m a"
  by (induction ms) (auto split: if_splits)

lemma lookup_map_None: "lookup_map ms a = None \<longleftrightarrow> (\<forall>m \<in> set ms. \<not> map_inside m a)"
  by (induction ms) auto

lemma add_mmio_map_Inr:
  "add_mmio_map c name addr sp len cb maps = Inr maps' \<Longrightarrow>
   length maps < NR_MAP \<and> maps' = maps @ [mk_iomap name addr sp len cb]
   \<and> (\<forall>m \<in> set maps. \<not> overlaps addr (addr + len - 1) m)
   \<and> \<not> in_pmem c addr \<and> \<not> in_pmem c (addr + len - 1)"
  by (auto simp: add_mmio_map_def Let_def list_ex_iff split: if_splits)

lemma not_overlaps_disjoint:
  "\<not> overlaps addr (addr + len - 1) m \<Longrightarrow> map_inside m a \<Longrightarrow>
   \<not> map_inside (mk_iomap name addr sp len cb) a"
  by (auto simp: overlaps_def map_inside_def mk_iomap_def dest: order_trans)

lemma maps_inv_Nil: "maps_inv []"
  by (simp add: maps_inv_def)

lemma maps_inv_snoc:
  assumes inv: "maps_inv maps" and room: "length maps < NR_MAP"
    and dis: "\<And>i a. i < length maps \<Longrightarrow> map_inside (maps ! i) a \<Longrightarrow> \<not> map_inside m a"
  shows "maps_inv (maps @ [m])"
  unfolding maps_inv_def
proof (intro conjI allI impI)
  show "length (maps @ [m]) \<le> NR_MAP" using room by simp
next
  fix i j a
  assume "i < length (maps @ [m])" "j < length (maps @ [m])"
    and "map_inside ((maps @ [m]) ! i) a" "map_inside ((maps @ [m]) ! j) a"
  then show "i = j"
    using inv dis by (fastforce simp: maps_inv_def nth_append less_Suc_eq split: if_splits)
qed

text \<open>
  A registry of address areas: registering keeps the invariant, a registered area is found at each
  of its addresses, and later registrations do not change what is found.
\<close>

locale area_registry =
  fixes add :: "'m \<Rightarrow> 'm list \<Rightarrow> 'm list result"
    and find :: "'m list \<Rightarrow> u32 \<Rightarrow> 'm option"
    and inside :: "'m \<Rightarrow> u32 \<Rightarrow> bool"
    and inv :: "'m list \<Rightarrow> bool"
  assumes inv_empty: "inv []"
    and add_inv: "inv r \<Longrightarrow> add m r = Inr r' \<Longrightarrow> inv r'"
    and find_new: "inv r \<Longrightarrow> add m r = Inr r' \<Longrightarrow> inside m a \<Longrightarrow> find r' a = Some m"
    and find_old: "add m r = Inr r' \<Longrightarrow> find r a = Some m' \<Longrightarrow> find r' a = Some m'"
    and find_outside: "add m r = Inr r' \<Longrightarrow> \<not> inside m a \<Longrightarrow> find r' a = find r a"
begin

fun add_all :: "'m list \<Rightarrow> 'm list \<Rightarrow> 'm list result" where
  "add_all [] r = Inr r"
| "add_all (m # ms) r = bindE (add m r) (add_all ms)"

lemma add_all_old: "add_all ms r = Inr r' \<Longrightarrow> find r a = Some m \<Longrightarrow> find r' a = Some m"
  by (induction ms arbitrary: r) (auto simp: bindE_eq_Inr dest: find_old)

lemma add_all_found:
  "inv r \<Longrightarrow> add_all ms r = Inr r' \<Longrightarrow> m \<in> set ms \<Longrightarrow> inside m a \<Longrightarrow> find r' a = Some m"
proof (induction ms arbitrary: r)
  case (Cons x xs)
  then obtain r1 where r1: "add x r = Inr r1" "add_all xs r1 = Inr r'"
    by (auto simp: bindE_eq_Inr)
  show ?case
  proof (cases "m = x")
    case True
    with Cons.prems r1 have "find r1 a = Some m" by (simp add: find_new)
    then show ?thesis by (rule add_all_old [OF r1(2)])
  next
    case False
    with Cons r1 show ?thesis using add_inv by auto
  qed
qed simp

lemma add_all_inv: "inv r \<Longrightarrow> add_all ms r = Inr r' \<Longrightarrow> inv r'"
  by (induction ms arbitrary: r) (auto simp: bindE_eq_Inr dest: add_inv)

lemma add_all_outside: "add_all ms r = Inr r' \<Longrightarrow> (\<And>m. m \<in> set ms \<Longrightarrow> \<not> inside m a) \<Longrightarrow> find r' a = find r a"
  by (induction ms arbitrary: r) (auto simp: bindE_eq_Inr find_outside)

text \<open>From the empty registry, whatever was registered is found at its addresses.\<close>

lemma registered_found: "add_all ms [] = Inr r \<Longrightarrow> m \<in> set ms \<Longrightarrow> inside m a \<Longrightarrow> find r a = Some m"
  using add_all_found [OF inv_empty] by blast

end

text \<open>\<open>add_mmio_map\<close> on the entry it builds.\<close>

definition add_entry :: "config \<Rightarrow> IOMap \<Rightarrow> IOMap list \<Rightarrow> IOMap list result" where
  "add_entry c m = add_mmio_map c (map_name m) (low m) (space m) (high m - low m + 1) (callback m)"

lemma mk_iomap_entry: "mk_iomap (map_name m) (low m) (space m) (high m - low m + 1) (callback m) = m"
  by (simp add: mk_iomap_def)

lemma add_entry_mk [simp]:
  "add_entry c (mk_iomap n a sp len cb) = add_mmio_map c n a sp len cb"
  by (rule ext) (simp add: add_entry_def mk_iomap_def)

lemma add_entry_Inr:
  assumes "add_entry c m maps = Inr maps'"
  shows "length maps < NR_MAP" and "maps' = maps @ [m]"
    and "\<And>m' a. m' \<in> set maps \<Longrightarrow> map_inside m' a \<Longrightarrow> \<not> map_inside m a"
proof -
  note facts = add_mmio_map_Inr [OF assms [unfolded add_entry_def]]
  then show "length maps < NR_MAP" "maps' = maps @ [m]" by (simp_all add: mk_iomap_entry)
  show "\<not> map_inside m a" if "m' \<in> set maps" "map_inside m' a" for m' a
    using not_overlaps_disjoint [OF bspec [OF conjunct1 [OF conjunct2 [OF conjunct2 [OF facts]]] that(1)] that(2)]
    by (metis mk_iomap_entry)
qed

interpretation mmio: area_registry "add_entry c" lookup_map map_inside maps_inv
proof
  show "maps_inv []" by (rule maps_inv_Nil)
  show "maps_inv r'" if "maps_inv r" "add_entry c m r = Inr r'" for r m r'
    unfolding add_entry_Inr(2) [OF that(2)]
    by (rule maps_inv_snoc [OF that(1) add_entry_Inr(1) [OF that(2)]])
      (use add_entry_Inr(3) [OF that(2)] nth_mem in blast)
  show "lookup_map r' a = Some m" if "maps_inv r" "add_entry c m r = Inr r'" "map_inside m a" for r m r' a
  proof -
    have "lookup_map r a = None"
      using add_entry_Inr(3) [OF that(2)] that(3) by (auto simp: lookup_map_None)
    then show ?thesis
      using add_entry_Inr(2) [OF that(2)] that(3) by (simp add: lookup_map_append)
  qed
  show "lookup_map r' a = Some m'" if "add_entry c m r = Inr r'" "lookup_map r a = Some m'" for m r r' a m'
    using add_entry_Inr(2) [OF that(1)] that(2) by (simp add: lookup_map_append)
  show "lookup_map r' a = lookup_map r a" if "add_entry c m r = Inr r'" "\<not> map_inside m a" for m r r' a
    using add_entry_Inr(2) [OF that(1)] that(2) by (simp add: lookup_map_append split: option.split)
qed

section \<open>Device accesses leave the guest alone\<close>

definition maps_in_io :: "IOMap list \<Rightarrow> bool" where
  "maps_in_io maps \<longleftrightarrow> (\<forall>m \<in> set maps. fst (space m) = IO_SPACE)"

lemma keeps_skip_ref [keeps_intros]: "keeps (guest_frame s0) (difftest_skip_ref c)"
  unfolding difftest_skip_ref_def
  by (intro keeps_intros) (auto simp: guest_frame_def dev_inv_def same_guest_def)

lemma keeps_find_map [keeps_intros]: "keeps (guest_frame s0) (find_map_by_addr c maps a)"
  unfolding find_map_by_addr_def by (auto intro!: keeps_intros split: option.split)

lemma keeps_map_read: "keeps (guest_frame s0) (map_read c a len mp)"
  unfolding map_read_def check_bound_def Let_def
  by (auto intro!: keeps_intros keeps_invoke_callback split: option.split)

lemma keeps_map_write:
  "(\<And>m. mp = Some m \<Longrightarrow> fst (space m) = IO_SPACE) \<Longrightarrow> keeps (guest_frame s0) (map_write c a len v mp)"
  unfolding map_write_def check_bound_def Let_def
  by (cases mp) (auto intro!: keeps_intros keeps_invoke_callback keeps_host_writeM_io simp: hp_add_def)

lemma keeps_mmio_read: "keeps (guest_frame s0) (mmio_read c a len)"
  unfolding mmio_read_def fetch_mmio_map_def
  by (intro keeps_bindM keeps_getsM keeps_find_map keeps_map_read)

lemma find_map_by_addr_result:
  "find_map_by_addr c maps a s = Inr (r, s') \<Longrightarrow> r = lookup_map maps a"
  by (auto simp: find_map_by_addr_def difftest_skip_ref_def thenM_eq_Inr split: option.splits)

lemma mmio_write_frame:
  assumes io: "maps_in_io (mmio_maps (io s))" and P: "guest_frame s0 s"
    and run: "mmio_write c a len v s = Inr (x, s')"
  shows "guest_frame s0 s'"
proof -
  obtain r s1 where f: "find_map_by_addr c (mmio_maps (io s)) a s = Inr (r, s1)"
    and w: "map_write c a len v r s1 = Inr (x, s')"
    using run by (auto simp: mmio_write_def fetch_mmio_map_def bindM_eq_Inr)
  have "fst (space m) = IO_SPACE" if "r = Some m" for m
    using io find_map_by_addr_result [OF f] that
    by (auto simp: maps_in_io_def dest!: lookup_map_Some sym [of "Some m"])
  then show ?thesis
    using keepsD [OF keeps_map_write _ w] keepsD [OF keeps_find_map P f] by blast
qed

end
