(* ===== verification/Paddr.thy ===== *)
theory Paddr
  imports Device_Map
begin

text \<open>
  Physical and virtual memory accesses: \<open>src/memory/paddr.c\<close> and \<open>src/memory/vaddr.c\<close>. Depending on
  the configuration the guest address space is one RAM or the memories of the SoC; what is not RAM
  goes to the devices, and what is nowhere panics.
\<close>

section \<open>Guest addresses to host pointers\<close>

definition pmem_guest_to_host :: "config \<Rightarrow> u32 \<Rightarrow> hptr" where
  "pmem_guest_to_host c paddr = (PMEM, uint paddr - uint (CONFIG_MBASE c))"

definition mrom_guest_to_host :: "config \<Rightarrow> u32 \<Rightarrow> hptr" where
  "mrom_guest_to_host c paddr = (MROM, uint paddr - uint (CONFIG_MROM_BASE c))"

definition flash_guest_to_host :: "config \<Rightarrow> u32 \<Rightarrow> hptr" where
  "flash_guest_to_host c paddr = (FLASH, uint paddr - uint (CONFIG_FLASH_BASE c))"

definition sram_guest_to_host :: "config \<Rightarrow> u32 \<Rightarrow> hptr" where
  "sram_guest_to_host c paddr = (SRAM, uint paddr - uint (CONFIG_SRAM_BASE c))"

definition psram_guest_to_host :: "config \<Rightarrow> u32 \<Rightarrow> hptr" where
  "psram_guest_to_host c paddr = (PSRAM, uint paddr - uint (CONFIG_PSRAM_BASE c))"

definition sdram_guest_to_host :: "config \<Rightarrow> u32 \<Rightarrow> hptr" where
  "sdram_guest_to_host c paddr = (SDRAM, uint paddr - uint (CONFIG_SDRAM_BASE c))"

definition guest_to_host :: "config \<Rightarrow> u32 \<Rightarrow> hptr result" where
  "guest_to_host c paddr =
     (if soc_memory c then
        if in_sram c paddr then Inr (sram_guest_to_host c paddr)
        else if in_mrom c paddr then Inr (mrom_guest_to_host c paddr)
        else if in_flash c paddr then Inr (flash_guest_to_host c paddr)
        else if in_psram c paddr then Inr (psram_guest_to_host c paddr)
        else if in_sdram c paddr then Inr (sdram_guest_to_host c paddr)
        else if in_pmem c paddr then Inr (pmem_guest_to_host c paddr)
        else Inl (Panic ''guest address is not backed by REF memory'')
      else Inr (pmem_guest_to_host c paddr))"

text \<open>\<open>haddr - pmem + CONFIG_MBASE\<close>, for a pointer into the array \<open>pmem\<close>.\<close>

definition host_to_guest :: "config \<Rightarrow> hptr \<Rightarrow> u32 result" where
  "host_to_guest c haddr =
     (if fst haddr = PMEM then Inr (word_of_int (snd haddr + uint (CONFIG_MBASE c))) else Inl Out_of_bounds)"

section \<open>Accesses to the memories\<close>

definition pmem_read :: "config \<Rightarrow> u32 \<Rightarrow> int \<Rightarrow> ('r, u32) M" where
  "pmem_read c addr len = bindM (liftM (guest_to_host c addr)) (\<lambda>p. host_readM c p len)"

definition mrom_read :: "config \<Rightarrow> u32 \<Rightarrow> int \<Rightarrow> ('r, u32) M" where
  "mrom_read c addr len = host_readM c (MROM, uint addr - uint (CONFIG_MROM_BASE c)) len"

definition psram_read :: "config \<Rightarrow> u32 \<Rightarrow> int \<Rightarrow> ('r, u32) M" where
  "psram_read c addr len = host_readM c (PSRAM, uint addr - uint (CONFIG_PSRAM_BASE c)) len"

definition sram_read :: "config \<Rightarrow> u32 \<Rightarrow> int \<Rightarrow> ('r, u32) M" where
  "sram_read c addr len = host_readM c (SRAM, uint addr - uint (CONFIG_SRAM_BASE c)) len"

definition flash_read :: "config \<Rightarrow> u32 \<Rightarrow> int \<Rightarrow> ('r, u32) M" where
  "flash_read c addr len = host_readM c (FLASH, uint addr - uint (CONFIG_FLASH_BASE c)) len"

definition sdram_read :: "config \<Rightarrow> u32 \<Rightarrow> int \<Rightarrow> ('r, u32) M" where
  "sdram_read c addr len = host_readM c (SDRAM, uint addr - uint (CONFIG_SDRAM_BASE c)) len"

definition pmem_write :: "config \<Rightarrow> u32 \<Rightarrow> int \<Rightarrow> u32 \<Rightarrow> ('r, unit) M" where
  "pmem_write c addr len data = bindM (liftM (guest_to_host c addr)) (\<lambda>p. host_writeM c p len data)"

definition sram_write :: "config \<Rightarrow> u32 \<Rightarrow> int \<Rightarrow> u32 \<Rightarrow> ('r, unit) M" where
  "sram_write c addr len data = host_writeM c (SRAM, uint addr - uint (CONFIG_SRAM_BASE c)) len data"

definition psram_write :: "config \<Rightarrow> u32 \<Rightarrow> int \<Rightarrow> u32 \<Rightarrow> ('r, unit) M" where
  "psram_write c addr len data = host_writeM c (PSRAM, uint addr - uint (CONFIG_PSRAM_BASE c)) len data"

definition flash_write :: "config \<Rightarrow> u32 \<Rightarrow> int \<Rightarrow> u32 \<Rightarrow> ('r, unit) M" where
  "flash_write c addr len data = host_writeM c (FLASH, uint addr - uint (CONFIG_FLASH_BASE c)) len data"

definition sdram_write :: "config \<Rightarrow> u32 \<Rightarrow> int \<Rightarrow> u32 \<Rightarrow> ('r, unit) M" where
  "sdram_write c addr len data = host_writeM c (SDRAM, uint addr - uint (CONFIG_SDRAM_BASE c)) len data"

definition out_of_bound :: "u32 \<Rightarrow> ('r, 'a) M" where
  "out_of_bound addr = failM (Panic ''address is out of bound of pmem'')"

definition paddr_read :: "config \<Rightarrow> u32 \<Rightarrow> int \<Rightarrow> ('r, u32) M" where
  "paddr_read c addr len =
     (if soc_memory c \<and> in_sram c addr then sram_read c addr len
      else if soc_memory c \<and> in_mrom c addr then mrom_read c addr len
      else if soc_memory c \<and> in_flash c addr then flash_read c addr len
      else if soc_memory c \<and> in_psram c addr then psram_read c addr len
      else if soc_memory c \<and> in_sdram c addr then sdram_read c addr len
      else if in_pmem c addr then pmem_read c addr len
      else if CONFIG_DEVICE c then mmio_read c addr len
      else out_of_bound addr)"

definition paddr_write :: "config \<Rightarrow> u32 \<Rightarrow> int \<Rightarrow> u32 \<Rightarrow> ('r, unit) M" where
  "paddr_write c addr len data =
     (if soc_memory c \<and> in_sram c addr then sram_write c addr len data
      else if soc_memory c \<and> in_mrom c addr then failM (Panic ''address in mrom is not writable'')
      else if soc_memory c \<and> in_flash c addr then flash_write c addr len data
      else if soc_memory c \<and> in_psram c addr then psram_write c addr len data
      else if soc_memory c \<and> in_sdram c addr then sdram_write c addr len data
      else if in_pmem c addr then pmem_write c addr len data
      else if CONFIG_DEVICE c then mmio_write c addr len data
      else out_of_bound addr)"

definition vaddr_ifetch :: "config \<Rightarrow> u32 \<Rightarrow> int \<Rightarrow> ('r, u32) M" where
  "vaddr_ifetch c addr len = paddr_read c addr len"

definition vaddr_read :: "config \<Rightarrow> u32 \<Rightarrow> int \<Rightarrow> ('r, u32) M" where
  "vaddr_read c addr len = paddr_read c addr len"

definition vaddr_write :: "config \<Rightarrow> u32 \<Rightarrow> int \<Rightarrow> u32 \<Rightarrow> ('r, unit) M" where
  "vaddr_write c addr len data = paddr_write c addr len data"

section \<open>The decoded address\<close>

text \<open>
  Which byte of which array a guest address denotes: the specification the chains of range tests
  implement. Later areas are shadowed by earlier ones.
\<close>

definition ram_ptr :: "config \<Rightarrow> u32 \<Rightarrow> hptr option" where
  "ram_ptr c addr =
     (if soc_memory c \<and> in_sram c addr then Some (sram_guest_to_host c addr)
      else if soc_memory c \<and> in_mrom c addr then Some (mrom_guest_to_host c addr)
      else if soc_memory c \<and> in_flash c addr then Some (flash_guest_to_host c addr)
      else if soc_memory c \<and> in_psram c addr then Some (psram_guest_to_host c addr)
      else if soc_memory c \<and> in_sdram c addr then Some (sdram_guest_to_host c addr)
      else if in_pmem c addr then Some (pmem_guest_to_host c addr)
      else None)"

lemmas guest_to_host_defs = sram_guest_to_host_def mrom_guest_to_host_def flash_guest_to_host_def
  psram_guest_to_host_def sdram_guest_to_host_def pmem_guest_to_host_def

lemma paddr_read_ram:
  "ram_ptr c addr = Some p \<Longrightarrow> paddr_read c addr len = host_readM c p len"
  by (rule ext)
    (auto simp: ram_ptr_def paddr_read_def sram_read_def mrom_read_def flash_read_def psram_read_def
      sdram_read_def pmem_read_def guest_to_host_def guest_to_host_defs split: if_splits)

definition writable_ptr :: "config \<Rightarrow> u32 \<Rightarrow> hptr option" where
  "writable_ptr c addr = (case ram_ptr c addr of
     Some p \<Rightarrow> if fst p = MROM then None else Some p | None \<Rightarrow> None)"

lemma paddr_write_ram:
  "writable_ptr c addr = Some p \<Longrightarrow> paddr_write c addr len v = host_writeM c p len v"
  by (rule ext)
    (auto simp: writable_ptr_def ram_ptr_def paddr_write_def sram_write_def flash_write_def
      psram_write_def sdram_write_def pmem_write_def guest_to_host_def guest_to_host_defs
      split: if_splits option.splits)

lemma paddr_read_outside:
  "ram_ptr c addr = None \<Longrightarrow> paddr_read c addr len = (if CONFIG_DEVICE c then mmio_read c addr len else out_of_bound addr)"
  by (auto simp: ram_ptr_def paddr_read_def split: if_splits)

lemma paddr_write_outside:
  "ram_ptr c addr = None \<Longrightarrow>
   paddr_write c addr len v = (if CONFIG_DEVICE c then mmio_write c addr len v else out_of_bound addr)"
  by (auto simp: ram_ptr_def paddr_write_def split: if_splits)

text \<open>An address inside an area that does not reach past the address space is inside its array.\<close>

definition areas_ok :: "config \<Rightarrow> bool" where
  "areas_ok c \<longleftrightarrow>
     uint (CONFIG_MBASE c) + uint (CONFIG_MSIZE c) \<le> 2 ^ 32
   \<and> uint (CONFIG_MROM_BASE c) + uint (CONFIG_MROM_SIZE c) \<le> 2 ^ 32
   \<and> uint (CONFIG_SRAM_BASE c) + uint (CONFIG_SRAM_SIZE c) \<le> 2 ^ 32
   \<and> uint (CONFIG_FLASH_BASE c) + uint (CONFIG_FLASH_SIZE c) \<le> 2 ^ 32
   \<and> uint (CONFIG_PSRAM_BASE c) + uint (CONFIG_PSRAM_SIZE c) \<le> 2 ^ 32
   \<and> uint (CONFIG_SDRAM_BASE c) + uint (CONFIG_SDRAM_SIZE c) \<le> 2 ^ 32"

lemma ram_ptr_byte_ok:
  assumes "areas_ok c" and "ram_ptr c addr = Some p"
  shows "ptr_ok c p 1"
  using assms
  by (auto simp: areas_ok_def ram_ptr_def ptr_ok_def guest_to_host_defs in_sram_def in_mrom_def
      in_flash_def in_psram_def in_sdram_def in_pmem_def window_iff split: if_splits)

lemma areas_ok_default: "areas_ok kconfig_default"
  by (simp add: areas_ok_def kconfig_default_def)

text \<open>
  The memory map as intervals of addresses, in the order in which the areas are tried. It is stated apart from the code:
  base and size of each area as numbers.
\<close>

definition memory_map :: "config \<Rightarrow> (region \<times> int \<times> int) list" where
  "memory_map c =
     (if soc_memory c then
        [(SRAM, uint (CONFIG_SRAM_BASE c), uint (CONFIG_SRAM_SIZE c)), (MROM, uint (CONFIG_MROM_BASE c), uint (CONFIG_MROM_SIZE c)),
         (FLASH, uint (CONFIG_FLASH_BASE c), uint (CONFIG_FLASH_SIZE c)), (PSRAM, uint (CONFIG_PSRAM_BASE c), uint (CONFIG_PSRAM_SIZE c)),
         (SDRAM, uint (CONFIG_SDRAM_BASE c), uint (CONFIG_SDRAM_SIZE c))]
      else []) @ [(PMEM, uint (CONFIG_MBASE c), uint (CONFIG_MSIZE c))]"

definition area_of :: "config \<Rightarrow> u32 \<Rightarrow> (region \<times> int \<times> int) option" where
  "area_of c a = find (\<lambda>(_, base, size). base \<le> uint a \<and> uint a < base + size) (memory_map c)"

lemma ram_ptr_area: "areas_ok c \<Longrightarrow> ram_ptr c a = map_option (\<lambda>(r, base, _). (r, uint a - base)) (area_of c a)"
  by (simp add: ram_ptr_def area_of_def memory_map_def areas_ok_def guest_to_host_defs in_sram_def in_mrom_def
      in_flash_def in_psram_def in_sdram_def in_pmem_def window_iff)

lemma host_to_guest_inverse:
  "host_to_guest c (pmem_guest_to_host c addr) = Inr addr"
  by (simp add: host_to_guest_def pmem_guest_to_host_def)

section \<open>Guest memory as a sized memory\<close>

text \<open>
  Reads and writes of the guest, on the state. Two accesses are apart when the bytes they denote in
  the host arrays are.
\<close>

definition guest_read :: "config \<Rightarrow> 'r nemu \<Rightarrow> u32 \<Rightarrow> int \<Rightarrow> u32 result" where
  "guest_read c s addr len = (case ram_ptr c addr of
     None \<Rightarrow> Inl Out_of_bounds | Some p \<Rightarrow> if fst p = MROM then Inl Out_of_bounds
       else map_sum id fst (paddr_read c addr len s))"

definition guest_write :: "config \<Rightarrow> 'r nemu \<Rightarrow> u32 \<Rightarrow> int \<Rightarrow> u32 \<Rightarrow> 'r nemu result" where
  "guest_write c s addr len v = (case ram_ptr c addr of
     None \<Rightarrow> Inl Out_of_bounds | Some p \<Rightarrow> map_sum id snd (paddr_write c addr len v s))"

definition guest_apart :: "config \<Rightarrow> u32 \<Rightarrow> int \<Rightarrow> u32 \<Rightarrow> int \<Rightarrow> bool" where
  "guest_apart c a n b k \<longleftrightarrow> (\<exists>p q. ram_ptr c a = Some p \<and> ram_ptr c b = Some q \<and> ptr_disjoint p n q k)"

lemma guest_read_host:
  "ram_ptr c a = Some p \<Longrightarrow> fst p \<noteq> MROM \<Longrightarrow> guest_read c s a n = host_read c (mem s) p n"
  by (auto simp: guest_read_def paddr_read_ram host_readM_apply split: sum.split)

lemma guest_write_host:
  "ram_ptr c a = Some p \<Longrightarrow> fst p \<noteq> MROM \<Longrightarrow>
   guest_write c s a n v = map_sum id (\<lambda>m. s\<lparr>mem := m\<rparr>) (host_write c (mem s) p n v)"
  by (auto simp: guest_write_def paddr_write_ram writable_ptr_def host_writeM_apply split: sum.split)

lemma paddr_write_mrom:
  "ram_ptr c a = Some p \<Longrightarrow> fst p = MROM \<Longrightarrow>
   paddr_write c a n v s = Inl (Panic ''address in mrom is not writable'')"
  by (auto simp: ram_ptr_def paddr_write_def guest_to_host_defs split: if_splits)

lemma guest_write_Inr:
  assumes "guest_write c s a n v = Inr s'"
  obtains p m' where "ram_ptr c a = Some p" "fst p \<noteq> MROM" "host_write c (mem s) p n v = Inr m'"
    "s' = s\<lparr>mem := m'\<rparr>"
proof -
  obtain p where p: "ram_ptr c a = Some p"
    using assms by (auto simp: guest_write_def split: option.splits)
  moreover have "fst p \<noteq> MROM"
    using assms p paddr_write_mrom [of c a p n v s] by (auto simp: guest_write_def)
  moreover with assms p obtain m' where "host_write c (mem s) p n v = Inr m'" "s' = s\<lparr>mem := m'\<rparr>"
    by (cases "host_write c (mem s) p n v") (auto simp: guest_write_host)
  ultimately show ?thesis by (rule that)
qed

interpretation guest: sized_memory "guest_read c" "guest_write c" "guest_apart c"
proof
  show "guest_read c s' a n = Inr (take_bit (8 * nat n) v)"
    if "access_size n" "guest_write c s a n v = Inr s'" for n s a v s'
    using that(2)
  proof (rule guest_write_Inr)
    fix p m'
    assume p: "ram_ptr c a = Some p" "fst p \<noteq> MROM" and w: "host_write c (mem s) p n v = Inr m'"
      and s': "s' = s\<lparr>mem := m'\<rparr>"
    show ?thesis
      using host.rd_wr_same [OF that(1) w] p s' by (simp add: guest_read_host)
  qed
  show "guest_read c s' b k = guest_read c s b k"
    if "access_size n" "access_size k" "guest_write c s a n v = Inr s'" "guest_apart c a n b k"
    for n k s a v s' b
    using that(3)
  proof (rule guest_write_Inr)
    fix p m'
    assume p: "ram_ptr c a = Some p" "fst p \<noteq> MROM" and w: "host_write c (mem s) p n v = Inr m'"
      and s': "s' = s\<lparr>mem := m'\<rparr>"
    from that(4) p obtain q where q: "ram_ptr c b = Some q" "ptr_disjoint p n q k"
      by (auto simp: guest_apart_def)
    have "host_read c m' q k = host_read c (mem s) q k"
      using host.rd_wr_apart [OF that(1,2) w q(2)] .
    with q s' show ?thesis
      by (cases "fst q = MROM") (simp_all add: guest_read_host, simp add: guest_read_def)
  qed
  show "(\<exists>x. guest_read c s a n = Inr x) \<longleftrightarrow> (\<exists>s'. guest_write c s a n v = Inr s')"
    if "access_size n" for n s a v
  proof (cases "ram_ptr c a")
    case None
    then show ?thesis by (simp add: guest_read_def guest_write_def)
  next
    case (Some p)
    show ?thesis
    proof (cases "fst p = MROM")
      case True
      with Some show ?thesis
        by (simp add: guest_read_def guest_write_def paddr_write_mrom)
    next
      case False
      with Some host.rd_iff_wr [OF that, of c "mem s" p v] show ?thesis
        by (cases "host_write c (mem s) p n v") (auto simp: guest_read_host guest_write_host)
    qed
  qed
  show "guest_apart c b k a n" if "guest_apart c a n b k" for a n b k
    using that host.apart_sym by (auto simp: guest_apart_def)
qed

section \<open>Frames\<close>

lemma paddr_write_cpu:
  assumes "ram_ptr c a = Some p" and "paddr_write c a n v s = Inr (x, s')"
  shows "\<exists>m. s' = s\<lparr>mem := m\<rparr> \<and> host_write c (mem s) p n v = Inr m"
proof (cases "fst p = MROM")
  case True
  with assms show ?thesis by (simp add: paddr_write_mrom)
next
  case False
  with assms show ?thesis
    by (auto simp: paddr_write_ram writable_ptr_def host_writeM_apply split: sum.splits)
qed

lemma paddr_read_state:
  assumes "ram_ptr c a = Some p" and "paddr_read c a n s = Inr (x, s')"
  shows "s' = s \<and> host_read c (mem s) p n = Inr x"
  using assms by (auto simp: paddr_read_ram host_readM_apply split: sum.splits)

section \<open>Accesses leave the processor alone\<close>

text \<open>
  No access, to memory or to a device, changes the registers, the run state, the watchpoints or the
  instruction counter, whatever the device state is.
\<close>

definition same_core :: "'r nemu \<Rightarrow> 'r nemu \<Rightarrow> bool" where
  "same_core s0 s \<longleftrightarrow> cpu s = cpu s0 \<and> nemu_state s = nemu_state s0 \<and> wps s = wps s0
     \<and> itr s = itr s0 \<and> g_nr_guest_inst s = g_nr_guest_inst s0 \<and> pc_trace_file s = pc_trace_file s0"

lemma keeps_core_modify:
  "(\<And>s. same_core s (f s)) \<Longrightarrow> keeps (same_core s0) (modifyM f)"
  by (rule keeps_modifyM) (auto simp: same_core_def)

lemma keeps_core_host_writeM [keeps_intros]: "keeps (same_core s0) (host_writeM c p len v)"
  by (rule keepsI) (auto simp: host_writeM_apply same_core_def split: sum.splits)

lemma keeps_core_host_readM [keeps_intros]: "keeps P (host_readM c p len)"
  by (rule keepsI) (auto simp: host_readM_apply split: sum.splits)

lemma keeps_reg_ptr' [keeps_intros]: "keeps P (reg_ptr b i)"
  by (cases b) (auto simp: reg_ptr_def intro: keeps_intros)

lemma keeps_core_get_time [keeps_intros]: "keeps (same_core s0) get_time"
  by (rule keepsI) (auto simp: get_time_def same_core_def Let_def split: prod.splits)

lemma keeps_core_dequeue [keeps_intros]: "keeps (same_core s0) key_dequeueM"
  by (rule keepsI) (auto simp: key_dequeueM_def same_core_def Let_def split: prod.splits)

lemma keeps_core_modify_sd [keeps_intros]: "keeps (same_core s0) (modify_sd f)"
  unfolding modify_sd_def by (rule keeps_core_modify) (simp add: same_core_def)

lemma keeps_core_store_bytes [keeps_intros]: "keeps (same_core s0) (store_reg_bytes c b i bs)"
  unfolding store_reg_bytes_def by (intro keeps_intros keeps_core_modify) (simp add: same_core_def)

lemma keeps_core_sd_data_file [keeps_intros]: "keeps (same_core s0) (sd_data_file c)"
  unfolding sd_data_file_def Let_def split_beta
  by (intro keeps_intros)

lemmas device_code_defs = serial_io_handler_def rtc_io_handler_def i8042_data_io_handler_def
  audio_io_handler_def sdcard_io_handler_def sdcard_handle_cmd_def prepare_rw_def serial_putc_def
  reg8_def reg32_def set_reg8_def set_reg32_def sd_reg_def set_sd_reg_def

lemma keeps_core_callback [keeps_intros]: "keeps (same_core s0) (invoke_callback c cb offset len w)"
proof (cases cb)
  case (Some f)
  then show ?thesis
    unfolding invoke_callback_def
    by (cases f) (simp_all only: option.case run_callback.simps device_code_defs Let_def,
        (intro keeps_intros keeps_core_modify; simp add: same_core_def)+)
qed (simp add: invoke_callback_def keeps_retM)

lemma keeps_core_skip [keeps_intros]: "keeps (same_core s0) (difftest_skip_ref c)"
  unfolding difftest_skip_ref_def by (intro keeps_intros keeps_core_modify) (simp add: same_core_def)

lemma keeps_option:
  "(x = None \<Longrightarrow> keeps P m) \<Longrightarrow> (\<And>y. x = Some y \<Longrightarrow> keeps P (f y)) \<Longrightarrow>
   keeps P (case x of None \<Rightarrow> m | Some y \<Rightarrow> f y)"
  by (cases x) auto

lemma keeps_core_mmio_read [keeps_intros]: "keeps (same_core s0) (mmio_read c a len)"
  unfolding mmio_read_def map_read_def fetch_mmio_map_def find_map_by_addr_def check_bound_def Let_def
  by (intro keeps_intros keeps_option)

lemma keeps_core_mmio_write [keeps_intros]: "keeps (same_core s0) (mmio_write c a len v)"
  unfolding mmio_write_def map_write_def fetch_mmio_map_def find_map_by_addr_def check_bound_def Let_def
  by (intro keeps_intros keeps_option)

lemma keeps_core_paddr_read [keeps_intros]: "keeps (same_core s0) (paddr_read c a len)"
  unfolding paddr_read_def pmem_read_def mrom_read_def psram_read_def sram_read_def flash_read_def
    sdram_read_def out_of_bound_def
  by (intro keeps_intros)

lemma keeps_core_paddr_write [keeps_intros]: "keeps (same_core s0) (paddr_write c a len v)"
  unfolding paddr_write_def pmem_write_def psram_write_def sram_write_def flash_write_def
    sdram_write_def out_of_bound_def
  by (intro keeps_intros)

lemma paddr_read_core: "paddr_read c a len s = Inr (v, s') \<Longrightarrow> same_core s s'"
  by (erule keepsD [OF keeps_core_paddr_read, rotated]) (simp add: same_core_def)

lemma paddr_write_core: "paddr_write c a len v s = Inr (x, s') \<Longrightarrow> same_core s s'"
  by (erule keepsD [OF keeps_core_paddr_write, rotated]) (simp add: same_core_def)

end
