(* ===== verification/Decode_Pattern.thy ===== *)
theory Decode_Pattern
  imports Config
begin

text \<open>
  The pattern matching mechanism of \<open>include/cpu/decode.h\<close>: \<open>pattern_decode\<close> turns a pattern
  string into a key, a mask and a shift, and the \<open>INSTPAT\<close> macro compares the instruction word
  with them. The theorems relate the three numbers to the reading of the pattern as bits.
\<close>

section \<open>The code\<close>

text \<open>
  \<open>pattern_macro k str acc\<close> is what is left of the unrolled loop when \<open>k\<close> copies of \<open>macro(i)\<close>
  remain and \<open>str\<close> is the rest of the string: a string that outlives the copies panics.
\<close>

fun pattern_macro :: "nat \<Rightarrow> string \<Rightarrow> u64 \<times> u64 \<times> nat \<Rightarrow> (u64 \<times> u64 \<times> nat) result" where
  "pattern_macro 0 str acc = Inl (Panic ''pattern too long'')"
| "pattern_macro (Suc k) [] acc = Inr acc"
| "pattern_macro (Suc k) (c # cs) (key, msk, shift) =
     (if c = CHR '' '' then pattern_macro k cs (key, msk, shift)
      else if \<not> (c = CHR ''0'' \<or> c = CHR ''1'' \<or> c = CHR ''?'')
        then Inl (Panic ''invalid character in pattern string'')
      else pattern_macro k cs
        (push_bit 1 key OR (if c = CHR ''1'' then 1 else 0),
         push_bit 1 msk OR (if c = CHR ''?'' then 0 else 1),
         (if c = CHR ''?'' then shift + 1 else 0)))"

definition pattern_decode :: "string \<Rightarrow> (u64 \<times> u64 \<times> nat) result" where
  "pattern_decode str =
     bindE (pattern_macro 64 str (0, 0, 0))
       (\<lambda>(key, msk, shift). Inr (drop_bit shift key, drop_bit shift msk, shift))"

definition hex_digit :: "char \<Rightarrow> u64" where
  "hex_digit c = (if c = CHR ''?'' then 0
     else if CHR ''0'' \<le> c \<and> c \<le> CHR ''9'' then of_nat (of_char c - of_char CHR ''0'')
     else of_nat (of_char c - of_char CHR ''a'' + 10))"

fun pattern_macro_hex :: "nat \<Rightarrow> string \<Rightarrow> u64 \<times> u64 \<times> nat \<Rightarrow> (u64 \<times> u64 \<times> nat) result" where
  "pattern_macro_hex 0 str acc = Inl (Panic ''pattern too long'')"
| "pattern_macro_hex (Suc k) [] acc = Inr acc"
| "pattern_macro_hex (Suc k) (c # cs) (key, msk, shift) =
     (if c = CHR '' '' then pattern_macro_hex k cs (key, msk, shift)
      else if \<not> ((CHR ''0'' \<le> c \<and> c \<le> CHR ''9'') \<or> (CHR ''a'' \<le> c \<and> c \<le> CHR ''f'')
                  \<or> c = CHR ''?'')
        then Inl (Panic ''invalid character in pattern string'')
      else pattern_macro_hex k cs
        (push_bit 4 key OR hex_digit c,
         push_bit 4 msk OR (if c = CHR ''?'' then 0 else 0xf),
         (if c = CHR ''?'' then shift + 4 else 0)))"

definition pattern_decode_hex :: "string \<Rightarrow> (u64 \<times> u64 \<times> nat) result" where
  "pattern_decode_hex str =
     bindE (pattern_macro_hex 16 str (0, 0, 0))
       (\<lambda>(key, msk, shift). Inr (drop_bit shift key, drop_bit shift msk, shift))"

text \<open>The condition of the \<open>INSTPAT\<close> macro for the instruction word \<open>inst\<close>.\<close>

definition INSTPAT :: "string \<Rightarrow> u32 \<Rightarrow> bool result" where
  "INSTPAT pattern inst =
     bindE (pattern_decode pattern)
       (\<lambda>(key, msk, shift). Inr (drop_bit shift (ucast inst :: u64) AND msk = key))"

section \<open>The pattern as a list of bits\<close>

text \<open>
  The specification: blanks are ignored, the remaining characters describe bits from the most
  significant one down to bit 0, and a question mark leaves its bit free.
\<close>

definition pattern_bits :: "string \<Rightarrow> string" where
  "pattern_bits str = filter (\<lambda>c. c \<noteq> CHR '' '') str"

definition valid_pattern :: "string \<Rightarrow> bool" where
  "valid_pattern str \<longleftrightarrow>
     length str < 64 \<and> set str \<subseteq> {CHR '' '', CHR ''0'', CHR ''1'', CHR ''?''}"

definition bits_match :: "string \<Rightarrow> u32 \<Rightarrow> bool" where
  "bits_match bs w \<longleftrightarrow>
     (\<forall>i < length bs. bs ! i \<noteq> CHR ''?'' \<longrightarrow>
        (bit w (length bs - 1 - i) \<longleftrightarrow> bs ! i = CHR ''1''))"

text \<open>One character of the loop body, and the fold of it over the characters that count.\<close>

definition pat_step :: "u64 \<times> u64 \<times> nat \<Rightarrow> char \<Rightarrow> u64 \<times> u64 \<times> nat" where
  "pat_step = (\<lambda>(key, msk, shift) c.
     (push_bit 1 key OR (if c = CHR ''1'' then 1 else 0),
      push_bit 1 msk OR (if c = CHR ''?'' then 0 else 1),
      (if c = CHR ''?'' then shift + 1 else 0)))"

lemma pattern_macro_foldl:
  "length str < k \<Longrightarrow> set str \<subseteq> {CHR '' '', CHR ''0'', CHR ''1'', CHR ''?''} \<Longrightarrow>
   pattern_macro k str acc = Inr (foldl pat_step acc (pattern_bits str))"
proof (induction k str acc rule: pattern_macro.induct)
  case (3 k c cs key msk shift)
  then show ?case
    by (cases "c = CHR '' ''") (auto simp: pattern_bits_def pat_step_def)
qed (auto simp: pattern_bits_def)

text \<open>What the three numbers say about the characters read so far.\<close>

lemma foldl_pat_step:
  assumes "foldl pat_step (0, 0, 0) bs = (key, msk, shift)"
  shows "(\<forall>j. bit key j \<longleftrightarrow> j < length bs \<and> j < 64 \<and> bs ! (length bs - 1 - j) = CHR ''1'')
       \<and> (\<forall>j. bit msk j \<longleftrightarrow> j < length bs \<and> j < 64 \<and> bs ! (length bs - 1 - j) \<noteq> CHR ''?'')
       \<and> shift \<le> length bs \<and> (\<forall>j < shift. bs ! (length bs - 1 - j) = CHR ''?'')"
  using assms
proof (induction bs arbitrary: key msk shift rule: rev_induct)
  case Nil
  then show ?case by simp
next
  case (snoc c bs)
  obtain k m s where old: "foldl pat_step (0, 0, 0) bs = (k, m, s)"
    by (cases "foldl pat_step (0, 0, 0) bs")
  from snoc.prems old have new: "key = push_bit 1 k OR (if c = CHR ''1'' then 1 else 0)"
    "msk = push_bit 1 m OR (if c \<noteq> CHR ''?'' then 1 else 0)"
    "shift = (if c = CHR ''?'' then s + 1 else 0)"
    by (auto simp: pat_step_def)
  have idx: "(bs @ [c]) ! (length (bs @ [c]) - 1 - j)
      = (case j of 0 \<Rightarrow> c | Suc i \<Rightarrow> bs ! (length bs - 1 - i))"
    if "j < length (bs @ [c])" for j
    using that by (cases j) (auto simp: nth_append)
  note IH = snoc.IH [OF old]
  have bkey: "bit key j \<longleftrightarrow> j < length (bs @ [c]) \<and> j < 64 \<and>
      (bs @ [c]) ! (length (bs @ [c]) - 1 - j) = CHR ''1''" for j
    unfolding new bit_shift_in using IH idx [of j] by (cases j) auto
  have bmsk: "bit msk j \<longleftrightarrow> j < length (bs @ [c]) \<and> j < 64 \<and>
      (bs @ [c]) ! (length (bs @ [c]) - 1 - j) \<noteq> CHR ''?''" for j
    unfolding new bit_shift_in using IH idx [of j] by (cases j) auto
  have bsh: "(bs @ [c]) ! (length (bs @ [c]) - 1 - j) = CHR ''?''" if "j < shift" for j
    using IH idx [of j] that unfolding new(3) by (cases j) (auto split: if_splits)
  show ?case
    using IH bkey bmsk bsh by (auto simp: new(3))
qed

lemma shifted_match:
  fixes x key msk :: "'a::len word"
  assumes "\<And>j. j < shift \<Longrightarrow> \<not> bit key j" and "\<And>j. j < shift \<Longrightarrow> \<not> bit msk j"
  shows "drop_bit shift x AND drop_bit shift msk = drop_bit shift key \<longleftrightarrow> x AND msk = key"
proof
  assume eq: "drop_bit shift x AND drop_bit shift msk = drop_bit shift key"
  show "x AND msk = key"
  proof (rule bit_word_eqI)
    fix n
    show "bit (x AND msk) n = bit key n"
    proof (cases "n < shift")
      case True
      then show ?thesis using assms by (simp add: bit_simps)
    next
      case False
      then obtain j where j: "n = shift + j"
        using le_Suc_ex not_less by blast
      from eq have "bit (drop_bit shift x AND drop_bit shift msk) j = bit (drop_bit shift key) j"
        by simp
      then show ?thesis by (simp add: bit_simps j)
    qed
  qed
qed (simp flip: drop_bit_and)

section \<open>Masks and keys at the width of the instruction\<close>

fun pat_key :: "string \<Rightarrow> u32" where
  "pat_key [] = 0"
| "pat_key (c # cs) = (if c = CHR ''1'' then push_bit (length cs) 1 else 0) OR pat_key cs"

fun pat_mask :: "string \<Rightarrow> u32" where
  "pat_mask [] = 0"
| "pat_mask (c # cs) = (if c = CHR ''?'' then 0 else push_bit (length cs) 1) OR pat_mask cs"

lemma bit_pat_key:
  "length bs \<le> 32 \<Longrightarrow>
   bit (pat_key bs) j \<longleftrightarrow> j < length bs \<and> bs ! (length bs - 1 - j) = CHR ''1''"
proof (induction bs arbitrary: j)
  case (Cons c cs)
  then show ?case
    by (cases "j = length cs") (auto simp: bit_simps nth_Cons' Suc_diff_Suc)
qed simp

lemma bit_pat_mask:
  "length bs \<le> 32 \<Longrightarrow>
   bit (pat_mask bs) j \<longleftrightarrow> j < length bs \<and> bs ! (length bs - 1 - j) \<noteq> CHR ''?''"
proof (induction bs arbitrary: j)
  case (Cons c cs)
  then show ?case
    by (cases "j = length cs") (auto simp: bit_simps nth_Cons' Suc_diff_Suc)
qed simp

lemma bits_match_mask:
  assumes "length bs \<le> 32"
  shows "bits_match bs w \<longleftrightarrow> w AND pat_mask bs = pat_key bs"
proof
  assume m: "bits_match bs w"
  show "w AND pat_mask bs = pat_key bs"
  proof (rule bit_word_eqI)
    fix j
    show "bit (w AND pat_mask bs) j = bit (pat_key bs) j"
    proof (cases "j < length bs")
      case True
      then have "bs ! (length bs - 1 - j) \<noteq> CHR ''?'' \<Longrightarrow>
          bit w j \<longleftrightarrow> bs ! (length bs - 1 - j) = CHR ''1''"
        using m [unfolded bits_match_def, rule_format, of "length bs - 1 - j"] by simp
      then show ?thesis
        using True assms by (auto simp: bit_simps bit_pat_key bit_pat_mask)
    qed (use assms in \<open>auto simp: bit_simps bit_pat_key bit_pat_mask\<close>)
  qed
next
  assume eq: "w AND pat_mask bs = pat_key bs"
  show "bits_match bs w"
    unfolding bits_match_def
  proof (intro allI impI)
    fix i
    assume i: "i < length bs" "bs ! i \<noteq> CHR ''?''"
    from eq have "bit (w AND pat_mask bs) (length bs - 1 - i) = bit (pat_key bs) (length bs - 1 - i)"
      by simp
    moreover have "length bs - Suc i < length bs"
      using i(1) by simp
    ultimately show "bit w (length bs - 1 - i) \<longleftrightarrow> bs ! i = CHR ''1''"
      using i assms by (simp add: bit_simps bit_pat_key bit_pat_mask)
  qed
qed

section \<open>The code matches the reading of the pattern\<close>

lemma masked_match:
  assumes len: "length bs < 64"
    and key: "\<And>j. bit key j \<longleftrightarrow> j < length bs \<and> j < 64 \<and> bs ! (length bs - 1 - j) = CHR ''1''"
    and msk: "\<And>j. bit msk j \<longleftrightarrow> j < length bs \<and> j < 64 \<and> bs ! (length bs - 1 - j) \<noteq> CHR ''?''"
  shows "(ucast w :: u64) AND msk = key \<longleftrightarrow> bits_match bs w"
proof -
  let ?c = "\<lambda>j. bs ! (length bs - 1 - j)"
  have uc: "bit (ucast w :: u64) j \<longleftrightarrow> bit w j" for j
    by (auto simp: bit_simps dest: bit_imp_le_length)
  have "(ucast w :: u64) AND msk = key \<longleftrightarrow> (\<forall>j. bit w j \<and> bit msk j \<longleftrightarrow> bit key j)"
    unfolding bit_eq_iff [of _ key] bit_and_iff uc using key msk by (auto simp: possible_bit_def)
  also have "\<dots> \<longleftrightarrow> (\<forall>j < length bs. ?c j \<noteq> CHR ''?'' \<longrightarrow> (bit w j \<longleftrightarrow> ?c j = CHR ''1''))"
  proof (rule iff_allI, rule iffI)
    fix j
    assume "bit w j \<and> bit msk j \<longleftrightarrow> bit key j"
    then show "j < length bs \<longrightarrow> ?c j \<noteq> CHR ''?'' \<longrightarrow> (bit w j \<longleftrightarrow> ?c j = CHR ''1'')"
      unfolding key msk using len by auto
  next
    fix j
    assume "j < length bs \<longrightarrow> ?c j \<noteq> CHR ''?'' \<longrightarrow> (bit w j \<longleftrightarrow> ?c j = CHR ''1'')"
    moreover have "?c j = CHR ''1'' \<Longrightarrow> ?c j \<noteq> CHR ''?''" by simp
    ultimately show "bit w j \<and> bit msk j \<longleftrightarrow> bit key j" unfolding key msk by blast
  qed
  also have "\<dots> \<longleftrightarrow> bits_match bs w"
  proof -
    have "(\<forall>j < length bs. P j (?c j)) \<longleftrightarrow> (\<forall>i < length bs. P (length bs - 1 - i) (bs ! i))" for P
    proof (intro iffI allI impI)
      fix i assume *: "\<forall>j < length bs. P j (?c j)" and i: "i < length bs"
      then show "P (length bs - 1 - i) (bs ! i)"
        using * [rule_format, of "length bs - 1 - i"] by (simp add: Suc_leI)
    next
      fix j assume *: "\<forall>i < length bs. P (length bs - 1 - i) (bs ! i)" and j: "j < length bs"
      then show "P j (?c j)"
        using * [rule_format, of "length bs - 1 - j"] by (simp add: Suc_leI)
    qed
    from this [of "\<lambda>j x. x \<noteq> CHR ''?'' \<longrightarrow> (bit w j \<longleftrightarrow> x = CHR ''1'')"]
    show ?thesis by (simp add: bits_match_def)
  qed
  finally show ?thesis .
qed

lemma INSTPAT_bits_match:
  assumes valid: "valid_pattern p"
  shows "INSTPAT p w = Inr (bits_match (pattern_bits p) w)"
proof -
  let ?bs = "pattern_bits p"
  obtain key msk shift where f: "foldl pat_step (0, 0, 0) ?bs = (key, msk, shift)"
    by (cases "foldl pat_step (0, 0, 0) ?bs")
  note facts = foldl_pat_step [OF f]
  have len: "length ?bs < 64"
    using valid le_less_trans [OF length_filter_le] by (auto simp: valid_pattern_def pattern_bits_def)
  have pd: "pattern_decode p = Inr (drop_bit shift key, drop_bit shift msk, shift)"
    using valid by (simp add: pattern_decode_def valid_pattern_def pattern_macro_foldl f)
  have "drop_bit shift (ucast w :: u64) AND drop_bit shift msk = drop_bit shift key
      \<longleftrightarrow> (ucast w :: u64) AND msk = key"
    by (rule shifted_match) (use facts in simp_all)
  also have "\<dots> \<longleftrightarrow> bits_match ?bs w"
    by (rule masked_match [OF len]) (use facts in blast)+
  finally show ?thesis by (simp add: INSTPAT_def pd)
qed

lemma INSTPAT_mask:
  "valid_pattern p \<Longrightarrow> length (pattern_bits p) \<le> 32 \<Longrightarrow>
   INSTPAT p w = Inr (w AND pat_mask (pattern_bits p) = pat_key (pattern_bits p))"
  by (simp add: INSTPAT_bits_match bits_match_mask)

text \<open>Two patterns that fix some bit differently never match the same word.\<close>

fun pat_conflict :: "string \<Rightarrow> string \<Rightarrow> bool" where
  "pat_conflict (c # cs) (d # ds) =
     (c \<noteq> CHR ''?'' \<and> d \<noteq> CHR ''?'' \<and> c \<noteq> d \<or> pat_conflict cs ds)"
| "pat_conflict _ _ = False"

lemma pat_conflict_nth:
  "pat_conflict bs cs \<Longrightarrow> length bs = length cs \<Longrightarrow>
   \<exists>i < length bs. bs ! i \<noteq> CHR ''?'' \<and> cs ! i \<noteq> CHR ''?'' \<and> bs ! i \<noteq> cs ! i"
proof (induction bs cs rule: pat_conflict.induct)
  case (1 c cs d ds)
  show ?case
  proof (cases "c \<noteq> CHR ''?'' \<and> d \<noteq> CHR ''?'' \<and> c \<noteq> d")
    case True
    then show ?thesis by (intro exI [of _ 0]) auto
  next
    case False
    with 1 obtain i where "i < length cs" "cs ! i \<noteq> CHR ''?''" "ds ! i \<noteq> CHR ''?''" "cs ! i \<noteq> ds ! i"
      by auto
    then show ?thesis by (intro exI [of _ "Suc i"]) auto
  qed
qed auto

lemma pat_conflict_disjoint:
  assumes "pat_conflict bs cs" and "length bs = length cs"
    and "set bs \<subseteq> {CHR ''0'', CHR ''1'', CHR ''?''}" "set cs \<subseteq> {CHR ''0'', CHR ''1'', CHR ''?''}"
    and "bits_match bs w"
  shows "\<not> bits_match cs w"
proof
  assume m: "bits_match cs w"
  from pat_conflict_nth [OF assms(1,2)] obtain i where i: "i < length bs"
    "bs ! i \<noteq> CHR ''?''" "cs ! i \<noteq> CHR ''?''" "bs ! i \<noteq> cs ! i" by auto
  have "bs ! i \<in> set bs" "cs ! i \<in> set cs"
    using i(1) assms(2) by auto
  then have "bs ! i \<in> {CHR ''0'', CHR ''1''}" "cs ! i \<in> {CHR ''0'', CHR ''1''}"
    using assms(3,4) i(2,3) by blast+
  then show False
    using i m assms(2,5) by (auto simp: bits_match_def)
qed

section \<open>Fields\<close>

text \<open>
  A 32-bit pattern constrains the fields of the instruction one by one: a field of digits is an
  equation, a field of question marks says nothing.
\<close>

lemma bits_match_append:
  "bits_match (xs @ ys) w \<longleftrightarrow> bits_match xs (drop_bit (length ys) w) \<and> bits_match ys w"
proof (intro iffI conjI)
  assume m: "bits_match (xs @ ys) w"
  show "bits_match xs (drop_bit (length ys) w)"
    unfolding bits_match_def
  proof (intro allI impI)
    fix i
    assume "i < length xs" "xs ! i \<noteq> CHR ''?''"
    then show "bit (drop_bit (length ys) w) (length xs - 1 - i) \<longleftrightarrow> xs ! i = CHR ''1''"
      using m [unfolded bits_match_def, rule_format, of i]
      by (simp add: nth_append bit_simps algebra_simps Suc_leI)
  qed
  show "bits_match ys w"
    unfolding bits_match_def
  proof (intro allI impI)
    fix i
    assume "i < length ys" "ys ! i \<noteq> CHR ''?''"
    then show "bit w (length ys - 1 - i) \<longleftrightarrow> ys ! i = CHR ''1''"
      using m [unfolded bits_match_def, rule_format, of "length xs + i"] by (simp add: nth_append)
  qed
next
  assume m: "bits_match xs (drop_bit (length ys) w) \<and> bits_match ys w"
  show "bits_match (xs @ ys) w"
    unfolding bits_match_def
  proof (intro allI impI)
    fix i
    assume i: "i < length (xs @ ys)" "(xs @ ys) ! i \<noteq> CHR ''?''"
    show "bit w (length (xs @ ys) - 1 - i) \<longleftrightarrow> (xs @ ys) ! i = CHR ''1''"
    proof (cases "i < length xs")
      case True
      then show ?thesis
        using i m [THEN conjunct1, unfolded bits_match_def, rule_format, of i]
        by (simp add: nth_append bit_simps algebra_simps Suc_leI)
    next
      case False
      then show ?thesis
        using i m [THEN conjunct2, unfolded bits_match_def, rule_format, of "i - length xs"]
        by (auto simp: nth_append add.commute)
    qed
  qed
qed

lemma bits_match_free: "set bs \<subseteq> {CHR ''?''} \<Longrightarrow> bits_match bs w"
  by (auto simp: bits_match_def subset_iff)

lemma bits_match_digits:
  assumes "CHR ''?'' \<notin> set bs" and "length bs \<le> 32"
  shows "bits_match bs w \<longleftrightarrow> take_bit (length bs) w = pat_key bs"
proof -
  have "bs ! (length bs - 1 - j) \<noteq> CHR ''?''" if "j < length bs" for j
  proof -
    have "bs ! (length bs - 1 - j) \<in> set bs" using that by (intro nth_mem) linarith
    then show ?thesis using assms(1) by metis
  qed
  then have "pat_mask bs = mask (length bs)"
    using assms(2) by (intro bit_word_eqI) (auto simp: bit_pat_mask bit_simps)
  then show ?thesis
    using assms by (simp add: bits_match_mask take_bit_eq_mask)
qed

text \<open>The fields of the base instruction formats.\<close>

definition opcode :: "u32 \<Rightarrow> u32" where "opcode w = take_bit 7 w"
definition rd_field :: "u32 \<Rightarrow> u32" where "rd_field w = take_bit 5 (drop_bit 7 w)"
definition funct3 :: "u32 \<Rightarrow> u32" where "funct3 w = take_bit 3 (drop_bit 12 w)"
definition rs1_field :: "u32 \<Rightarrow> u32" where "rs1_field w = take_bit 5 (drop_bit 15 w)"
definition rs2_field :: "u32 \<Rightarrow> u32" where "rs2_field w = take_bit 5 (drop_bit 20 w)"
definition funct7 :: "u32 \<Rightarrow> u32" where "funct7 w = drop_bit 25 w"

text \<open>\<open>field_ok seg v\<close>: the digits \<open>seg\<close> allow the field value \<open>v\<close>.\<close>

definition field_ok :: "string \<Rightarrow> u32 \<Rightarrow> bool" where
  "field_ok seg v \<longleftrightarrow> list_all (\<lambda>c. c = CHR ''?'') seg \<or> v = pat_key seg"

definition uniform :: "string \<Rightarrow> bool" where
  "uniform seg \<longleftrightarrow> list_all (\<lambda>c. c = CHR ''?'') seg \<or> list_all (\<lambda>c. c \<noteq> CHR ''?'') seg"

lemma bits_match_field:
  assumes "uniform seg" and "length seg \<le> 32"
  shows "bits_match seg w \<longleftrightarrow> field_ok seg (take_bit (length seg) w)"
proof (cases "list_all (\<lambda>c. c = CHR ''?'') seg")
  case True
  then have "set seg \<subseteq> {CHR ''?''}" by (auto simp: list_all_iff)
  with True show ?thesis by (simp add: bits_match_free field_ok_def)
next
  case False
  with assms(1) have "CHR ''?'' \<notin> set seg"
    by (auto simp: uniform_def list_all_iff)
  with False assms(2) show ?thesis by (auto simp: bits_match_digits field_ok_def)
qed

text \<open>The segments of a pattern for the six fields, and the test they give.\<close>

fun pat_segments :: "string \<Rightarrow> string list" where
  "pat_segments bs = [take 7 bs, take 5 (drop 7 bs), take 5 (drop 12 bs), take 3 (drop 17 bs),
     take 5 (drop 20 bs), drop 25 bs]"

definition fields_of :: "u32 \<Rightarrow> u32 list" where
  "fields_of w = [funct7 w, rs2_field w, rs1_field w, funct3 w, rd_field w, opcode w]"

definition field_pattern :: "string \<Rightarrow> bool" where
  "field_pattern p \<longleftrightarrow> valid_pattern p \<and> length (pattern_bits p) = 32
     \<and> list_all uniform (pat_segments (pattern_bits p))"

lemma INSTPAT_fields:
  assumes "field_pattern p"
  shows "INSTPAT p w = Inr (list_all2 field_ok (pat_segments (pattern_bits p)) (fields_of w))"
proof -
  let ?bs = "pattern_bits p"
  have len: "length ?bs = 32" and v: "valid_pattern p" and u: "list_all uniform (pat_segments ?bs)"
    using assms by (auto simp: field_pattern_def)
  have split: "?bs = take 7 ?bs @ take 5 (drop 7 ?bs) @ take 5 (drop 12 ?bs) @ take 3 (drop 17 ?bs)
      @ take 5 (drop 20 ?bs) @ drop 25 ?bs"
    using append_take_drop_id [of 7 ?bs] append_take_drop_id [of 5 "drop 7 ?bs"]
      append_take_drop_id [of 5 "drop 12 ?bs"] append_take_drop_id [of 3 "drop 17 ?bs"]
      append_take_drop_id [of 5 "drop 20 ?bs"]
    by simp
  have seven: "take_bit 7 (drop_bit 25 w) = drop_bit 25 w"
    by (rule bit_word_eqI) (auto simp: bit_simps dest: bit_imp_le_length)
  have "bits_match ?bs w \<longleftrightarrow>
      bits_match (take 7 ?bs) (drop_bit 25 w) \<and> bits_match (take 5 (drop 7 ?bs)) (drop_bit 20 w)
    \<and> bits_match (take 5 (drop 12 ?bs)) (drop_bit 15 w) \<and> bits_match (take 3 (drop 17 ?bs)) (drop_bit 12 w)
    \<and> bits_match (take 5 (drop 20 ?bs)) (drop_bit 7 w) \<and> bits_match (drop 25 ?bs) w"
    by (subst split) (simp only: bits_match_append length_append length_take length_drop len, simp)
  also have "\<dots> \<longleftrightarrow> list_all2 field_ok (pat_segments ?bs) (fields_of w)"
    using u len seven
    by (simp add: bits_match_field fields_of_def opcode_def rd_field_def funct3_def rs1_field_def
        rs2_field_def funct7_def)
  finally show ?thesis using v by (simp add: INSTPAT_bits_match)
qed

end
