(* ===== verification/Riscv_Isa.thy ===== *)
theory Riscv_Isa
  imports Paddr Decode_Pattern "HOL-Library.Signed_Division"
begin

text \<open>
  The RISC-V guest: \<open>src/isa/riscv32\<close> with the instruction fetch of \<open>include/cpu/ifetch.h\<close> and the
  host calls of \<open>src/engine/interpreter/hostcall.c\<close>. The table \<open>instpats\<close> lists the \<open>INSTPAT\<close>
  lines of \<open>decode_exec\<close> in their order (pattern, name, operand type), and \<open>exec_body\<close> holds their
  bodies. The log messages of \<open>CONFIG_FTRACE\<close> and \<open>CONFIG_ETRACE\<close> are not part of the state.
\<close>

section \<open>Registers\<close>

definition regs :: "string list" where
  "regs = [''$0'', ''ra'', ''sp'', ''gp'', ''tp'', ''t0'', ''t1'', ''t2'',
     ''s0'', ''s1'', ''a0'', ''a1'', ''a2'', ''a3'', ''a4'', ''a5'',
     ''a6'', ''a7'', ''s2'', ''s3'', ''s4'', ''s5'', ''s6'', ''s7'',
     ''s8'', ''s9'', ''s10'', ''s11'', ''t3'', ''t4'', ''t5'', ''t6'']"

definition check_reg_idx :: "config \<Rightarrow> nat \<Rightarrow> nat result" where
  "check_reg_idx c idx =
     bindE (if CONFIG_RT_CHECK c then assertE (idx < RISCV_GPR_NUM c) else Inr ()) (\<lambda>_. Inr idx)"

text \<open>\<open>gpr(idx)\<close> read and assigned.\<close>

definition R :: "config \<Rightarrow> nat \<Rightarrow> ('r, u32) M" where
  "R c idx = bindM (liftM (check_reg_idx c idx)) (\<lambda>i.
     bindM (getsM (\<lambda>s. gpr (cpu s))) (\<lambda>g. if i < length g then retM (g ! i) else failM Out_of_bounds))"

definition set_R :: "config \<Rightarrow> nat \<Rightarrow> u32 \<Rightarrow> ('r, unit) M" where
  "set_R c idx v = bindM (liftM (check_reg_idx c idx)) (\<lambda>i.
     bindM (getsM (\<lambda>s. gpr (cpu s))) (\<lambda>g.
       if i < length g then modifyM (\<lambda>s. s\<lparr>cpu := (cpu s)\<lparr>gpr := g[i := v]\<rparr>\<rparr>)
       else failM Out_of_bounds))"

text \<open>The array \<open>cpu.csr\<close> has 4096 words.\<close>

definition csr_at :: "u32 \<Rightarrow> ('r, u32) M" where
  "csr_at i = (if unat i < 4096 then getsM (\<lambda>s. csr (cpu s) (unat i)) else failM Out_of_bounds)"

definition set_csr :: "u32 \<Rightarrow> u32 \<Rightarrow> ('r, unit) M" where
  "set_csr i v = (if unat i < 4096
     then modifyM (\<lambda>s. s\<lparr>cpu := (cpu s)\<lparr>csr := (csr (cpu s))(unat i := v)\<rparr>\<rparr>) else failM Out_of_bounds)"

definition reg_name :: "config \<Rightarrow> nat \<Rightarrow> string result" where
  "reg_name c idx = bindE (check_reg_idx c idx)
     (\<lambda>i. if i < length regs then Inr (regs ! i) else Inl Out_of_bounds)"

text \<open>
  \<open>isa_reg_str2val\<close> compares with the 32 names in order; it returns the value and whether the name
  was found. With \<open>CONFIG_RVE\<close> the names of the upper half index past the 16 registers.
\<close>

fun reg_search :: "string list \<Rightarrow> nat \<Rightarrow> string \<Rightarrow> nat option" where
  "reg_search [] i s = None"
| "reg_search (r # rs) i s = (if r = s then Some i else reg_search rs (i + 1) s)"

definition isa_reg_str2val :: "CPU_state \<Rightarrow> string \<Rightarrow> (u32 \<times> bool) result" where
  "isa_reg_str2val cp s = (case reg_search regs 0 s of
     None \<Rightarrow> Inr (0, False)
   | Some i \<Rightarrow> if i < length (gpr cp) then Inr (gpr cp ! i, True) else Inl Out_of_bounds)"

section \<open>Interrupts and address translation\<close>

definition isa_raise_intr :: "u32 \<Rightarrow> u32 \<Rightarrow> ('r, u32) M" where
  "isa_raise_intr no epc = thenM (set_csr 0x341 epc) (thenM (set_csr 0x342 no) (csr_at 0x305))"

definition INTR_EMPTY :: u32 where "INTR_EMPTY = -1"

definition isa_query_intr :: u32 where "isa_query_intr = INTR_EMPTY"

datatype mem_ret = MEM_RET_OK | MEM_RET_FAIL | MEM_RET_CROSS_PAGE

definition isa_mmu_translate :: "u32 \<Rightarrow> int \<Rightarrow> int \<Rightarrow> mem_ret" where
  "isa_mmu_translate vaddr len type = MEM_RET_FAIL"

section \<open>Fetching\<close>

record Decode =
  d_pc :: u32
  snpc :: u32
  dnpc :: u32
  isa_inst :: u32

definition inst_fetch :: "config \<Rightarrow> u32 \<Rightarrow> int \<Rightarrow> ('r, u32 \<times> u32) M" where
  "inst_fetch c p len = bindM (vaddr_ifetch c p len) (\<lambda>i. retM (i, p + word_of_int len))"

definition invalid_inst :: "config \<Rightarrow> u32 \<Rightarrow> ('r, unit) M" where
  "invalid_inst c thispc =
     bindM (inst_fetch c thispc 4) (\<lambda>(t0, p). bindM (inst_fetch c p 4) (\<lambda>(t1, p').
       set_nemu_state c NEMU_ABORT thispc (-1)))"

definition NEMUTRAP :: "config \<Rightarrow> u32 \<Rightarrow> u32 \<Rightarrow> ('r, unit) M" where
  "NEMUTRAP c thispc code = set_nemu_state c NEMU_END thispc code"

definition INV :: "config \<Rightarrow> u32 \<Rightarrow> ('r, unit) M" where
  "INV c thispc = invalid_inst c thispc"

section \<open>Operands\<close>

datatype inst_type =
  TYPE_I | TYPE_U | TYPE_S | TYPE_N | TYPE_R | TYPE_J | TYPE_B | TYPE_SH | TYPE_CSRI

definition immI :: "u32 \<Rightarrow> u32" where
  "immI i = ucast (SEXT (BITS i 31 20) 12)"

definition immU :: "u32 \<Rightarrow> u32" where
  "immU i = ucast (push_bit 12 (SEXT (BITS i 31 12) 20))"

definition immS :: "u32 \<Rightarrow> u32" where
  "immS i = ucast (push_bit 5 (SEXT (BITS i 31 25) 7) OR BITS i 11 7)"

definition immJ :: "u32 \<Rightarrow> u32" where
  "immJ i = ucast (push_bit 20 (SEXT (BITS i 31 31) 1) OR push_bit 12 (BITS i 19 12)
     OR push_bit 11 (BITS i 20 20) OR push_bit 1 (BITS i 30 21))"

definition immB :: "u32 \<Rightarrow> u32" where
  "immB i = ucast ((push_bit 12 (SEXT (BITS i 31 31) 1) OR push_bit 5 (BITS i 30 25))
     OR push_bit 1 (BITS i 11 8) OR push_bit 11 (BITS i 7 7))"

definition immSH :: "u32 \<Rightarrow> u32" where
  "immSH i = ucast (BITS i 24 20)"

definition immCSRI :: "u32 \<Rightarrow> u32" where
  "immCSRI i = ucast (BITS i 31 20)"

record operands =
  rd :: nat
  src1 :: u32
  src2 :: u32
  imm :: u32

definition decode_operand :: "config \<Rightarrow> Decode \<Rightarrow> inst_type \<Rightarrow> ('r, operands) M" where
  "decode_operand c s type =
     (let i = isa_inst s;
          rs1 = unat (BITS i 19 15);
          rs2 = unat (BITS i 24 20);
          ops = \<lparr>rd = unat (BITS i 11 7), src1 = 0, src2 = 0, imm = 0\<rparr>;
          src1R = (\<lambda>k. bindM (R c rs1) (\<lambda>v. k (ops\<lparr>src1 := v\<rparr>)));
          src12R = (\<lambda>k. src1R (\<lambda>p. bindM (R c rs2) (\<lambda>v. k (p\<lparr>src2 := v\<rparr>))))
      in case type of
           TYPE_I \<Rightarrow> src1R (\<lambda>p. retM (p\<lparr>imm := immI i\<rparr>))
         | TYPE_R \<Rightarrow> src12R retM
         | TYPE_U \<Rightarrow> retM (ops\<lparr>imm := immU i\<rparr>)
         | TYPE_S \<Rightarrow> src12R (\<lambda>p. retM (p\<lparr>imm := immS i\<rparr>))
         | TYPE_N \<Rightarrow> retM ops
         | TYPE_J \<Rightarrow> retM (ops\<lparr>imm := immJ i\<rparr>)
         | TYPE_B \<Rightarrow> src12R (\<lambda>p. retM (p\<lparr>imm := immB i\<rparr>))
         | TYPE_SH \<Rightarrow> src1R (\<lambda>p. retM (p\<lparr>imm := immSH i\<rparr>))
         | TYPE_CSRI \<Rightarrow> src1R (\<lambda>p. retM (p\<lparr>imm := immCSRI i\<rparr>)))"

section \<open>The instruction table\<close>

datatype inst_name =
    I_auipc | I_lui | I_lbu | I_lb | I_lh | I_lw | I_lhu | I_sltiu | I_srli | I_slli | I_srai
  | I_sb | I_sh | I_sw | I_add | I_fence | I_sll | I_slt | I_sltu | I_xor | I_srl | I_sra | I_or
  | I_and | I_sub | I_mul | I_mulh | I_mulhsu | I_mulhu | I_div | I_divu | I_rem | I_remu
  | I_addi | I_slti | I_xori | I_ori | I_andi | I_jalr | I_jal | I_bne | I_beq | I_blt | I_bge
  | I_bltu | I_bgeu | I_ebreak | I_ecall | I_csrrw | I_csrrs | I_mret | I_inv

definition instpats :: "(string \<times> inst_name \<times> inst_type) list" where
  "instpats = [
    (''??????? ????? ????? ??? ????? 00101 11'', I_auipc, TYPE_U),
    (''??????? ????? ????? ??? ????? 01101 11'', I_lui, TYPE_U),
    (''??????? ????? ????? 100 ????? 00000 11'', I_lbu, TYPE_I),
    (''??????? ????? ????? 000 ????? 00000 11'', I_lb, TYPE_I),
    (''??????? ????? ????? 001 ????? 00000 11'', I_lh, TYPE_I),
    (''??????? ????? ????? 010 ????? 00000 11'', I_lw, TYPE_I),
    (''??????? ????? ????? 101 ????? 00000 11'', I_lhu, TYPE_I),
    (''??????? ????? ????? 011 ????? 00100 11'', I_sltiu, TYPE_I),
    (''0000000 ????? ????? 101 ????? 00100 11'', I_srli, TYPE_SH),
    (''0000000 ????? ????? 001 ????? 00100 11'', I_slli, TYPE_SH),
    (''0100000 ????? ????? 101 ????? 00100 11'', I_srai, TYPE_SH),
    (''??????? ????? ????? 000 ????? 01000 11'', I_sb, TYPE_S),
    (''??????? ????? ????? 001 ????? 01000 11'', I_sh, TYPE_S),
    (''??????? ????? ????? 010 ????? 01000 11'', I_sw, TYPE_S),
    (''0000000 ????? ????? 000 ????? 01100 11'', I_add, TYPE_R),
    (''??????? ????? ????? 001 ????? 00011 11'', I_fence, TYPE_I),
    (''0000000 ????? ????? 001 ????? 01100 11'', I_sll, TYPE_R),
    (''0000000 ????? ????? 010 ????? 01100 11'', I_slt, TYPE_R),
    (''0000000 ????? ????? 011 ????? 01100 11'', I_sltu, TYPE_R),
    (''0000000 ????? ????? 100 ????? 01100 11'', I_xor, TYPE_R),
    (''0000000 ????? ????? 101 ????? 01100 11'', I_srl, TYPE_R),
    (''0100000 ????? ????? 101 ????? 01100 11'', I_sra, TYPE_R),
    (''0000000 ????? ????? 110 ????? 01100 11'', I_or, TYPE_R),
    (''0000000 ????? ????? 111 ????? 01100 11'', I_and, TYPE_R),
    (''0100000 ????? ????? 000 ????? 01100 11'', I_sub, TYPE_R),
    (''0000001 ????? ????? 000 ????? 01100 11'', I_mul, TYPE_R),
    (''0000001 ????? ????? 001 ????? 01100 11'', I_mulh, TYPE_R),
    (''0000001 ????? ????? 010 ????? 01100 11'', I_mulhsu, TYPE_R),
    (''0000001 ????? ????? 011 ????? 01100 11'', I_mulhu, TYPE_R),
    (''0000001 ????? ????? 100 ????? 01100 11'', I_div, TYPE_R),
    (''0000001 ????? ????? 101 ????? 01100 11'', I_divu, TYPE_R),
    (''0000001 ????? ????? 110 ????? 01100 11'', I_rem, TYPE_R),
    (''0000001 ????? ????? 111 ????? 01100 11'', I_remu, TYPE_R),
    (''??????? ????? ????? 000 ????? 00100 11'', I_addi, TYPE_I),
    (''??????? ????? ????? 010 ????? 00100 11'', I_slti, TYPE_I),
    (''??????? ????? ????? 100 ????? 00100 11'', I_xori, TYPE_I),
    (''??????? ????? ????? 110 ????? 00100 11'', I_ori, TYPE_I),
    (''??????? ????? ????? 111 ????? 00100 11'', I_andi, TYPE_I),
    (''??????? ????? ????? 000 ????? 11001 11'', I_jalr, TYPE_I),
    (''??????? ????? ????? ??? ????? 11011 11'', I_jal, TYPE_J),
    (''??????? ????? ????? 001 ????? 11000 11'', I_bne, TYPE_B),
    (''??????? ????? ????? 000 ????? 11000 11'', I_beq, TYPE_B),
    (''??????? ????? ????? 100 ????? 11000 11'', I_blt, TYPE_B),
    (''??????? ????? ????? 101 ????? 11000 11'', I_bge, TYPE_B),
    (''??????? ????? ????? 110 ????? 11000 11'', I_bltu, TYPE_B),
    (''??????? ????? ????? 111 ????? 11000 11'', I_bgeu, TYPE_B),
    (''0000000 00001 00000 000 00000 11100 11'', I_ebreak, TYPE_N),
    (''0000000 00000 00000 000 00000 11100 11'', I_ecall, TYPE_N),
    (''??????? ????? ????? 001 ????? 11100 11'', I_csrrw, TYPE_CSRI),
    (''??????? ????? ????? 010 ????? 11100 11'', I_csrrs, TYPE_CSRI),
    (''0011000 00010 00000 000 00000 11100 11'', I_mret, TYPE_N),
    (''??????? ????? ????? ??? ????? ????? ??'', I_inv, TYPE_N)]"

section \<open>The instruction bodies\<close>

text \<open>The bodies work on the decode record, whose \<open>dnpc\<close> the control transfers assign.\<close>

definition set_rd :: "config \<Rightarrow> operands \<Rightarrow> Decode \<Rightarrow> u32 \<Rightarrow> ('r, Decode) M" where
  "set_rd c p s v = thenM (set_R c (rd p) v) (retM s)"

definition load_rd :: "config \<Rightarrow> operands \<Rightarrow> Decode \<Rightarrow> int \<Rightarrow> (u32 \<Rightarrow> u32) \<Rightarrow> ('r, Decode) M" where
  "load_rd c p s len ext = bindM (vaddr_read c (src1 p + imm p) len) (\<lambda>v. set_rd c p s (ext v))"

definition store_src2 :: "config \<Rightarrow> operands \<Rightarrow> Decode \<Rightarrow> int \<Rightarrow> ('r, Decode) M" where
  "store_src2 c p s len = thenM (vaddr_write c (src1 p + imm p) len (src2 p)) (retM s)"

definition branch_if :: "bool \<Rightarrow> operands \<Rightarrow> Decode \<Rightarrow> ('r, Decode) M" where
  "branch_if b p s = retM (s\<lparr>dnpc := (if b then d_pc s + imm p else dnpc s)\<rparr>)"

definition INT32_MIN :: u32 where "INT32_MIN = 0x80000000"

fun exec_body :: "config \<Rightarrow> inst_name \<Rightarrow> operands \<Rightarrow> Decode \<Rightarrow> ('r, Decode) M" where
  "exec_body c I_auipc p s = set_rd c p s (d_pc s + imm p)"
| "exec_body c I_lui p s = set_rd c p s (imm p)"
| "exec_body c I_lbu p s = load_rd c p s 1 (\<lambda>v. v)"
| "exec_body c I_lb p s = load_rd c p s 1 (\<lambda>v. ucast (SEXT (ucast v) 8))"
| "exec_body c I_lh p s = load_rd c p s 2 (\<lambda>v. ucast (SEXT (ucast v) 16))"
| "exec_body c I_lw p s = load_rd c p s 4 (\<lambda>v. v)"
| "exec_body c I_lhu p s = load_rd c p s 2 (\<lambda>v. v)"
| "exec_body c I_sltiu p s = set_rd c p s (of_bool (src1 p < imm p))"
| "exec_body c I_srli p s = set_rd c p s (drop_bit (unat (imm p)) (src1 p))"
| "exec_body c I_slli p s = set_rd c p s (push_bit (unat (imm p)) (src1 p))"
| "exec_body c I_srai p s = set_rd c p s (signed_drop_bit (unat (imm p)) (src1 p))"
| "exec_body c I_sb p s = store_src2 c p s 1"
| "exec_body c I_sh p s = store_src2 c p s 2"
| "exec_body c I_sw p s = store_src2 c p s 4"
| "exec_body c I_add p s = set_rd c p s (src1 p + src2 p)"
| "exec_body c I_fence p s = retM s"
| "exec_body c I_sll p s = set_rd c p s (push_bit (unat (src2 p AND 0x1f)) (src1 p))"
| "exec_body c I_slt p s = set_rd c p s (of_bool (sint (src1 p) < sint (src2 p)))"
| "exec_body c I_sltu p s = set_rd c p s (of_bool (src1 p < src2 p))"
| "exec_body c I_xor p s = set_rd c p s (src1 p XOR src2 p)"
| "exec_body c I_srl p s = set_rd c p s (drop_bit (unat (src2 p AND 0x1f)) (src1 p))"
| "exec_body c I_sra p s = set_rd c p s (signed_drop_bit (unat (src2 p AND 0x1f)) (src1 p))"
| "exec_body c I_or p s = set_rd c p s (src1 p OR src2 p)"
| "exec_body c I_and p s = set_rd c p s (src1 p AND src2 p)"
| "exec_body c I_sub p s = set_rd c p s (src1 p - src2 p)"
| "exec_body c I_mul p s = set_rd c p s (src1 p * src2 p)"
| "exec_body c I_mulh p s = set_rd c p s
     (ucast (signed_drop_bit 32 ((scast (src1 p) :: u64) * scast (src2 p))))"
| "exec_body c I_mulhsu p s = set_rd c p s
     (ucast (drop_bit 32 ((scast (src1 p) :: u64) * ucast (src2 p))))"
| "exec_body c I_mulhu p s = set_rd c p s
     (ucast (drop_bit 32 ((ucast (src1 p) :: u64) * ucast (src2 p))))"
| "exec_body c I_div p s = set_rd c p s
     (if src2 p = 0 then -1
      else if src1 p = INT32_MIN \<and> src2 p = -1 then INT32_MIN
      else word_of_int (sint (src1 p) sdiv sint (src2 p)))"
| "exec_body c I_divu p s = set_rd c p s (if src2 p = 0 then -1 else src1 p div src2 p)"
| "exec_body c I_rem p s = set_rd c p s
     (if src2 p = 0 then src1 p
      else if src1 p = INT32_MIN \<and> src2 p = -1 then 0
      else word_of_int (sint (src1 p) smod sint (src2 p)))"
| "exec_body c I_remu p s = set_rd c p s (if src2 p = 0 then src1 p else src1 p mod src2 p)"
| "exec_body c I_addi p s = set_rd c p s (src1 p + imm p)"
| "exec_body c I_slti p s = set_rd c p s (of_bool (sint (src1 p) < sint (imm p)))"
| "exec_body c I_xori p s = set_rd c p s (src1 p XOR imm p)"
| "exec_body c I_ori p s = set_rd c p s (src1 p OR imm p)"
| "exec_body c I_andi p s = set_rd c p s (src1 p AND imm p)"
| "exec_body c I_jalr p s =
     thenM (set_R c (rd p) (d_pc s + 4)) (retM (s\<lparr>dnpc := (src1 p + imm p) AND NOT 1\<rparr>))"
| "exec_body c I_jal p s =
     thenM (set_R c (rd p) (d_pc s + 4)) (retM (s\<lparr>dnpc := d_pc s + imm p\<rparr>))"
| "exec_body c I_bne p s = branch_if (src1 p \<noteq> src2 p) p s"
| "exec_body c I_beq p s = branch_if (src1 p = src2 p) p s"
| "exec_body c I_blt p s = branch_if (sint (src1 p) < sint (src2 p)) p s"
| "exec_body c I_bge p s = branch_if (sint (src1 p) \<ge> sint (src2 p)) p s"
| "exec_body c I_bltu p s = branch_if (src1 p < src2 p) p s"
| "exec_body c I_bgeu p s = branch_if (src1 p \<ge> src2 p) p s"
| "exec_body c I_ebreak p s = bindM (R c 10) (\<lambda>a0. thenM (NEMUTRAP c (d_pc s) a0) (retM s))"
| "exec_body c I_ecall p s = bindM (isa_raise_intr 11 (d_pc s)) (\<lambda>v. retM (s\<lparr>dnpc := v\<rparr>))"
| "exec_body c I_csrrw p s =
     thenM (whenM (rd p \<noteq> 0) (bindM (csr_at (imm p)) (set_R c (rd p))))
       (thenM (set_csr (imm p) (src1 p)) (retM s))"
| "exec_body c I_csrrs p s =
     thenM (bindM (csr_at (imm p)) (set_R c (rd p)))
       (thenM (whenM (src1 p \<noteq> 0) (bindM (csr_at (imm p)) (\<lambda>v. set_csr (imm p) (v OR src1 p)))) (retM s))"
| "exec_body c I_mret p s = bindM (csr_at 0x341) (\<lambda>v. retM (s\<lparr>dnpc := v\<rparr>))"
| "exec_body c I_inv p s = thenM (INV c (d_pc s)) (retM s)"

section \<open>Decoding and executing\<close>

text \<open>The chain of \<open>INSTPAT\<close> tests: the first pattern that matches runs its body.\<close>

fun run_instpats :: "config \<Rightarrow> (string \<times> inst_name \<times> inst_type) list \<Rightarrow> Decode \<Rightarrow> ('r, Decode) M" where
  "run_instpats c [] s = retM s"
| "run_instpats c ((pat, name, type) # ps) s =
     bindM (liftM (INSTPAT pat (isa_inst s))) (\<lambda>hit.
       if hit then bindM (decode_operand c s type) (\<lambda>p. exec_body c name p s)
       else run_instpats c ps s)"

definition decode_exec :: "config \<Rightarrow> Decode \<Rightarrow> ('r, Decode) M" where
  "decode_exec c s =
     bindM (run_instpats c instpats (s\<lparr>dnpc := snpc s\<rparr>)) (\<lambda>s'. thenM (set_R c 0 0) (retM s'))"

definition isa_exec_once :: "config \<Rightarrow> Decode \<Rightarrow> ('r, Decode) M" where
  "isa_exec_once c s =
     bindM (inst_fetch c (snpc s) 4) (\<lambda>(i, p). decode_exec c (s\<lparr>isa_inst := i, snpc := p\<rparr>))"

section \<open>Reset\<close>

definition img :: "u32 list" where
  "img = [0x00000297, 0x00028823, 0x0102c503, 0x00100073, 0xdeadbeef]"

definition restart :: "config \<Rightarrow> ('r, unit) M" where
  "restart c = thenM (modifyM (\<lambda>s. s\<lparr>cpu := (cpu s)\<lparr>pc := RESET_VECTOR c\<rparr>\<rparr>))
     (bindM (getsM (\<lambda>s. gpr (cpu s))) (\<lambda>g.
        if 0 < length g then modifyM (\<lambda>s. s\<lparr>cpu := (cpu s)\<lparr>gpr := g[0 := 0]\<rparr>\<rparr>)
        else failM Out_of_bounds))"

text \<open>\<open>memcpy\<close> of bytes to a host pointer.\<close>

definition memcpy_host :: "config \<Rightarrow> hptr \<Rightarrow> u8 list \<Rightarrow> ('r, unit) M" where
  "memcpy_host c p bs = (if ptr_ok c p (int (length bs))
     then modifyM (\<lambda>s. s\<lparr>mem := store (mem s) p bs\<rparr>) else failM Out_of_bounds)"

definition init_isa :: "config \<Rightarrow> ('r, unit) M" where
  "init_isa c = bindM (liftM (guest_to_host c (RESET_VECTOR c))) (\<lambda>p.
     thenM (memcpy_host c p (concat (map (to_bytes 4) img))) (restart c))"

section \<open>Comparison with the reference design\<close>

fun check_gprs :: "nat \<Rightarrow> u32 list \<Rightarrow> u32 list \<Rightarrow> bool result" where
  "check_gprs 0 g h = Inr True"
| "check_gprs (Suc n) g h =
     (let i = 31 - n in
      if i < length g \<and> i < length h then
        (if g ! i = h ! i then check_gprs n g h else Inr False)
      else Inl Out_of_bounds)"

definition isa_difftest_checkregs :: "CPU_state \<Rightarrow> CPU_state \<Rightarrow> u32 \<Rightarrow> bool result" where
  "isa_difftest_checkregs cp ref_r pc0 =
     bindE (check_gprs 32 (gpr cp) (gpr ref_r)) (\<lambda>b. Inr (b \<and> pc cp = pc ref_r))"

end
