(* ===== verification/Riscv_Spec.thy ===== *)
theory Riscv_Spec
  imports Riscv_Isa
begin

text \<open>
  What the RISC-V guest promises, stated as the architecture manual does: the instruction is read
  from its fields, immediates from tables of instruction bits, arithmetic is arithmetic on integers
  and register 0 reads as zero. The refinement theorem says that \<open>decode_exec\<close> implements it for
  every instruction word.
\<close>

section \<open>Immediates\<close>

definition word_of_bits :: "(nat \<Rightarrow> bool) \<Rightarrow> u32" where
  "word_of_bits f = horner_sum of_bool 2 (map f [0..<32])"

lemma bit_word_of_bits [simp]: "bit (word_of_bits f) n \<longleftrightarrow> n < 32 \<and> f n"
  by (auto simp: word_of_bits_def bit_horner_sum_bit_word_iff)

definition spec_immI :: "u32 \<Rightarrow> u32" where
  "spec_immI i = word_of_bits (\<lambda>n. if n < 11 then bit i (n + 20) else bit i 31)"

definition spec_immS :: "u32 \<Rightarrow> u32" where
  "spec_immS i = word_of_bits (\<lambda>n. if n < 5 then bit i (n + 7) else if n < 11 then bit i (n + 20)
     else bit i 31)"

definition spec_immB :: "u32 \<Rightarrow> u32" where
  "spec_immB i = word_of_bits (\<lambda>n. if n = 0 then False else if n < 5 then bit i (n + 7)
     else if n < 11 then bit i (n + 20) else if n = 11 then bit i 7 else bit i 31)"

definition spec_immU :: "u32 \<Rightarrow> u32" where
  "spec_immU i = word_of_bits (\<lambda>n. if n < 12 then False else bit i n)"

definition spec_immJ :: "u32 \<Rightarrow> u32" where
  "spec_immJ i = word_of_bits (\<lambda>n. if n = 0 then False else if n < 11 then bit i (n + 20)
     else if n = 11 then bit i 20 else if n < 20 then bit i n else bit i 31)"

lemma immI_spec: "immI i = spec_immI i"
  by (rule bit_word_eqI) (auto simp: immI_def spec_immI_def bit_simps bit_SEXT min_def add.commute)

lemma immS_spec: "immS i = spec_immS i"
proof (rule bit_word_eqI)
  fix n :: nat
  consider "n < 5" | "5 \<le> n" "n < 11" | "n = 11" | "12 \<le> n" by linarith
  then show "bit (immS i) n = bit (spec_immS i) n" if "n < LENGTH(32)"
    using that by cases (auto simp: immS_def spec_immS_def bit_simps bit_SEXT min_def add.commute)
qed

lemma immB_spec: "immB i = spec_immB i"
proof (rule bit_word_eqI)
  fix n :: nat
  consider "n = 0" | "0 < n" "n < 5" | "5 \<le> n" "n < 11" | "n = 11" | "12 \<le> n" by linarith
  then show "bit (immB i) n = bit (spec_immB i) n" if "n < LENGTH(32)"
    unfolding immB_def bit_unsigned_iff bit_or_iff bit_push_bit_iff
    using that by cases (auto simp: spec_immB_def bit_SEXT min_def add.commute)
qed

lemma immU_spec: "immU i = spec_immU i"
  by (rule bit_word_eqI) (auto simp: immU_def spec_immU_def bit_simps bit_SEXT min_def)

lemma immJ_spec: "immJ i = spec_immJ i"
proof (rule bit_word_eqI)
  fix n :: nat
  consider "n = 0" | "0 < n" "n < 11" | "n = 11" | "12 \<le> n" "n < 20" | "20 \<le> n" by linarith
  then show "bit (immJ i) n = bit (spec_immJ i) n" if "n < LENGTH(32)"
    unfolding immJ_def bit_unsigned_iff bit_or_iff bit_push_bit_iff
    using that by cases (auto simp: spec_immJ_def bit_SEXT min_def add.commute)
qed

lemma unat_BITS_field:
  "unat (BITS i 11 7) = unat (rd_field i)" "unat (BITS i 19 15) = unat (rs1_field i)"
  "unat (BITS i 24 20) = unat (rs2_field i)"
  by (simp_all add: BITS_eq rd_field_def rs1_field_def rs2_field_def unsigned_ucast_eq
      unsigned_take_bit_eq)

lemmas imm_specs = immI_spec immS_spec immB_spec immU_spec immJ_spec

lemma immSH_spec: "unat (immSH i) = unat (spec_immI i) mod 32"
proof -
  have "immSH i = take_bit 5 (spec_immI i)"
    by (rule bit_word_eqI) (auto simp: immSH_def spec_immI_def bit_simps add.commute)
  then have "unat (immSH i) = take_bit 5 (unat (spec_immI i))" by (simp only: unsigned_take_bit_eq)
  then show ?thesis by (simp add: take_bit_eq_mod)
qed

section \<open>Arithmetic\<close>

datatype alu = ADD | SUB | SLL | SLT | SLTU | XORR | SRL | SRA | ORR | ANDD
  | MUL | MULH | MULHSU | MULHU | DIVV | DIVU | REM | REMU

fun alu_spec :: "alu \<Rightarrow> u32 \<Rightarrow> u32 \<Rightarrow> u32" where
  "alu_spec ADD a b = word_of_int (uint a + uint b)"
| "alu_spec SUB a b = word_of_int (uint a - uint b)"
| "alu_spec SLL a b = word_of_int (uint a * 2 ^ (unat b mod 32))"
| "alu_spec SLT a b = (if sint a < sint b then 1 else 0)"
| "alu_spec SLTU a b = (if uint a < uint b then 1 else 0)"
| "alu_spec XORR a b = word_of_bits (\<lambda>n. bit a n \<noteq> bit b n)"
| "alu_spec SRL a b = word_of_int (uint a div 2 ^ (unat b mod 32))"
| "alu_spec SRA a b = word_of_int (sint a div 2 ^ (unat b mod 32))"
| "alu_spec ORR a b = word_of_bits (\<lambda>n. bit a n \<or> bit b n)"
| "alu_spec ANDD a b = word_of_bits (\<lambda>n. bit a n \<and> bit b n)"
| "alu_spec MUL a b = word_of_int (uint a * uint b)"
| "alu_spec MULH a b = word_of_int ((sint a * sint b) div 2 ^ 32)"
| "alu_spec MULHSU a b = word_of_int ((sint a * uint b) div 2 ^ 32)"
| "alu_spec MULHU a b = word_of_int ((uint a * uint b) div 2 ^ 32)"
| "alu_spec DIVV a b = (if b = 0 then -1 else word_of_int (sint a sdiv sint b))"
| "alu_spec DIVU a b = (if b = 0 then -1 else word_of_int (uint a div uint b))"
| "alu_spec REM a b = (if b = 0 then a else word_of_int (sint a smod sint b))"
| "alu_spec REMU a b = (if b = 0 then a else word_of_int (uint a mod uint b))"

lemma and_1f: "unat (b AND 0x1f) = unat b mod 32" for b :: u32
proof -
  have "b AND 0x1f = take_bit 5 b" by (simp add: take_bit_eq_mask mask_eq_exp_minus_1)
  then have "unat (b AND 0x1f) = take_bit 5 (unat b)" by (simp only: unsigned_take_bit_eq)
  then show ?thesis by (simp add: take_bit_eq_mod)
qed

lemma alu_add: "a + b = alu_spec ADD a b"
  by simp

lemma alu_sub: "a - b = alu_spec SUB a b"
  by simp

lemma alu_sll: "push_bit n a = alu_spec SLL a b" if "n = unat b mod 32"
  using that by (simp add: push_bit_eq_mult)

lemma alu_srl: "drop_bit n a = alu_spec SRL a b" if "n = unat b mod 32"
  unfolding that alu_spec.simps drop_bit_eq_div [symmetric]
  by (rule bit_word_eqI) (auto simp: bit_simps dest: bit_imp_le_length)

lemma alu_sra: "signed_drop_bit n a = alu_spec SRA a b" if "n = unat b mod 32" for a b :: u32
  unfolding that alu_spec.simps drop_bit_eq_div [symmetric]
  by (simp add: sint_signed_drop_bit_eq [symmetric])

lemma alu_slt: "of_bool (sint a < sint b) = alu_spec SLT a b"
  by simp

lemma alu_sltu: "of_bool (a < b) = alu_spec SLTU a b"
  by (simp add: word_less_def)

lemma alu_bitwise: "a XOR b = alu_spec XORR a b" "a OR b = alu_spec ORR a b" "a AND b = alu_spec ANDD a b"
  by (auto intro!: bit_word_eqI simp: bit_simps)

lemma alu_mul: "a * b = alu_spec MUL a b"
  by simp

text \<open>The upper half of a 64-bit product.\<close>

lemma high_word:
  fixes x :: int
  shows "(ucast (drop_bit 32 (word_of_int x :: u64)) :: u32) = word_of_int (x div 2 ^ 32)"
  unfolding drop_bit_eq_div [symmetric]
  by (rule bit_word_eqI) (auto simp: bit_simps add.commute)

lemma high_word_signed:
  fixes x :: int
  shows "(ucast (signed_drop_bit 32 (word_of_int x :: u64)) :: u32) = word_of_int (x div 2 ^ 32)"
  unfolding drop_bit_eq_div [symmetric]
  by (rule bit_word_eqI) (auto simp: bit_simps add.commute)

lemma alu_mulh: "ucast (signed_drop_bit 32 ((scast a :: u64) * scast b)) = alu_spec MULH a b"
proof -
  have "(scast a :: u64) * scast b = word_of_int (sint a * sint b)" by simp
  then show ?thesis by (simp only: high_word_signed alu_spec.simps)
qed

lemma alu_mulhsu: "ucast (drop_bit 32 ((scast a :: u64) * ucast b)) = alu_spec MULHSU a b"
proof -
  have "(scast a :: u64) * ucast b = word_of_int (sint a * uint b)" by simp
  then show ?thesis by (simp only: high_word alu_spec.simps)
qed

lemma alu_mulhu: "ucast (drop_bit 32 ((ucast a :: u64) * ucast b)) = alu_spec MULHU a b"
proof -
  have "(ucast a :: u64) * ucast b = word_of_int (uint a * uint b)" by simp
  then show ?thesis by (simp only: high_word alu_spec.simps)
qed

text \<open>The overflowing division is the one whose quotient does not fit; the special case of the code
  agrees with the wrapped quotient.\<close>

lemma alu_div:
  "(if b = 0 then -1 else if a = INT32_MIN \<and> b = -1 then INT32_MIN
    else word_of_int (sint a sdiv sint b)) = alu_spec DIVV a b"
  by (auto simp: INT32_MIN_def)

lemma alu_rem:
  "(if b = 0 then a else if a = INT32_MIN \<and> b = -1 then 0
    else word_of_int (sint a smod sint b)) = alu_spec REM a b"
  by (auto simp: INT32_MIN_def signed_modulo_int_def)

lemma alu_divu: "(if b = 0 then -1 else a div b) = alu_spec DIVU a b"
  by (simp add: word_div_def)

lemma alu_remu: "(if b = 0 then a else a mod b) = alu_spec REMU a b"
  by (simp add: word_mod_def)

lemmas alu_code = alu_mulh alu_mulhsu alu_mulhu alu_div alu_rem alu_divu alu_remu

section \<open>Decoding by fields\<close>

datatype cmp = CMP_EQ | CMP_NE | CMP_LT | CMP_GE | CMP_LTU | CMP_GEU

datatype instr = Auipc | Lui | Load int bool | Store int | Op alu | Op_imm alu | Jalr | Jal
  | Branch cmp | Ebreak | Ecall | Csrrw | Csrrs | Mret | Fence_i | Illegal

definition base_alu :: "u32 \<Rightarrow> alu" where
  "base_alu f3 = (if f3 = 0 then ADD else if f3 = 1 then SLL else if f3 = 2 then SLT
     else if f3 = 3 then SLTU else if f3 = 4 then XORR else if f3 = 5 then SRL
     else if f3 = 6 then ORR else ANDD)"

definition mul_alu :: "u32 \<Rightarrow> alu" where
  "mul_alu f3 = (if f3 = 0 then MUL else if f3 = 1 then MULH else if f3 = 2 then MULHSU
     else if f3 = 3 then MULHU else if f3 = 4 then DIVV else if f3 = 5 then DIVU
     else if f3 = 6 then REM else REMU)"

definition decode_op :: "u32 \<Rightarrow> u32 \<Rightarrow> instr" where
  "decode_op f7 f3 = (if f7 = 0 then Op (base_alu f3) else if f7 = 1 then Op (mul_alu f3)
     else if f7 = 0x20 \<and> f3 = 0 then Op SUB else if f7 = 0x20 \<and> f3 = 5 then Op SRA else Illegal)"

definition decode_op_imm :: "u32 \<Rightarrow> u32 \<Rightarrow> instr" where
  "decode_op_imm f7 f3 =
     (if f3 = 1 then if f7 = 0 then Op_imm SLL else Illegal
      else if f3 = 5 then if f7 = 0 then Op_imm SRL else if f7 = 0x20 then Op_imm SRA else Illegal
      else Op_imm (base_alu f3))"

definition decode_load :: "u32 \<Rightarrow> instr" where
  "decode_load f3 = (if f3 = 0 then Load 1 True else if f3 = 1 then Load 2 True
     else if f3 = 2 then Load 4 False else if f3 = 4 then Load 1 False
     else if f3 = 5 then Load 2 False else Illegal)"

definition decode_store :: "u32 \<Rightarrow> instr" where
  "decode_store f3 = (if f3 = 0 then Store 1 else if f3 = 1 then Store 2
     else if f3 = 2 then Store 4 else Illegal)"

definition decode_branch :: "u32 \<Rightarrow> instr" where
  "decode_branch f3 = (if f3 = 0 then Branch CMP_EQ else if f3 = 1 then Branch CMP_NE
     else if f3 = 4 then Branch CMP_LT else if f3 = 5 then Branch CMP_GE
     else if f3 = 6 then Branch CMP_LTU else if f3 = 7 then Branch CMP_GEU else Illegal)"

definition decode_system :: "u32 \<Rightarrow> u32 \<Rightarrow> instr" where
  "decode_system w f3 = (if f3 = 1 then Csrrw else if f3 = 2 then Csrrs
     else if w = 0x00000073 then Ecall else if w = 0x00100073 then Ebreak
     else if w = 0x30200073 then Mret else Illegal)"

definition spec_decode :: "u32 \<Rightarrow> instr" where
  "spec_decode w =
     (let f3 = funct3 w; f7 = funct7 w; opc = opcode w in
      if opc = 0x37 then Lui else if opc = 0x17 then Auipc else if opc = 0x6f then Jal
      else if opc = 0x67 then (if f3 = 0 then Jalr else Illegal)
      else if opc = 0x63 then decode_branch f3
      else if opc = 0x03 then decode_load f3
      else if opc = 0x23 then decode_store f3
      else if opc = 0x13 then decode_op_imm f7 f3
      else if opc = 0x33 then decode_op f7 f3
      else if opc = 0x0f then (if f3 = 1 then Fence_i else Illegal)
      else if opc = 0x73 then decode_system w f3
      else Illegal)"

text \<open>The instruction a line of the table stands for.\<close>

fun instr_of :: "inst_name \<Rightarrow> instr" where
  "instr_of I_auipc = Auipc" | "instr_of I_lui = Lui"
| "instr_of I_lbu = Load 1 False" | "instr_of I_lb = Load 1 True" | "instr_of I_lh = Load 2 True"
| "instr_of I_lw = Load 4 False" | "instr_of I_lhu = Load 2 False"
| "instr_of I_sltiu = Op_imm SLTU" | "instr_of I_srli = Op_imm SRL" | "instr_of I_slli = Op_imm SLL"
| "instr_of I_srai = Op_imm SRA"
| "instr_of I_sb = Store 1" | "instr_of I_sh = Store 2" | "instr_of I_sw = Store 4"
| "instr_of I_add = Op ADD" | "instr_of I_fence = Fence_i" | "instr_of I_sll = Op SLL"
| "instr_of I_slt = Op SLT" | "instr_of I_sltu = Op SLTU" | "instr_of I_xor = Op XORR"
| "instr_of I_srl = Op SRL" | "instr_of I_sra = Op SRA" | "instr_of I_or = Op ORR"
| "instr_of I_and = Op ANDD" | "instr_of I_sub = Op SUB" | "instr_of I_mul = Op MUL"
| "instr_of I_mulh = Op MULH" | "instr_of I_mulhsu = Op MULHSU" | "instr_of I_mulhu = Op MULHU"
| "instr_of I_div = Op DIVV" | "instr_of I_divu = Op DIVU" | "instr_of I_rem = Op REM"
| "instr_of I_remu = Op REMU" | "instr_of I_addi = Op_imm ADD" | "instr_of I_slti = Op_imm SLT"
| "instr_of I_xori = Op_imm XORR" | "instr_of I_ori = Op_imm ORR" | "instr_of I_andi = Op_imm ANDD"
| "instr_of I_jalr = Jalr" | "instr_of I_jal = Jal"
| "instr_of I_bne = Branch CMP_NE" | "instr_of I_beq = Branch CMP_EQ" | "instr_of I_blt = Branch CMP_LT"
| "instr_of I_bge = Branch CMP_GE" | "instr_of I_bltu = Branch CMP_LTU" | "instr_of I_bgeu = Branch CMP_GEU"
| "instr_of I_ebreak = Ebreak" | "instr_of I_ecall = Ecall" | "instr_of I_csrrw = Csrrw"
| "instr_of I_csrrs = Csrrs" | "instr_of I_mret = Mret" | "instr_of I_inv = Illegal"

text \<open>The first line of the table whose pattern matches.\<close>

fun first_match :: "(string \<times> inst_name \<times> inst_type) list \<Rightarrow> u32 \<Rightarrow> (inst_name \<times> inst_type) option" where
  "first_match [] w = None"
| "first_match ((p, n, t) # ps) w =
     (if list_all2 field_ok (pat_segments (pattern_bits p)) (fields_of w) then Some (n, t)
      else first_match ps w)"

lemma table_patterns: "list_all (\<lambda>(p, _). field_pattern p) instpats"
  by code_simp

lemma run_instpats_first:
  assumes "list_all (\<lambda>(p, _). field_pattern p) ps"
  shows "run_instpats c ps s = (case first_match ps (isa_inst s) of None \<Rightarrow> retM s
    | Some (n, t) \<Rightarrow> bindM (decode_operand c s t) (\<lambda>p. exec_body c n p s))"
  using assms
proof (induction ps)
  case (Cons e ps)
  obtain p n t where e: "e = (p, n, t)" by (cases e)
  with Cons.prems have "field_pattern p" by simp
  with Cons e show ?case by (auto simp: INSTPAT_fields liftM_def bindM_def fun_eq_iff)
qed simp

text \<open>What each pattern of the table asks of the fields.\<close>

definition pat_conds :: "string \<Rightarrow> (u32 option) list" where
  "pat_conds p = map (\<lambda>seg. if list_all (\<lambda>c. c = CHR ''?'') seg then None else Some (pat_key seg))
     (pat_segments (pattern_bits p))"

definition conds_ok :: "(u32 option) list \<Rightarrow> u32 \<Rightarrow> bool" where
  "conds_ok cs w \<longleftrightarrow> list_all2 (\<lambda>k v. case k of None \<Rightarrow> True | Some x \<Rightarrow> v = x) cs (fields_of w)"

lemma fields_conds:
  "list_all2 field_ok (pat_segments (pattern_bits p)) (fields_of w) \<longleftrightarrow> conds_ok (pat_conds p) w"
  by (simp add: conds_ok_def pat_conds_def fields_of_def field_ok_def)

definition table_conds :: "((u32 option) list \<times> inst_name \<times> inst_type) list" where
  "table_conds = [
     ([None, None, None, None, None, Some 0x17], I_auipc, TYPE_U),
     ([None, None, None, None, None, Some 0x37], I_lui, TYPE_U),
     ([None, None, None, Some 4, None, Some 3], I_lbu, TYPE_I),
     ([None, None, None, Some 0, None, Some 3], I_lb, TYPE_I),
     ([None, None, None, Some 1, None, Some 3], I_lh, TYPE_I),
     ([None, None, None, Some 2, None, Some 3], I_lw, TYPE_I),
     ([None, None, None, Some 5, None, Some 3], I_lhu, TYPE_I),
     ([None, None, None, Some 3, None, Some 0x13], I_sltiu, TYPE_I),
     ([Some 0, None, None, Some 5, None, Some 0x13], I_srli, TYPE_SH),
     ([Some 0, None, None, Some 1, None, Some 0x13], I_slli, TYPE_SH),
     ([Some 0x20, None, None, Some 5, None, Some 0x13], I_srai, TYPE_SH),
     ([None, None, None, Some 0, None, Some 0x23], I_sb, TYPE_S),
     ([None, None, None, Some 1, None, Some 0x23], I_sh, TYPE_S),
     ([None, None, None, Some 2, None, Some 0x23], I_sw, TYPE_S),
     ([Some 0, None, None, Some 0, None, Some 0x33], I_add, TYPE_R),
     ([None, None, None, Some 1, None, Some 0xf], I_fence, TYPE_I),
     ([Some 0, None, None, Some 1, None, Some 0x33], I_sll, TYPE_R),
     ([Some 0, None, None, Some 2, None, Some 0x33], I_slt, TYPE_R),
     ([Some 0, None, None, Some 3, None, Some 0x33], I_sltu, TYPE_R),
     ([Some 0, None, None, Some 4, None, Some 0x33], I_xor, TYPE_R),
     ([Some 0, None, None, Some 5, None, Some 0x33], I_srl, TYPE_R),
     ([Some 0x20, None, None, Some 5, None, Some 0x33], I_sra, TYPE_R),
     ([Some 0, None, None, Some 6, None, Some 0x33], I_or, TYPE_R),
     ([Some 0, None, None, Some 7, None, Some 0x33], I_and, TYPE_R),
     ([Some 0x20, None, None, Some 0, None, Some 0x33], I_sub, TYPE_R),
     ([Some 1, None, None, Some 0, None, Some 0x33], I_mul, TYPE_R),
     ([Some 1, None, None, Some 1, None, Some 0x33], I_mulh, TYPE_R),
     ([Some 1, None, None, Some 2, None, Some 0x33], I_mulhsu, TYPE_R),
     ([Some 1, None, None, Some 3, None, Some 0x33], I_mulhu, TYPE_R),
     ([Some 1, None, None, Some 4, None, Some 0x33], I_div, TYPE_R),
     ([Some 1, None, None, Some 5, None, Some 0x33], I_divu, TYPE_R),
     ([Some 1, None, None, Some 6, None, Some 0x33], I_rem, TYPE_R),
     ([Some 1, None, None, Some 7, None, Some 0x33], I_remu, TYPE_R),
     ([None, None, None, Some 0, None, Some 0x13], I_addi, TYPE_I),
     ([None, None, None, Some 2, None, Some 0x13], I_slti, TYPE_I),
     ([None, None, None, Some 4, None, Some 0x13], I_xori, TYPE_I),
     ([None, None, None, Some 6, None, Some 0x13], I_ori, TYPE_I),
     ([None, None, None, Some 7, None, Some 0x13], I_andi, TYPE_I),
     ([None, None, None, Some 0, None, Some 0x67], I_jalr, TYPE_I),
     ([None, None, None, None, None, Some 0x6f], I_jal, TYPE_J),
     ([None, None, None, Some 1, None, Some 0x63], I_bne, TYPE_B),
     ([None, None, None, Some 0, None, Some 0x63], I_beq, TYPE_B),
     ([None, None, None, Some 4, None, Some 0x63], I_blt, TYPE_B),
     ([None, None, None, Some 5, None, Some 0x63], I_bge, TYPE_B),
     ([None, None, None, Some 6, None, Some 0x63], I_bltu, TYPE_B),
     ([None, None, None, Some 7, None, Some 0x63], I_bgeu, TYPE_B),
     ([Some 0, Some 1, Some 0, Some 0, Some 0, Some 0x73], I_ebreak, TYPE_N),
     ([Some 0, Some 0, Some 0, Some 0, Some 0, Some 0x73], I_ecall, TYPE_N),
     ([None, None, None, Some 1, None, Some 0x73], I_csrrw, TYPE_CSRI),
     ([None, None, None, Some 2, None, Some 0x73], I_csrrs, TYPE_CSRI),
     ([Some 0x18, Some 2, Some 0, Some 0, Some 0, Some 0x73], I_mret, TYPE_N),
     ([None, None, None, None, None, None], I_inv, TYPE_N)]"

lemma table_conds: "map (\<lambda>(p, n, t). (pat_conds p, n, t)) instpats = table_conds"
  by code_simp

fun first_cond :: "((u32 option) list \<times> inst_name \<times> inst_type) list \<Rightarrow> u32 \<Rightarrow> (inst_name \<times> inst_type) option" where
  "first_cond [] w = None"
| "first_cond ((k, n, t) # ps) w = (if conds_ok k w then Some (n, t) else first_cond ps w)"

lemma first_match_conds: "first_match ps w = first_cond (map (\<lambda>(p, n, t). (pat_conds p, n, t)) ps) w"
  by (induction ps) (auto simp: fields_conds simp del: pat_segments.simps)

text \<open>The fields determine the word.\<close>

lemma field_bits:
  fixes w v :: u32
  assumes "take_bit k (drop_bit j w) = take_bit k (drop_bit j v)" and "j \<le> n" and "n < j + k"
  shows "bit w n = bit v n"
proof -
  have "bit (take_bit k (drop_bit j w)) (n - j) = bit (take_bit k (drop_bit j v)) (n - j)"
    using assms(1) by simp
  then show ?thesis using assms(2,3) by (simp add: bit_simps less_diff_conv2)
qed

lemma full_word:
  "w = v \<longleftrightarrow> funct7 w = funct7 v \<and> rs2_field w = rs2_field v \<and> rs1_field w = rs1_field v
     \<and> funct3 w = funct3 v \<and> rd_field w = rd_field v \<and> opcode w = opcode v"
proof
  assume eq: "funct7 w = funct7 v \<and> rs2_field w = rs2_field v \<and> rs1_field w = rs1_field v
     \<and> funct3 w = funct3 v \<and> rd_field w = rd_field v \<and> opcode w = opcode v"
  then have f: "take_bit 7 (drop_bit 0 w) = take_bit 7 (drop_bit 0 v)" "take_bit 5 (drop_bit 7 w) = take_bit 5 (drop_bit 7 v)"
    "take_bit 3 (drop_bit 12 w) = take_bit 3 (drop_bit 12 v)" "take_bit 5 (drop_bit 15 w) = take_bit 5 (drop_bit 15 v)"
    "take_bit 5 (drop_bit 20 w) = take_bit 5 (drop_bit 20 v)" "take_bit 7 (drop_bit 25 w) = take_bit 7 (drop_bit 25 v)"
    by (simp_all add: funct7_def rs2_field_def rs1_field_def funct3_def rd_field_def opcode_def)
  show "w = v"
  proof (rule bit_word_eqI)
    fix n :: nat
    assume "n < LENGTH(32)"
    then consider "n < 7" | "7 \<le> n" "n < 12" | "12 \<le> n" "n < 15" | "15 \<le> n" "n < 20"
      | "20 \<le> n" "n < 25" | "25 \<le> n" "n < 32" by simp linarith
    then show "bit w n = bit v n"
      by cases (use f [THEN field_bits, of n] in simp_all)
  qed
qed simp

fun spec_type :: "instr \<Rightarrow> inst_type" where
  "spec_type Auipc = TYPE_U" | "spec_type Lui = TYPE_U" | "spec_type (Load n sg) = TYPE_I"
| "spec_type (Store n) = TYPE_S" | "spec_type (Op a) = TYPE_R"
| "spec_type (Op_imm a) = (if a = SLL \<or> a = SRL \<or> a = SRA then TYPE_SH else TYPE_I)"
| "spec_type Jalr = TYPE_I" | "spec_type Jal = TYPE_J" | "spec_type (Branch b) = TYPE_B"
| "spec_type Ebreak = TYPE_N" | "spec_type Ecall = TYPE_N" | "spec_type Csrrw = TYPE_CSRI"
| "spec_type Csrrs = TYPE_CSRI" | "spec_type Mret = TYPE_N" | "spec_type Fence_i = TYPE_I"
| "spec_type Illegal = TYPE_N"

definition view_match :: "(inst_name \<times> inst_type) option \<Rightarrow> (instr \<times> inst_type) option" where
  "view_match = map_option (\<lambda>(n, t). (instr_of n, t))"

lemma view_match_if: "view_match (if b then x else y) = (if b then view_match x else view_match y)"
  by simp

lemma view_match_Some: "view_match (Some (n, t)) = Some (instr_of n, t)"
  by (simp add: view_match_def)

lemma funct3_cases:
  "funct3 w = 0 \<or> funct3 w = 1 \<or> funct3 w = 2 \<or> funct3 w = 3 \<or> funct3 w = 4 \<or> funct3 w = 5
    \<or> funct3 w = 6 \<or> funct3 w = 7"
proof -
  have "unat (funct3 w) < 2 ^ 3" unfolding funct3_def unsigned_take_bit_eq by (rule take_bit_nat_less_exp)
  then have "unat (funct3 w) \<in> {0,1,2,3,4,5,6,7}" by (auto simp: eval_nat_numeral less_Suc_eq)
  then show ?thesis by (auto simp: word_unat_eq_iff)
qed

lemma const_fields:
  "funct7 0x73 = 0" "rs2_field 0x73 = 0" "rs1_field 0x73 = 0" "funct3 0x73 = 0" "rd_field 0x73 = 0"
  "opcode 0x73 = 0x73"
  "funct7 0x100073 = 0" "rs2_field 0x100073 = 1" "rs1_field 0x100073 = 0" "funct3 0x100073 = 0"
  "rd_field 0x100073 = 0" "opcode 0x100073 = 0x73"
  "funct7 0x30200073 = 0x18" "rs2_field 0x30200073 = 2" "rs1_field 0x30200073 = 0"
  "funct3 0x30200073 = 0" "rd_field 0x30200073 = 0" "opcode 0x30200073 = 0x73"
  by (simp_all add: funct7_def rs2_field_def rs1_field_def funct3_def rd_field_def opcode_def)

lemmas spec_decode_defs = spec_decode_def decode_branch_def decode_load_def decode_store_def
  decode_op_imm_def decode_op_def decode_system_def base_alu_def mul_alu_def Let_def

lemmas table_eval = table_conds_def first_cond.simps conds_ok_def fields_of_def list_all2_Cons
  list_all2_Nil option.case simp_thms view_match_if view_match_Some instr_of.simps

lemma table_decodes_conds:
  "view_match (first_cond table_conds w) = Some (spec_decode w, spec_type (spec_decode w))"
proof -
  consider "opcode w = 0x17" | "opcode w = 0x37" | "opcode w = 0x03" | "opcode w = 0x13"
    | "opcode w = 0x23" | "opcode w = 0x33" | "opcode w = 0x0f" | "opcode w = 0x67"
    | "opcode w = 0x6f" | "opcode w = 0x63" | "opcode w = 0x73"
    | "opcode w \<notin> {0x17, 0x37, 0x03, 0x13, 0x23, 0x33, 0x0f, 0x67, 0x6f, 0x63, 0x73}" by auto
  then show ?thesis
  proof cases
    case 11
    then show ?thesis using funct3_cases [of w]
      unfolding table_eval spec_decode_defs
      by (auto simp: full_word [of w "0x73"] full_word [of w "0x100073"]
          full_word [of w "0x30200073"] const_fields)
  qed (use funct3_cases [of w] in \<open>unfold table_eval spec_decode_defs, auto\<close>)
qed

lemma table_decodes:
  obtains n where "first_match instpats w = Some (n, spec_type (spec_decode w))" and "instr_of n = spec_decode w"
proof -
  have "view_match (first_match instpats w) = Some (spec_decode w, spec_type (spec_decode w))"
    by (simp only: first_match_conds table_conds table_decodes_conds)
  then show thesis using that by (auto simp: view_match_def)
qed

section \<open>Registers\<close>

definition xreg :: "'r nemu \<Rightarrow> nat \<Rightarrow> u32" where
  "xreg s i = gpr (cpu s) ! i"

definition set_xreg :: "nat \<Rightarrow> u32 \<Rightarrow> 'r nemu \<Rightarrow> 'r nemu" where
  "set_xreg i v s = (if i = 0 then s else s\<lparr>cpu := (cpu s)\<lparr>gpr := (gpr (cpu s))[i := v]\<rparr>\<rparr>)"

definition regs_ok :: "config \<Rightarrow> 'r nemu \<Rightarrow> bool" where
  "regs_ok c s \<longleftrightarrow> length (gpr (cpu s)) = RISCV_GPR_NUM c \<and> gpr (cpu s) ! 0 = 0"

lemma gpr_num_pos: "0 < RISCV_GPR_NUM c" "10 < RISCV_GPR_NUM c"
  by (simp_all add: RISCV_GPR_NUM_def)

lemma R_ok: "regs_ok c s \<Longrightarrow> i < RISCV_GPR_NUM c \<Longrightarrow> R c i s = Inr (xreg s i, s)"
  by (simp add: R_def check_reg_idx_def regs_ok_def xreg_def)

lemma set_R_ok:
  "regs_ok c s \<Longrightarrow> i < RISCV_GPR_NUM c \<Longrightarrow>
   set_R c i v s = Inr ((), s\<lparr>cpu := (cpu s)\<lparr>gpr := (gpr (cpu s))[i := v]\<rparr>\<rparr>)"
  by (simp add: set_R_def check_reg_idx_def regs_ok_def)

lemma set_R_length_ok:
  "length (gpr (cpu s)) = RISCV_GPR_NUM c \<Longrightarrow> i < RISCV_GPR_NUM c \<Longrightarrow>
   set_R c i v s = Inr ((), s\<lparr>cpu := (cpu s)\<lparr>gpr := (gpr (cpu s))[i := v]\<rparr>\<rparr>)"
  by (simp add: set_R_def check_reg_idx_def)

text \<open>Writing a register and resetting register 0 afterwards is a write that spares register 0.\<close>

lemma write_then_zero:
  assumes "regs_ok c s" and "i < RISCV_GPR_NUM c"
  shows "thenM (set_R c i v) (thenM (set_R c 0 0) m) s = m (set_xreg i v s)"
proof -
  have len: "length (gpr (cpu s)) = RISCV_GPR_NUM c" and pos: "0 < RISCV_GPR_NUM c"
    using assms gpr_num_pos(1) by (auto simp: regs_ok_def)
  have g: "(gpr (cpu s))[i := v, 0 := 0] = (if i = 0 then gpr (cpu s) else (gpr (cpu s))[i := v])"
    using assms len pos by (cases "gpr (cpu s)"; cases i) (auto simp: regs_ok_def)
  have "thenM (set_R c i v) (thenM (set_R c 0 0) m) s
      = m (s\<lparr>cpu := (cpu s)\<lparr>gpr := (gpr (cpu s))[i := v, 0 := 0]\<rparr>\<rparr>)"
    using assms len pos by (simp add: set_R_length_ok)
  then show ?thesis unfolding g by (simp add: set_xreg_def)
qed

lemma zero_only: "regs_ok c s \<Longrightarrow> thenM (set_R c 0 0) m s = m s"
proof -
  assume ok: "regs_ok c s"
  then have "(gpr (cpu s))[0 := 0] = gpr (cpu s)"
    using gpr_num_pos(1) [of c] by (cases "gpr (cpu s)") (auto simp: regs_ok_def)
  with ok show ?thesis using gpr_num_pos(1) [of c] by (simp add: set_R_ok)
qed

lemma regs_ok_core: "same_core s s' \<Longrightarrow> regs_ok c s \<Longrightarrow> regs_ok c s'"
  by (simp add: same_core_def regs_ok_def)

section \<open>The step of the specification\<close>

fun cmp_spec :: "cmp \<Rightarrow> u32 \<Rightarrow> u32 \<Rightarrow> bool" where
  "cmp_spec CMP_EQ a b \<longleftrightarrow> uint a = uint b"
| "cmp_spec CMP_NE a b \<longleftrightarrow> uint a \<noteq> uint b"
| "cmp_spec CMP_LT a b \<longleftrightarrow> sint a < sint b"
| "cmp_spec CMP_GE a b \<longleftrightarrow> \<not> sint a < sint b"
| "cmp_spec CMP_LTU a b \<longleftrightarrow> uint a < uint b"
| "cmp_spec CMP_GEU a b \<longleftrightarrow> \<not> uint a < uint b"

definition load_ext :: "int \<Rightarrow> bool \<Rightarrow> u32 \<Rightarrow> u32" where
  "load_ext n sg v = (if sg then word_of_int (signed_take_bit (8 * nat n - 1) (uint v)) else v)"

definition csr_index :: "u32 \<Rightarrow> nat" where
  "csr_index w = unat (drop_bit 20 w)"

definition set_csr_at :: "nat \<Rightarrow> u32 \<Rightarrow> 'r nemu \<Rightarrow> 'r nemu" where
  "set_csr_at i v s = s\<lparr>cpu := (cpu s)\<lparr>csr := (csr (cpu s))(i := v)\<rparr>\<rparr>"

definition spec_exec :: "config \<Rightarrow> Decode \<Rightarrow> ('r, u32) M" where
  "spec_exec c d = (\<lambda>s.
     let w = isa_inst d; pc0 = d_pc d; next = snpc d;
         rd = unat (rd_field w); a = xreg s (unat (rs1_field w)); b = xreg s (unat (rs2_field w));
         i = csr_index w; old = csr (cpu s) i
     in case spec_decode w of
          Auipc \<Rightarrow> Inr (next, set_xreg rd (pc0 + spec_immU w) s)
        | Lui \<Rightarrow> Inr (next, set_xreg rd (spec_immU w) s)
        | Load n sg \<Rightarrow> bindM (paddr_read c (a + spec_immI w) n)
            (\<lambda>v t. Inr (next, set_xreg rd (load_ext n sg v) t)) s
        | Store n \<Rightarrow> thenM (paddr_write c (a + spec_immS w) n b) (retM next) s
        | Op f \<Rightarrow> Inr (next, set_xreg rd (alu_spec f a b) s)
        | Op_imm f \<Rightarrow> Inr (next, set_xreg rd (alu_spec f a (spec_immI w)) s)
        | Jalr \<Rightarrow> Inr (word_of_int (2 * (uint (a + spec_immI w) div 2)), set_xreg rd (pc0 + 4) s)
        | Jal \<Rightarrow> Inr (pc0 + spec_immJ w, set_xreg rd (pc0 + 4) s)
        | Branch p \<Rightarrow> Inr (if cmp_spec p a b then pc0 + spec_immB w else next, s)
        | Ebreak \<Rightarrow> thenM (set_nemu_state c NEMU_END pc0 (xreg s 10)) (retM next) s
        | Ecall \<Rightarrow> Inr (csr (cpu s) 0x305, set_csr_at 0x342 11 (set_csr_at 0x341 pc0 s))
        | Csrrw \<Rightarrow> Inr (next, set_csr_at i a (set_xreg rd old s))
        | Csrrs \<Rightarrow> Inr (next, set_csr_at i (old OR a) (set_xreg rd old s))
        | Mret \<Rightarrow> Inr (csr (cpu s) 0x341, s)
        | Fence_i \<Rightarrow> Inr (next, s)
        | Illegal \<Rightarrow> thenM (paddr_read c pc0 4) (thenM (paddr_read c (pc0 + 4) 4)
            (thenM (set_nemu_state c NEMU_ABORT pc0 (-1)) (retM next))) s)"

section \<open>Refinement\<close>

definition fields_ok :: "config \<Rightarrow> u32 \<Rightarrow> bool" where
  "fields_ok c w \<longleftrightarrow> unat (rd_field w) < RISCV_GPR_NUM c \<and> unat (rs1_field w) < RISCV_GPR_NUM c
     \<and> unat (rs2_field w) < RISCV_GPR_NUM c"

lemma field_bound:
  "unat (rd_field w) < 32" "unat (rs1_field w) < 32" "unat (rs2_field w) < 32"
  using take_bit_nat_less_exp [of 5]
  by (auto simp: rd_field_def rs1_field_def rs2_field_def unsigned_take_bit_eq)

lemma fields_ok_full: "\<not> CONFIG_RVE c \<Longrightarrow> fields_ok c w"
  by (simp add: fields_ok_def RISCV_GPR_NUM_def field_bound)

text \<open>The operands the specification gives to an instruction of each type.\<close>

definition spec_ops :: "inst_type \<Rightarrow> u32 \<Rightarrow> 'r nemu \<Rightarrow> operands" where
  "spec_ops t w s =
     \<lparr>rd = unat (rd_field w),
      src1 = (if t \<in> {TYPE_I, TYPE_R, TYPE_S, TYPE_B, TYPE_SH, TYPE_CSRI}
              then xreg s (unat (rs1_field w)) else 0),
      src2 = (if t \<in> {TYPE_R, TYPE_S, TYPE_B} then xreg s (unat (rs2_field w)) else 0),
      imm = (case t of TYPE_I \<Rightarrow> spec_immI w | TYPE_U \<Rightarrow> spec_immU w | TYPE_S \<Rightarrow> spec_immS w
        | TYPE_J \<Rightarrow> spec_immJ w | TYPE_B \<Rightarrow> spec_immB w | TYPE_SH \<Rightarrow> immSH w
        | TYPE_CSRI \<Rightarrow> immCSRI w | TYPE_N \<Rightarrow> 0 | TYPE_R \<Rightarrow> 0)\<rparr>"

lemma decode_operand_ok:
  assumes "regs_ok c s" and "fields_ok c (isa_inst d)"
  shows "decode_operand c d t s = Inr (spec_ops t (isa_inst d) s, s)"
  using assms
  by (cases t) (simp_all add: decode_operand_def Let_def spec_ops_def unat_BITS_field imm_specs R_ok fields_ok_def)

lemma csr_index_bound: "csr_index w < 4096"
proof -
  have "drop_bit 20 w = take_bit 12 (drop_bit 20 w)"
    by (rule bit_word_eqI) (auto simp: bit_simps dest: bit_imp_le_length)
  then have "csr_index w = take_bit 12 (unat (drop_bit 20 w))"
    by (metis csr_index_def unsigned_take_bit_eq)
  then show ?thesis using take_bit_nat_less_exp [of 12 "unat (drop_bit 20 w)"] by simp
qed

lemma immCSRI_index: "unat (immCSRI w) = csr_index w"
proof -
  have "immCSRI w = drop_bit 20 w"
    by (rule bit_word_eqI) (auto simp: immCSRI_def bit_simps dest: bit_imp_le_length)
  then show ?thesis by (simp add: csr_index_def)
qed

lemma clear_bit0: "a AND NOT 1 = word_of_int (2 * (uint a div 2))" for a :: u32
proof -
  have "2 * (uint a div 2) = push_bit 1 (drop_bit 1 (uint a))"
    by (simp add: push_bit_eq_mult drop_bit_eq_div)
  then show ?thesis
    by (simp only:) (rule bit_word_eqI,
      unfold bit_and_iff bit_not_iff bit_1_iff bit_word_of_int_iff bit_push_bit_iff bit_drop_bit_eq,
      auto simp: bit_simps)
qed

lemma sext_load: "n = 1 \<or> n = 2 \<Longrightarrow> ucast (SEXT (ucast v) (8 * nat n)) = load_ext n True v"
  unfolding load_ext_def
  by (rule bit_word_eqI) (auto simp: bit_SEXT bit_simps min_def split: if_splits)

text \<open>Every line of the table, run with its operands and followed by the reset of register 0.\<close>

definition finish :: "config \<Rightarrow> ('r, Decode) M \<Rightarrow> ('r, Decode) M" where
  "finish c m = bindM m (\<lambda>d. thenM (set_R c 0 0) (retM d))"

lemma finish_set_rd:
  "regs_ok c s \<Longrightarrow> rd p < RISCV_GPR_NUM c \<Longrightarrow> finish c (set_rd c p d v) s = Inr (d, set_xreg (rd p) v s)"
proof -
  assume a: "regs_ok c s" "rd p < RISCV_GPR_NUM c"
  have "finish c (set_rd c p d v) s = thenM (set_R c (rd p) v) (thenM (set_R c 0 0) (retM d)) s"
    by (simp add: finish_def set_rd_def thenM_def bindM_assoc)
  then show ?thesis using a by (simp only: write_then_zero) simp
qed

lemma finish_jump:
  "regs_ok c s \<Longrightarrow> i < RISCV_GPR_NUM c \<Longrightarrow>
   finish c (thenM (set_R c i v) (retM d)) s = Inr (d, set_xreg i v s)"
proof -
  assume a: "regs_ok c s" "i < RISCV_GPR_NUM c"
  have "finish c (thenM (set_R c i v) (retM d)) s = thenM (set_R c i v) (thenM (set_R c 0 0) (retM d)) s"
    by (simp add: finish_def thenM_def bindM_assoc)
  then show ?thesis using a by (simp only: write_then_zero) simp
qed

lemma finish_load:
  assumes "regs_ok c s" and "rd p < RISCV_GPR_NUM c"
  shows "finish c (load_rd c p d n ext) s =
    bindM (paddr_read c (src1 p + imm p) n) (\<lambda>v t. Inr (d, set_xreg (rd p) (ext v) t)) s"
proof (cases "paddr_read c (src1 p + imm p) n s")
  case (Inr y)
  obtain v t where y: "y = (v, t)" by (cases y)
  have "regs_ok c t" using paddr_read_core Inr y assms(1) regs_ok_core by blast
  with Inr y assms(2) finish_set_rd [of c t p d "ext v"] show ?thesis
    by (simp add: finish_def load_rd_def vaddr_read_def bindM_assoc)
qed (simp add: finish_def load_rd_def vaddr_read_def)

lemma finish_store:
  assumes "regs_ok c s"
  shows "finish c (store_src2 c p d n) s = thenM (paddr_write c (src1 p + imm p) n (src2 p)) (retM d) s"
proof (cases "paddr_write c (src1 p + imm p) n (src2 p) s")
  case (Inr y)
  obtain v t where y: "y = (v, t)" by (cases y)
  have "regs_ok c t" using paddr_write_core Inr y assms(1) regs_ok_core by blast
  with Inr y show ?thesis by (simp add: finish_def store_src2_def vaddr_write_def zero_only)
qed (simp add: finish_def store_src2_def vaddr_write_def)

lemma finish_quiet: "regs_ok c s \<Longrightarrow> finish c (retM d) s = Inr (d, s)"
  by (simp add: finish_def zero_only)

lemma finish_branch: "regs_ok c s \<Longrightarrow> finish c (branch_if b p d) s = Inr (d\<lparr>dnpc := (if b then d_pc d + imm p else dnpc d)\<rparr>, s)"
  by (simp add: branch_if_def finish_quiet)

lemma gpr_zero_update:
  "regs_ok c s \<Longrightarrow> (gpr (cpu s))[i := v, 0 := 0] = (if i = 0 then gpr (cpu s) else (gpr (cpu s))[i := v])"
  using gpr_num_pos(1) [of c] by (cases "gpr (cpu s)"; cases i) (auto simp: regs_ok_def)

lemma gpr_zero_same: "regs_ok c s \<Longrightarrow> (gpr (cpu s))[0 := 0] = gpr (cpu s)"
  using gpr_num_pos(1) [of c] by (cases "gpr (cpu s)") (auto simp: regs_ok_def)

lemma finish_csrrw:
  assumes ok: "regs_ok c s" and "rd p < RISCV_GPR_NUM c" and "unat (imm p) < 4096"
  shows "finish c (exec_body c I_csrrw p d) s =
    Inr (d, set_csr_at (unat (imm p)) (src1 p) (set_xreg (rd p) (csr (cpu s) (unat (imm p))) s))"
  using assms gpr_zero_update [OF ok, of "rd p"] gpr_zero_same [OF ok] gpr_num_pos(1) [of c]
  by (cases "rd p = 0") (simp_all add: finish_def csr_at_def set_csr_def set_R_length_ok set_R_ok
      regs_ok_def set_csr_at_def set_xreg_def)

lemma finish_csrrs:
  assumes ok: "regs_ok c s" and "rd p < RISCV_GPR_NUM c" and "unat (imm p) < 4096"
  shows "finish c (exec_body c I_csrrs p d) s =
    Inr (d, set_csr_at (unat (imm p)) (csr (cpu s) (unat (imm p)) OR src1 p)
      (set_xreg (rd p) (csr (cpu s) (unat (imm p))) s))"
  using assms gpr_zero_update [OF ok, of "rd p"] gpr_zero_same [OF ok] gpr_num_pos(1) [of c]
  by (cases "rd p = 0"; cases "src1 p = 0")
    (simp_all add: finish_def csr_at_def set_csr_def set_R_length_ok set_R_ok
      regs_ok_def set_csr_at_def set_xreg_def)

lemma finish_ecall:
  assumes ok: "regs_ok c s"
  shows "finish c (exec_body c I_ecall p d) s =
    Inr (d\<lparr>dnpc := csr (cpu s) 0x305\<rparr>, set_csr_at 0x342 11 (set_csr_at 0x341 (d_pc d) s))"
  using ok gpr_zero_same [OF ok] gpr_num_pos(1) [of c]
  by (simp add: finish_def isa_raise_intr_def csr_at_def set_csr_def set_R_length_ok regs_ok_def
      set_csr_at_def)

lemma finish_mret:
  "regs_ok c s \<Longrightarrow> finish c (exec_body c I_mret p d) s = Inr (d\<lparr>dnpc := csr (cpu s) 0x341\<rparr>, s)"
  by (simp add: finish_def csr_at_def zero_only)

lemma regs_ok_nemu_state [simp]: "regs_ok c (s\<lparr>nemu_state := x, dt := y\<rparr>) = regs_ok c s"
  by (simp add: regs_ok_def)

lemma finish_ebreak:
  "regs_ok c s \<Longrightarrow> finish c (exec_body c I_ebreak p d) s =
     thenM (set_nemu_state c NEMU_END (d_pc d) (xreg s 10)) (retM d) s"
  using gpr_num_pos(2) [of c] by (simp add: finish_def R_ok NEMUTRAP_def zero_only)

lemma finish_inv:
  assumes "regs_ok c s"
  shows "finish c (exec_body c I_inv p d) s =
    thenM (paddr_read c (d_pc d) 4) (thenM (paddr_read c (d_pc d + 4) 4)
      (thenM (set_nemu_state c NEMU_ABORT (d_pc d) (-1)) (retM d))) s"
proof (cases "paddr_read c (d_pc d) 4 s")
  case (Inr y)
  obtain v t where y: "paddr_read c (d_pc d) 4 s = Inr (v, t)" using Inr by (cases y) auto
  show ?thesis
  proof (cases "paddr_read c (d_pc d + 4) 4 t")
    case (Inr y')
    obtain v' t' where y': "paddr_read c (d_pc d + 4) 4 t = Inr (v', t')" using Inr by (cases y') auto
    have "regs_ok c t'" using y y' assms paddr_read_core regs_ok_core by blast
    with y y' show ?thesis
      by (simp add: finish_def INV_def invalid_inst_def inst_fetch_def vaddr_ifetch_def bindM_assoc zero_only)
  qed (simp add: y finish_def INV_def invalid_inst_def inst_fetch_def vaddr_ifetch_def bindM_assoc)
qed (simp add: finish_def INV_def invalid_inst_def inst_fetch_def vaddr_ifetch_def bindM_assoc)

lemmas finish_rules = finish_set_rd finish_jump finish_load finish_store finish_quiet finish_branch
  finish_csrrw finish_csrrs finish_ecall finish_mret finish_ebreak finish_inv

lemmas special_bodies = exec_body.simps(47,48,49,50,51,52)

lemma load_ext_plain: "load_ext n False v = v"
  by (simp add: load_ext_def)

lemma sext_load_byte: "ucast (SEXT (ucast v) 8) = load_ext 1 True v"
  using sext_load [of 1 v] by simp

lemma sext_load_half: "ucast (SEXT (ucast v) 16) = load_ext 2 True v"
  using sext_load [of 2 v] by simp

lemma cmp_code:
  "cmp_spec CMP_NE a b = (a \<noteq> b)" "cmp_spec CMP_EQ a b = (a = b)" "cmp_spec CMP_LT a b = (sint a < sint b)"
  "cmp_spec CMP_GE a b = (sint b \<le> sint a)" "cmp_spec CMP_LTU a b = (a < b)" "cmp_spec CMP_GEU a b = (b \<le> a)"
  by (auto simp: word_less_def word_le_def word_uint_eq_iff)

lemmas alu_impl = alu_add [symmetric] alu_sub [symmetric] alu_sll [OF refl, symmetric]
  alu_srl [OF refl, symmetric] alu_sra [OF refl, symmetric] alu_slt [symmetric] alu_sltu [symmetric]
  alu_bitwise [symmetric] alu_mul [symmetric] alu_mulh [symmetric] alu_mulhsu [symmetric]
  alu_mulhu [symmetric] alu_div [symmetric] alu_rem [symmetric] alu_divu [symmetric] alu_remu [symmetric]

lemma body_refines:
  assumes ok: "regs_ok c s" and f: "fields_ok c w" and n: "spec_decode w = instr_of n" and w: "isa_inst d = w"
  shows "finish c (exec_body c n (spec_ops (spec_type (instr_of n)) w s) (d\<lparr>dnpc := snpc d\<rparr>)) s
    = bindM (spec_exec c d) (\<lambda>npc. retM (d\<lparr>dnpc := npc\<rparr>)) s"
proof -
  have rd: "unat (rd_field w) < RISCV_GPR_NUM c" using f by (simp add: fields_ok_def)
  note rules = finish_rules [OF ok] spec_exec_def Let_def spec_ops_def n w rd alu_impl cmp_code
    immSH_spec and_1f immCSRI_index csr_index_bound clear_bit0 [simplified] load_ext_plain sext_load_byte
    sext_load_half
  show ?thesis
  proof (cases n)
    case I_lbu
    then show ?thesis by (simp add: rules) (simp add: rules bindM_def thenM_def split: sum.split)
  next
    case I_lb
    then show ?thesis by (simp add: rules) (simp add: rules bindM_def thenM_def split: sum.split)
  next
    case I_lh
    then show ?thesis by (simp add: rules) (simp add: rules bindM_def thenM_def split: sum.split)
  next
    case I_lw
    then show ?thesis by (simp add: rules) (simp add: rules bindM_def thenM_def split: sum.split)
  next
    case I_lhu
    then show ?thesis by (simp add: rules) (simp add: rules bindM_def thenM_def split: sum.split)
  next
    case I_sb
    then show ?thesis by (simp add: rules) (simp add: rules bindM_def thenM_def split: sum.split)
  next
    case I_sh
    then show ?thesis by (simp add: rules) (simp add: rules bindM_def thenM_def split: sum.split)
  next
    case I_sw
    then show ?thesis by (simp add: rules) (simp add: rules bindM_def thenM_def split: sum.split)
  next
    case I_inv
    then show ?thesis
      by (simp add: rules del: exec_body.simps) (simp add: bindM_def thenM_def split: sum.split)
  qed (simp_all add: rules del: alu_spec.simps cmp_spec.simps(1,2,4,5,6) exec_body.simps(47,48,49,50,51,52))
qed

lemma decode_exec_spec:
  assumes ok: "regs_ok c s" and f: "fields_ok c (isa_inst d)"
  shows "decode_exec c d s = bindM (spec_exec c d) (\<lambda>npc. retM (d\<lparr>dnpc := npc\<rparr>)) s"
proof -
  let ?d = "d\<lparr>dnpc := snpc d\<rparr>" and ?w = "isa_inst d"
  obtain n where n: "first_match instpats ?w = Some (n, spec_type (spec_decode ?w))"
    and i: "instr_of n = spec_decode ?w" by (rule table_decodes)
  have "decode_operand c ?d (spec_type (spec_decode ?w)) s = Inr (spec_ops (spec_type (spec_decode ?w)) ?w s, s)"
    using decode_operand_ok [OF ok, of ?d] f by simp
  then have "decode_exec c d s = finish c (exec_body c n (spec_ops (spec_type (instr_of n)) ?w s) ?d) s"
    by (simp add: decode_exec_def finish_def run_instpats_first table_patterns n i bindM_assoc)
  with body_refines [OF ok f i [symmetric] refl] show ?thesis by simp
qed

section \<open>Invariants of the register file\<close>

lemma keeps_set_R_length [keeps_intros]:
  "keeps (\<lambda>s. length (gpr (cpu s)) = k) (set_R c i v)"
  unfolding set_R_def
  by (rule keepsI) (auto simp: comp_elims split: if_splits)

lemma keeps_core_imp:
  "(\<And>s0. keeps (same_core s0) m) \<Longrightarrow> keeps (\<lambda>s. Q (cpu s)) m"
  unfolding keeps_def same_core_def by metis

lemma keeps_length_paddr [keeps_intros]:
  "keeps (\<lambda>s. length (gpr (cpu s)) = k) (paddr_read c a n)"
  "keeps (\<lambda>s. length (gpr (cpu s)) = k) (paddr_write c a n v)"
  by (rule keeps_core_imp, rule keeps_intros)+

lemma keeps_length_R [keeps_intros]: "keeps P (R c i)"
  unfolding R_def by (intro keeps_intros)

lemma keeps_csr [keeps_intros]: "keeps P (csr_at i)"
  unfolding csr_at_def by (intro keeps_intros)

lemma keeps_set_csr [keeps_intros]: "keeps (\<lambda>s. length (gpr (cpu s)) = k) (set_csr i v)"
  unfolding set_csr_def by (intro keeps_intros) simp

lemma keeps_set_nemu_state [keeps_intros]:
  "keeps (\<lambda>s. length (gpr (cpu s)) = k) (set_nemu_state c st p r)"
  by (rule keepsI) auto

lemma keeps_decode_operand [keeps_intros]: "keeps P (decode_operand c d t)"
  unfolding decode_operand_def Let_def by (cases t; simp; intro keeps_intros)

lemma keeps_prod: "(\<And>a b. keeps P (f a b)) \<Longrightarrow> keeps P (case x of (a, b) \<Rightarrow> f a b)"
  by (cases x) simp

lemma keeps_exec_body [keeps_intros]:
  "keeps (\<lambda>s. length (gpr (cpu s)) = k) (exec_body c n p d)"
  by (cases n; simp only: exec_body.simps set_rd_def load_rd_def store_src2_def branch_if_def vaddr_read_def
      vaddr_write_def NEMUTRAP_def INV_def invalid_inst_def inst_fetch_def vaddr_ifetch_def isa_raise_intr_def;
      intro keeps_intros keeps_prod)

lemma keeps_run_instpats [keeps_intros]:
  "keeps (\<lambda>s. length (gpr (cpu s)) = k) (run_instpats c ps d)"
proof (induction c ps d rule: run_instpats.induct)
  case (2 c pat name type ps s)
  then show ?case by (simp only: run_instpats.simps) (intro keeps_intros, simp)
qed (simp only: run_instpats.simps keeps_retM)

lemma set_R_zero_regs_ok:
  "length (gpr (cpu s)) = RISCV_GPR_NUM c \<Longrightarrow> set_R c 0 0 s = Inr (u, s') \<Longrightarrow> regs_ok c s'"
  using gpr_num_pos(1) [of c] by (auto simp: set_R_length_ok regs_ok_def)

lemma decode_exec_regs:
  assumes "length (gpr (cpu s)) = RISCV_GPR_NUM c" and "decode_exec c d s = Inr (d', s')"
  shows "regs_ok c s'"
proof -
  from assms(2) obtain d1 s1 u where run: "run_instpats c instpats (d\<lparr>dnpc := snpc d\<rparr>) s = Inr (d1, s1)"
    and z: "set_R c 0 0 s1 = Inr (u, s')"
    by (auto simp: decode_exec_def comp_elims)
  have "length (gpr (cpu s1)) = RISCV_GPR_NUM c"
    by (rule keepsD [OF keeps_run_instpats assms(1) run])
  then show ?thesis using z by (rule set_R_zero_regs_ok)
qed

end
