(* ===== verification/Riscv_Arch.thy ===== *)
theory Riscv_Arch
  imports Riscv_Spec
begin

text \<open>
  The instructions of RV32IM as the RISC-V manual lists them, apart from NEMU: one line per instruction with its opcode,
  \<open>funct3\<close> and \<open>funct7\<close>, and the effect of the integer, memory and control transfer instructions. \<open>Riscv_Spec\<close>
  describes the machine that NEMU implements, which is not all of the manual's: it has no \<open>FENCE\<close>, and traps do not
  touch \<open>mstatus\<close>. The lemmas compare the two.
\<close>

section \<open>The instruction listing\<close>

datatype rv32 = LUI | AUIPC | JAL | JALR | BRANCH cmp | LOAD int bool | STORE int | OP_IMM alu | OP alu
  | FENCE | ECALL | EBREAK

text \<open>Opcode, \<open>funct3\<close> and \<open>funct7\<close>; a field the format does not have is \<open>None\<close>.\<close>

definition rv32i_listing :: "(u32 \<times> u32 option \<times> u32 option \<times> rv32) list" where
  "rv32i_listing = [
     (0b0110111, None, None, LUI), (0b0010111, None, None, AUIPC), (0b1101111, None, None, JAL),
     (0b1100111, Some 0b000, None, JALR),
     (0b1100011, Some 0b000, None, BRANCH CMP_EQ), (0b1100011, Some 0b001, None, BRANCH CMP_NE),
     (0b1100011, Some 0b100, None, BRANCH CMP_LT), (0b1100011, Some 0b101, None, BRANCH CMP_GE),
     (0b1100011, Some 0b110, None, BRANCH CMP_LTU), (0b1100011, Some 0b111, None, BRANCH CMP_GEU),
     (0b0000011, Some 0b000, None, LOAD 1 True), (0b0000011, Some 0b001, None, LOAD 2 True),
     (0b0000011, Some 0b010, None, LOAD 4 False), (0b0000011, Some 0b100, None, LOAD 1 False),
     (0b0000011, Some 0b101, None, LOAD 2 False),
     (0b0100011, Some 0b000, None, STORE 1), (0b0100011, Some 0b001, None, STORE 2), (0b0100011, Some 0b010, None, STORE 4),
     (0b0010011, Some 0b000, None, OP_IMM ADD), (0b0010011, Some 0b010, None, OP_IMM SLT),
     (0b0010011, Some 0b011, None, OP_IMM SLTU), (0b0010011, Some 0b100, None, OP_IMM XORR),
     (0b0010011, Some 0b110, None, OP_IMM ORR), (0b0010011, Some 0b111, None, OP_IMM ANDD),
     (0b0010011, Some 0b001, Some 0b0000000, OP_IMM SLL), (0b0010011, Some 0b101, Some 0b0000000, OP_IMM SRL),
     (0b0010011, Some 0b101, Some 0b0100000, OP_IMM SRA),
     (0b0110011, Some 0b000, Some 0b0000000, OP ADD), (0b0110011, Some 0b000, Some 0b0100000, OP SUB),
     (0b0110011, Some 0b001, Some 0b0000000, OP SLL), (0b0110011, Some 0b010, Some 0b0000000, OP SLT),
     (0b0110011, Some 0b011, Some 0b0000000, OP SLTU), (0b0110011, Some 0b100, Some 0b0000000, OP XORR),
     (0b0110011, Some 0b101, Some 0b0000000, OP SRL), (0b0110011, Some 0b101, Some 0b0100000, OP SRA),
     (0b0110011, Some 0b110, Some 0b0000000, OP ORR), (0b0110011, Some 0b111, Some 0b0000000, OP ANDD),
     (0b0001111, Some 0b000, None, FENCE)]"

definition rv32m_listing :: "(u32 \<times> u32 option \<times> u32 option \<times> rv32) list" where
  "rv32m_listing = [
     (0b0110011, Some 0b000, Some 0b0000001, OP MUL), (0b0110011, Some 0b001, Some 0b0000001, OP MULH),
     (0b0110011, Some 0b010, Some 0b0000001, OP MULHSU), (0b0110011, Some 0b011, Some 0b0000001, OP MULHU),
     (0b0110011, Some 0b100, Some 0b0000001, OP DIVV), (0b0110011, Some 0b101, Some 0b0000001, OP DIVU),
     (0b0110011, Some 0b110, Some 0b0000001, OP REM), (0b0110011, Some 0b111, Some 0b0000001, OP REMU)]"

definition listed :: "u32 \<Rightarrow> u32 \<times> u32 option \<times> u32 option \<times> rv32 \<Rightarrow> bool" where
  "listed w = (\<lambda>(opc, f3, f7, _). opcode w = opc \<and> (case f3 of None \<Rightarrow> True | Some k \<Rightarrow> funct3 w = k)
     \<and> (case f7 of None \<Rightarrow> True | Some k \<Rightarrow> funct7 w = k))"

definition rv32im :: "u32 \<Rightarrow> rv32 option" where
  "rv32im w = (if w = 0x00000073 then Some ECALL else if w = 0x00100073 then Some EBREAK
     else map_option (\<lambda>(_, _, _, i). i) (find (listed w) (rv32i_listing @ rv32m_listing)))"

section \<open>Effects\<close>

text \<open>Where a control transfer goes when it is taken.\<close>

fun jump_target :: "rv32 \<Rightarrow> u32 \<Rightarrow> u32 \<Rightarrow> 'r nemu \<Rightarrow> u32 option" where
  "jump_target JAL w p s = Some (p + spec_immJ w)"
| "jump_target JALR w p s = Some (word_of_int (2 * (uint (xreg s (unat (rs1_field w)) + spec_immI w) div 2)))"
| "jump_target (BRANCH b) w p s =
     (if cmp_spec b (xreg s (unat (rs1_field w))) (xreg s (unat (rs2_field w))) then Some (p + spec_immB w) else None)"
| "jump_target _ w p s = None"

definition jump_aligned :: "rv32 \<Rightarrow> u32 \<Rightarrow> u32 \<Rightarrow> 'r nemu \<Rightarrow> bool" where
  "jump_aligned i w p s \<longleftrightarrow> (case jump_target i w p s of None \<Rightarrow> True | Some t \<Rightarrow> uint t mod 4 = 0)"

text \<open>
  The next program counter and the new state. Environment calls have no effect of their own in the manual; a jump to an
  address that is not a multiple of four would raise an exception, which \<open>jump_aligned\<close> rules out.
\<close>

fun rv32_exec :: "config \<Rightarrow> rv32 \<Rightarrow> u32 \<Rightarrow> u32 \<Rightarrow> ('r, u32) M" where
  "rv32_exec c LUI w p s = Inr (p + 4, set_xreg (unat (rd_field w)) (spec_immU w) s)"
| "rv32_exec c AUIPC w p s = Inr (p + 4, set_xreg (unat (rd_field w)) (p + spec_immU w) s)"
| "rv32_exec c (LOAD n sg) w p s = bindM (paddr_read c (xreg s (unat (rs1_field w)) + spec_immI w) n)
     (\<lambda>v t. Inr (p + 4, set_xreg (unat (rd_field w)) (load_ext n sg v) t)) s"
| "rv32_exec c (STORE n) w p s =
     thenM (paddr_write c (xreg s (unat (rs1_field w)) + spec_immS w) n (xreg s (unat (rs2_field w)))) (retM (p + 4)) s"
| "rv32_exec c (OP_IMM f) w p s =
     Inr (p + 4, set_xreg (unat (rd_field w)) (alu_spec f (xreg s (unat (rs1_field w))) (spec_immI w)) s)"
| "rv32_exec c (OP f) w p s =
     Inr (p + 4, set_xreg (unat (rd_field w)) (alu_spec f (xreg s (unat (rs1_field w))) (xreg s (unat (rs2_field w)))) s)"
| "rv32_exec c FENCE w p s = Inr (p + 4, s)"
| "rv32_exec c ECALL w p s = Inr (p + 4, s)"
| "rv32_exec c EBREAK w p s = Inr (p + 4, s)"
| "rv32_exec c (BRANCH b) w p s = Inr (case jump_target (BRANCH b) w p s of None \<Rightarrow> p + 4 | Some t \<Rightarrow> t, s)"
| "rv32_exec c i w p s =
     Inr (case jump_target i w p s of None \<Rightarrow> p + 4 | Some t \<Rightarrow> t, set_xreg (unat (rd_field w)) (p + 4) s)"

section \<open>The table of NEMU against the listing\<close>

fun nemu_instr :: "rv32 \<Rightarrow> instr" where
  "nemu_instr LUI = Lui" | "nemu_instr AUIPC = Auipc" | "nemu_instr JAL = Jal" | "nemu_instr JALR = Jalr"
| "nemu_instr (BRANCH b) = Branch b" | "nemu_instr (LOAD n sg) = Load n sg" | "nemu_instr (STORE n) = Store n"
| "nemu_instr (OP_IMM f) = Op_imm f" | "nemu_instr (OP f) = Op f"
| "nemu_instr FENCE = Illegal" | "nemu_instr ECALL = Ecall" | "nemu_instr EBREAK = Ebreak"

lemma find_listed: "find (listed w) ls = Some e \<Longrightarrow> e \<in> set ls \<and> listed w e"
  by (auto simp: find_Some_iff)

lemma listing_decodes:
  assumes "e \<in> set (rv32i_listing @ rv32m_listing)" and "listed w e"
  shows "spec_decode w = nemu_instr (snd (snd (snd e)))"
  using assms unfolding rv32i_listing_def rv32m_listing_def append.simps list.set insert_iff empty_iff listed_def
  by (elim disjE FalseE) (auto simp: spec_decode_defs)

lemma rv32im_decodes:
  assumes "rv32im w = Some i"
  shows "spec_decode w = nemu_instr i"
proof -
  have e: "spec_decode 0x73 = Ecall" "spec_decode 0x100073 = Ebreak"
    by (simp_all add: spec_decode_defs const_fields)
  show ?thesis
    using assms e by (auto simp: rv32im_def split: if_splits dest!: find_listed dest: listing_decodes)
qed

lemma rv32_exec_spec:
  assumes "rv32im (isa_inst d) = Some i" and "i \<notin> {FENCE, ECALL, EBREAK}" and "snpc d = d_pc d + 4"
  shows "spec_exec c d s = rv32_exec c i (isa_inst d) (d_pc d) s"
  using assms(2,3) rv32im_decodes [OF assms(1)] by (cases i) (simp_all add: spec_exec_def Let_def)

text \<open>The words that NEMU executes beyond RV32IM: \<open>CSRRW\<close>, \<open>CSRRS\<close>, \<open>MRET\<close> and \<open>FENCE.I\<close>.\<close>

definition system_word :: "u32 \<Rightarrow> bool" where
  "system_word w \<longleftrightarrow> opcode w = 0b1110011 \<and> (funct3 w = 0b001 \<or> funct3 w = 0b010) \<or> w = 0x30200073
     \<or> opcode w = 0b0001111 \<and> funct3 w = 0b001"

lemma decode_listed:
  assumes "w \<noteq> 0x73" "w \<noteq> 0x100073" "\<not> system_word w"
  shows "spec_decode w = Illegal \<or> list_ex (listed w) (rv32i_listing @ rv32m_listing)"
proof -
  note eval = rv32i_listing_def rv32m_listing_def listed_def spec_decode_defs
  consider "opcode w = 0x17" | "opcode w = 0x37" | "opcode w = 0x03" | "opcode w = 0x13"
    | "opcode w = 0x23" | "opcode w = 0x33" | "opcode w = 0x0f" | "opcode w = 0x67"
    | "opcode w = 0x6f" | "opcode w = 0x63" | "opcode w = 0x73"
    | "opcode w \<notin> {0x17, 0x37, 0x03, 0x13, 0x23, 0x33, 0x0f, 0x67, 0x6f, 0x63, 0x73}" by auto
  then show ?thesis
  proof cases
    case 7
    with funct3_cases [of w] assms(3) show ?thesis by (elim disjE) (simp_all add: system_word_def eval)
  next
    case 11
    with funct3_cases [of w] assms show ?thesis by (elim disjE) (simp_all add: system_word_def spec_decode_defs)
  next
    case 12
    then show ?thesis by (simp add: spec_decode_defs)
  qed (use funct3_cases [of w] in \<open>(elim disjE; simp add: eval)\<close>)+
qed

lemma unlisted_illegal:
  assumes "rv32im w \<in> {None, Some FENCE}" and "\<not> system_word w"
  shows "spec_decode w = Illegal"
proof (cases "rv32im w")
  case None
  then have n: "w \<noteq> 0x73" "w \<noteq> 0x100073" "find (listed w) (rv32i_listing @ rv32m_listing) = None"
    by (auto simp: rv32im_def split: if_splits)
  then have l: "\<not> listed w e" if "e \<in> set (rv32i_listing @ rv32m_listing)" for e
    using that unfolding find_None_iff by blast
  from decode_listed [OF n(1,2) assms(2)] l show ?thesis by (auto simp: list_ex_iff)
next
  case (Some i)
  with assms(1) have "i = FENCE" by simp
  with Some rv32im_decodes [of w i] show ?thesis by simp
qed

text \<open>A word that NEMU does not know is printed with its successor, and the run is aborted.\<close>

lemma unlisted_aborts:
  assumes "regs_ok c s" "fields_ok c (isa_inst d)" "rv32im (isa_inst d) \<in> {None, Some FENCE}" "\<not> system_word (isa_inst d)"
    and r: "paddr_read c (d_pc d) 4 s = Inr (w1, s1)" "paddr_read c (d_pc d + 4) 4 s1 = Inr (w2, s2)"
  shows "\<exists>s'. decode_exec c d s = Inr (d\<lparr>dnpc := snpc d\<rparr>, s')
    \<and> nemu_state s' = \<lparr>state = NEMU_ABORT, halt_pc = d_pc d, halt_ret = -1\<rparr> \<and> cpu s' = cpu s"
proof -
  have "cpu s2 = cpu s" using paddr_read_core [OF r(1)] paddr_read_core [OF r(2)] by (simp add: same_core_def)
  then show ?thesis using r
    by (simp add: decode_exec_spec [OF assms(1,2)] spec_exec_def unlisted_illegal [OF assms(3,4)] Let_def thenM_def bindM_def)
qed

text \<open>A trap and the return from it.\<close>

lemma ecall_mret:
  assumes "regs_ok c s" "isa_inst d = 0x73" "isa_inst e = 0x30200073"
  shows "\<exists>s'. decode_exec c d s = Inr (d\<lparr>dnpc := csr (cpu s) 0x305\<rparr>, s')
    \<and> cpu s' = (cpu s)\<lparr>csr := (csr (cpu s))(0x341 := d_pc d, 0x342 := 11)\<rparr> \<and> mem s' = mem s
    \<and> decode_exec c e s' = Inr (e\<lparr>dnpc := d_pc d\<rparr>, s')"
proof -
  have dec: "spec_decode 0x73 = Ecall" "spec_decode 0x30200073 = Mret" by (simp_all add: spec_decode_defs const_fields)
  have "fields_ok c 0x73" "fields_ok c 0x30200073" by (simp_all add: fields_ok_def const_fields RISCV_GPR_NUM_def)
  moreover let ?s = "set_csr_at 0x342 11 (set_csr_at 0x341 (d_pc d) s)"
  have "regs_ok c ?s" using assms(1) by (simp add: regs_ok_def set_csr_at_def)
  ultimately show ?thesis using assms
    by (simp add: decode_exec_spec spec_exec_def dec Let_def set_csr_at_def)
qed

end
