(* ===== verification/Sdb_Expr.thy ===== *)
theory Sdb_Expr
  imports Riscv_Isa
begin

text \<open>
  The expression evaluator of the debugger, \<open>src/monitor/sdb/expr.c\<close>: the lexer \<open>make_token\<close> over
  its table of regular expressions, the search for the main operator, and the recursive \<open>eval\<close>.
  From the C library it needs \<open>strtol\<close> with base 0 and \<open>regexec\<close> on the patterns of the table, each
  of which is a sequence of bracket expressions with repetition bounds.
\<close>

section \<open>The C library\<close>

definition LONG_MAX :: int where "LONG_MAX = 2 ^ 63 - 1"
definition LONG_MIN :: int where "LONG_MIN = - (2 ^ 63)"

definition isspace :: "char \<Rightarrow> bool" where
  "isspace c \<longleftrightarrow> c = CHR '' '' \<or> (9 \<le> (of_char c :: nat) \<and> of_char c \<le> (13 :: nat))"

definition digit_val :: "char \<Rightarrow> int" where
  "digit_val c = (if CHR ''0'' \<le> c \<and> c \<le> CHR ''9'' then of_char c - 48
     else if CHR ''a'' \<le> c \<and> c \<le> CHR ''z'' then of_char c - 87
     else if CHR ''A'' \<le> c \<and> c \<le> CHR ''Z'' then of_char c - 55 else 36)"

fun strtol_digits :: "int \<Rightarrow> int \<Rightarrow> string \<Rightarrow> int" where
  "strtol_digits base acc [] = acc"
| "strtol_digits base acc (c # cs) =
     (if digit_val c < base then strtol_digits base (acc * base + digit_val c) cs else acc)"

lemma strtol_digits_append:
  "list_all (\<lambda>ch. digit_val ch < base) xs \<Longrightarrow>
   strtol_digits base acc (xs @ ys) = strtol_digits base (strtol_digits base acc xs) ys"
  by (induction xs arbitrary: acc) auto

definition strtol_unsigned :: "string \<Rightarrow> int" where
  "strtol_unsigned s = (case s of
     z # x # d # cs \<Rightarrow>
       if z = CHR ''0'' \<and> (x = CHR ''x'' \<or> x = CHR ''X'') \<and> digit_val d < 16
       then strtol_digits 16 0 (d # cs)
       else if z = CHR ''0'' then strtol_digits 8 0 s else strtol_digits 10 0 s
   | z # cs \<Rightarrow> if z = CHR ''0'' then strtol_digits 8 0 s else strtol_digits 10 0 s
   | [] \<Rightarrow> 0)"

text \<open>\<open>strtol(s, NULL, 0)\<close>.\<close>

definition strtol :: "string \<Rightarrow> int" where
  "strtol s = (case dropWhile isspace s of
     [] \<Rightarrow> 0
   | c # cs \<Rightarrow>
       let neg = (c = CHR ''-'');
           body = (if c = CHR ''-'' \<or> c = CHR ''+'' then cs else c # cs);
           v = strtol_unsigned body
       in if neg then max LONG_MIN (- v) else min LONG_MAX v)"

text \<open>
  A bracket expression with its repetition bounds, and the length of the longest match of a sequence
  of them at the start of a string (POSIX takes the longest of the leftmost matches).
\<close>

type_synonym rx_item = "string \<times> nat \<times> nat option"

definition best :: "nat option list \<Rightarrow> nat option" where
  "best xs = fold (\<lambda>x b. case x of None \<Rightarrow> b | Some n \<Rightarrow>
     (case b of None \<Rightarrow> Some n | Some m \<Rightarrow> Some (max m n))) xs None"

fun rx_longest :: "rx_item list \<Rightarrow> string \<Rightarrow> nat option" where
  "rx_longest [] s = Some 0"
| "rx_longest ((cls, lo, hi) # rs) s =
     (let run = length (takeWhile (\<lambda>c. c \<in> set cls) s);
          top = (case hi of None \<Rightarrow> run | Some h \<Rightarrow> min h run)
      in best (map (\<lambda>k. map_option (\<lambda>n. k + n) (rx_longest rs (drop k s))) [lo..<Suc top]))"

section \<open>Tokens\<close>

datatype tk = TK_NOTYPE | TK_DEREF | TK_EQ | TK_HEX | TK_DEC | TK_LT | TK_GT | TK_LE | TK_GE | TK_AND
  | TK_CHR char

record Token =
  tk_type :: tk
  tk_str :: string

definition digits :: string where "digits = ''0123456789''"
definition hexdigits :: string where "hexdigits = ''0123456789abcdefABCDEF''"
definition letters :: string where
  "letters = ''abcdefghijklmnopqrstuvwxyzABCDEFGHIJKLMNOPQRSTUVWXYZ''"

definition lit :: "string \<Rightarrow> rx_item list" where
  "lit s = map (\<lambda>c. ([c], 1, Some 1)) s"

definition rules :: "(rx_item list \<times> tk) list" where
  "rules = [
     (lit ''0'' @ [(''xX'', 1, Some 1), (hexdigits, 1, None)], TK_HEX),
     ([(digits, 1, None), (''u'', 0, Some 1)], TK_DEC),
     ([('' '', 1, None)], TK_NOTYPE),
     (lit ''+'', TK_CHR CHR ''+''),
     (lit ''-'', TK_CHR CHR ''-''),
     (lit ''*'', TK_CHR CHR ''*''),
     (lit ''/'', TK_CHR CHR ''/''),
     (lit ''('', TK_CHR CHR ''(''),
     (lit '')'', TK_CHR CHR '')''),
     (lit ''=='', TK_EQ),
     (lit ''<='', TK_LE),
     (lit ''>='', TK_GE),
     (lit ''>'', TK_LT),
     (lit ''<'', TK_GT),
     (lit ''&&'', TK_AND),
     (lit ''$'' @ [(letters, 1, Some 2), (digits, 0, Some 2)], TK_CHR CHR ''$'')]"

fun prec :: "tk option \<Rightarrow> nat" where
  "prec (Some TK_AND) = 1"
| "prec (Some TK_EQ) = 2"
| "prec (Some TK_LT) = 3"
| "prec (Some TK_GT) = 3"
| "prec (Some TK_LE) = 3"
| "prec (Some TK_GE) = 3"
| "prec (Some (TK_CHR c)) = (if c = CHR ''+'' \<or> c = CHR ''-'' then 4
     else if c = CHR ''*'' \<or> c = CHR ''/'' then 5 else if c = CHR ''$'' then 7 else 100)"
| "prec (Some TK_DEREF) = 6"
| "prec _ = 100"

text \<open>The first rule that matches at the start of the rest of the string.\<close>

fun first_rule :: "(rx_item list \<times> tk) list \<Rightarrow> string \<Rightarrow> (nat \<times> tk) option" where
  "first_rule [] s = None"
| "first_rule ((rx, t) # rs) s = (case rx_longest rx s of None \<Rightarrow> first_rule rs s | Some n \<Rightarrow> Some (n, t))"

definition NR_TOKEN :: nat where "NR_TOKEN = 65536"

text \<open>
  The \<open>switch\<close> on the matched rule. A token of 32 characters stores the empty string
  (\<open>substr_len % 32\<close>), and the rules \<open>TK_LE\<close> and \<open>TK_GE\<close> have no case: their text disappears.
\<close>

definition token_of :: "tk \<Rightarrow> string \<Rightarrow> Token list \<Rightarrow> Token option" where
  "token_of t sub toks = (case t of
     TK_HEX \<Rightarrow> Some \<lparr>tk_type = TK_HEX, tk_str = take (length sub mod 32) sub\<rparr>
   | TK_DEC \<Rightarrow>
       (let sub' = (if last sub = CHR ''u'' then butlast sub else sub)
        in Some \<lparr>tk_type = TK_DEC, tk_str = take (length sub' mod 32) sub'\<rparr>)
   | TK_CHR c \<Rightarrow>
       if c = CHR ''*'' then
         (if toks = [] \<or> prec (Some (tk_type (last toks))) \<le> 5
          then Some \<lparr>tk_type = TK_DEREF, tk_str = []\<rparr> else Some \<lparr>tk_type = TK_CHR CHR ''*'', tk_str = []\<rparr>)
       else if c = CHR ''$'' then Some \<lparr>tk_type = t, tk_str = take (length sub mod 32) sub\<rparr>
       else Some \<lparr>tk_type = t, tk_str = []\<rparr>
   | TK_EQ \<Rightarrow> Some \<lparr>tk_type = t, tk_str = []\<rparr>
   | TK_LT \<Rightarrow> Some \<lparr>tk_type = t, tk_str = []\<rparr>
   | TK_GT \<Rightarrow> Some \<lparr>tk_type = t, tk_str = []\<rparr>
   | TK_AND \<Rightarrow> Some \<lparr>tk_type = t, tk_str = []\<rparr>
   | TK_DEREF \<Rightarrow> Some \<lparr>tk_type = t, tk_str = []\<rparr>
   | TK_NOTYPE \<Rightarrow> None | TK_LE \<Rightarrow> None | TK_GE \<Rightarrow> None)"

lemma best_Some: "best xs = Some n \<Longrightarrow> Some n \<in> set xs"
proof -
  have "fold (\<lambda>x b. case x of None \<Rightarrow> b | Some n \<Rightarrow>
      (case b of None \<Rightarrow> Some n | Some m \<Rightarrow> Some (max m n))) xs b = Some n \<Longrightarrow> Some n \<in> insert b (set xs)" for b
  proof (induction xs arbitrary: b)
    case (Cons x xs)
    then show ?case by (fastforce simp: max_def split: option.splits if_splits)
  qed simp
  then show "best xs = Some n \<Longrightarrow> Some n \<in> set xs" unfolding best_def by fastforce
qed

lemma rx_longest_min:
  "rx_longest rs s = Some n \<Longrightarrow> sum_list (map (\<lambda>r. fst (snd r)) rs) \<le> n"
proof (induction rs arbitrary: s n)
  case (Cons r rs)
  obtain cls lo hi where r: "r = (cls, lo, hi)" by (cases r)
  from Cons.prems r obtain hi' where
    "best (map (\<lambda>k. map_option (\<lambda>n. k + n) (rx_longest rs (drop k s))) [lo..<hi']) = Some n"
    by (simp only: rx_longest.simps Let_def)
  from best_Some [OF this] obtain k where "k \<in> set [lo..<hi']"
    and k: "Some n = map_option (\<lambda>n. k + n) (rx_longest rs (drop k s))"
    unfolding set_map by (elim imageE)
  then have "lo \<le> k" by simp
  from k obtain m where "rx_longest rs (drop k s) = Some m" "n = k + m"
    by (cases "rx_longest rs (drop k s)") simp_all
  with \<open>lo \<le> k\<close> Cons.IH [of "drop k s" m] r show ?case by simp
qed simp

lemma first_rule_in: "first_rule rs s = Some (n, t) \<Longrightarrow> \<exists>rx. (rx, t) \<in> set rs \<and> rx_longest rx s = Some n"
  by (induction rs s rule: first_rule.induct) (auto split: option.splits)

lemma rules_nonempty: "(rx, t) \<in> set rules \<Longrightarrow> 1 \<le> sum_list (map (\<lambda>r. fst (snd r)) rx)"
  by (auto simp: rules_def lit_def)

lemma first_rule_pos: "first_rule rules s = Some (n, t) \<Longrightarrow> 0 < n"
proof -
  assume "first_rule rules s = Some (n, t)"
  then obtain rx where "(rx, t) \<in> set rules" "rx_longest rx s = Some n" by (auto dest: first_rule_in)
  then show ?thesis using rx_longest_min [of rx s n] rules_nonempty [of rx t] by simp
qed

function make_token_from :: "string \<Rightarrow> Token list \<Rightarrow> (bool \<times> Token list) result" where
  "make_token_from [] toks = Inr (True, toks)"
| "make_token_from (c # cs) toks = (case first_rule rules (c # cs) of
     None \<Rightarrow> Inr (False, toks)
   | Some (n, t) \<Rightarrow>
       if n > 32 then Inl (Panic ''Too long substr_len'')
       else (case token_of t (take n (c # cs)) toks of
           None \<Rightarrow> make_token_from (drop n (c # cs)) toks
         | Some tok \<Rightarrow>
             if length toks < NR_TOKEN then make_token_from (drop n (c # cs)) (toks @ [tok])
             else Inl Out_of_bounds))"
  by pat_completeness auto
termination
  by (relation "measure (\<lambda>(s, _). length s)") (auto dest: first_rule_pos)

definition make_token :: "string \<Rightarrow> (bool \<times> Token list) result" where
  "make_token e = make_token_from e []"

section \<open>Evaluation\<close>

text \<open>The two \<open>if\<close> lines that count parentheses.\<close>

definition paren_step :: "tk \<Rightarrow> int \<Rightarrow> int" where
  "paren_step t depth =
     (let d = (if t = TK_CHR CHR ''('' then depth + 1 else depth)
      in if t = TK_CHR CHR '')'' then d - 1 else d)"

definition tok :: "Token list \<Rightarrow> int \<Rightarrow> tk" where
  "tok ts i = tk_type (ts ! nat i)"

text \<open>The loop of \<open>check_parentheses\<close> from \<open>i\<close> up to \<open>q\<close>; \<open>None\<close> stands for the early \<open>return false\<close>.\<close>

fun paren_loop :: "tk list \<Rightarrow> int \<Rightarrow> int option" where
  "paren_loop [] depth = Some depth"
| "paren_loop (t # ts) depth =
     (if paren_step t depth = 0 then None else paren_loop ts (paren_step t depth))"

definition slice :: "Token list \<Rightarrow> int \<Rightarrow> int \<Rightarrow> tk list" where
  "slice ts p q = map tk_type (take (nat (q - p)) (drop (nat p) ts))"

definition check_parentheses :: "Token list \<Rightarrow> int \<Rightarrow> int \<Rightarrow> bool result" where
  "check_parentheses ts p q =
     (if tok ts p \<noteq> TK_CHR CHR ''('' \<or> tok ts q \<noteq> TK_CHR CHR '')'' then Inr False
      else case paren_loop (slice ts p q) 0 of
          None \<Rightarrow> Inr False
        | Some depth \<Rightarrow> if depth = 1 then Inr True else Inl (Panic ''Parentheses not match''))"

text \<open>The loop of \<open>find_op_position\<close>: depth, best operator so far and its position.\<close>

fun op_loop :: "tk list \<Rightarrow> int \<Rightarrow> int \<Rightarrow> tk option \<Rightarrow> int \<Rightarrow> int" where
  "op_loop [] i depth opr position = position"
| "op_loop (t # ts) i depth opr position =
     (let better = (depth = 0 \<and> prec (Some t) \<le> prec opr)
      in op_loop ts (i + 1) (paren_step t depth) (if better then Some t else opr)
           (if better then i else position))"

definition find_op_position :: "Token list \<Rightarrow> int \<Rightarrow> int \<Rightarrow> int" where
  "find_op_position ts p q = op_loop (slice ts p (q + 1)) p 0 None 0"

lemma op_loop_range:
  "op_loop ts i depth opr pos = pos \<or> (i \<le> op_loop ts i depth opr pos \<and> op_loop ts i depth opr pos < i + int (length ts))"
proof (induction ts arbitrary: i depth opr pos)
  case (Cons t ts)
  let ?b = "depth = 0 \<and> prec (Some t) \<le> prec opr"
  show ?case
    using Cons.IH [of "i + 1" "paren_step t depth" "if ?b then Some t else opr" "if ?b then i else pos"]
    by (auto simp: Let_def)
qed simp

lemma prec_le_100: "prec (Some t) \<le> 100"
  by (cases t) auto

lemma find_op_position_range:
  assumes "0 \<le> p" and "p \<le> q" and "nat q < length ts"
  shows "p \<le> find_op_position ts p q \<and> find_op_position ts p q \<le> q"
proof -
  have len: "length (slice ts p (q + 1)) = nat (q + 1 - p)"
    using assms by (simp add: slice_def)
  with assms(2) obtain t us where sl: "slice ts p (q + 1) = t # us"
    by (cases "slice ts p (q + 1)") auto
  with len have "int (length us) = q - p" using assms by simp
  then show ?thesis
    using op_loop_range [of us "p + 1" "paren_step t 0" "Some t" p] prec_le_100 [of t] assms(2)
    by (auto simp: find_op_position_def sl Let_def)
qed

lemma bindM_cong [fundef_cong]:
  "m = m' \<Longrightarrow> (\<And>x. f x = g x) \<Longrightarrow> bindM m f = bindM m' g"
  by (rule arg_cong2 [where f = bindM]) auto

definition reg_operand :: "string \<Rightarrow> ('r, u32) M" where
  "reg_operand name =
     (if name = ''pc'' then getsM (\<lambda>s. pc (cpu s))
      else case reg_search regs 0 name of
          None \<Rightarrow> retM 0
        | Some i \<Rightarrow> bindM (getsM (\<lambda>s. gpr (cpu s)))
            (\<lambda>g. if i < length g then retM (g ! i) else failM Out_of_bounds))"

definition single_token :: "Token \<Rightarrow> ('r, u32) M" where
  "single_token t =
     (if tk_type t = TK_DEC \<or> tk_type t = TK_HEX then retM (word_of_int (strtol (tk_str t)))
      else if tk_type t = TK_CHR CHR ''$'' then reg_operand (drop 1 (tk_str t))
      else retM 0)"

definition binary :: "config \<Rightarrow> tk \<Rightarrow> u32 \<Rightarrow> u32 \<Rightarrow> ('r, u32) M" where
  "binary c opt val1 val2 =
     (if opt = TK_CHR CHR ''+'' then retM (val1 + val2)
      else if opt = TK_CHR CHR ''-'' then retM (val1 - val2)
      else if opt = TK_CHR CHR ''*'' then retM (val1 * val2)
      else if opt = TK_CHR CHR ''/'' then retM (if val2 \<noteq> 0 then val1 div val2 else val1)
      else if opt = TK_EQ then retM (of_bool (val1 = val2))
      else if opt = TK_LT then retM (of_bool (val1 \<le> val2))
      else if opt = TK_AND then retM (of_bool (val1 \<noteq> 0 \<and> val2 \<noteq> 0))
      else if opt = TK_DEREF then vaddr_read c val2 4
      else failM Assert_fail)"

function eval :: "config \<Rightarrow> Token list \<Rightarrow> int \<Rightarrow> int \<Rightarrow> ('r, u32) M" where
  "eval c ts p q =
     (if p > q then failM (Panic ''Bad expression'')
      else if p < 0 \<or> nat q \<ge> length ts then failM Out_of_bounds
      else if p = q then single_token (ts ! nat p)
      else case check_parentheses ts p q of
          Inl e \<Rightarrow> failM e
        | Inr b \<Rightarrow>
            if b then eval c ts (p + 1) (q - 1)
            else let opr = find_op_position ts p q; op_type = tok ts opr in
              bindM (if op_type \<noteq> TK_DEREF then eval c ts p (opr - 1) else retM 0) (\<lambda>val1.
              bindM (eval c ts (opr + 1) q) (\<lambda>val2. binary c op_type val1 val2)))"
  by pat_completeness auto
termination
proof (relation "measure (\<lambda>(c, ts, p, q). nat (q + 1 - p))", goal_cases)
  case (3 c ts p q b x xa)
  then show ?case using find_op_position_range [of p q ts] by auto
next
  case (4 c ts p q b x xa)
  then show ?case using find_op_position_range [of p q ts] by auto
qed auto

definition expr :: "config \<Rightarrow> string \<Rightarrow> bool \<Rightarrow> ('r, u32 \<times> bool) M" where
  "expr c e success =
     bindM (liftM (make_token e)) (\<lambda>(ok, ts).
       if \<not> ok then retM (0, False)
       else bindM (eval c ts 0 (int (length ts) - 1)) (\<lambda>v. retM (v, success)))"

declare eval.simps [simp del]

section \<open>Specification\<close>

text \<open>
  Expressions as trees, the tokens they are written with, and their value. A tree is well formed
  when its tokens need no further parentheses: operators are left-associative and bind by \<open>prec\<close>. The comparison
  operators are not among them; \<open>Expr_Spec\<close> has the language in terms of C.
\<close>

datatype ex = E_num bool string | E_reg string | E_par ex | E_deref ex | E_bin tk ex ex

definition plain :: "tk \<Rightarrow> Token" where
  "plain t = \<lparr>tk_type = t, tk_str = []\<rparr>"

fun toks :: "ex \<Rightarrow> Token list" where
  "toks (E_num hex s) = [\<lparr>tk_type = (if hex then TK_HEX else TK_DEC), tk_str = s\<rparr>]"
| "toks (E_reg s) = [\<lparr>tk_type = TK_CHR CHR ''$'', tk_str = CHR ''$'' # s\<rparr>]"
| "toks (E_par e) = plain (TK_CHR CHR ''('') # toks e @ [plain (TK_CHR CHR '')'')]"
| "toks (E_deref e) = plain TK_DEREF # toks e"
| "toks (E_bin t a b) = toks a @ plain t # toks b"

definition binops :: "tk set" where
  "binops = {TK_CHR CHR ''+'', TK_CHR CHR ''-'', TK_CHR CHR ''*'', TK_CHR CHR ''/'', TK_EQ, TK_AND}"

fun level :: "ex \<Rightarrow> nat" where
  "level (E_num hex s) = 100"
| "level (E_reg s) = 7"
| "level (E_par e) = 100"
| "level (E_deref e) = 6"
| "level (E_bin t a b) = prec (Some t)"

fun wf_ex :: "ex \<Rightarrow> bool" where
  "wf_ex (E_num hex s) = True"
| "wf_ex (E_reg s) = True"
| "wf_ex (E_par e) = wf_ex e"
| "wf_ex (E_deref e) = (wf_ex e \<and> level e > 6)"
| "wf_ex (E_bin t a b) = (t \<in> binops \<and> wf_ex a \<and> wf_ex b \<and> level a \<ge> prec (Some t) \<and> level b > prec (Some t))"

definition apply_op :: "tk \<Rightarrow> u32 \<Rightarrow> u32 \<Rightarrow> u32" where
  "apply_op t x y =
     (if t = TK_CHR CHR ''+'' then word_of_int (uint x + uint y)
      else if t = TK_CHR CHR ''-'' then word_of_int (uint x - uint y)
      else if t = TK_CHR CHR ''*'' then word_of_int (uint x * uint y)
      else if t = TK_CHR CHR ''/'' then (if y = 0 then x else word_of_int (uint x div uint y))
      else if t = TK_EQ then (if x = y then 1 else 0)
      else (if x = 0 \<or> y = 0 then 0 else 1))"

fun sem :: "config \<Rightarrow> ex \<Rightarrow> ('r, u32) M" where
  "sem c (E_num hex s) = retM (word_of_int (strtol s))"
| "sem c (E_reg s) = reg_operand s"
| "sem c (E_par e) = sem c e"
| "sem c (E_deref e) = bindM (sem c e) (\<lambda>v. vaddr_read c v 4)"
| "sem c (E_bin t a b) = bindM (sem c a) (\<lambda>x. bindM (sem c b) (\<lambda>y. retM (apply_op t x y)))"

abbreviation types :: "ex \<Rightarrow> tk list" where
  "types e \<equiv> map tk_type (toks e)"

lemma tk_type_plain [simp]: "tk_type (plain t) = t"
  by (simp add: plain_def)

lemma toks_pos: "0 < length (toks e)"
  by (induction e) auto

lemma binop_step: "t \<in> binops \<Longrightarrow> paren_step t d = d"
  by (auto simp: binops_def paren_step_def)

lemma paren_steps [simp]:
  "paren_step (TK_CHR CHR ''('') d = d + 1" "paren_step (TK_CHR CHR '')'') d = d - 1"
  "paren_step TK_DEREF d = d" "paren_step TK_HEX d = d" "paren_step TK_DEC d = d"
  "paren_step (TK_CHR CHR ''$'') d = d"
  by (simp_all add: paren_step_def)

lemma binop_prec: "t \<in> binops \<Longrightarrow> prec (Some t) \<le> 5"
  by (auto simp: binops_def)

lemma paren_loop_inside:
  "wf_ex e \<Longrightarrow> 1 \<le> d \<Longrightarrow> paren_loop (types e @ rest) d = paren_loop rest d"
  by (induction e arbitrary: d rest) (auto simp: binop_step)

lemma paren_loop_outside: "wf_ex e \<Longrightarrow> paren_loop (types e @ rest) 0 = None"
  by (induction e arbitrary: rest) (auto simp: paren_loop_inside)

lemma op_loop_inside:
  "wf_ex e \<Longrightarrow> 1 \<le> d \<Longrightarrow>
   op_loop (types e @ rest) i d opr pos = op_loop rest (i + int (length (toks e))) d opr pos"
  by (induction e arbitrary: d rest i) (auto simp: binop_step algebra_simps)

lemma op_loop_skip:
  "wf_ex e \<Longrightarrow> prec opr < level e \<Longrightarrow>
   op_loop (types e @ rest) i 0 opr pos = op_loop rest (i + int (length (toks e))) 0 opr pos"
  by (induction e arbitrary: rest i)
    (auto simp: op_loop_inside binop_step algebra_simps)

lemma op_loop_bin:
  assumes "wf_ex (E_bin t a b)"
    and a: "\<And>rest. op_loop (types a @ rest) i 0 opr pos
      = op_loop rest (i + int (length (toks a))) 0 (Some t') p" and "prec (Some t') = level a"
  shows "op_loop (types (E_bin t a b) @ rest) i 0 opr pos
    = op_loop rest (i + int (length (toks (E_bin t a b)))) 0 (Some t) (i + int (length (toks a)))"
  using assms by (simp add: op_loop_skip binop_step algebra_simps)

lemma op_loop_take:
  "wf_ex e \<Longrightarrow> level e \<le> prec opr \<Longrightarrow>
   \<exists>t p. prec (Some t) = level e \<and> (\<forall>rest. op_loop (types e @ rest) i 0 opr pos
     = op_loop rest (i + int (length (toks e))) 0 (Some t) p)"
proof (induction e arbitrary: i opr pos)
  case (E_par e)
  then show ?case
    by (intro exI [of _ "TK_CHR CHR ''(''"] exI [of _ i]) (simp add: op_loop_inside algebra_simps)
next
  case (E_deref e)
  then show ?case
    by (intro exI [of _ TK_DEREF] exI [of _ i]) (simp add: op_loop_skip algebra_simps)
next
  case (E_bin t a b)
  then have "level a \<le> prec opr \<or> prec opr < level a" by auto
  then show ?case
  proof
    assume "level a \<le> prec opr"
    with E_bin.IH(1) E_bin.prems obtain t' p where "prec (Some t') = level a"
      "\<And>rest. op_loop (types a @ rest) i 0 opr pos = op_loop rest (i + int (length (toks a))) 0 (Some t') p"
      by (metis wf_ex.simps(5))
    with E_bin.prems(1) op_loop_bin show ?thesis
      by (intro exI [of _ t] exI [of _ "i + int (length (toks a))"]) (metis level.simps(5))
  next
    assume "prec opr < level a"
    with E_bin.prems show ?thesis
      by (intro exI [of _ t] exI [of _ "i + int (length (toks a))"])
        (simp add: op_loop_skip binop_step algebra_simps)
  qed
next
  case (E_num hex str)
  then show ?case
    by (intro exI [of _ "if hex then TK_HEX else TK_DEC"] exI [of _ i]) simp
next
  case (E_reg str)
  then show ?case by (intro exI [of _ "TK_CHR CHR ''$''"] exI [of _ i]) simp
qed

lemma main_operator:
  assumes "wf_ex (E_bin t a b)"
  shows "op_loop (types (E_bin t a b)) i 0 None pos = i + int (length (toks a))"
proof -
  have "level a \<le> prec None"
    by (cases a) (use assms prec_le_100 in auto)
  then obtain t' p where "prec (Some t') = level a"
    "\<And>rest. op_loop (types a @ rest) i 0 None pos = op_loop rest (i + int (length (toks a))) 0 (Some t') p"
    using op_loop_take [of a None i pos] assms by auto
  from op_loop_bin [OF assms this(2,1), of "[]"] show ?thesis by simp
qed

lemma main_deref: "wf_ex (E_deref e) \<Longrightarrow> op_loop (types (E_deref e)) i 0 None pos = i"
  using op_loop_skip [of e "Some TK_DEREF" "[]"] by simp

section \<open>The evaluator computes the value\<close>

lemma slice_mid:
  "p = int (length pre) \<Longrightarrow> q = int (length pre + length ts) \<Longrightarrow> slice (pre @ ts @ post) p q = map tk_type ts"
  by (simp add: slice_def)

lemma tok_mid: "p = int (length pre) \<Longrightarrow> tok (pre @ t # post) p = tk_type t"
  by (simp add: tok_def)

definition spans :: "Token list \<Rightarrow> ex \<Rightarrow> int \<Rightarrow> int \<Rightarrow> bool" where
  "spans ts e p q \<longleftrightarrow> (\<exists>pre post. ts = pre @ toks e @ post \<and> p = int (length pre)
     \<and> q = int (length pre + length (toks e)) - 1)"

lemma spans_slice: "spans ts e p q \<Longrightarrow> slice ts p (q + 1) = types e"
  by (auto simp: spans_def intro!: slice_mid)

lemma spans_range: "spans ts e p q \<Longrightarrow> 0 \<le> p \<and> p \<le> q \<and> nat q < length ts"
proof -
  assume "spans ts e p q"
  then obtain pre post where ts: "ts = pre @ toks e @ post" "p = int (length pre)"
    "q = int (length pre) + int (length (toks e)) - 1" by (auto simp: spans_def)
  moreover from ts(1) have "length ts = length pre + length (toks e) + length post" by simp
  ultimately show ?thesis using toks_pos [of e] by linarith
qed

lemma spans_par: "spans ts (E_par e) p q \<Longrightarrow> spans ts e (p + 1) (q - 1)"
proof -
  assume "spans ts (E_par e) p q"
  then obtain pre post where ts: "ts = pre @ toks (E_par e) @ post" "p = int (length pre)"
    "q = int (length pre + length (toks (E_par e))) - 1" by (auto simp: spans_def)
  then show ?thesis
    unfolding spans_def
    by (intro exI [of _ "pre @ [plain (TK_CHR CHR ''('')]"] exI [of _ "plain (TK_CHR CHR '')'') # post"]) simp
qed

lemma spans_deref: "spans ts (E_deref e) p q \<Longrightarrow> spans ts e (p + 1) q"
proof -
  assume "spans ts (E_deref e) p q"
  then obtain pre post where ts: "ts = pre @ toks (E_deref e) @ post" "p = int (length pre)"
    "q = int (length pre + length (toks (E_deref e))) - 1" by (auto simp: spans_def)
  then show ?thesis
    unfolding spans_def by (intro exI [of _ "pre @ [plain TK_DEREF]"] exI [of _ post]) simp
qed

lemma spans_bin:
  assumes "spans ts (E_bin t a b) p q"
  shows "spans ts a p (p + int (length (toks a)) - 1)" "spans ts b (p + int (length (toks a)) + 1) q"
    and "tok ts (p + int (length (toks a))) = t"
proof -
  from assms obtain pre post where ts: "ts = pre @ toks (E_bin t a b) @ post" "p = int (length pre)"
    "q = int (length pre + length (toks (E_bin t a b))) - 1" by (auto simp: spans_def)
  then show "spans ts a p (p + int (length (toks a)) - 1)"
    unfolding spans_def by (intro exI [of _ pre] exI [of _ "plain t # toks b @ post"]) simp
  from ts show "spans ts b (p + int (length (toks a)) + 1) q"
    unfolding spans_def by (intro exI [of _ "pre @ toks a @ [plain t]"] exI [of _ post]) simp
  from ts show "tok ts (p + int (length (toks a))) = t"
    using tok_mid [of "p + int (length (toks a))" "pre @ toks a" "plain t" "toks b @ post"] by simp
qed

lemma check_parentheses_par:
  assumes "wf_ex e" and "spans ts (E_par e) p q"
  shows "check_parentheses ts p q = Inr True"
proof -
  from assms(2) obtain pre post where ts: "ts = pre @ toks (E_par e) @ post" "p = int (length pre)"
    "q = int (length pre + length (toks (E_par e))) - 1" by (auto simp: spans_def)
  have "tok ts p = TK_CHR CHR ''(''"
    using ts by (simp add: tok_def)
  moreover have "tok ts q = TK_CHR CHR '')''"
    using ts tok_mid [of q "pre @ plain (TK_CHR CHR ''('') # toks e" "plain (TK_CHR CHR '')'')" post] by simp
  moreover have "slice ts p q = TK_CHR CHR ''('' # types e"
    using ts slice_mid [of p pre q "plain (TK_CHR CHR ''('') # toks e" "plain (TK_CHR CHR '')'') # post"] by simp
  moreover have "paren_loop (types e) 1 = Some 1"
    using paren_loop_inside [OF assms(1), of 1 "[]"] by simp
  ultimately show ?thesis by (simp add: check_parentheses_def)
qed

lemma check_parentheses_bin:
  assumes "wf_ex (E_bin t a b)" and "spans ts (E_bin t a b) p q"
  shows "check_parentheses ts p q = Inr False"
proof -
  from assms(2) obtain pre post where ts: "ts = pre @ toks (E_bin t a b) @ post" "p = int (length pre)"
    "q = int (length pre + length (toks (E_bin t a b))) - 1" by (auto simp: spans_def)
  obtain bs l where b: "toks b = bs @ [l]"
    using toks_pos [of b] by (cases "toks b" rule: rev_cases) auto
  have "slice ts p q = types a @ t # map tk_type bs"
    using ts b slice_mid [of p pre q "toks a @ plain t # bs" "l # post"] by simp
  then have "paren_loop (slice ts p q) 0 = None"
    using assms(1) by (simp add: paren_loop_outside)
  then show ?thesis by (simp add: check_parentheses_def)
qed

lemma check_parentheses_deref:
  assumes "spans ts (E_deref e) p q"
  shows "check_parentheses ts p q = Inr False" "tok ts p = TK_DEREF"
  using assms by (auto simp: spans_def check_parentheses_def tok_def)

lemma binary_apply: "t \<in> binops \<Longrightarrow> binary c t x = (\<lambda>y. retM (apply_op t x y))"
  by (rule ext) (auto simp: binops_def binary_def apply_op_def word_div_def word_le_def)

lemma binary_deref: "binary c TK_DEREF x = (\<lambda>v. vaddr_read c v 4)"
  by (rule ext) (simp add: binary_def)

lemma eval_tree: "wf_ex e \<Longrightarrow> spans ts e p q \<Longrightarrow> eval c ts p q = sem c e"
proof (induction e arbitrary: p q)
  case (E_num hex str)
  then have "p = q" "ts ! nat p = \<lparr>tk_type = (if hex then TK_HEX else TK_DEC), tk_str = str\<rparr>"
    by (auto simp: spans_def)
  with spans_range [OF E_num.prems(2)] show ?case
    by (subst eval.simps) (auto simp: single_token_def)
next
  case (E_reg str)
  then have "p = q" "ts ! nat p = \<lparr>tk_type = TK_CHR CHR ''$'', tk_str = CHR ''$'' # str\<rparr>"
    by (auto simp: spans_def)
  with spans_range [OF E_reg.prems(2)] show ?case
    by (subst eval.simps) (auto simp: single_token_def)
next
  case (E_par e)
  have "p < q" using spans_range [OF spans_par [OF E_par.prems(2)]] by linarith
  with E_par spans_range [OF E_par.prems(2)] show ?case
    by (subst eval.simps) (simp add: check_parentheses_par spans_par)
next
  case (E_deref e)
  have "p < q" using spans_range [OF spans_deref [OF E_deref.prems(2)]] by linarith
  moreover have "find_op_position ts p q = p"
    unfolding find_op_position_def spans_slice [OF E_deref.prems(2)] by (rule main_deref [OF E_deref.prems(1)])
  ultimately show ?case
    using E_deref spans_range [OF E_deref.prems(2)]
    by (subst eval.simps) (simp add: check_parentheses_deref spans_deref binary_deref)
next
  case (E_bin t a b)
  note sub = spans_bin [OF E_bin.prems(2)]
  have "p < q" using spans_range [OF sub(1)] spans_range [OF sub(2)] by linarith
  moreover have "find_op_position ts p q = p + int (length (toks a))"
    unfolding find_op_position_def spans_slice [OF E_bin.prems(2)] by (rule main_operator [OF E_bin.prems(1)])
  moreover have "t \<noteq> TK_DEREF" "t \<in> binops" using E_bin.prems(1) by (auto simp: binops_def)
  ultimately show ?case
    using E_bin sub spans_range [OF E_bin.prems(2)]
    by (subst eval.simps) (simp add: check_parentheses_bin binary_apply)
qed

end
