(* ===== verification/Text_Format.thy ===== *)
theory Text_Format
  imports Prelude
begin

text \<open>
  The conversions of \<open>printf\<close> that the emulator's own text needs: hexadecimal with leading zeros
  and left-justified strings.
\<close>

definition hex_char :: "nat \<Rightarrow> char" where
  "hex_char n = (if n < 10 then char_of (48 + n) else char_of (87 + n))"

fun hex_nat :: "nat \<Rightarrow> string" where
  "hex_nat n = (if n < 16 then [hex_char n] else hex_nat (n div 16) @ [hex_char (n mod 16)])"

declare hex_nat.simps [simp del]

definition pad_left :: "nat \<Rightarrow> char \<Rightarrow> string \<Rightarrow> string" where
  "pad_left w ch s = replicate (w - length s) ch @ s"

definition pad_right :: "nat \<Rightarrow> string \<Rightarrow> string" where
  "pad_right w s = s @ replicate (w - length s) (CHR '' '')"

text \<open>\<open>%02x\<close>, and \<open>FMT_WORD\<close>, which is \<open>0x%08x\<close>.\<close>

definition fmt_02x :: "nat \<Rightarrow> string" where
  "fmt_02x n = pad_left 2 (CHR ''0'') (hex_nat n)"

definition fmt_word :: "u32 \<Rightarrow> string" where
  "fmt_word w = ''0x'' @ pad_left 8 (CHR ''0'') (hex_nat (unat w))"

lemma length_hex_nat: "n < 16 ^ k \<Longrightarrow> 0 < k \<Longrightarrow> length (hex_nat n) \<le> k"
proof (induction k arbitrary: n)
  case (Suc k)
  show ?case
  proof (cases "n < 16")
    case True
    then show ?thesis by (simp add: hex_nat.simps)
  next
    case False
    with Suc.prems have "k \<noteq> 0" by (intro notI) simp
    moreover have "n div 16 < 16 ^ k" using Suc.prems(1) by (simp add: less_mult_imp_div_less mult.commute)
    ultimately have "length (hex_nat (n div 16)) \<le> k" using Suc.IH by simp
    with False show ?thesis by (subst hex_nat.simps) simp
  qed
qed simp

lemma length_fmt_word: "length (fmt_word w) = 10"
proof -
  have "unat w < 16 ^ 8" using unsigned_less [of w] by simp
  from length_hex_nat [OF this] show ?thesis by (simp add: fmt_word_def pad_left_def)
qed

lemma length_fmt_02x: "n < 256 \<Longrightarrow> length (fmt_02x n) = 2"
  using length_hex_nat [of n 2] by (simp add: fmt_02x_def pad_left_def)

text \<open>\<open>%d\<close>, \<open>%0nX\<close> and \<open>%-nx\<close>.\<close>

fun dec_nat :: "nat \<Rightarrow> string" where
  "dec_nat n = (if n < 10 then [char_of (48 + n)] else dec_nat (n div 10) @ [char_of (48 + n mod 10)])"

declare dec_nat.simps [simp del]

definition fmt_d :: "int \<Rightarrow> string" where
  "fmt_d i = (if i < 0 then CHR ''-'' # dec_nat (nat (- i)) else dec_nat (nat i))"

definition upper :: "char \<Rightarrow> char" where
  "upper c = (if CHR ''a'' \<le> c \<and> c \<le> CHR ''z'' then char_of (of_char c - 32 :: nat) else c)"

definition fmt_X :: "nat \<Rightarrow> nat \<Rightarrow> string" where
  "fmt_X w n = pad_left w (CHR ''0'') (map upper (hex_nat n))"

end
