(* ===== verification/Expr_Spec.thy ===== *)
theory Expr_Spec
  imports Sdb_Expr Text_Format
begin

text \<open>
  The language the debugger's evaluator is meant for, stated apart from its code: numbers, registers by their ABI names,
  parentheses, a dereference, and the operators \<open>+ - * / == &&\<close> with the levels and the left association of C. The
  comparisons are left out, since the code and its comments disagree on them.
\<close>

unbundle bit_operations_syntax

section \<open>Syntax\<close>

datatype cop = C_add | C_sub | C_mul | C_div | C_eq | C_and

datatype cexp = C_num nat | C_hex nat | C_reg string | C_par cexp | C_deref cexp | C_bin cop cexp cexp

fun cop_level :: "cop \<Rightarrow> nat" where
  "cop_level C_and = 1" | "cop_level C_eq = 2" | "cop_level C_add = 3" | "cop_level C_sub = 3"
| "cop_level C_mul = 4" | "cop_level C_div = 4"

fun c_level :: "cexp \<Rightarrow> nat" where
  "c_level (C_bin f a b) = cop_level f"
| "c_level (C_deref e) = 5"
| "c_level e = 6"

text \<open>The registers of the RISC-V calling convention.\<close>

definition abi_names :: "(string \<times> nat) list" where
  "abi_names = [(''ra'', 1), (''sp'', 2), (''gp'', 3), (''tp'', 4), (''t0'', 5), (''t1'', 6), (''t2'', 7), (''s0'', 8), (''s1'', 9),
     (''a0'', 10), (''a1'', 11), (''a2'', 12), (''a3'', 13), (''a4'', 14), (''a5'', 15), (''a6'', 16), (''a7'', 17),
     (''s2'', 18), (''s3'', 19), (''s4'', 20), (''s5'', 21), (''s6'', 22), (''s7'', 23), (''s8'', 24), (''s9'', 25),
     (''s10'', 26), (''s11'', 27), (''t3'', 28), (''t4'', 29), (''t5'', 30), (''t6'', 31)]"

text \<open>
  Expressions that need no further parentheses. The operand of a dereference is a number, a register or in parentheses:
  the tokenizer takes the second star of \<open>**e\<close> for a multiplication.
\<close>

fun legal_ex :: "cexp \<Rightarrow> bool" where
  "legal_ex (C_num n) \<longleftrightarrow> n < 2 ^ 32"
| "legal_ex (C_hex n) \<longleftrightarrow> n < 2 ^ 32"
| "legal_ex (C_reg r) \<longleftrightarrow> r = ''pc'' \<or> r \<in> fst ` set abi_names"
| "legal_ex (C_par e) \<longleftrightarrow> legal_ex e"
| "legal_ex (C_deref e) \<longleftrightarrow> legal_ex e \<and> 5 < c_level e"
| "legal_ex (C_bin f a b) \<longleftrightarrow> legal_ex a \<and> legal_ex b \<and> cop_level f \<le> c_level a \<and> cop_level f < c_level b"

section \<open>Values\<close>

fun cop_val :: "cop \<Rightarrow> u32 \<Rightarrow> u32 \<Rightarrow> u32" where
  "cop_val C_add x y = word_of_int (uint x + uint y)"
| "cop_val C_sub x y = word_of_int (uint x - uint y)"
| "cop_val C_mul x y = word_of_int (uint x * uint y)"
| "cop_val C_div x y = (if y = 0 then x else word_of_int (uint x div uint y))"
| "cop_val C_eq x y = (if uint x = uint y then 1 else 0)"
| "cop_val C_and x y = (if x = 0 \<or> y = 0 then 0 else 1)"

definition reg_value :: "string \<Rightarrow> ('r, u32) M" where
  "reg_value r = (\<lambda>s. if r = ''pc'' then Inr (pc (cpu s), s)
     else case map_of abi_names r of None \<Rightarrow> Inr (0, s)
       | Some i \<Rightarrow> if i < length (gpr (cpu s)) then Inr (gpr (cpu s) ! i, s) else Inl Out_of_bounds)"

fun c_val :: "config \<Rightarrow> cexp \<Rightarrow> ('r, u32) M" where
  "c_val c (C_num n) = retM (of_nat n)"
| "c_val c (C_hex n) = retM (of_nat n)"
| "c_val c (C_reg r) = reg_value r"
| "c_val c (C_par e) = c_val c e"
| "c_val c (C_deref e) = bindM (c_val c e) (\<lambda>a. vaddr_read c a 4)"
| "c_val c (C_bin f a b) = bindM (c_val c a) (\<lambda>x. bindM (c_val c b) (\<lambda>y. retM (cop_val f x y)))"

section \<open>Tokens\<close>

fun cop_token :: "cop \<Rightarrow> tk" where
  "cop_token C_add = TK_CHR CHR ''+''" | "cop_token C_sub = TK_CHR CHR ''-''" | "cop_token C_mul = TK_CHR CHR ''*''"
| "cop_token C_div = TK_CHR CHR ''/''" | "cop_token C_eq = TK_EQ" | "cop_token C_and = TK_AND"

fun tree :: "cexp \<Rightarrow> ex" where
  "tree (C_num n) = E_num False (dec_nat n)"
| "tree (C_hex n) = E_num True (''0x'' @ hex_nat n)"
| "tree (C_reg r) = E_reg r"
| "tree (C_par e) = E_par (tree e)"
| "tree (C_deref e) = E_deref (tree e)"
| "tree (C_bin f a b) = E_bin (cop_token f) (tree a) (tree b)"

definition c_tokens :: "cexp \<Rightarrow> Token list" where
  "c_tokens e = toks (tree e)"

section \<open>The evaluator computes the value\<close>

lemma level_tree:
  "level (tree e) = (case e of C_bin f a b \<Rightarrow> prec (Some (cop_token f)) | C_deref _ \<Rightarrow> 6 | C_reg _ \<Rightarrow> 7 | _ \<Rightarrow> 100)"
  by (cases e) simp_all

lemma cop_prec: "prec (Some (cop_token f)) = (if cop_level f \<le> 2 then cop_level f else cop_level f + 1)"
  by (cases f) simp_all

lemma cop_level_bound: "cop_level f \<le> 4"
  by (cases f) simp_all

lemma level_cop:
  "cop_level f \<le> c_level e \<Longrightarrow> prec (Some (cop_token f)) \<le> level (tree e)"
  "cop_level f < c_level e \<Longrightarrow> prec (Some (cop_token f)) < level (tree e)"
  using cop_level_bound [of f] by (cases e; simp add: cop_prec)+

lemma legal_wf: "legal_ex e \<Longrightarrow> wf_ex (tree e)"
proof (induction e)
  case (C_deref e)
  then have "wf_ex (tree e)" "5 < c_level e" by simp_all
  moreover have "\<not> 5 < cop_level f" for f using cop_level_bound [of f] by simp
  ultimately show ?case by (cases e) simp_all
next
  case (C_bin f a b)
  moreover have "cop_token f \<in> binops" by (cases f) (simp_all add: binops_def)
  ultimately show ?case by (simp add: level_cop)
qed simp_all

text \<open>Reading back the digits of a number.\<close>

lemma digit_chars:
  "d < 16 \<Longrightarrow> digit_val (hex_char d) = int d" "d < 10 \<Longrightarrow> digit_val (char_of (48 + d)) = int d"
proof -
  have "\<forall>d \<in> set [0..<16]. digit_val (hex_char d) = int d" "\<forall>d \<in> set [0..<10]. digit_val (char_of (48 + d)) = int d"
    by code_simp+
  then show "d < 16 \<Longrightarrow> digit_val (hex_char d) = int d" "d < 10 \<Longrightarrow> digit_val (char_of (48 + d)) = int d" by simp_all
qed

lemma hex_nat_value:
  "list_all (\<lambda>ch. digit_val ch < 16) (hex_nat n) \<and> strtol_digits 16 0 (hex_nat n) = int n"
proof (induction n rule: hex_nat.induct)
  case (1 n)
  then show ?case
    by (cases "n < 16") (simp_all add: hex_nat.simps [of n] strtol_digits_append digit_chars del: of_nat_mod of_nat_div, simp add: zdiv_int zmod_int)
qed

lemma dec_nat_value:
  "list_all (\<lambda>ch. digit_val ch < 10) (dec_nat n) \<and> strtol_digits 10 0 (dec_nat n) = int n"
proof (induction n rule: dec_nat.induct)
  case (1 n)
  then show ?case
    by (cases "n < 10") (simp_all add: dec_nat.simps [of n] strtol_digits_append digit_chars del: of_nat_mod of_nat_div, simp add: zdiv_int zmod_int)
qed

lemma dec_nat_hd: "\<exists>d cs. dec_nat n = char_of (48 + d :: nat) # cs \<and> d < 10 \<and> (d = 0 \<longleftrightarrow> n = 0)"
proof (induction n rule: dec_nat.induct)
  case (1 n)
  show ?case
  proof (cases "n < 10")
    case True
    then show ?thesis by (intro exI [of _ n] exI [of _ "[]"]) (simp add: dec_nat.simps)
  next
    case False
    from 1 [OF this] obtain d cs where "dec_nat (n div 10) = char_of (48 + d :: nat) # cs" "d < 10" "d = 0 \<longleftrightarrow> n div 10 = 0"
      by (elim exE conjE)
    with False show ?thesis
      by (intro exI [of _ d] exI [of _ "cs @ [char_of (48 + n mod 10)]"]) (simp add: dec_nat.simps [of n])
  qed
qed

lemma strtol_dec_nat:
  assumes "n < 2 ^ 32"
  shows "strtol (dec_nat n) = int n"
proof -
  obtain d :: nat and cs where d: "dec_nat n = char_of (48 + d) # cs" "d < 10" "d = 0 \<longleftrightarrow> n = 0" using dec_nat_hd by blast
  have "\<forall>d \<in> set [0..<10]. \<not> isspace (char_of (48 + d :: nat)) \<and> char_of (48 + d) \<noteq> CHR ''-'' \<and> char_of (48 + d) \<noteq> CHR ''+''
    \<and> (char_of (48 + d) = CHR ''0'' \<longleftrightarrow> d = 0)" by code_simp
  with d(2) have c: "\<not> isspace (char_of (48 + d))" "char_of (48 + d) \<noteq> CHR ''-''" "char_of (48 + d) \<noteq> CHR ''+''"
    "char_of (48 + d) = CHR ''0'' \<longleftrightarrow> n = 0" using d(3) by simp_all
  have "strtol_unsigned (dec_nat n) = int n"
  proof (cases "n = 0")
    case True
    moreover have "strtol_unsigned (dec_nat 0) = 0" by code_simp
    ultimately show ?thesis by simp
  next
    case False
    then show ?thesis using dec_nat_value [of n] c(4) d(1) by (auto simp: strtol_unsigned_def split: list.splits)
  qed
  then show ?thesis using assms c(1-3) by (simp add: strtol_def d(1) LONG_MAX_def)
qed

lemma strtol_hex_nat:
  assumes "n < 2 ^ 32"
  shows "strtol (''0x'' @ hex_nat n) = int n"
proof -
  have "hex_nat n \<noteq> []" by (subst hex_nat.simps) simp
  then obtain d cs where d: "hex_nat n = d # cs" by (cases "hex_nat n") auto
  moreover have "digit_val d < 16" "strtol_digits 16 0 (hex_nat n) = int n" using hex_nat_value [of n] d by auto
  ultimately have "strtol_unsigned (''0x'' @ hex_nat n) = int n" by (simp add: strtol_unsigned_def del: strtol_digits.simps)
  then show ?thesis using assms by (simp add: strtol_def isspace_def LONG_MAX_def)
qed

lemma reg_search_abi: "list_all (\<lambda>(r, i). reg_search regs 0 r = Some i) abi_names" "distinct (map fst abi_names)"
  by code_simp+

lemma reg_operand_value:
  assumes "r = ''pc'' \<or> r \<in> fst ` set abi_names"
  shows "reg_operand r = reg_value r"
proof (cases "r = ''pc''")
  case False
  with assms obtain i where "(r, i) \<in> set abi_names" by auto
  then have "reg_search regs 0 r = Some i" "map_of abi_names r = Some i"
    using reg_search_abi by (auto simp: list_all_iff)
  then show ?thesis using False by (auto simp: reg_operand_def reg_value_def fun_eq_iff)
qed (simp add: reg_operand_def reg_value_def fun_eq_iff)

lemma apply_cop: "apply_op (cop_token f) x y = cop_val f x y"
  by (cases f) (simp_all add: apply_op_def word_uint_eq_iff)

lemma sem_tree: "legal_ex e \<Longrightarrow> sem c (tree e) = c_val c e"
  using strtol_hex_nat by (induction e) (simp_all add: strtol_dec_nat reg_operand_value apply_cop del: cop_val.simps)

lemma eval_c_tokens:
  assumes "legal_ex e"
  shows "eval c (c_tokens e) 0 (int (length (c_tokens e)) - 1) = c_val c e"
proof -
  have "spans (c_tokens e) (tree e) 0 (int (length (c_tokens e)) - 1)"
    unfolding spans_def c_tokens_def by (intro exI [of _ "[]"]) simp
  from eval_tree [OF legal_wf [OF assms] this] show ?thesis by (simp add: sem_tree [OF assms])
qed

end
