(* ===== verification/Am_Devices.thy ===== *)
theory Am_Devices
  imports Keyboard
begin

text \<open>
  The guest side of the devices: the abstract machine's I/O extension for the emulator
  (\<open>am/src/platform/nemu/ioe/\<close>) and for the ysyxSoC board (\<open>am/src/riscv/ysyxsoc/\<close>). The hardware behind
  \<open>inb\<close>, \<open>inl\<close>, \<open>outb\<close> and \<open>outl\<close> is a parameter, the record \<open>bus\<close>: each access may change the state of the
  devices. Loops that poll a register are partial functions of that state.

  The lemmas show that reading the two halves of the clock gives a time between the first and the last read
  and always ends, that the scan code decoder returns the sequence of key events the keyboard sent, and
  that drawing a rectangle changes the pixels of the rectangle and no others.
\<close>

record 'd bus =
  inb :: "u32 \<Rightarrow> 'd \<Rightarrow> u8 \<times> 'd"
  inl :: "u32 \<Rightarrow> 'd \<Rightarrow> u32 \<times> 'd"
  outb :: "u32 \<Rightarrow> u8 \<Rightarrow> 'd \<Rightarrow> 'd"
  outl :: "u32 \<Rightarrow> u32 \<Rightarrow> 'd \<Rightarrow> 'd"

section \<open>Addresses\<close>

definition DEVICE_BASE :: u32 where "DEVICE_BASE = 0xa0000000"

definition MMIO_BASE :: u32 where "MMIO_BASE = 0xa0000000"

definition SERIAL_PORT :: u32 where "SERIAL_PORT = DEVICE_BASE + 0x00003f8"

definition KBD_ADDR :: u32 where "KBD_ADDR = DEVICE_BASE + 0x0000060"

definition RTC_ADDR :: u32 where "RTC_ADDR = DEVICE_BASE + 0x0000048"

definition VGACTL_ADDR :: u32 where "VGACTL_ADDR = DEVICE_BASE + 0x0000100"

definition FB_ADDR :: u32 where "FB_ADDR = MMIO_BASE + 0x1000000"

definition SYNC_ADDR :: u32 where "SYNC_ADDR = VGACTL_ADDR + 4"

definition SOC_PS2_ADDR :: u32 where "SOC_PS2_ADDR = 0x10011000"

definition SOC_FB_ADDR :: u32 where "SOC_FB_ADDR = 0x21000000"

section \<open>Timer\<close>

text \<open>The loop around the three reads, for the clock register at \<open>addr\<close>.\<close>

partial_function (option) read_clock :: "'d bus \<Rightarrow> u32 \<Rightarrow> 'd \<Rightarrow> (u64 \<times> 'd) option" where
  "read_clock b addr d =
     (let (high1, d1) = inl b (addr + 4) d;
          (low, d2) = inl b (addr + 0) d1;
          (high2, d3) = inl b (addr + 4) d2
      in if high1 \<noteq> high2 then read_clock b addr d3
         else Some (push_bit 32 (ucast high1) OR ucast low, d3))"

definition nemu_timer_uptime :: "'d bus \<Rightarrow> 'd \<Rightarrow> (u64 \<times> 'd) option" where
  "nemu_timer_uptime b d = read_clock b RTC_ADDR d"

definition soc_timer_uptime :: "'d bus \<Rightarrow> 'd \<Rightarrow> (u64 \<times> 'd) option" where
  "soc_timer_uptime b d = map_option (\<lambda>(t, d'). (t * 5, d')) (read_clock b 0x02000048 d)"

record rtc =
  year :: int
  month :: int
  day :: int
  hour :: int
  minute :: int
  second :: int

definition am_timer_rtc :: rtc where
  "am_timer_rtc = \<lparr>year = 1900, month = 0, day = 0, hour = 0, minute = 0, second = 0\<rparr>"

section \<open>Serial line\<close>

definition nemu_putch :: "'d bus \<Rightarrow> u8 \<Rightarrow> 'd \<Rightarrow> 'd" where
  "nemu_putch b ch d = outb b SERIAL_PORT ch d"

partial_function (option) soc_putch :: "'d bus \<Rightarrow> u8 \<Rightarrow> 'd \<Rightarrow> 'd option" where
  "soc_putch b ch d =
     (let (lsr, d1) = inb b 0x10000005 d
      in if lsr AND 0x20 = 0 then soc_putch b ch d1 else Some (outb b 0x10000000 ch d1))"

definition soc_uart_init :: "'d bus \<Rightarrow> 'd \<Rightarrow> 'd" where
  "soc_uart_init b d =
     (let (tmp, d) = inb b 0x10000003 d;
          d = outb b 0x10000003 (tmp OR 0x80) d;
          d = outb b 0x10000000 0x01 d;
          d = outb b 0x10000001 0x00 d;
          (tmp, d) = inb b 0x10000003 d
      in outb b 0x10000003 (tmp AND NOT 0x80) d)"

definition soc_uart_rx :: "'d bus \<Rightarrow> 'd \<Rightarrow> u8 \<times> 'd" where
  "soc_uart_rx b d =
     (let (lsr, d1) = inb b 0x10000005 d
      in if lsr AND 0x1 = 0x1 then inb b 0x10000000 d1 else (0xff, d1))"

section \<open>Keyboard\<close>

text \<open>The X-macro list \<open>AM_KEYS\<close>; \<open>AM_KEY_k\<close> is one more than the position of \<open>k\<close>.\<close>

definition AM_KEYS :: "string list" where
  "AM_KEYS =
    [''ESCAPE'', ''F1'', ''F2'', ''F3'', ''F4'', ''F5'', ''F6'', ''F7'', ''F8'', ''F9'', ''F10'', ''F11'', ''F12'',
     ''GRAVE'', ''1'', ''2'', ''3'', ''4'', ''5'', ''6'', ''7'', ''8'', ''9'', ''0'', ''MINUS'', ''EQUALS'', ''BACKSPACE'',
     ''TAB'', ''Q'', ''W'', ''E'', ''R'', ''T'', ''Y'', ''U'', ''I'', ''O'', ''P'', ''LEFTBRACKET'', ''RIGHTBRACKET'', ''BACKSLASH'',
     ''CAPSLOCK'', ''A'', ''S'', ''D'', ''F'', ''G'', ''H'', ''J'', ''K'', ''L'', ''SEMICOLON'', ''APOSTROPHE'', ''RETURN'',
     ''LSHIFT'', ''Z'', ''X'', ''C'', ''V'', ''B'', ''N'', ''M'', ''COMMA'', ''PERIOD'', ''SLASH'', ''RSHIFT'',
     ''LCTRL'', ''APPLICATION'', ''LALT'', ''SPACE'', ''RALT'', ''RCTRL'',
     ''UP'', ''DOWN'', ''LEFT'', ''RIGHT'', ''INSERT'', ''DELETE'', ''HOME'', ''END'', ''PAGEUP'', ''PAGEDOWN'']"

definition AM_KEY_NONE :: u32 where "AM_KEY_NONE = 0"

fun key_number :: "string \<Rightarrow> string list \<Rightarrow> u32 \<Rightarrow> u32" where
  "key_number k [] n = AM_KEY_NONE"
| "key_number k (x # xs) n = (if x = k then n else key_number k xs (n + 1))"

definition AM_KEY :: "string \<Rightarrow> u32" where
  "AM_KEY k = key_number k AM_KEYS 1"

definition soc_keymap :: "(u8 \<times> string) list" where
  "soc_keymap =
    [(0x76, ''ESCAPE''), (0x05, ''F1''), (0x06, ''F2''), (0x04, ''F3''), (0x0c, ''F4''),
     (0x03, ''F5''), (0x0b, ''F6''), (0x83, ''F7''), (0x0a, ''F8''), (0x01, ''F9''),
     (0x09, ''F10''), (0x78, ''F11''), (0x07, ''F12''), (0x0e, ''GRAVE''), (0x16, ''1''),
     (0x1e, ''2''), (0x26, ''3''), (0x25, ''4''), (0x2e, ''5''), (0x36, ''6''), (0x3d, ''7''),
     (0x3e, ''8''), (0x46, ''9''), (0x45, ''0''), (0x4e, ''MINUS''), (0x55, ''EQUALS''),
     (0x66, ''BACKSPACE''), (0x0d, ''TAB''), (0x15, ''Q''), (0x1d, ''W''), (0x24, ''E''),
     (0x2d, ''R''), (0x2c, ''T''), (0x35, ''Y''), (0x3c, ''U''), (0x43, ''I''), (0x44, ''O''),
     (0x4d, ''P''), (0x54, ''LEFTBRACKET''), (0x5b, ''RIGHTBRACKET''), (0x5d, ''BACKSLASH''),
     (0x58, ''CAPSLOCK''), (0x1c, ''A''), (0x1b, ''S''), (0x23, ''D''), (0x2b, ''F''),
     (0x34, ''G''), (0x33, ''H''), (0x3b, ''J''), (0x42, ''K''), (0x4b, ''L''),
     (0x4c, ''SEMICOLON''), (0x52, ''APOSTROPHE''), (0x5a, ''RETURN''), (0x12, ''LSHIFT''),
     (0x1a, ''Z''), (0x22, ''X''), (0x21, ''C''), (0x2a, ''V''), (0x32, ''B''), (0x31, ''N''),
     (0x3a, ''M''), (0x41, ''COMMA''), (0x49, ''PERIOD''), (0x4a, ''SLASH''), (0x59, ''RSHIFT''),
     (0x14, ''LCTRL''), (0x11, ''LALT''), (0x29, ''SPACE'')]"

definition soc_ext_keymap :: "(u8 \<times> string) list" where
  "soc_ext_keymap =
    [(0x14, ''RCTRL''), (0x11, ''RALT''), (0x75, ''UP''), (0x72, ''DOWN''), (0x6b, ''LEFT''),
     (0x74, ''RIGHT''), (0x70, ''INSERT''), (0x71, ''DELETE''), (0x6c, ''HOME''), (0x69, ''END''),
     (0x7d, ''PAGEUP''), (0x7a, ''PAGEDOWN''), (0x2f, ''APPLICATION'')]"

definition key_entry :: "(u8 \<times> string) list \<Rightarrow> u8 \<Rightarrow> u32" where
  "key_entry table code = (case map_of table code of None \<Rightarrow> AM_KEY_NONE | Some k \<Rightarrow> AM_KEY k)"

record key_event =
  keydown :: bool
  keycode :: u32

record prefixes =
  break_code :: bool
  extended :: bool

partial_function (option) soc_input_keybrd :: "'d bus \<Rightarrow> prefixes \<Rightarrow> 'd \<Rightarrow> (key_event \<times> prefixes \<times> 'd) option" where
  "soc_input_keybrd b st d =
     (let (code, d1) = inb b SOC_PS2_ADDR d in
      if code = 0 then Some (\<lparr>keydown = False, keycode = AM_KEY_NONE\<rparr>, st, d1)
      else if code = 0xe0 then soc_input_keybrd b (st\<lparr>extended := True\<rparr>) d1
      else if code = 0xf0 then soc_input_keybrd b (st\<lparr>break_code := True\<rparr>) d1
      else Some (\<lparr>keydown = \<not> break_code st,
                  keycode = (if extended st then key_entry soc_ext_keymap code else key_entry soc_keymap code)\<rparr>,
                 \<lparr>break_code = False, extended = False\<rparr>, d1))"

text \<open>On the emulator a key event is one register.\<close>

definition decode_key :: "u32 \<Rightarrow> key_event" where
  "decode_key key = \<lparr>keydown = (key AND KEYDOWN_MASK = KEYDOWN_MASK), keycode = key AND NOT KEYDOWN_MASK\<rparr>"

definition nemu_input_keybrd :: "'d bus \<Rightarrow> 'd \<Rightarrow> key_event \<times> 'd" where
  "nemu_input_keybrd b d = (let (key, d1) = inl b KBD_ADDR d in (decode_key key, d1))"

section \<open>Screen\<close>

record fbdraw =
  fb_x :: u32
  fb_y :: u32
  pixels :: "(u32 \<Rightarrow> u32) option"
  fb_w :: u32
  fb_h :: u32
  fb_sync :: bool

text \<open>\<open>pixels\<close> is the source array, or \<open>None\<close> for \<open>NULL\<close>. The stores of the two loops, in their order.\<close>

definition draw_address :: "u32 \<Rightarrow> u32 \<Rightarrow> fbdraw \<Rightarrow> nat \<Rightarrow> nat \<Rightarrow> u32" where
  "draw_address fb width ctl i j = fb + ((fb_y ctl + of_nat i) * width + of_nat j + fb_x ctl) * 4"

definition draw_stores :: "u32 \<Rightarrow> u32 \<Rightarrow> fbdraw \<Rightarrow> (u32 \<Rightarrow> u32) \<Rightarrow> (u32 \<times> u32) list" where
  "draw_stores fb width ctl src =
     concat (map (\<lambda>i. map (\<lambda>j. (draw_address fb width ctl i j, src (of_nat i * fb_w ctl + of_nat j)))
       [0..<unat (fb_w ctl)]) [0..<unat (fb_h ctl)])"

definition nemu_gpu_fbdraw :: "'d bus \<Rightarrow> fbdraw \<Rightarrow> 'd \<Rightarrow> 'd" where
  "nemu_gpu_fbdraw b ctl d =
     (let (v, d) = inl b VGACTL_ADDR d;
          width = drop_bit 16 v;
          d = (case pixels ctl of None \<Rightarrow> d | Some src \<Rightarrow> foldl (\<lambda>d (a, v). outl b a v d) d (draw_stores FB_ADDR width ctl src))
      in if fb_sync ctl then outl b SYNC_ADDR 1 d else d)"

definition soc_gpu_fbdraw :: "'d bus \<Rightarrow> fbdraw \<Rightarrow> 'd \<Rightarrow> 'd" where
  "soc_gpu_fbdraw b ctl d =
     (case pixels ctl of None \<Rightarrow> d | Some src \<Rightarrow> foldl (\<lambda>d (a, v). outl b a v d) d (draw_stores SOC_FB_ADDR 640 ctl src))"

definition nemu_gpu_init :: "'d bus \<Rightarrow> 'd \<Rightarrow> 'd" where
  "nemu_gpu_init b d =
     (let (v, d) = inl b VGACTL_ADDR d;
          w = drop_bit 16 v;
          (v, d) = inl b VGACTL_ADDR d;
          h = v AND 0xffff;
          d = foldl (\<lambda>d i. outl b (FB_ADDR + of_nat i * 4) (of_nat i) d) d [0..<nat (sint (w * h))]
      in outl b SYNC_ADDR 1 d)"

record gpu_config =
  gpu_present :: bool
  has_accel :: bool
  gpu_width :: u32
  gpu_height :: u32
  vmemsz :: u32

definition nemu_gpu_config :: "'d bus \<Rightarrow> 'd \<Rightarrow> gpu_config \<times> 'd" where
  "nemu_gpu_config b d =
     (let (v1, d) = inl b VGACTL_ADDR d; (v2, d) = inl b VGACTL_ADDR d
      in (\<lparr>gpu_present = True, has_accel = False, gpu_width = drop_bit 16 v1, gpu_height = v2 AND 0xffff, vmemsz = 0\<rparr>, d))"

definition soc_gpu_config :: gpu_config where
  "soc_gpu_config = \<lparr>gpu_present = True, has_accel = False, gpu_width = 640, gpu_height = 480, vmemsz = 0\<rparr>"

section \<open>The device registers\<close>

definition AM_UART_CONFIG :: nat where "AM_UART_CONFIG = 1"
definition AM_UART_RX :: nat where "AM_UART_RX = 3"
definition AM_TIMER_CONFIG :: nat where "AM_TIMER_CONFIG = 4"
definition AM_TIMER_RTC :: nat where "AM_TIMER_RTC = 5"
definition AM_TIMER_UPTIME :: nat where "AM_TIMER_UPTIME = 6"
definition AM_INPUT_CONFIG :: nat where "AM_INPUT_CONFIG = 7"
definition AM_INPUT_KEYBRD :: nat where "AM_INPUT_KEYBRD = 8"
definition AM_GPU_CONFIG :: nat where "AM_GPU_CONFIG = 9"
definition AM_GPU_STATUS :: nat where "AM_GPU_STATUS = 10"
definition AM_GPU_FBDRAW :: nat where "AM_GPU_FBDRAW = 11"
definition AM_AUDIO_CONFIG :: nat where "AM_AUDIO_CONFIG = 14"
definition AM_AUDIO_CTRL :: nat where "AM_AUDIO_CTRL = 15"
definition AM_AUDIO_STATUS :: nat where "AM_AUDIO_STATUS = 16"
definition AM_AUDIO_PLAY :: nat where "AM_AUDIO_PLAY = 17"
definition AM_DISK_CONFIG :: nat where "AM_DISK_CONFIG = 18"
definition AM_DISK_STATUS :: nat where "AM_DISK_STATUS = 19"
definition AM_DISK_BLKIO :: nat where "AM_DISK_BLKIO = 20"
definition AM_NET_CONFIG :: nat where "AM_NET_CONFIG = 21"

lemmas am_registers = AM_UART_CONFIG_def AM_UART_RX_def AM_TIMER_CONFIG_def AM_TIMER_RTC_def AM_TIMER_UPTIME_def
  AM_INPUT_CONFIG_def AM_INPUT_KEYBRD_def AM_GPU_CONFIG_def AM_GPU_STATUS_def AM_GPU_FBDRAW_def AM_AUDIO_CONFIG_def
  AM_AUDIO_CTRL_def AM_AUDIO_STATUS_def AM_AUDIO_PLAY_def AM_DISK_CONFIG_def AM_DISK_STATUS_def AM_DISK_BLKIO_def
  AM_NET_CONFIG_def

text \<open>The handlers of the tables \<open>lut\<close>, and what each leaves in the caller's buffer.\<close>

datatype handler =
  H_timer_config | H_timer_rtc | H_timer_uptime | H_input_config | H_input_keybrd | H_uart_config | H_uart_rx
  | H_gpu_config | H_gpu_status | H_gpu_fbdraw | H_audio_config | H_audio_ctrl | H_audio_status | H_audio_play
  | H_disk_config | H_disk_status | H_disk_blkio | H_net_config | H_fail

datatype reply =
  Timer_Config bool bool | Timer_Rtc rtc | Timer_Uptime u64 | Present bool | Input_Keybrd key_event
  | Uart_Rx u8 | Gpu_Config gpu_config | Ready bool | Audio_Count u32 | Unchanged

definition nemu_lut :: "(nat \<times> handler) list" where
  "nemu_lut =
    [(AM_TIMER_CONFIG, H_timer_config), (AM_TIMER_RTC, H_timer_rtc), (AM_TIMER_UPTIME, H_timer_uptime),
     (AM_INPUT_CONFIG, H_input_config), (AM_INPUT_KEYBRD, H_input_keybrd), (AM_GPU_CONFIG, H_gpu_config),
     (AM_GPU_FBDRAW, H_gpu_fbdraw), (AM_GPU_STATUS, H_gpu_status), (AM_UART_CONFIG, H_uart_config),
     (AM_AUDIO_CONFIG, H_audio_config), (AM_AUDIO_CTRL, H_audio_ctrl), (AM_AUDIO_STATUS, H_audio_status),
     (AM_AUDIO_PLAY, H_audio_play), (AM_DISK_CONFIG, H_disk_config), (AM_DISK_STATUS, H_disk_status),
     (AM_DISK_BLKIO, H_disk_blkio), (AM_NET_CONFIG, H_net_config), (AM_UART_RX, H_uart_rx)]"

definition soc_lut :: "(nat \<times> handler) list" where
  "soc_lut =
    [(AM_TIMER_CONFIG, H_timer_config), (AM_TIMER_RTC, H_timer_rtc), (AM_TIMER_UPTIME, H_timer_uptime),
     (AM_INPUT_CONFIG, H_input_config), (AM_INPUT_KEYBRD, H_input_keybrd), (AM_UART_CONFIG, H_uart_config),
     (AM_UART_RX, H_uart_rx), (AM_GPU_CONFIG, H_gpu_config), (AM_GPU_FBDRAW, H_gpu_fbdraw)]"

text \<open>\<open>lut\<close> after the loop of \<open>ioe_init\<close>, which puts \<open>fail\<close> into every free entry of the 128.\<close>

definition filled_lut :: "(nat \<times> handler) list \<Rightarrow> nat \<Rightarrow> handler" where
  "filled_lut entries reg = (case map_of entries reg of None \<Rightarrow> H_fail | Some h \<Rightarrow> h)"

definition nemu_ioe_init :: "'d bus \<Rightarrow> 'd \<Rightarrow> 'd" where
  "nemu_ioe_init b d = nemu_gpu_init b d"

definition soc_ioe_init :: "'d bus \<Rightarrow> 'd \<Rightarrow> 'd" where
  "soc_ioe_init b d = soc_uart_init b d"

definition no_return :: "'a option \<Rightarrow> 'a result" where
  "no_return x = (case x of None \<Rightarrow> Inl Diverges | Some y \<Rightarrow> Inr y)"

fun nemu_handler :: "'d bus \<Rightarrow> handler \<Rightarrow> fbdraw \<Rightarrow> 'd \<Rightarrow> (reply \<times> 'd) result" where
  "nemu_handler b H_timer_config ctl d = Inr (Timer_Config True True, d)"
| "nemu_handler b H_timer_rtc ctl d = Inr (Timer_Rtc am_timer_rtc, d)"
| "nemu_handler b H_timer_uptime ctl d = bindE (no_return (nemu_timer_uptime b d)) (\<lambda>(t, d'). Inr (Timer_Uptime t, d'))"
| "nemu_handler b H_input_config ctl d = Inr (Present True, d)"
| "nemu_handler b H_input_keybrd ctl d = (let (k, d') = nemu_input_keybrd b d in Inr (Input_Keybrd k, d'))"
| "nemu_handler b H_uart_config ctl d = Inr (Present False, d)"
| "nemu_handler b H_uart_rx ctl d = Inr (Unchanged, d)"
| "nemu_handler b H_gpu_config ctl d = (let (c, d') = nemu_gpu_config b d in Inr (Gpu_Config c, d'))"
| "nemu_handler b H_gpu_status ctl d = Inr (Ready True, d)"
| "nemu_handler b H_gpu_fbdraw ctl d = Inr (Unchanged, nemu_gpu_fbdraw b ctl d)"
| "nemu_handler b H_audio_config ctl d = Inr (Present False, d)"
| "nemu_handler b H_audio_ctrl ctl d = Inr (Unchanged, d)"
| "nemu_handler b H_audio_status ctl d = Inr (Audio_Count 0, d)"
| "nemu_handler b H_audio_play ctl d = Inr (Unchanged, d)"
| "nemu_handler b H_disk_config ctl d = Inr (Present False, d)"
| "nemu_handler b H_disk_status ctl d = Inr (Unchanged, d)"
| "nemu_handler b H_disk_blkio ctl d = Inr (Unchanged, d)"
| "nemu_handler b H_net_config ctl d = Inr (Present False, d)"
| "nemu_handler b H_fail ctl d = Inl (Panic ''access nonexist register'')"

fun soc_handler :: "'d bus \<Rightarrow> handler \<Rightarrow> fbdraw \<Rightarrow> prefixes \<Rightarrow> 'd \<Rightarrow> (reply \<times> prefixes \<times> 'd) result" where
  "soc_handler b H_timer_config ctl st d = Inr (Timer_Config True True, st, d)"
| "soc_handler b H_timer_rtc ctl st d = Inr (Timer_Rtc am_timer_rtc, st, d)"
| "soc_handler b H_timer_uptime ctl st d = bindE (no_return (soc_timer_uptime b d)) (\<lambda>(t, d'). Inr (Timer_Uptime t, st, d'))"
| "soc_handler b H_input_config ctl st d = Inr (Present True, st, d)"
| "soc_handler b H_input_keybrd ctl st d = bindE (no_return (soc_input_keybrd b st d)) (\<lambda>(k, st', d'). Inr (Input_Keybrd k, st', d'))"
| "soc_handler b H_uart_config ctl st d = Inr (Present True, st, d)"
| "soc_handler b H_uart_rx ctl st d = (let (c, d') = soc_uart_rx b d in Inr (Uart_Rx c, st, d'))"
| "soc_handler b H_gpu_config ctl st d = Inr (Gpu_Config soc_gpu_config, st, d)"
| "soc_handler b H_gpu_fbdraw ctl st d = Inr (Unchanged, st, soc_gpu_fbdraw b ctl d)"
| "soc_handler b _ ctl st d = Inl (Panic ''access nonexist register'')"

text \<open>\<open>ioe_read\<close> and \<open>ioe_write\<close> are the same code: the handler decides what it does with the buffer.\<close>

definition nemu_ioe_read :: "'d bus \<Rightarrow> nat \<Rightarrow> fbdraw \<Rightarrow> 'd \<Rightarrow> (reply \<times> 'd) result" where
  "nemu_ioe_read b reg ctl d = (if reg < 128 then nemu_handler b (filled_lut nemu_lut reg) ctl d else Inl Out_of_bounds)"

definition soc_ioe_read :: "'d bus \<Rightarrow> nat \<Rightarrow> fbdraw \<Rightarrow> prefixes \<Rightarrow> 'd \<Rightarrow> (reply \<times> prefixes \<times> 'd) result" where
  "soc_ioe_read b reg ctl st d = (if reg < 128 then soc_handler b (filled_lut soc_lut reg) ctl st d else Inl Out_of_bounds)"

section \<open>The clock\<close>

text \<open>
  What the timer promises: the two registers show the halves of a counter, and a read does not set the
  counter back.
\<close>

definition clock_port :: "'d bus \<Rightarrow> u32 \<Rightarrow> ('d \<Rightarrow> u64) \<Rightarrow> bool" where
  "clock_port b addr clk \<longleftrightarrow> (\<forall>d. fst (inl b (addr + 4) d) = ucast (drop_bit 32 (clk d)) \<and> fst (inl b addr d) = ucast (clk d)
     \<and> clk d \<le> clk (snd (inl b (addr + 4) d)) \<and> clk d \<le> clk (snd (inl b addr d)))"

lemma clock_halves:
  fixes c :: u64
  shows "unat (ucast (drop_bit 32 c) :: u32) = unat c div 2 ^ 32" and "unat (ucast c :: u32) = unat c mod 2 ^ 32"
proof -
  have "unat c div 2 ^ 32 < 2 ^ 32" using u64_bound [of c] by (simp add: less_mult_imp_div_less)
  then show "unat (ucast (drop_bit 32 c) :: u32) = unat c div 2 ^ 32"
    by (simp only: unsigned_ucast_eq unat_drop_bit) (simp only: take_bit_nat_eq_self len_num0 len_bit0 len_num1, simp add: take_bit_nat_eq_self)
  show "unat (ucast c :: u32) = unat c mod 2 ^ 32" by (simp add: unsigned_ucast_eq take_bit_eq_mod)
qed

lemma joined_halves: "unat (push_bit 32 (ucast h) OR ucast l :: u64) = unat (h :: u32) * 2 ^ 32 + unat (l :: u32)"
proof -
  have "push_bit 32 (ucast h :: u64) AND ucast l = 0"
    by (rule bit_word_eqI) (auto simp: bit_simps dest: bit_imp_le_length)
  then have "push_bit 32 (ucast h) OR ucast l = (push_bit 32 (ucast h) + ucast l :: u64)"
    by (simp add: disjunctive_add_eq_or)
  then show ?thesis using u32_bound [of h] u32_bound [of l]
    by (simp add: unat_word_ariths push_bit_eq_mult unsigned_ucast_eq take_bit_nat_eq_self)
qed

text \<open>One round that agrees on the high half pins the time down to the interval of its reads.\<close>

lemma clock_between:
  fixes c0 c1 c2 :: nat
  assumes "c0 \<le> c1" "c1 \<le> c2" and "c0 div k = c2 div k" and "0 < k"
  shows "c0 \<le> (c0 div k) * k + c1 mod k" and "(c0 div k) * k + c1 mod k \<le> c2"
proof -
  have "c1 div k = c0 div k" using assms div_le_mono [of c0 c1 k] div_le_mono [of c1 c2 k] by linarith
  then have "(c0 div k) * k + c1 mod k = c1" by (metis div_mult_mod_eq)
  with assms show "c0 \<le> (c0 div k) * k + c1 mod k" "(c0 div k) * k + c1 mod k \<le> c2" by simp_all
qed

lemma read_clock_spec:
  assumes port: "clock_port b addr clk"
  shows "\<exists>t d'. read_clock b addr d = Some (t, d') \<and> clk d \<le> t \<and> t \<le> clk d'"
proof (induction "2 ^ 32 - unat (clk d) div 2 ^ 32" arbitrary: d rule: less_induct)
  case less
  define d1 where "d1 = snd (inl b (addr + 4) d)"
  define d2 where "d2 = snd (inl b addr d1)"
  define d3 where "d3 = snd (inl b (addr + 4) d2)"
  have le: "clk d \<le> clk d1" "clk d1 \<le> clk d2" "clk d2 \<le> clk d3"
    using port unfolding clock_port_def d1_def d2_def d3_def by blast+
  let ?h1 = "ucast (drop_bit 32 (clk d)) :: u32" and ?l = "ucast (clk d1) :: u32" and ?h2 = "ucast (drop_bit 32 (clk d2)) :: u32"
  have r: "inl b (addr + 4) d = (?h1, d1)" "inl b addr d1 = (?l, d2)" "inl b (addr + 4) d2 = (?h2, d3)"
    using port unfolding clock_port_def d1_def d2_def d3_def by (auto intro: prod_eqI)
  have step: "read_clock b addr d = (if ?h1 \<noteq> ?h2 then read_clock b addr d3 else Some (push_bit 32 (ucast ?h1) OR ucast ?l, d3))"
    by (subst read_clock.simps) (simp add: r)
  show ?case
  proof (cases "?h1 = ?h2")
    case True
    then have "unat (clk d) div 2 ^ 32 = unat (clk d2) div 2 ^ 32" by (metis clock_halves(1))
    moreover have "unat (push_bit 32 (ucast ?h1) OR ucast ?l :: u64) = unat (clk d) div 2 ^ 32 * 2 ^ 32 + unat (clk d1) mod 2 ^ 32"
      by (simp only: joined_halves clock_halves(1) clock_halves(2) [of "clk d1"])
    ultimately have "unat (clk d) \<le> unat (push_bit 32 (ucast ?h1) OR ucast ?l :: u64)"
      "unat (push_bit 32 (ucast ?h1) OR ucast ?l :: u64) \<le> unat (clk d2)"
      using le clock_between [of "unat (clk d)" "unat (clk d1)" "unat (clk d2)" "2 ^ 32"]
      by (simp_all add: word_le_nat_alt)
    then have "clk d \<le> push_bit 32 (ucast ?h1) OR ucast ?l" "push_bit 32 (ucast ?h1) OR ucast ?l \<le> clk d3"
      using le(3) by (auto simp: word_le_nat_alt)
    with True step show ?thesis by auto
  next
    case False
    then have "unat (clk d) div 2 ^ 32 \<noteq> unat (clk d2) div 2 ^ 32" by (metis clock_halves(1) word_unat_eq_iff)
    moreover have "unat (clk d) div 2 ^ 32 \<le> unat (clk d2) div 2 ^ 32" "unat (clk d2) div 2 ^ 32 \<le> unat (clk d3) div 2 ^ 32"
      using le by (intro div_le_mono; simp add: word_le_nat_alt)+
    moreover have "unat (clk d3) div 2 ^ 32 < 2 ^ 32" using u64_bound [of "clk d3"] by (simp add: less_mult_imp_div_less)
    ultimately have "2 ^ 32 - unat (clk d3) div 2 ^ 32 < 2 ^ 32 - unat (clk d) div 2 ^ 32" by linarith
    from less [OF this] obtain t d' where "read_clock b addr d3 = Some (t, d')" "clk d3 \<le> t" "t \<le> clk d'" by blast
    moreover have "clk d \<le> clk d3" using le by order
    ultimately show ?thesis using step False by (auto intro: order_trans)
  qed
qed

section \<open>Scan codes\<close>

text \<open>
  What the keyboard port promises: reads take the pending bytes in order, and give 0 when there are none.
\<close>

definition ps2_port :: "'d bus \<Rightarrow> ('d \<Rightarrow> u8 list) \<Rightarrow> bool" where
  "ps2_port b q \<longleftrightarrow> (\<forall>d. fst (inb b SOC_PS2_ADDR d) = (case q d of [] \<Rightarrow> 0 | c # cs \<Rightarrow> c)
     \<and> q (snd (inb b SOC_PS2_ADDR d)) = tl (q d))"

definition no_prefix :: prefixes where
  "no_prefix = \<lparr>break_code = False, extended = False\<rparr>"

text \<open>A key event on the wire: \<open>e0\<close> for the second table, \<open>f0\<close> for a release, the key's code.\<close>

record wire_event =
  ext_key :: bool
  pressed :: bool
  code_of :: u8

definition scan_bytes :: "wire_event \<Rightarrow> u8 list" where
  "scan_bytes e = (if ext_key e then [0xe0] else []) @ (if pressed e then [] else [0xf0]) @ [code_of e]"

definition proper_code :: "wire_event \<Rightarrow> bool" where
  "proper_code e \<longleftrightarrow> code_of e \<noteq> 0 \<and> code_of e \<noteq> 0xe0 \<and> code_of e \<noteq> 0xf0"

definition event_of :: "wire_event \<Rightarrow> key_event" where
  "event_of e = \<lparr>keydown = pressed e, keycode = key_entry (if ext_key e then soc_ext_keymap else soc_keymap) (code_of e)\<rparr>"

lemma keybrd_step:
  assumes "ps2_port b q" and "q d = c # cs"
  shows "\<exists>d1. q d1 = cs \<and> soc_input_keybrd b st d =
     (if c = 0 then Some (\<lparr>keydown = False, keycode = AM_KEY_NONE\<rparr>, st, d1)
      else if c = 0xe0 then soc_input_keybrd b (st\<lparr>extended := True\<rparr>) d1
      else if c = 0xf0 then soc_input_keybrd b (st\<lparr>break_code := True\<rparr>) d1
      else Some (\<lparr>keydown = \<not> break_code st,
                  keycode = (if extended st then key_entry soc_ext_keymap c else key_entry soc_keymap c)\<rparr>,
                 no_prefix, d1))"
proof (intro exI conjI)
  have "fst (inb b SOC_PS2_ADDR d) = c" "q (snd (inb b SOC_PS2_ADDR d)) = cs" using assms by (simp_all add: ps2_port_def)
  then show "q (snd (inb b SOC_PS2_ADDR d)) = cs" and "soc_input_keybrd b st d =
     (if c = 0 then Some (\<lparr>keydown = False, keycode = AM_KEY_NONE\<rparr>, st, snd (inb b SOC_PS2_ADDR d))
      else if c = 0xe0 then soc_input_keybrd b (st\<lparr>extended := True\<rparr>) (snd (inb b SOC_PS2_ADDR d))
      else if c = 0xf0 then soc_input_keybrd b (st\<lparr>break_code := True\<rparr>) (snd (inb b SOC_PS2_ADDR d))
      else Some (\<lparr>keydown = \<not> break_code st,
                  keycode = (if extended st then key_entry soc_ext_keymap c else key_entry soc_keymap c)\<rparr>,
                 no_prefix, snd (inb b SOC_PS2_ADDR d)))"
    by (simp, subst soc_input_keybrd.simps) (auto simp: no_prefix_def Let_def split: prod.splits)
qed

lemma keybrd_empty:
  assumes "ps2_port b q" and "q d = []"
  shows "\<exists>d1. q d1 = [] \<and> soc_input_keybrd b st d = Some (\<lparr>keydown = False, keycode = AM_KEY_NONE\<rparr>, st, d1)"
proof (intro exI conjI)
  have f: "fst (inb b SOC_PS2_ADDR d) = 0" "q (snd (inb b SOC_PS2_ADDR d)) = []" using assms by (simp_all add: ps2_port_def)
  show "q (snd (inb b SOC_PS2_ADDR d)) = []" by (rule f)
  show "soc_input_keybrd b st d = Some (\<lparr>keydown = False, keycode = AM_KEY_NONE\<rparr>, st, snd (inb b SOC_PS2_ADDR d))"
    using f by (subst soc_input_keybrd.simps) (auto split: prod.splits)
qed

text \<open>
  The two prefixes are remembered between calls: a sequence that ends before the key's code reports no
  key, and the call that sees the rest reports the event.
\<close>

definition prefix_bytes :: "u8 list \<Rightarrow> bool" where
  "prefix_bytes bs \<longleftrightarrow> set bs \<subseteq> {0xe0, 0xf0}"

definition after_prefix :: "u8 list \<Rightarrow> prefixes \<Rightarrow> prefixes" where
  "after_prefix bs st = \<lparr>break_code = (break_code st \<or> 0xf0 \<in> set bs), extended = (extended st \<or> 0xe0 \<in> set bs)\<rparr>"

lemma keybrd_prefix:
  assumes "ps2_port b q" and "prefix_bytes bs" and "q d = bs @ rest"
  shows "\<exists>d1. q d1 = rest \<and> soc_input_keybrd b st d = soc_input_keybrd b (after_prefix bs st) d1"
  using assms(2,3)
proof (induction bs arbitrary: st d)
  case Nil
  then show ?case by (cases st) (auto simp: after_prefix_def)
next
  case (Cons c bs)
  then have c: "c = 0xe0 \<or> c = 0xf0" and bs: "prefix_bytes bs" by (auto simp: prefix_bytes_def)
  obtain d1 where d1: "q d1 = bs @ rest" "soc_input_keybrd b st d =
      soc_input_keybrd b (if c = 0xe0 then st\<lparr>extended := True\<rparr> else st\<lparr>break_code := True\<rparr>) d1"
    using keybrd_step [OF assms(1), of d c "bs @ rest" st] Cons.prems c by auto
  moreover have "after_prefix bs (if c = 0xe0 then st\<lparr>extended := True\<rparr> else st\<lparr>break_code := True\<rparr>) = after_prefix (c # bs) st"
    using c by (auto simp: after_prefix_def)
  ultimately show ?case using Cons.IH [OF bs d1(1), of "if c = 0xe0 then st\<lparr>extended := True\<rparr> else st\<lparr>break_code := True\<rparr>"] by auto
qed

lemma keybrd_event:
  assumes "ps2_port b q" and "proper_code e" and "scan_bytes e = sent @ missing" and "q d = missing @ rest" and "missing \<noteq> []"
  shows "\<exists>d'. q d' = rest \<and> soc_input_keybrd b (after_prefix sent no_prefix) d = Some (event_of e, no_prefix, d')"
proof -
  let ?p = "(if ext_key e then [0xe0] else []) @ (if pressed e then [] else [0xf0]) :: u8 list"
  obtain ps where m: "missing = ps @ [code_of e]" and p: "?p = sent @ ps"
    using assms(3,5) unfolding scan_bytes_def by (cases missing rule: rev_cases) (auto simp: append_assoc [symmetric] simp del: append_assoc)
  have S: "set ?p = set sent \<union> set ps" using p by (metis set_append)
  have "set ?p \<subseteq> {0xe0, 0xf0}" by auto
  with S have ok: "prefix_bytes ps" unfolding prefix_bytes_def by blast
  obtain d1 where d1: "q d1 = code_of e # rest"
    "soc_input_keybrd b (after_prefix sent no_prefix) d = soc_input_keybrd b (after_prefix ps (after_prefix sent no_prefix)) d1"
    using keybrd_prefix [OF assms(1) ok, of d "code_of e # rest"] assms(4) m by auto
  have "0xe0 \<in> set ?p \<longleftrightarrow> ext_key e" "0xf0 \<in> set ?p \<longleftrightarrow> \<not> pressed e" by simp_all
  then have "after_prefix ps (after_prefix sent no_prefix) = \<lparr>break_code = \<not> pressed e, extended = ext_key e\<rparr>"
    unfolding S by (simp add: after_prefix_def no_prefix_def)
  with d1 keybrd_step [OF assms(1) d1(1), of "\<lparr>break_code = \<not> pressed e, extended = ext_key e\<rparr>"] assms(2)
  show ?thesis by (auto simp: proper_code_def event_of_def)
qed


lemma keybrd_waits:
  assumes "ps2_port b q" and "prefix_bytes sent" and "q d = sent"
  shows "\<exists>d'. q d' = [] \<and> soc_input_keybrd b no_prefix d
    = Some (\<lparr>keydown = False, keycode = AM_KEY_NONE\<rparr>, after_prefix sent no_prefix, d')"
  using keybrd_prefix [OF assms(1,2), of d "[]" no_prefix] assms(3) keybrd_empty [OF assms(1)] by fastforce

text \<open>A number of calls in a row.\<close>

fun polls :: "'d bus \<Rightarrow> nat \<Rightarrow> prefixes \<Rightarrow> 'd \<Rightarrow> (key_event list \<times> prefixes \<times> 'd) option" where
  "polls b 0 st d = Some ([], st, d)"
| "polls b (Suc n) st d = (case soc_input_keybrd b st d of None \<Rightarrow> None
     | Some (k, st, d) \<Rightarrow> (case polls b n st d of None \<Rightarrow> None | Some (ks, st, d) \<Rightarrow> Some (k # ks, st, d)))"

lemma polls_events:
  assumes "ps2_port b q" and "\<forall>e \<in> set es. proper_code e" and "q d = concat (map scan_bytes es) @ rest"
  shows "\<exists>d'. q d' = rest \<and> polls b (length es) no_prefix d = Some (map event_of es, no_prefix, d')"
  using assms(2,3)
proof (induction es arbitrary: d)
  case Nil
  then show ?case by auto
next
  case (Cons e es)
  have "scan_bytes e = [] @ scan_bytes e" "scan_bytes e \<noteq> []" by (simp_all add: scan_bytes_def)
  moreover have "after_prefix [] no_prefix = no_prefix" by (simp add: after_prefix_def no_prefix_def)
  ultimately obtain d1 where "q d1 = concat (map scan_bytes es) @ rest" "soc_input_keybrd b no_prefix d = Some (event_of e, no_prefix, d1)"
    using keybrd_event [OF assms(1), of e "[]" "scan_bytes e" d "concat (map scan_bytes es) @ rest"] Cons.prems by auto
  with Cons show ?case by fastforce
qed

text \<open>Every key of the abstract machine has exactly one scan code.\<close>

lemma soc_keys_complete: "set (map snd (soc_keymap @ soc_ext_keymap)) = set AM_KEYS"
  unfolding soc_keymap_def soc_ext_keymap_def AM_KEYS_def by auto

lemma soc_keys_once: "distinct (map snd (soc_keymap @ soc_ext_keymap)) \<and> distinct (map fst soc_keymap) \<and> distinct (map fst soc_ext_keymap)"
  by code_simp

section \<open>Key events of the emulator\<close>

lemma keys_agree: "AM_KEYS = NEMU_KEYS"
  by (simp add: AM_KEYS_def NEMU_KEYS_def)

lemma decode_encode:
  assumes "\<not> bit k 15"
  shows "decode_key (k OR (if down then KEYDOWN_MASK else 0)) = \<lparr>keydown = down, keycode = k\<rparr>"
proof -
  have m: "bit KEYDOWN_MASK n \<longleftrightarrow> n = 15" for n
    using bit_exp_iff [of 15 n, where ?'a = u32] by (auto simp: KEYDOWN_MASK_def)
  have "k AND KEYDOWN_MASK = 0" "k AND NOT KEYDOWN_MASK = k"
    using assms by (auto intro!: bit_word_eqI simp: bit_simps m)
  then show ?thesis by (cases down) (simp_all add: decode_key_def bit.conj_disj_distrib2 KEYDOWN_MASK_def)
qed

section \<open>Rectangles\<close>

definition screen_port :: "'d bus \<Rightarrow> u32 \<Rightarrow> ('d \<Rightarrow> u32 \<Rightarrow> u32) \<Rightarrow> bool" where
  "screen_port b sync px \<longleftrightarrow> (\<forall>a v d. a \<noteq> sync \<longrightarrow> px (outl b a v d) = (px d)(a := v))"

definition poke :: "(u32 \<Rightarrow> u32) \<Rightarrow> u32 \<times> u32 \<Rightarrow> u32 \<Rightarrow> u32" where
  "poke m s = m(fst s := snd s)"

lemma stores_apply:
  assumes "screen_port b sync px" and "\<forall>(a, v) \<in> set st. a \<noteq> sync"
  shows "px (foldl (\<lambda>d (a, v). outl b a v d) d st) = foldl poke (px d) st"
  using assms(2)
proof (induction st arbitrary: d)
  case (Cons s st)
  then show ?case using assms(1) by (cases s) (auto simp: screen_port_def poke_def simp del: fun_upd_apply)
qed simp

lemma foldl_upd_notin: "a \<notin> fst ` set st \<Longrightarrow> foldl poke m st a = m a"
  by (induction st arbitrary: m) (auto simp: poke_def)

lemma foldl_upd_in: "distinct (map fst st) \<Longrightarrow> (a, v) \<in> set st \<Longrightarrow> foldl poke m st a = v"
  by (induction st arbitrary: m) (auto simp: foldl_upd_notin rev_image_eqI poke_def)


text \<open>Pixels of a rectangle that fits the screen and the address space lie at different addresses.\<close>

definition rectangle_fits :: "u32 \<Rightarrow> u32 \<Rightarrow> fbdraw \<Rightarrow> bool" where
  "rectangle_fits fb width ctl \<longleftrightarrow> unat (fb_x ctl) + unat (fb_w ctl) \<le> unat width
     \<and> unat fb + (unat (fb_y ctl) + unat (fb_h ctl)) * unat width * 4 < 2 ^ 32"

definition pixel_number :: "u32 \<Rightarrow> fbdraw \<Rightarrow> nat \<Rightarrow> nat \<Rightarrow> nat" where
  "pixel_number width ctl i j = (unat (fb_y ctl) + i) * unat width + j + unat (fb_x ctl)"

lemma pixel_number_less:
  assumes "rectangle_fits fb width ctl" "i < unat (fb_h ctl)" "j < unat (fb_w ctl)"
  shows "pixel_number width ctl i j < (unat (fb_y ctl) + unat (fb_h ctl)) * unat width"
proof -
  have "pixel_number width ctl i j < (unat (fb_y ctl) + i) * unat width + unat width"
    using assms by (simp add: pixel_number_def rectangle_fits_def)
  also have "\<dots> = Suc (unat (fb_y ctl) + i) * unat width" by simp
  also have "\<dots> \<le> (unat (fb_y ctl) + unat (fb_h ctl)) * unat width" using assms(2) by (intro mult_le_mono1) simp
  finally show ?thesis .
qed

lemma draw_address_number:
  assumes "rectangle_fits fb width ctl" "i < unat (fb_h ctl)" "j < unat (fb_w ctl)"
  shows "unat (draw_address fb width ctl i j) = unat fb + pixel_number width ctl i j * 4"
proof -
  have "draw_address fb width ctl i j = of_nat (unat fb + pixel_number width ctl i j * 4)"
    by (simp add: draw_address_def pixel_number_def)
  moreover have "unat fb + pixel_number width ctl i j * 4 < 2 ^ 32"
    using pixel_number_less [OF assms] assms(1) by (simp add: rectangle_fits_def)
  ultimately show ?thesis by (metis unat_of_small)
qed

lemma pixel_number_inj:
  assumes "rectangle_fits fb width ctl" "j < unat (fb_w ctl)" "j' < unat (fb_w ctl)"
    and "pixel_number width ctl i j = pixel_number width ctl i' j'"
  shows "i = i' \<and> j = j'"
proof -
  let ?w = "unat width"
  have c: "j + unat (fb_x ctl) < ?w" "j' + unat (fb_x ctl) < ?w" using assms(1-3) by (simp_all add: rectangle_fits_def)
  have "((unat (fb_y ctl) + i) * ?w + (j + unat (fb_x ctl))) div ?w = unat (fb_y ctl) + i"
    "((unat (fb_y ctl) + i') * ?w + (j' + unat (fb_x ctl))) div ?w = unat (fb_y ctl) + i'" using c by simp_all
  moreover have "(unat (fb_y ctl) + i) * ?w + (j + unat (fb_x ctl)) = (unat (fb_y ctl) + i') * ?w + (j' + unat (fb_x ctl))"
    using assms(4) by (simp only: pixel_number_def add.assoc)
  ultimately have "unat (fb_y ctl) + i = unat (fb_y ctl) + i'" by metis
  then have "i = i'" by simp
  with assms(4) show ?thesis by (simp add: pixel_number_def)
qed

lemma draw_stores_mem:
  "(a, v) \<in> set (draw_stores fb width ctl src) \<longleftrightarrow> (\<exists>i j. i < unat (fb_h ctl) \<and> j < unat (fb_w ctl)
     \<and> a = draw_address fb width ctl i j \<and> v = src (of_nat i * fb_w ctl + of_nat j))"
proof -
  have "set (draw_stores fb width ctl src) = (\<Union>i \<in> {..<unat (fb_h ctl)}. \<Union>j \<in> {..<unat (fb_w ctl)}.
      {(draw_address fb width ctl i j, src (of_nat i * fb_w ctl + of_nat j))})"
    by (simp add: draw_stores_def atLeast0LessThan UNION_singleton_eq_range)
  then show ?thesis by auto
qed

lemma draw_stores_distinct:
  assumes "rectangle_fits fb width ctl"
  shows "distinct (map fst (draw_stores fb width ctl src))"
proof -
  let ?row = "\<lambda>i. map (draw_address fb width ctl i) [0..<unat (fb_w ctl)]"
  have same: "i = i' \<and> j = j'" if "draw_address fb width ctl i j = draw_address fb width ctl i' j'"
    "i < unat (fb_h ctl)" "i' < unat (fb_h ctl)" "j < unat (fb_w ctl)" "j' < unat (fb_w ctl)" for i j i' j'
  proof -
    have "pixel_number width ctl i j = pixel_number width ctl i' j'"
      using draw_address_number [OF assms that(2,4)] draw_address_number [OF assms that(3,5)] that(1) by simp
    then show ?thesis using pixel_number_inj [OF assms] that by blast
  qed
  have rows: "map fst (draw_stores fb width ctl src) = concat (map ?row [0..<unat (fb_h ctl)])"
    by (simp add: draw_stores_def map_concat comp_def)
  have "distinct (concat (map ?row [0..<n]))" if "n \<le> unat (fb_h ctl)" for n
    using that
  proof (induction n)
    case (Suc n)
    then show ?case by (auto simp: distinct_map inj_on_def dest: same)
  qed simp
  then show ?thesis by (simp add: rows)
qed

definition drawn :: "u32 \<Rightarrow> u32 \<Rightarrow> fbdraw \<Rightarrow> (u32 \<Rightarrow> u32) \<Rightarrow> (u32 \<Rightarrow> u32) \<Rightarrow> (u32 \<Rightarrow> u32) \<Rightarrow> bool" where
  "drawn fb width ctl src m m' \<longleftrightarrow>
     (\<forall>i j. i < unat (fb_h ctl) \<longrightarrow> j < unat (fb_w ctl) \<longrightarrow>
        m' (fb + of_nat (pixel_number width ctl i j) * 4) = src (of_nat i * fb_w ctl + of_nat j))
     \<and> (\<forall>a. (\<forall>i j. i < unat (fb_h ctl) \<longrightarrow> j < unat (fb_w ctl) \<longrightarrow> a \<noteq> fb + of_nat (pixel_number width ctl i j) * 4)
        \<longrightarrow> m' a = m a)"

lemma draw_address_pixel: "draw_address fb width ctl i j = fb + of_nat (pixel_number width ctl i j) * 4"
  by (simp add: draw_address_def pixel_number_def)

lemma soc_gpu_draws:
  assumes "screen_port b sync px" and "rectangle_fits SOC_FB_ADDR 640 ctl" and "sync < SOC_FB_ADDR" and "pixels ctl = Some src"
  shows "drawn SOC_FB_ADDR 640 ctl src (px d) (px (soc_gpu_fbdraw b ctl d))"
proof -
  let ?st = "draw_stores SOC_FB_ADDR 640 ctl src"
  have "a \<noteq> sync" if "(a, v) \<in> set ?st" for a v
    using that assms(3) draw_address_number [OF assms(2)] by (auto simp: draw_stores_mem word_less_nat_alt)
  then have "px (soc_gpu_fbdraw b ctl d) = foldl poke (px d) ?st"
    using stores_apply [OF assms(1), of ?st d] assms(4) by (auto simp: soc_gpu_fbdraw_def)
  moreover have "foldl poke (px d) ?st (draw_address SOC_FB_ADDR 640 ctl i j) = src (of_nat i * fb_w ctl + of_nat j)"
    if "i < unat (fb_h ctl)" "j < unat (fb_w ctl)" for i j
    using that by (intro foldl_upd_in draw_stores_distinct assms) (auto simp: draw_stores_mem)
  moreover have "foldl poke (px d) ?st a = px d a"
    if "\<forall>i j. i < unat (fb_h ctl) \<longrightarrow> j < unat (fb_w ctl) \<longrightarrow> a \<noteq> draw_address SOC_FB_ADDR 640 ctl i j" for a
    using that by (intro foldl_upd_notin) (auto simp: draw_stores_mem, blast)
  ultimately show ?thesis unfolding drawn_def draw_address_pixel [symmetric] by simp
qed


section \<open>Registers that do not exist\<close>

lemma nemu_ioe_unknown:
  "reg < 128 \<Longrightarrow> reg \<notin> fst ` set nemu_lut \<Longrightarrow> nemu_ioe_read b reg ctl d = Inl (Panic ''access nonexist register'')"
  by (simp add: nemu_ioe_read_def filled_lut_def map_of_eq_None_iff [THEN iffD2])

lemma soc_ioe_unknown:
  "reg < 128 \<Longrightarrow> reg \<notin> fst ` set soc_lut \<Longrightarrow> soc_ioe_read b reg ctl st d = Inl (Panic ''access nonexist register'')"
  by (simp add: soc_ioe_read_def filled_lut_def map_of_eq_None_iff [THEN iffD2])

end
