(* ===== verification/Guest_Io.thy ===== *)
theory Guest_Io
  imports Paddr Am_Devices
begin

text \<open>
  Guest and emulator together: the guest's keyboard driver (\<open>__am_input_keybrd\<close> of \<open>Am_Devices\<close>) reads the
  register that the emulator's keyboard controller serves (\<open>Devices\<close>, \<open>Device_Map\<close>, \<open>Paddr\<close>). What is
  pressed on the host arrives in the guest, in order and with the same key numbers.
\<close>

section \<open>Presses and guest reads\<close>

fun press_keys :: "(u8 \<times> bool) list \<Rightarrow> ('r, unit) M" where
  "press_keys [] = retM ()"
| "press_keys ((sc, down) # es) = thenM (send_keyM sc down) (press_keys es)"

definition guest_key :: "config \<Rightarrow> ('r, key_event) M" where
  "guest_key c = bindM (paddr_read c KBD_ADDR 4) (\<lambda>k. retM (decode_key k))"

fun guest_keys :: "config \<Rightarrow> nat \<Rightarrow> ('r, key_event list) M" where
  "guest_keys c 0 = retM []"
| "guest_keys c (Suc n) = bindM (guest_key c) (\<lambda>k. bindM (guest_keys c n) (\<lambda>ks. retM (k # ks)))"

text \<open>The controller is registered at the guest's address and its register lies in the device space.\<close>

definition kbd_ready :: "config \<Rightarrow> 'r nemu \<Rightarrow> bool" where
  "kbd_ready c s \<longleftrightarrow> ram_ptr c KBD_ADDR = None \<and> CONFIG_DEVICE c \<and> kb_inv (kbd s)
     \<and> (\<exists>m. lookup_map (mmio_maps (io s)) KBD_ADDR = Some m \<and> low m = KBD_ADDR \<and> callback m = Some i8042_data_io
          \<and> i8042_data_port_base (kbd s) = Some (space m) \<and> ptr_ok c (space m) 4)"

section \<open>One read\<close>

lemma key_dequeue_keeps:
  "i8042_data_port_base (snd (key_dequeue kb)) = i8042_data_port_base kb" "keymap (snd (key_dequeue kb)) = keymap kb"
  by (simp_all add: key_dequeue_def)

lemma key_dequeue_inv: "kb_inv kb \<Longrightarrow> kb_inv (snd (key_dequeue kb))"
  using kq.deq_empty [of kb] kq.deq_ok [of kb] by (cases "kb_list kb") auto

lemma i8042_serves:
  assumes "i8042_data_port_base (kbd s) = Some p" and "ptr_ok c p 4"
  shows "run_callback c i8042_data_io 0 4 False s
    = Inr ((), s\<lparr>kbd := snd (key_dequeue (kbd s)), mem := store (mem s) p (to_bytes 4 (fst (key_dequeue (kbd s))))\<rparr>)"
  using assms by (cases "key_dequeue (kbd s)")
    (use key_dequeue_keeps [of "kbd s"] in \<open>simp add: i8042_data_io_handler_def thenM_def bindM_def key_dequeueM_def set_reg32_def
      reg_ptr_def host_writeM_apply host_write_def hp_add_def del: to_bytes.simps\<close>)

lemma read_key:
  assumes "kbd_ready c s"
  shows "\<exists>s'. paddr_read c KBD_ADDR 4 s = Inr (fst (key_dequeue (kbd s)), s') \<and> kbd s' = snd (key_dequeue (kbd s))
    \<and> kbd_ready c s'"
proof -
  obtain m where m: "lookup_map (mmio_maps (io s)) KBD_ADDR = Some m" "low m = KBD_ADDR" "callback m = Some i8042_data_io"
    "i8042_data_port_base (kbd s) = Some (space m)" "ptr_ok c (space m) 4"
    using assms by (auto simp: kbd_ready_def)
  have inside: "KBD_ADDR \<le> high m" "low m \<le> KBD_ADDR" using lookup_map_Some [OF m(1)] by (auto simp: map_inside_def)
  obtain s1 where skip: "difftest_skip_ref c s = Inr ((), s1)" and s1: "kbd s1 = kbd s" "io s1 = io s" "mem s1 = mem s"
    by (cases "CONFIG_DIFFTEST c") (simp_all add: difftest_skip_ref_def)
  let ?k = "fst (key_dequeue (kbd s))"
  let ?s = "s1\<lparr>kbd := snd (key_dequeue (kbd s1)), mem := store (mem s1) (space m) (to_bytes 4 (fst (key_dequeue (kbd s1))))\<rparr>"
  have "host_read c (mem ?s) (space m) 4 = Inr ?k"
    using m(5) s1 by (simp add: host_read_def of_bytes_to_bytes_full del: to_bytes.simps)
  then have "map_read c KBD_ADDR 4 (Some m) s1 = Inr (?k, ?s)"
    using i8042_serves [of s1 "space m" c] m inside s1
    by (simp add: map_read_def thenM_def bindM_def check_bound_def invoke_callback_def Let_def host_readM_apply hp_add_def
        del: run_callback.simps to_bytes.simps)
  then have "mmio_read c KBD_ADDR 4 s = Inr (?k, ?s)"
    using m(1) skip by (simp add: mmio_read_def fetch_mmio_map_def find_map_by_addr_def thenM_def bindM_def)
  then have "paddr_read c KBD_ADDR 4 s = Inr (?k, ?s)"
    using assms by (simp add: paddr_read_outside kbd_ready_def)
  moreover have "kbd_ready c ?s"
    using assms m s1 key_dequeue_inv [of "kbd s"] key_dequeue_keeps [of "kbd s"] by (auto simp: kbd_ready_def)
  ultimately show ?thesis using s1 by (intro exI [of _ ?s]) simp
qed

section \<open>Sequences\<close>

lemma guest_keys_queue:
  assumes "kbd_ready c s" and "kb_list (kbd s) = ks @ rest"
  shows "\<exists>s'. guest_keys c (length ks) s = Inr (map decode_key ks, s') \<and> kbd_ready c s' \<and> kb_list (kbd s') = rest"
  using assms
proof (induction ks arbitrary: s)
  case (Cons k ks)
  have "fst (key_dequeue (kbd s)) = k" "kb_list (snd (key_dequeue (kbd s))) = ks @ rest"
    using kq.deq_ok [of "kbd s" k "ks @ rest"] Cons.prems by (auto simp: kbd_ready_def)
  then obtain s1 where "guest_key c s = Inr (decode_key k, s1)" "kb_list (kbd s1) = ks @ rest" "kbd_ready c s1"
    using read_key [OF Cons.prems(1)] by (auto simp: guest_key_def bindM_def)
  with Cons.IH [of s1] show ?case by (auto simp: bindM_def)
qed simp

definition key_code :: "keyboard \<Rightarrow> u8 \<times> bool \<Rightarrow> u32" where
  "key_code kb e = keymap kb (fst e) OR (if snd e then KEYDOWN_MASK else 0)"

definition key_known :: "keyboard \<Rightarrow> u8 \<times> bool \<Rightarrow> bool" where
  "key_known kb e \<longleftrightarrow> keymap kb (fst e) \<noteq> NEMU_KEY_NONE \<and> \<not> bit (keymap kb (fst e)) 15"

lemma key_enqueue_keeps:
  "key_enqueue k kb = Inr kb' \<Longrightarrow> i8042_data_port_base kb' = i8042_data_port_base kb \<and> keymap kb' = keymap kb"
  by (auto simp: key_enqueue_def Let_def split: if_splits)

lemma press_keys_queue:
  assumes "kbd_ready c s" and "state (nemu_state s) = NEMU_RUNNING" and "\<forall>e \<in> set es. key_known (kbd s) e"
    and "length (kb_list (kbd s)) + length es \<le> KEY_QUEUE_LEN - 1"
  shows "\<exists>s'. press_keys es s = Inr ((), s') \<and> kbd_ready c s' \<and> kb_list (kbd s') = kb_list (kbd s) @ map (key_code (kbd s)) es"
  using assms
proof (induction es arbitrary: s)
  case (Cons e es)
  obtain sc down where e: "e = (sc, down)" by (cases e)
  have "kb_inv (kbd s)" "length (kb_list (kbd s)) < KEY_QUEUE_LEN - 1" using Cons.prems by (simp_all add: kbd_ready_def)
  then obtain kb where kb: "key_enqueue (key_code (kbd s) e) (kbd s) = Inr kb" "kb_inv kb" "kb_list kb = kb_list (kbd s) @ [key_code (kbd s) e]"
    using kq.enq_ok by blast
  note keep = key_enqueue_keeps [OF kb(1)]
  let ?s = "s\<lparr>kbd := kb\<rparr>"
  have sent: "send_keyM sc down s = Inr ((), ?s)"
    using Cons.prems kb(1) e by (simp add: send_keyM_def send_key_def key_known_def key_code_def)
  have ready: "kbd_ready c ?s" using Cons.prems(1) kb(2) keep by (auto simp: kbd_ready_def)
  have "key_code kb = key_code (kbd s)" "key_known kb = key_known (kbd s)" using keep by (simp_all add: key_code_def key_known_def fun_eq_iff)
  then obtain s' where "press_keys es ?s = Inr ((), s')" "kbd_ready c s'" "kb_list (kbd s') = kb_list kb @ map (key_code (kbd s)) es"
    using Cons.IH [OF ready] Cons.prems kb(3) by auto
  with sent kb(3) e show ?case by (simp add: thenM_def bindM_def)
qed simp

lemma keys_arrive:
  assumes "kbd_ready c s" and "state (nemu_state s) = NEMU_RUNNING" and "kb_list (kbd s) = []"
    and "\<forall>e \<in> set es. key_known (kbd s) e" and "length es \<le> KEY_QUEUE_LEN - 1"
  shows "\<exists>s1 s2. press_keys es s = Inr ((), s1) \<and> guest_keys c (length es) s1
    = Inr (map (\<lambda>e. \<lparr>keydown = snd e, keycode = keymap (kbd s) (fst e)\<rparr>) es, s2) \<and> kb_list (kbd s2) = []"
proof -
  obtain s1 where s1: "press_keys es s = Inr ((), s1)" "kbd_ready c s1" "kb_list (kbd s1) = map (key_code (kbd s)) es"
    using press_keys_queue [OF assms(1,2,4)] assms(3,5) by auto
  have "map decode_key (map (key_code (kbd s)) es) = map (\<lambda>e. \<lparr>keydown = snd e, keycode = keymap (kbd s) (fst e)\<rparr>) es"
    using assms(4) by (auto simp: key_code_def key_known_def decode_encode)
  with guest_keys_queue [OF s1(2), of "map (key_code (kbd s)) es" "[]"] s1 show ?thesis by auto
qed

section \<open>Key numbers\<close>

lemma key_number_nth: "distinct ks \<Longrightarrow> i < length ks \<Longrightarrow> key_number (ks ! i) ks n = n + of_nat i"
proof (induction ks arbitrary: i n)
  case (Cons k ks)
  then show ?case by (cases i) (auto simp: algebra_simps)
qed simp

lemma keymap_numbers:
  assumes "inj_on SDL (set NEMU_KEYS)" and "k \<in> set NEMU_KEYS"
  shows "keymap (init_keymap SDL kb) (SDL k) = AM_KEY k"
proof -
  have d: "distinct NEMU_KEYS" by code_simp
  obtain i where i: "i < length NEMU_KEYS" "NEMU_KEYS ! i = k" using assms(2) by (auto simp: in_set_conv_nth)
  then show ?thesis using assign_keys_nth [OF i(1) assms(1) d, of 1 "keymap kb"] key_number_nth [OF d i(1), of 1]
    by (simp add: init_keymap_def AM_KEY_def keys_agree)
qed

lemma AM_KEY_small: "k \<in> set AM_KEYS \<Longrightarrow> AM_KEY k \<noteq> 0 \<and> \<not> bit (AM_KEY k) 15"
proof -
  assume "k \<in> set AM_KEYS"
  then obtain i where i: "i < length AM_KEYS" "AM_KEYS ! i = k" by (auto simp: in_set_conv_nth)
  have d: "distinct AM_KEYS" and l: "length AM_KEYS = 82" by code_simp+
  have n: "AM_KEY k = of_nat (Suc i)" using key_number_nth [OF d i(1), of 1] i(2) by (simp add: AM_KEY_def)
  have "unat (AM_KEY k) = Suc i" unfolding n using i(1) l by (intro unat_of_small) simp
  moreover have "Suc i div 2 ^ 15 = 0" using i(1) l by simp
  ultimately show ?thesis using bit_unsigned_iff [of "AM_KEY k" 15, where ?'a = nat] by (auto simp: bit_iff_odd)
qed

section \<open>The controller after start-up\<close>

lemma page_align_4: "sint (page_align 4) = 4096"
  by code_simp

lemma init_i8042_ready:
  assumes "init_i8042 c SDL s = Inr ((), s')" and "\<not> CONFIG_HAS_PORT_IO c" and "CONFIG_I8042_DATA_MMIO c = KBD_ADDR"
    and "CONFIG_DEVICE c" and "ram_ptr c KBD_ADDR = None" and "kb_inv (kbd s)" and "0 \<le> p_space (io s)"
  shows "kbd_ready c s' \<and> keymap (kbd s') = keymap (init_keymap SDL (kbd s)) \<and> kb_list (kbd s') = kb_list (kbd s) \<and> nemu_state s' = nemu_state s"
proof -
  let ?p = "(IO_SPACE, p_space (io s))" and ?maps = "mmio_maps (io s)"
  let ?m = "mk_iomap ''keyboard'' KBD_ADDR ?p 4 (Some i8042_data_io)"
  obtain maps where add: "add_mmio_map c ''keyboard'' KBD_ADDR ?p 4 (Some i8042_data_io) ?maps = Inr maps"
    and room: "p_space (io s) + 4096 < IO_SPACE_MAX" and s': "mmio_maps (io s') = maps" "kbd s' = init_keymap SDL ((kbd s)\<lparr>i8042_data_port_base := Some ?p\<rparr>)"
    "nemu_state s' = nemu_state s"
    using assms(1-3)
    by (cases "p_space (io s) + 4096 < IO_SPACE_MAX")
      (auto simp: init_i8042_def new_space_def page_align_4 set_reg32_def reg_ptr_def register_def register_mmio_def host_writeM_apply
        bindM_def thenM_def liftM_def split: sum.splits if_splits)
  have maps: "maps = ?maps @ [?m]" and apart: "\<not> list_ex (overlaps KBD_ADDR (KBD_ADDR + 4 - 1)) ?maps"
    using add by (auto simp: add_mmio_map_def Let_def split: if_splits)
  have "KBD_ADDR \<le> KBD_ADDR + 4 - 1" by (simp add: KBD_ADDR_def DEVICE_BASE_def)
  then have "lookup_map ?maps KBD_ADDR = None"
    using apart unfolding lookup_map_None list_ex_iff map_inside_def overlaps_def by (meson order_trans)
  moreover have "map_inside ?m KBD_ADDR" by (simp add: map_inside_def mk_iomap_def KBD_ADDR_def DEVICE_BASE_def)
  ultimately have look: "lookup_map maps KBD_ADDR = Some ?m" unfolding maps by (simp add: lookup_map_append)
  have "kb_inv (kbd s')" "kb_list (kbd s') = kb_list (kbd s)"
    using assms(6) by (simp_all add: s' init_keymap_def kb_inv_def kb_list_def kb_count_def)
  moreover have "ptr_ok c ?p 4" using room assms(7) by (simp add: ptr_ok_def)
  ultimately show ?thesis using look assms(4,5) s' by (auto simp: kbd_ready_def mk_iomap_def init_keymap_def)
qed

end
