(* ===== verification/Guest_Time.thy ===== *)
theory Guest_Time
  imports Guest_Io
begin

text \<open>
  Guest and emulator together: the guest's clock driver (\<open>__am_timer_uptime\<close> of \<open>Am_Devices\<close>) reads the registers that the
  emulator's timer serves (\<open>rtc_io_handler\<close> of \<open>Devices\<close>). The timer asks the host for the time when the high half is
  read and keeps both halves until then; the driver reads the high half twice and tries again when it has changed.
\<close>

section \<open>The emulator as the bus of the guest\<close>

text \<open>A load or store that stops the emulator leaves the error as the state of the bus.\<close>

definition bus_step :: "('r, 'a) M \<Rightarrow> 'a \<Rightarrow> 'r nemu result \<Rightarrow> 'a \<times> 'r nemu result" where
  "bus_step m z r = (case r of Inl e \<Rightarrow> (z, Inl e)
     | Inr s \<Rightarrow> (case m s of Inl e \<Rightarrow> (z, Inl e) | Inr (v, s') \<Rightarrow> (v, Inr s')))"

definition nemu_bus :: "config \<Rightarrow> ('r nemu result) bus" where
  "nemu_bus c = \<lparr>
     inb = (\<lambda>a r. let (v, r') = bus_step (paddr_read c a 1) 0 r in (ucast v, r')),
     inl = (\<lambda>a. bus_step (paddr_read c a 4) 0),
     outb = (\<lambda>a v r. snd (bus_step (paddr_write c a 1 (ucast v)) () r)),
     outl = (\<lambda>a v r. snd (bus_step (paddr_write c a 4 v) () r))\<rparr>"

text \<open>The timer is registered at the guest's address and its two registers lie in the device space.\<close>

definition rtc_ready :: "config \<Rightarrow> 'r nemu \<Rightarrow> bool" where
  "rtc_ready c s \<longleftrightarrow> ram_ptr c RTC_ADDR = None \<and> ram_ptr c (RTC_ADDR + 4) = None \<and> CONFIG_DEVICE c
     \<and> (\<exists>m. lookup_map (mmio_maps (io s)) RTC_ADDR = Some m \<and> lookup_map (mmio_maps (io s)) (RTC_ADDR + 4) = Some m
          \<and> low m = RTC_ADDR \<and> callback m = Some rtc_io \<and> rtc_port_base (dev s) = Some (space m) \<and> ptr_ok c (space m) 8)"

text \<open>The host's clock does not run backwards, and is not before the time at which the emulator started.\<close>

definition clock_ok :: "clock \<Rightarrow> bool" where
  "clock_ok k \<longleftrightarrow> (\<forall>i j. i \<le> j \<longrightarrow> host_clock k i \<le> host_clock k j)
     \<and> (if boot_time k = 0 then host_clock k (clock_reads k) \<noteq> 0 else boot_time k \<le> host_clock k (clock_reads k))"

definition guest_time :: "'r nemu \<Rightarrow> u64" where
  "guest_time s = fst (clock_get_time (clk s))"

lemma clock_next:
  assumes "clock_ok k"
  shows "clock_ok (snd (clock_get_time k))" "fst (clock_get_time k) \<le> fst (clock_get_time (snd (clock_get_time k)))"
proof -
  have mono: "host_clock k i \<le> host_clock k j" if "i \<le> j" for i j using assms that by (simp add: clock_ok_def)
  show "clock_ok (snd (clock_get_time k))"
    using assms mono by (auto simp: clock_ok_def clock_get_time_def get_time_internal_def Let_def intro: order_trans split: if_splits)
  have "boot_time k = 0 \<Longrightarrow> host_clock k (clock_reads k) \<noteq> 0" using assms by (simp add: clock_ok_def)
  then show "fst (clock_get_time k) \<le> fst (clock_get_time (snd (clock_get_time k)))"
    using mono assms by (auto simp: clock_ok_def clock_get_time_def get_time_internal_def Let_def intro!: word_le_minus_mono_left)
qed

section \<open>One read\<close>

text \<open>The two registers after the timer has latched the time \<open>t\<close>.\<close>

definition latched :: "config \<Rightarrow> 'r nemu \<Rightarrow> u64 \<Rightarrow> bool" where
  "latched c s t \<longleftrightarrow> (\<forall>m. lookup_map (mmio_maps (io s)) RTC_ADDR = Some m \<longrightarrow> host_read c (mem s) (space m) 4 = Inr (ucast t))"

lemma rtc_serves:
  assumes "rtc_port_base (dev s) = Some p" and "ptr_ok c p 8"
  obtains m where "run_callback c rtc_io 4 4 False s = Inr ((), s\<lparr>clk := snd (clock_get_time (clk s)), mem := m\<rparr>)"
    "host_read c m p 4 = Inr (ucast (guest_time s))" "host_read c m (hp_add p 4) 4 = Inr (ucast (drop_bit 32 (guest_time s)))"
proof -
  have ok: "ptr_ok c p 4" "ptr_ok c (hp_add p 4) 4" using assms(2) by (auto simp: ptr_ok_def hp_add_def)
  obtain m1 where m1: "host_write c (mem s) p 4 (ucast (guest_time s)) = Inr m1" using ok(1) by (simp add: host_write_def)
  obtain m where m: "host_write c m1 (hp_add p 4) 4 (ucast (drop_bit 32 (guest_time s))) = Inr m" using ok(2) by (simp add: host_write_def)
  have "hp_add p 0 = p" by (cases p) (simp add: hp_add_def)
  then have "run_callback c rtc_io 4 4 False s = Inr ((), s\<lparr>clk := snd (clock_get_time (clk s)), mem := m\<rparr>)"
    using assms(1) m1 m
    by (cases "clock_get_time (clk s)") (simp add: rtc_io_handler_def get_time_def guest_time_def set_reg32_def reg_ptr_def host_writeM_apply
        thenM_def bindM_def)
  moreover have "ptr_disjoint (hp_add p 4) 4 p 4" by (simp add: ptr_disjoint_def hp_add_def)
  then have "host_read c m p 4 = Inr (ucast (guest_time s))"
    using host.rd_wr_apart [OF _ _ m] host.rd_wr_word [OF m1] by (simp add: access_size_def)
  ultimately show thesis using that host.rd_wr_word [OF m] by blast
qed

lemma skip_ref:
  obtains s1 where "difftest_skip_ref c s = Inr ((), s1)" "clk s1 = clk s" "io s1 = io s" "mem s1 = mem s" "dev s1 = dev s"
  by (cases "CONFIG_DIFFTEST c") (simp_all add: difftest_skip_ref_def)

lemma RTC_ADDR_simps: "RTC_ADDR + 4 - RTC_ADDR = 4" "RTC_ADDR \<le> RTC_ADDR + 4"
  by (simp_all add: RTC_ADDR_def DEVICE_BASE_def)

lemma read_high:
  assumes "rtc_ready c s"
  obtains s' where "paddr_read c (RTC_ADDR + 4) 4 s = Inr (ucast (drop_bit 32 (guest_time s)), s')"
    "rtc_ready c s'" "clk s' = snd (clock_get_time (clk s))" "latched c s' (guest_time s)"
proof -
  obtain m where m: "lookup_map (mmio_maps (io s)) RTC_ADDR = Some m" "lookup_map (mmio_maps (io s)) (RTC_ADDR + 4) = Some m"
    "low m = RTC_ADDR" "callback m = Some rtc_io" "rtc_port_base (dev s) = Some (space m)" "ptr_ok c (space m) 8"
    using assms by (auto simp: rtc_ready_def)
  have inside: "RTC_ADDR + 4 \<le> high m" using lookup_map_Some [OF m(2)] by (auto simp: map_inside_def)
  obtain s1 where skip: "difftest_skip_ref c s = Inr ((), s1)" and s1: "clk s1 = clk s" "io s1 = io s" "mem s1 = mem s" "dev s1 = dev s"
    by (rule skip_ref)
  then obtain mm where cb: "run_callback c rtc_io 4 4 False s1 = Inr ((), s1\<lparr>clk := snd (clock_get_time (clk s)), mem := mm\<rparr>)"
    "host_read c mm (space m) 4 = Inr (ucast (guest_time s))"
    "host_read c mm (hp_add (space m) 4) 4 = Inr (ucast (drop_bit 32 (guest_time s)))"
    using rtc_serves [of s1 "space m" c] m(5,6) by (auto simp: guest_time_def)
  let ?s = "s1\<lparr>clk := snd (clock_get_time (clk s)), mem := mm\<rparr>"
  have "map_read c (RTC_ADDR + 4) 4 (Some m) s1 = Inr (ucast (drop_bit 32 (guest_time s)), ?s)"
    using cb inside m(3,4)
    by (simp add: map_read_def thenM_def bindM_def check_bound_def invoke_callback_def Let_def host_readM_apply RTC_ADDR_simps
        del: run_callback.simps)
  then have "paddr_read c (RTC_ADDR + 4) 4 s = Inr (ucast (drop_bit 32 (guest_time s)), ?s)"
    using assms m(2) skip
    by (simp add: paddr_read_outside rtc_ready_def mmio_read_def fetch_mmio_map_def find_map_by_addr_def thenM_def bindM_def)
  moreover have "rtc_ready c ?s" using assms s1 by (simp add: rtc_ready_def)
  moreover have "latched c ?s (guest_time s)" using cb(2) m(1) s1 by (simp add: latched_def)
  ultimately show thesis using that [of ?s] by simp
qed

lemma read_low:
  assumes "rtc_ready c s" "latched c s t"
  obtains s' where "paddr_read c RTC_ADDR 4 s = Inr (ucast t, s')" "rtc_ready c s'" "clk s' = clk s"
proof -
  obtain m where m: "lookup_map (mmio_maps (io s)) RTC_ADDR = Some m" "low m = RTC_ADDR" "callback m = Some rtc_io"
    using assms(1) by (auto simp: rtc_ready_def)
  have inside: "RTC_ADDR \<le> high m" using lookup_map_Some [OF m(1)] by (auto simp: map_inside_def)
  obtain s1 where skip: "difftest_skip_ref c s = Inr ((), s1)" and s1: "clk s1 = clk s" "io s1 = io s" "mem s1 = mem s" "dev s1 = dev s"
    by (rule skip_ref)
  have "hp_add (space m) 0 = space m" by (cases "space m") (simp add: hp_add_def)
  moreover have "host_read c (mem s1) (space m) 4 = Inr (ucast t)" using assms(2) m(1) s1 by (simp add: latched_def)
  ultimately have "map_read c RTC_ADDR 4 (Some m) s1 = Inr (ucast t, s1)"
    using inside m(2,3)
    by (simp add: map_read_def thenM_def bindM_def check_bound_def invoke_callback_def Let_def host_readM_apply rtc_io_handler_def)
  then have "paddr_read c RTC_ADDR 4 s = Inr (ucast t, s1)"
    using assms(1) m(1) skip
    by (simp add: paddr_read_outside rtc_ready_def mmio_read_def fetch_mmio_map_def find_map_by_addr_def thenM_def bindM_def)
  moreover have "rtc_ready c s1" using assms(1) s1 by (simp add: rtc_ready_def)
  ultimately show thesis using that s1(1) by blast
qed

section \<open>The loop\<close>

lemma joined_time: "push_bit 32 (ucast (ucast (drop_bit 32 t) :: u32)) OR ucast (ucast t :: u32) = (t :: u64)"
  by (rule bit_word_eqI) (auto simp: bit_simps)

lemma uptime_on_nemu:
  assumes "rtc_ready c s" "clock_ok (clk s)"
  shows "\<exists>t s'. nemu_timer_uptime (nemu_bus c) (Inr s) = Some (t, Inr s') \<and> guest_time s \<le> t \<and> t \<le> guest_time s'
    \<and> rtc_ready c s' \<and> clock_ok (clk s')"
  using assms
proof (induction "2 ^ 32 - unat (guest_time s) div 2 ^ 32" arbitrary: s rule: less_induct)
  case less
  obtain s1 where s1: "paddr_read c (RTC_ADDR + 4) 4 s = Inr (ucast (drop_bit 32 (guest_time s)), s1)"
    "rtc_ready c s1" "clk s1 = snd (clock_get_time (clk s))" "latched c s1 (guest_time s)" using less.prems(1) by (rule read_high)
  obtain s2 where s2: "paddr_read c RTC_ADDR 4 s1 = Inr (ucast (guest_time s), s2)" "rtc_ready c s2" "clk s2 = clk s1"
    using s1(2,4) by (rule read_low)
  obtain s3 where s3: "paddr_read c (RTC_ADDR + 4) 4 s2 = Inr (ucast (drop_bit 32 (guest_time s2)), s3)"
    "rtc_ready c s3" "clk s3 = snd (clock_get_time (clk s2))" using s2(2) by (rule read_high)
  have k: "clock_ok (clk s1)" "clock_ok (clk s3)" and le: "guest_time s \<le> guest_time s2" "guest_time s2 \<le> guest_time s3"
    using less.prems(2) clock_next s1(3) s2(3) s3(3) by (simp_all add: guest_time_def)
  let ?h1 = "ucast (drop_bit 32 (guest_time s)) :: u32" and ?h2 = "ucast (drop_bit 32 (guest_time s2)) :: u32"
  have step: "nemu_timer_uptime (nemu_bus c) (Inr s) =
      (if ?h1 \<noteq> ?h2 then nemu_timer_uptime (nemu_bus c) (Inr s3) else Some (guest_time s, Inr s3))"
  proof -
    have "nemu_timer_uptime (nemu_bus c) (Inr s) = (if ?h1 \<noteq> ?h2 then nemu_timer_uptime (nemu_bus c) (Inr s3)
        else Some (push_bit 32 (ucast ?h2) OR ucast (ucast (guest_time s) :: u32), Inr s3))"
      unfolding nemu_timer_uptime_def by (subst read_clock.simps) (simp add: nemu_bus_def bus_step_def s1(1) s2(1) s3(1))
    then show ?thesis by (metis joined_time)
  qed
  show ?case
  proof (cases "?h1 = ?h2")
    case True
    then show ?thesis using step le s3(2) k(2) by (auto intro: order_trans)
  next
    case False
    then have "unat (guest_time s) div 2 ^ 32 \<noteq> unat (guest_time s2) div 2 ^ 32" by (metis clock_halves(1) word_unat_eq_iff)
    moreover have "unat (guest_time s) div 2 ^ 32 \<le> unat (guest_time s2) div 2 ^ 32"
      "unat (guest_time s2) div 2 ^ 32 \<le> unat (guest_time s3) div 2 ^ 32"
      using le by (intro div_le_mono; simp add: word_le_nat_alt)+
    moreover have "unat (guest_time s3) div 2 ^ 32 < 2 ^ 32" using u64_bound [of "guest_time s3"] by (simp add: less_mult_imp_div_less)
    ultimately have "2 ^ 32 - unat (guest_time s3) div 2 ^ 32 < 2 ^ 32 - unat (guest_time s) div 2 ^ 32" by linarith
    from less.hyps [OF this s3(2) k(2)] show ?thesis using step False le by (auto intro: order_trans)
  qed
qed

section \<open>The timer after its initialisation\<close>

lemma page_align_8: "sint (page_align 8) = 4096"
  by code_simp

lemma init_timer_ready:
  assumes "init_timer c s = Inr ((), s')" and "\<not> CONFIG_HAS_PORT_IO c" and "\<not> trace_target c" and "CONFIG_RTC_MMIO c = RTC_ADDR"
    and "CONFIG_DEVICE c" and "ram_ptr c RTC_ADDR = None" "ram_ptr c (RTC_ADDR + 4) = None"
    and "maps_inv (mmio_maps (io s))" and "0 \<le> p_space (io s)"
  shows "rtc_ready c s' \<and> clk s' = clk s"
proof -
  let ?p = "(IO_SPACE, p_space (io s))"
  let ?m = "mk_iomap ''rtc'' RTC_ADDR ?p 8 (Some rtc_io)"
  have add: "add_mmio_map c ''rtc'' RTC_ADDR ?p 8 (Some rtc_io) (mmio_maps (io s)) = Inr (mmio_maps (io s'))"
    and room: "p_space (io s) + 4096 < IO_SPACE_MAX" and s': "rtc_port_base (dev s') = Some ?p" "clk s' = clk s"
    using assms(1-4)
    by (auto simp: init_timer_def new_space_def page_align_8 modify_dev_def register_def register_mmio_def add_alarm_handle_def
        bindM_def thenM_def liftM_def split: sum.splits if_splits)
  have "add_entry c ?m (mmio_maps (io s)) = Inr (mmio_maps (io s'))" using add by simp
  from mmio.find_new [OF assms(8) this] have "lookup_map (mmio_maps (io s')) RTC_ADDR = Some ?m"
    "lookup_map (mmio_maps (io s')) (RTC_ADDR + 4) = Some ?m"
    by (simp_all add: map_inside_def mk_iomap_def RTC_ADDR_def DEVICE_BASE_def)
  moreover have "ptr_ok c ?p 8" using room assms(9) by (simp add: ptr_ok_def)
  ultimately show ?thesis using assms(5-7) s' by (auto simp: rtc_ready_def mk_iomap_def)
qed

end
