(* ===== verification/Native_Vme.thy ===== *)
theory Native_Vme
  imports Text_Format
begin

text \<open>
  Address spaces on the native platform of the abstract machine, \<open>am/src/native/vme.c\<close>: an address space is a list of page
  descriptors, which \<open>__am_switch\<close> installs in the host process by \<open>mmap\<close> and removes by \<open>munmap\<close>. Heads and
  descriptors live in pages of the allocator given to \<open>vme_init\<close>, in one store: an access to a page that holds another
  object is an error. The hash table of the C library is a map of bounded size from keys to descriptors. Whether the host
  grants a mapping is a parameter of the model, and the code's assertions on it are part of it.
  The operations keep every space a list without repetition and the host's mappings those of the running space, as
  long as no page is mapped twice; mapping a page again makes the list a cycle, and switching to the space never returns.
\<close>

unbundle bit_operations_syntax

section \<open>Data\<close>

record pagemap =
  pm_va :: u64
  pm_pa :: u64
  pm_next :: u64
  pm_prot :: u32
  pm_mapped :: bool
  pm_key :: string

record vmhead =
  vh_head :: u64
  vh_hash :: "string \<rightharpoonup> u64"
  vh_size :: nat
  vh_nr_page :: int

text \<open>What a page of the allocator holds.\<close>

datatype page_obj = No_obj | is_page: Page_obj (node_of: pagemap) | is_head: Head_obj (head_of: vmhead)

record native_as =
  nas_pgsize :: u64
  nas_start :: u64
  nas_end :: u64
  nas_ptr :: u64

text \<open>
  \<open>objs\<close> are the pages, \<open>spaces\<close> the address space objects; \<open>host_map\<close> is what the host process has mapped in the
  user area, page by page.
\<close>

record 'p native =
  objs :: "u64 \<Rightarrow> page_obj"
  spaces :: "u64 \<Rightarrow> native_as"
  cpu_vm_head :: u64
  native_enable :: bool
  native_pool :: 'p
  host_map :: "u64 \<rightharpoonup> u64 \<times> u32"

type_synonym ('p, 'a) N = "('p native, 'a) comp"

text \<open>
  The host: the size of a page, whether \<open>mmap\<close> and \<open>munmap\<close> succeed where the mappings are those of the last argument, and
  the room of the table that \<open>hcreate_r\<close> makes for a number of entries, if it makes one.
\<close>

record host =
  am_pgsize :: u64
  mmap_ok :: "u64 \<Rightarrow> u64 \<Rightarrow> u32 \<Rightarrow> (u64 \<rightharpoonup> u64 \<times> u32) \<Rightarrow> bool"
  munmap_ok :: "u64 \<Rightarrow> (u64 \<rightharpoonup> u64 \<times> u32) \<Rightarrow> bool"
  hcreate :: "nat \<Rightarrow> nat option"

definition USER_START :: u64 where "USER_START = 0x40000000"
definition USER_END :: u64 where "USER_END = 0xc0000000"

definition in_user :: "u64 \<Rightarrow> bool" where
  "in_user va \<longleftrightarrow> USER_START \<le> va \<and> va < USER_END"

definition assertM :: "bool \<Rightarrow> ('s, unit) comp" where
  "assertM b = (if b then retM () else failM Assert_fail)"

section \<open>Operations\<close>

text \<open>Reading a page as a descriptor or as a head, and storing one.\<close>

definition page_at :: "u64 \<Rightarrow> ('p, pagemap) N" where
  "page_at p = (\<lambda>s. case objs s p of Page_obj n \<Rightarrow> Inr (n, s) | _ \<Rightarrow> Inl Out_of_bounds)"

definition head_at :: "u64 \<Rightarrow> ('p, vmhead) N" where
  "head_at h = (\<lambda>s. case objs s h of Head_obj v \<Rightarrow> Inr (v, s) | _ \<Rightarrow> Inl Out_of_bounds)"

definition store_obj :: "u64 \<Rightarrow> page_obj \<Rightarrow> ('p, unit) N" where
  "store_obj p x = modifyM (\<lambda>s. s\<lparr>objs := (objs s)(p := x)\<rparr>)"

text \<open>\<open>__am_pmem_map\<close> and \<open>__am_pmem_unmap\<close> of \<open>platform.c\<close>; \<open>PROT_READ\<close>, \<open>PROT_WRITE\<close> and \<open>PROT_EXEC\<close> are 1, 2 and 4.\<close>

definition mmap_prot :: "u32 \<Rightarrow> u32" where
  "mmap_prot prot = (if prot AND 1 \<noteq> 0 then 1 OR 4 else 0) OR (if prot AND 2 \<noteq> 0 then 2 else 0)"

definition am_pmem_map :: "host \<Rightarrow> u64 \<Rightarrow> u64 \<Rightarrow> u32 \<Rightarrow> ('p, unit) N" where
  "am_pmem_map w va pa prot = (\<lambda>s. if mmap_ok w va pa (mmap_prot prot) (host_map s)
     then Inr ((), s\<lparr>host_map := (host_map s)(va \<mapsto> (pa, mmap_prot prot))\<rparr>) else Inl Assert_fail)"

definition am_pmem_unmap :: "host \<Rightarrow> u64 \<Rightarrow> ('p, unit) N" where
  "am_pmem_unmap w va = (\<lambda>s. if munmap_ok w va (host_map s)
     then Inr ((), s\<lparr>host_map := (host_map s)(va := None)\<rparr>) else Inl Assert_fail)"

definition set_mapped :: "u64 \<Rightarrow> bool \<Rightarrow> ('p, unit) N" where
  "set_mapped p b = bindM (page_at p) (\<lambda>n. store_obj p (Page_obj (n\<lparr>pm_mapped := b\<rparr>)))"

text \<open>The loop \<open>list_foreach\<close>, for at most \<open>fuel\<close> descriptors.\<close>

primrec list_foreach :: "nat \<Rightarrow> (u64 \<Rightarrow> ('p, unit) N) \<Rightarrow> u64 \<Rightarrow> ('p, unit) N" where
  "list_foreach 0 body p = (if p = 0 then retM () else failM Diverges)"
| "list_foreach (Suc fuel) body p =
     (if p = 0 then retM () else thenM (body p) (bindM (page_at p) (\<lambda>n. list_foreach fuel body (pm_next n))))"

definition native_vme_init :: "('p, bool) N" where
  "native_vme_init = thenM (modifyM (\<lambda>s. s\<lparr>native_enable := True\<rparr>)) (retM True)"

definition native_protect :: "('p \<Rightarrow> u64 \<times> 'p) \<Rightarrow> host \<Rightarrow> u64 \<Rightarrow> ('p, unit) N" where
  "native_protect pgalloc w as = thenM (assertM (as \<noteq> 0)) (\<lambda>s. let (h, p) = pgalloc (native_pool s) in
     thenM (assertM (h \<noteq> 0)) (case hcreate w (unat ((USER_END - USER_START) div am_pgsize w)) of
       None \<Rightarrow> failM Assert_fail
     | Some room \<Rightarrow> modifyM (\<lambda>s. s\<lparr>native_pool := p,
         objs := (objs s)(h := Head_obj \<lparr>vh_head = 0, vh_hash = Map.empty, vh_size = room, vh_nr_page = 0\<rparr>),
         spaces := (spaces s)(as := \<lparr>nas_pgsize = am_pgsize w, nas_start = USER_START, nas_end = USER_END, nas_ptr = h\<rparr>)\<rparr>)) s)"

definition unmap_page :: "host \<Rightarrow> u64 \<Rightarrow> ('p, unit) N" where
  "unmap_page w pp = bindM (page_at pp) (\<lambda>n. if pm_mapped n
     then thenM (am_pmem_unmap w (pm_va n)) (set_mapped pp False) else retM ())"

definition map_page :: "host \<Rightarrow> u64 \<Rightarrow> ('p, unit) N" where
  "map_page w pp = bindM (page_at pp) (\<lambda>n. thenM (assertM (in_user (pm_va n)))
     (thenM (am_pmem_map w (pm_va n) (pm_pa n) (pm_prot n)) (set_mapped pp True)))"

definition am_switch :: "host \<Rightarrow> nat \<Rightarrow> u64 \<Rightarrow> ('p, unit) N" where
  "am_switch w fuel head = (\<lambda>s.
     if \<not> native_enable s then Inr ((), s)
     else thenM
       (if head = cpu_vm_head s then retM ()
        else thenM
          (if cpu_vm_head s \<noteq> 0 then bindM (head_at (cpu_vm_head s)) (\<lambda>v. list_foreach fuel (unmap_page w) (vh_head v)) else retM ())
          (if head \<noteq> 0 then bindM (head_at head) (\<lambda>v. list_foreach fuel (map_page w) (vh_head v)) else retM ()))
       (modifyM (\<lambda>s. s\<lparr>cpu_vm_head := head\<rparr>)) s)"

definition page_key :: "u64 \<Rightarrow> string" where
  "page_key va = hex_nat (unat (ucast va :: u32))"

definition hash_enter :: "string \<Rightarrow> u64 \<Rightarrow> vmhead \<Rightarrow> vmhead option" where
  "hash_enter key data h =
     (if card (dom (vh_hash h)) < vh_size h then Some (h\<lparr>vh_hash := (vh_hash h)(key \<mapsto> data)\<rparr>) else None)"

text \<open>
  The descriptor for a page: the one the table has, or a new one that is entered. The table refers to the key inside the
  descriptor; the other fields of a new descriptor are what the page held before, and all of them are stored by \<open>map\<close>.
\<close>

definition key_stored :: "string \<Rightarrow> page_obj \<Rightarrow> page_obj" where
  "key_stored key x = Page_obj (case x of Page_obj n \<Rightarrow> n\<lparr>pm_key := key\<rparr>
     | _ \<Rightarrow> \<lparr>pm_va = 0, pm_pa = 0, pm_next = 0, pm_prot = 0, pm_mapped = False, pm_key = key\<rparr>)"

definition new_page :: "('p \<Rightarrow> u64 \<times> 'p) \<Rightarrow> ('p, u64) N" where
  "new_page pgalloc = (\<lambda>s. let (pp, p) = pgalloc (native_pool s) in Inr (pp, s\<lparr>native_pool := p\<rparr>))"

definition find_page :: "('p \<Rightarrow> u64 \<times> 'p) \<Rightarrow> u64 \<Rightarrow> u64 \<Rightarrow> ('p, u64) N" where
  "find_page pgalloc vm_head va = bindM (head_at vm_head) (\<lambda>v. case vh_hash v (page_key va) of
     Some pp \<Rightarrow> bindM (page_at pp) (\<lambda>n. if pm_key n = page_key va then retM pp else failM Out_of_bounds)
   | None \<Rightarrow> bindM (new_page pgalloc) (\<lambda>pp.
       if pp = 0 then failM Out_of_bounds
       else thenM (\<lambda>s. store_obj pp (key_stored (page_key va) (objs s pp)) s)
         (bindM (head_at vm_head) (\<lambda>v. case hash_enter (page_key va) pp v of
            None \<Rightarrow> failM Assert_fail
          | Some v' \<Rightarrow> thenM (store_obj vm_head (Head_obj (v'\<lparr>vh_nr_page := vh_nr_page v' + 1\<rparr>))) (retM pp)))))"

text \<open>The stores of \<open>map\<close>: the fields of the descriptor, which becomes the head of the list.\<close>

definition link_page :: "u64 \<Rightarrow> u64 \<Rightarrow> u64 \<Rightarrow> u64 \<Rightarrow> u32 \<Rightarrow> ('p, unit) N" where
  "link_page vm_head pp va pa prot = bindM (page_at pp) (\<lambda>n.
     thenM (store_obj pp (Page_obj (n\<lparr>pm_va := va, pm_pa := pa, pm_prot := prot, pm_mapped := False\<rparr>)))
     (bindM (head_at vm_head) (\<lambda>v. bindM (page_at pp) (\<lambda>n.
       thenM (store_obj pp (Page_obj (n\<lparr>pm_next := vh_head v\<rparr>)))
       (store_obj vm_head (Head_obj (v\<lparr>vh_head := pp\<rparr>)))))))"

definition native_map :: "('p \<Rightarrow> u64 \<times> 'p) \<Rightarrow> host \<Rightarrow> u64 \<Rightarrow> u64 \<Rightarrow> u64 \<Rightarrow> u32 \<Rightarrow> ('p, unit) N" where
  "native_map pgalloc w as va pa prot = (\<lambda>s. let vm_head = nas_ptr (spaces s as) in
     thenM (assertM (in_user va)) (thenM (assertM (va mod am_pgsize w = 0)) (thenM (assertM (pa mod am_pgsize w = 0))
     (thenM (assertM (as \<noteq> 0)) (thenM (assertM (vm_head \<noteq> 0))
     (bindM (find_page pgalloc vm_head va) (\<lambda>pp. thenM (link_page vm_head pp va pa prot)
       (\<lambda>s. if vm_head = cpu_vm_head s
          then bindM (page_at pp) (\<lambda>n. thenM (am_pmem_map w (pm_va n) (pm_pa n) (pm_prot n)) (set_mapped pp True)) s
          else Inr ((), s)))))))) s)"

definition am_in_userspace :: "u64 \<Rightarrow> 'p native \<Rightarrow> bool" where
  "am_in_userspace addr s \<longleftrightarrow> native_enable s \<and> cpu_vm_head s \<noteq> 0 \<and> in_user addr"

section \<open>Keys\<close>

lemma hex_char_inj:
  assumes "a < 16" "b < 16"
  shows "hex_char a = hex_char b \<longleftrightarrow> a = b"
proof -
  have "list_all (\<lambda>a. list_all (\<lambda>b. (hex_char a = hex_char b) = (a = b)) [0..<16]) [0..<16]" by code_simp
  then show ?thesis using assms unfolding list_all_iff set_upt by simp
qed

lemma hex_nat_inj: "hex_nat n = hex_nat m \<longleftrightarrow> n = m"
proof (induction n arbitrary: m rule: hex_nat.induct)
  case (1 n)
  have ne: "hex_nat k \<noteq> []" "[] \<noteq> hex_nat k" for k by (subst hex_nat.simps; simp)+
  show ?case
  proof (cases "n < 16")
    case True
    then show ?thesis using ne hex_char_inj [of n m]
      by (cases "m < 16") (auto simp: hex_nat.simps [of n] hex_nat.simps [of m] append_eq_Cons_conv)
  next
    case False
    show ?thesis
    proof (cases "m < 16")
      case True
      then show ?thesis using False ne by (auto simp: hex_nat.simps [of n] hex_nat.simps [of m] append_eq_Cons_conv)
    next
      case m: False
      have "hex_nat n = hex_nat m \<longleftrightarrow> n div 16 = m div 16 \<and> n mod 16 = m mod 16"
        using 1 [OF False, of "m div 16"] hex_char_inj [of "n mod 16" "m mod 16"] False m
        by (simp add: hex_nat.simps [of n] hex_nat.simps [of m])
      then show ?thesis by (metis div_mult_mod_eq)
    qed
  qed
qed

lemma page_key_inj: "in_user x \<Longrightarrow> in_user y \<Longrightarrow> page_key x = page_key y \<longleftrightarrow> x = y"
proof -
  have u: "unat (ucast x :: u32) = unat x" if "in_user x" for x :: u64
  proof -
    have "unat x < 2 ^ 32" using that by (simp add: in_user_def USER_END_def word_less_nat_alt)
    then show ?thesis by (simp add: unsigned_ucast_eq take_bit_nat_eq_self)
  qed
  assume "in_user x" "in_user y"
  then show ?thesis by (simp add: page_key_def hex_nat_inj u word_unat_eq_iff)
qed

section \<open>Well-formed spaces\<close>

definition nodes :: "'p native \<Rightarrow> u64 \<Rightarrow> pagemap" where
  "nodes s p = node_of (objs s p)"

definition heads :: "'p native \<Rightarrow> u64 \<Rightarrow> vmhead" where
  "heads s h = head_of (objs s h)"

primrec chain :: "(u64 \<Rightarrow> page_obj) \<Rightarrow> u64 \<Rightarrow> u64 list \<Rightarrow> bool" where
  "chain os p [] \<longleftrightarrow> p = 0"
| "chain os p (q # qs) \<longleftrightarrow> p = q \<and> q \<noteq> 0 \<and> is_page (os q) \<and> chain os (pm_next (node_of (os q))) qs"

definition page_entry :: "pagemap \<Rightarrow> u64 \<times> (u64 \<times> u32)" where
  "page_entry n = (pm_va n, (pm_pa n, mmap_prot (pm_prot n)))"

definition table :: "(u64 \<Rightarrow> pagemap) \<Rightarrow> u64 list \<Rightarrow> u64 \<rightharpoonup> u64 \<times> u32" where
  "table ns ps = map_of (map (\<lambda>p. page_entry (ns p)) ps)"

text \<open>A descriptor is for a page of the user area and has its key; these are the pages for which the host is asked.\<close>

definition aligned_to :: "host \<Rightarrow> u64 \<Rightarrow> bool" where
  "aligned_to w a \<longleftrightarrow> a mod am_pgsize w = 0"

definition page_inv :: "host \<Rightarrow> pagemap \<Rightarrow> bool" where
  "page_inv w n \<longleftrightarrow> in_user (pm_va n) \<and> aligned_to w (pm_va n) \<and> aligned_to w (pm_pa n) \<and> pm_key n = page_key (pm_va n)"

definition host_accepts :: "host \<Rightarrow> bool" where
  "host_accepts w \<longleftrightarrow>
     (\<forall>va pa prot m. in_user va \<and> aligned_to w va \<and> aligned_to w pa \<longrightarrow> mmap_ok w va pa prot m)
     \<and> (\<forall>va m. in_user va \<and> aligned_to w va \<longrightarrow> munmap_ok w va m)"

text \<open>The descriptors of a space: a list without repetition, found by their keys, marked when the space is running.\<close>

definition space_inv :: "host \<Rightarrow> 'p native \<Rightarrow> u64 \<Rightarrow> u64 list \<Rightarrow> bool" where
  "space_inv w s h ps \<longleftrightarrow> is_head (objs s h) \<and> chain (objs s) (vh_head (heads s h)) ps \<and> distinct ps
     \<and> (\<forall>p \<in> set ps. page_inv w (nodes s p) \<and> vh_hash (heads s h) (page_key (pm_va (nodes s p))) = Some p
          \<and> (pm_mapped (nodes s p) \<longleftrightarrow> h = cpu_vm_head s))
     \<and> dom (vh_hash (heads s h)) = (\<lambda>p. page_key (pm_va (nodes s p))) ` set ps"

definition native_ok :: "host \<Rightarrow> u64 set \<Rightarrow> (u64 \<Rightarrow> u64 list) \<Rightarrow> 'p native \<Rightarrow> bool" where
  "native_ok w H L s \<longleftrightarrow> 0 \<notin> H \<and> (\<forall>h \<in> H. space_inv w s h (L h)) \<and> (\<forall>h \<in> H. \<forall>k \<in> H. h \<noteq> k \<longrightarrow> set (L h) \<inter> set (L k) = {})
     \<and> (cpu_vm_head s = 0 \<or> cpu_vm_head s \<in> H) \<and> native_enable s
     \<and> host_map s = (if cpu_vm_head s = 0 then Map.empty else table (nodes s) (L (cpu_vm_head s)))"

lemma space_va_inj:
  assumes "space_inv w s h ps"
  shows "inj_on (\<lambda>p. pm_va (nodes s p)) (set ps)"
  using assms unfolding space_inv_def by (intro inj_onI) (metis option.inject)

lemma chain_is_page: "chain os p ps \<Longrightarrow> q \<in> set ps \<Longrightarrow> is_page (os q)"
  by (induction ps arbitrary: p) auto

lemma chain_cong:
  "(\<And>p. p \<in> set ps \<Longrightarrow> is_page (os p) \<Longrightarrow> is_page (os' p) \<and> pm_next (node_of (os' p)) = pm_next (node_of (os p))) \<Longrightarrow>
   chain os a ps \<Longrightarrow> chain os' a ps"
  by (induction ps arbitrary: a) auto

lemma page_at_run [simp]: "is_page (objs s p) \<Longrightarrow> page_at p s = Inr (nodes s p, s)"
  by (auto simp: page_at_def nodes_def is_page_def)

lemma head_at_run [simp]: "is_head (objs s h) \<Longrightarrow> head_at h s = Inr (heads s h, s)"
  by (auto simp: head_at_def heads_def is_head_def)

lemma store_obj_run [simp]: "store_obj p x s = Inr ((), s\<lparr>objs := (objs s)(p := x)\<rparr>)"
  by (simp add: store_obj_def modifyM_def)

lemma page_not_head: "is_page x \<Longrightarrow> is_head x \<Longrightarrow> False"
  by (cases x) auto

section \<open>Switching\<close>

text \<open>A switch changes the mark \<open>is_mapped\<close> of descriptors; \<open>shape\<close> is what it leaves of a page.\<close>

definition touch :: "bool \<Rightarrow> page_obj \<Rightarrow> page_obj" where
  "touch b x = (case x of Page_obj n \<Rightarrow> Page_obj (n\<lparr>pm_mapped := b\<rparr>) | _ \<Rightarrow> x)"

definition shape :: "page_obj \<Rightarrow> page_obj" where
  "shape x = touch False x"

lemma touch_fields [simp]:
  "is_page (touch b x) = is_page x" "is_head (touch b x) = is_head x" "is_head x \<Longrightarrow> touch b x = x"
  "pm_va (node_of (touch b x)) = pm_va (node_of x)" "pm_pa (node_of (touch b x)) = pm_pa (node_of x)"
  "pm_next (node_of (touch b x)) = pm_next (node_of x)" "pm_prot (node_of (touch b x)) = pm_prot (node_of x)"
  "pm_key (node_of (touch b x)) = pm_key (node_of x)"
  "is_page x \<Longrightarrow> pm_mapped (node_of (touch b x)) = b" "shape (touch b x) = shape x"
  by (cases x; simp add: touch_def shape_def)+

lemma shape_fields:
  assumes "shape x = shape y"
  shows "is_page x = is_page y" "is_head x = is_head y" "pm_va (node_of x) = pm_va (node_of y)" "pm_pa (node_of x) = pm_pa (node_of y)"
    "pm_next (node_of x) = pm_next (node_of y)" "pm_prot (node_of x) = pm_prot (node_of y)" "pm_key (node_of x) = pm_key (node_of y)"
  using arg_cong [OF assms, of is_page] arg_cong [OF assms, of is_head] arg_cong [OF assms, of "\<lambda>x. pm_va (node_of x)"]
    arg_cong [OF assms, of "\<lambda>x. pm_pa (node_of x)"] arg_cong [OF assms, of "\<lambda>x. pm_next (node_of x)"]
    arg_cong [OF assms, of "\<lambda>x. pm_prot (node_of x)"] arg_cong [OF assms, of "\<lambda>x. pm_key (node_of x)"]
  by (simp_all add: shape_def)

lemma shape_head: "shape x = shape y \<Longrightarrow> is_head y \<Longrightarrow> x = y"
  by (cases x; cases y; simp add: shape_def touch_def)

lemma shape_page_inv:
  assumes "shape x = shape y"
  shows "page_inv w (node_of x) = page_inv w (node_of y)"
  using shape_fields [OF assms] by (simp add: page_inv_def)

lemma set_mapped_run: "is_page (objs s p) \<Longrightarrow> set_mapped p b s = Inr ((), s\<lparr>objs := (objs s)(p := touch b (objs s p))\<rparr>)"
  by (auto simp: set_mapped_def bindM_def nodes_def touch_def is_page_def)

lemma list_foreach_fold:
  fixes s :: "'p native"
  assumes "chain (objs s) p ps" "length ps \<le> fuel"
    and "\<And>q t. q \<in> set ps \<Longrightarrow> (\<And>x. shape (objs t x) = shape (objs s x)) \<Longrightarrow> body q t = Inr ((), f q t)"
    and "\<And>q x and t :: 'p native. shape (objs (f q t) x) = shape (objs t x)"
  shows "list_foreach fuel body p s = Inr ((), fold f ps s)"
  using assms(1-3)
proof (induction ps arbitrary: fuel p s)
  case Nil
  then show ?case by (cases fuel) (simp_all add: retM_def)
next
  case (Cons q ps)
  then obtain n where n: "fuel = Suc n" by (cases fuel) auto
  have q: "p = q" "q \<noteq> 0" "is_page (objs s q)" "chain (objs s) (pm_next (node_of (objs s q))) ps" using Cons.prems(1) by auto
  have b: "body q s = Inr ((), f q s)" by (rule Cons.prems(3)) simp_all
  have sh: "is_page (objs (f q s) x) = is_page (objs s x)" "pm_next (node_of (objs (f q s) x)) = pm_next (node_of (objs s x))" for x
    using shape_fields [OF assms(4)] by simp_all
  have "list_foreach n body (pm_next (nodes (f q s) q)) (f q s) = Inr ((), fold f ps (f q s))"
  proof (rule Cons.IH)
    show "chain (objs (f q s)) (pm_next (nodes (f q s) q)) ps" unfolding nodes_def sh by (rule chain_cong [OF _ q(4)]) (simp add: sh)
    show "length ps \<le> n" using Cons.prems(2) n by simp
    show "body r t = Inr ((), f r t)" if "r \<in> set ps" "\<And>x. shape (objs t x) = shape (objs (f q s) x)" for r t
      using that assms(4) by (intro Cons.prems(3)) simp_all
  qed
  then show ?case using n q b sh(1) [of q] by (simp add: thenM_def bindM_def)
qed

definition unmapped :: "u64 \<Rightarrow> 'p native \<Rightarrow> 'p native" where
  "unmapped q t = (if pm_mapped (nodes t q) then t\<lparr>host_map := (host_map t)(pm_va (nodes t q) := None),
     objs := (objs t)(q := touch False (objs t q))\<rparr> else t)"

definition mapped :: "u64 \<Rightarrow> 'p native \<Rightarrow> 'p native" where
  "mapped q t = t\<lparr>host_map := (host_map t)(pm_va (nodes t q) \<mapsto> (pm_pa (nodes t q), mmap_prot (pm_prot (nodes t q)))),
     objs := (objs t)(q := touch True (objs t q))\<rparr>"

definition mark :: "bool \<Rightarrow> u64 list \<Rightarrow> (u64 \<Rightarrow> page_obj) \<Rightarrow> u64 \<Rightarrow> page_obj" where
  "mark b ps os = (\<lambda>x. if x \<in> set ps then touch b (os x) else os x)"

lemma mark_fields [simp]:
  "is_page (mark b ps os x) = is_page (os x)" "is_head (mark b ps os x) = is_head (os x)" "is_head (os x) \<Longrightarrow> mark b ps os x = os x"
  "pm_va (node_of (mark b ps os x)) = pm_va (node_of (os x))" "pm_pa (node_of (mark b ps os x)) = pm_pa (node_of (os x))"
  "pm_next (node_of (mark b ps os x)) = pm_next (node_of (os x))" "pm_prot (node_of (mark b ps os x)) = pm_prot (node_of (os x))"
  "pm_key (node_of (mark b ps os x)) = pm_key (node_of (os x))" "shape (mark b ps os x) = shape (os x)"
  "is_page (os x) \<Longrightarrow> pm_mapped (node_of (mark b ps os x)) = (if x \<in> set ps then b else pm_mapped (node_of (os x)))"
  by (simp_all add: mark_def)

lemma table_shape:
  assumes "\<And>x. shape (objs t x) = shape (objs s x)"
  shows "table (nodes t) ps = table (nodes s) ps"
  using shape_fields [OF assms] by (simp add: table_def page_entry_def nodes_def)

lemma fold_unmapped:
  "distinct ps \<Longrightarrow> (\<And>p. p \<in> set ps \<Longrightarrow> pm_mapped (nodes s p)) \<Longrightarrow> fold unmapped ps s
     = s\<lparr>host_map := (\<lambda>v. if v \<in> (\<lambda>p. pm_va (nodes s p)) ` set ps then None else host_map s v), objs := mark False ps (objs s)\<rparr>"
proof (induction ps arbitrary: s)
  case (Cons p ps)
  then have p: "unmapped p s = s\<lparr>host_map := (host_map s)(pm_va (nodes s p) := None), objs := mark False [p] (objs s)\<rparr>"
    by (auto simp: unmapped_def mark_def fun_eq_iff)
  have va: "pm_va (nodes (unmapped p s) q) = pm_va (nodes s q)" for q by (simp add: p nodes_def)
  have "fold unmapped ps (unmapped p s)
      = (unmapped p s)\<lparr>host_map := (\<lambda>v. if v \<in> (\<lambda>q. pm_va (nodes (unmapped p s) q)) ` set ps then None else host_map (unmapped p s) v),
          objs := mark False ps (objs (unmapped p s))\<rparr>"
    using Cons.prems p by (intro Cons.IH) (auto simp: nodes_def mark_def)
  moreover have "mark False ps (mark False [p] (objs s)) = mark False (p # ps) (objs s)"
    using Cons.prems(1) by (auto simp: mark_def)
  moreover have "(\<lambda>v. if v \<in> (\<lambda>q. pm_va (nodes s q)) ` set ps then None else if v = pm_va (nodes s p) then None else host_map s v)
      = (\<lambda>v. if v \<in> (\<lambda>q. pm_va (nodes s q)) ` set (p # ps) then None else host_map s v)" by auto
  ultimately show ?case unfolding va by (simp add: p fun_upd_def cong: if_cong)
qed (simp add: mark_def)

lemma fold_mapped:
  "distinct ps \<Longrightarrow> inj_on (\<lambda>p. pm_va (nodes s p)) (set ps) \<Longrightarrow> fold mapped ps s
     = s\<lparr>host_map := host_map s ++ table (nodes s) ps, objs := mark True ps (objs s)\<rparr>"
proof (induction ps arbitrary: s)
  case (Cons p ps)
  let ?n = "nodes s p"
  have p: "mapped p s = s\<lparr>host_map := (host_map s)(pm_va ?n \<mapsto> (pm_pa ?n, mmap_prot (pm_prot ?n))), objs := mark True [p] (objs s)\<rparr>"
    by (auto simp: mapped_def mark_def fun_eq_iff)
  have va: "pm_va (nodes (mapped p s) q) = pm_va (nodes s q)" for q by (simp add: p nodes_def)
  have tb: "table (nodes (mapped p s)) ps = table (nodes s) ps" by (rule table_shape) (simp add: p)
  have "fold mapped ps (mapped p s)
      = (mapped p s)\<lparr>host_map := host_map (mapped p s) ++ table (nodes (mapped p s)) ps, objs := mark True ps (objs (mapped p s))\<rparr>"
    using Cons.prems by (intro Cons.IH) (auto simp: va)
  moreover have "mark True ps (mark True [p] (objs s)) = mark True (p # ps) (objs s)"
    using Cons.prems(1) by (auto simp: mark_def)
  moreover have "table (nodes s) ps (pm_va ?n) = None"
    using Cons.prems by (auto simp: table_def page_entry_def map_of_eq_None_iff)
  then have "(host_map s)(pm_va ?n \<mapsto> (pm_pa ?n, mmap_prot (pm_prot ?n))) ++ table (nodes s) ps = host_map s ++ table (nodes s) (p # ps)"
    by (auto simp: table_def page_entry_def map_add_def fun_eq_iff split: option.splits)
  ultimately show ?case unfolding tb by (simp add: p)
qed (simp add: mark_def table_def)

text \<open>One descriptor: the body of the loop returns, or an assertion on the host fails.\<close>

lemma unmap_page_run:
  assumes "is_page (objs t q)" "page_inv w (nodes t q)"
  shows "unmap_page w q t = Inr ((), unmapped q t) \<or> unmap_page w q t = Inl Assert_fail \<and> \<not> host_accepts w"
  using assms by (auto simp: unmap_page_def unmapped_def am_pmem_unmap_def set_mapped_run thenM_def bindM_def retM_def page_inv_def
      host_accepts_def)

lemma map_page_run:
  assumes "is_page (objs t q)" "page_inv w (nodes t q)"
  shows "map_page w q t = Inr ((), mapped q t) \<or> map_page w q t = Inl Assert_fail \<and> \<not> host_accepts w"
  using assms by (auto simp: map_page_def mapped_def am_pmem_map_def set_mapped_run thenM_def bindM_def retM_def page_inv_def
      assertM_def host_accepts_def)

lemma shape_unmapped: "shape (objs (unmapped q t) x) = shape (objs t x)"
  by (simp add: unmapped_def)

lemma shape_mapped: "shape (objs (mapped q t) x) = shape (objs t x)"
  by (simp add: mapped_def)

lemma unmap_list:
  fixes s :: "'p native"
  assumes "space_inv w s h ps" "h = cpu_vm_head s" "host_map s = table (nodes s) ps" "length ps \<le> fuel" "host_accepts w"
  shows "list_foreach fuel (unmap_page w) (vh_head (heads s h)) s
    = Inr ((), s\<lparr>host_map := Map.empty, objs := mark False ps (objs s)\<rparr>)"
proof -
  have i: "chain (objs s) (vh_head (heads s h)) ps" "distinct ps" "\<And>p. p \<in> set ps \<Longrightarrow> pm_mapped (nodes s p)"
    "\<And>p. p \<in> set ps \<Longrightarrow> page_inv w (node_of (objs s p))"
    using assms(1,2) by (auto simp: space_inv_def nodes_def)
  have "unmap_page w q t = Inr ((), unmapped q t)" if "q \<in> set ps" "\<And>x. shape (objs t x) = shape (objs s x)" for q and t :: "'p native"
    using unmap_page_run [of t q w] chain_is_page [OF i(1) that(1)] i(4) [OF that(1)] shape_fields(1) [OF that(2)]
      shape_page_inv [OF that(2)] assms(5) by (simp add: nodes_def)
  then have "list_foreach fuel (unmap_page w) (vh_head (heads s h)) s = Inr ((), fold unmapped ps s)"
    by (intro list_foreach_fold [OF i(1) assms(4)]) (simp_all add: shape_unmapped)
  moreover have "dom (host_map s) = (\<lambda>p. pm_va (nodes s p)) ` set ps"
    unfolding assms(3) by (simp add: table_def dom_map_of_conv_image_fst image_image page_entry_def)
  then have "(\<lambda>v. if v \<in> (\<lambda>p. pm_va (nodes s p)) ` set ps then None else host_map s v) = Map.empty" by fastforce
  ultimately show ?thesis using fold_unmapped [OF i(2,3)] by simp
qed

lemma map_list:
  fixes s :: "'p native"
  assumes "space_inv w s h ps" "host_map s = Map.empty" "length ps \<le> fuel" "host_accepts w"
  shows "list_foreach fuel (map_page w) (vh_head (heads s h)) s
    = Inr ((), s\<lparr>host_map := table (nodes s) ps, objs := mark True ps (objs s)\<rparr>)"
proof -
  have i: "chain (objs s) (vh_head (heads s h)) ps" "distinct ps" "\<And>p. p \<in> set ps \<Longrightarrow> page_inv w (node_of (objs s p))"
    using assms(1) by (auto simp: space_inv_def nodes_def)
  have "map_page w q t = Inr ((), mapped q t)" if "q \<in> set ps" "\<And>x. shape (objs t x) = shape (objs s x)" for q and t :: "'p native"
    using map_page_run [of t q w] chain_is_page [OF i(1) that(1)] i(3) [OF that(1)] shape_fields(1) [OF that(2)]
      shape_page_inv [OF that(2)] assms(4) by (simp add: nodes_def)
  then have "list_foreach fuel (map_page w) (vh_head (heads s h)) s = Inr ((), fold mapped ps s)"
    by (intro list_foreach_fold [OF i(1) assms(3)]) (simp_all add: shape_mapped)
  then show ?thesis using fold_mapped [OF i(2) space_va_inj [OF assms(1)]] assms(2) by simp
qed

lemma space_inv_unchanged:
  assumes "space_inv w s h ps" "objs t h = objs s h" "\<And>p. p \<in> set ps \<Longrightarrow> shape (objs t p) = shape (objs s p)"
    "\<And>p. p \<in> set ps \<Longrightarrow> pm_mapped (nodes t p) \<longleftrightarrow> h = cpu_vm_head t"
  shows "space_inv w t h ps"
proof -
  have h: "heads t h = heads s h" using assms(2) by (simp add: heads_def)
  have f: "pm_va (nodes t p) = pm_va (nodes s p)" "page_inv w (nodes t p) = page_inv w (nodes s p)" if "p \<in> set ps" for p
    using shape_fields(3) [OF assms(3) [OF that]] shape_page_inv [OF assms(3) [OF that]] by (simp_all add: nodes_def)
  have "chain (objs s) (vh_head (heads s h)) ps" using assms(1) by (simp add: space_inv_def)
  then have "chain (objs t) (vh_head (heads t h)) ps"
    unfolding h by (rule chain_cong [rotated]) (use shape_fields [OF assms(3)] in simp)
  moreover have "(\<lambda>p. page_key (pm_va (nodes t p))) ` set ps = (\<lambda>p. page_key (pm_va (nodes s p))) ` set ps"
    using f by (intro image_cong) simp_all
  ultimately show ?thesis using assms(1,2,4) f by (simp add: space_inv_def h)
qed

text \<open>Switching installs exactly the mappings of the space that is switched to.\<close>

lemma switch_installs:
  fixes s :: "'p native"
  assumes ok: "native_ok w H L s" and h: "h \<in> H" and f: "\<And>k. k \<in> H \<Longrightarrow> length (L k) \<le> fuel" and w: "host_accepts w"
  shows "\<exists>s'. am_switch w fuel h s = Inr ((), s') \<and> native_ok w H L s' \<and> cpu_vm_head s' = h
    \<and> host_map s' = table (nodes s) (L h) \<and> (\<forall>k \<in> H. table (nodes s') (L k) = table (nodes s) (L k))"
proof (cases "h = cpu_vm_head s")
  case True
  then have "am_switch w fuel h s = Inr ((), s)"
    using ok by (simp add: am_switch_def native_ok_def thenM_def bindM_def modifyM_def retM_def)
  then show ?thesis using ok h True by (auto simp: native_ok_def)
next
  case False
  let ?c = "cpu_vm_head s"
  let ?cs = "if ?c = 0 then [] else L ?c"
  define s1 where "s1 = s\<lparr>host_map := Map.empty, objs := mark False ?cs (objs s)\<rparr>"
  define s2 where "s2 = s1\<lparr>host_map := table (nodes s1) (L h), objs := mark True (L h) (objs s1), cpu_vm_head := h\<rparr>"
  have inv: "\<And>k. k \<in> H \<Longrightarrow> space_inv w s k (L k)" "h \<noteq> 0" "?c \<noteq> 0 \<Longrightarrow> ?c \<in> H" "0 \<notin> H"
    and dis: "\<And>k l. k \<in> H \<Longrightarrow> l \<in> H \<Longrightarrow> k \<noteq> l \<Longrightarrow> set (L k) \<inter> set (L l) = {}"
    using ok h by (auto simp: native_ok_def)
  have hd: "is_head (objs s k)" if "k \<in> H" for k using inv(1) [OF that] by (simp add: space_inv_def)
  have pg: "is_page (objs s p)" if "k \<in> H" "p \<in> set (L k)" for k p
    using inv(1) [OF that(1)] that(2) chain_is_page by (auto simp: space_inv_def)
  have m: "(if ?c \<noteq> 0 then bindM (head_at ?c) (\<lambda>v. list_foreach fuel (unmap_page w) (vh_head v)) else retM ()) s = Inr ((), s1)"
  proof (cases "?c = 0")
    case True
    then show ?thesis using ok by (simp add: s1_def native_ok_def retM_def mark_def)
  next
    case c: False
    have "list_foreach fuel (unmap_page w) (vh_head (heads s ?c)) s
        = Inr ((), s\<lparr>host_map := Map.empty, objs := mark False (L ?c) (objs s)\<rparr>)"
      using c ok w by (intro unmap_list inv(1) inv(3) f refl) (simp_all add: native_ok_def)
    then show ?thesis using c hd [OF inv(3) [OF c]] by (simp add: s1_def bindM_def)
  qed
  have marked: "pm_mapped (nodes s1 p) = False" if "k \<in> H" "p \<in> set (L k)" for k p
    using inv(1) [OF that(1)] that pg [OF that] dis [of k ?c] inv(3,4) by (auto simp: s1_def space_inv_def nodes_def)
  have h1: "is_head (objs s1 h)" "objs s1 k = objs s k" if "k \<in> H" for k using hd [OF h] hd [OF that] by (simp_all add: s1_def)
  have "space_inv w s1 h (L h)"
    by (rule space_inv_unchanged [OF inv(1) [OF h]]) (use h1(2) [OF h] marked [OF h] False in \<open>auto simp: s1_def\<close>)
  then have "list_foreach fuel (map_page w) (vh_head (heads s1 h)) s1
      = Inr ((), s1\<lparr>host_map := table (nodes s1) (L h), objs := mark True (L h) (objs s1)\<rparr>)"
    using f [OF h] w by (intro map_list) (simp_all add: s1_def)
  then have run: "am_switch w fuel h s = Inr ((), s2)"
    using ok False m inv(2) h1(1) [OF h]
    by (simp add: am_switch_def native_ok_def thenM_def bindM_def modifyM_def s2_def del: split_paired_All)
  have sh: "shape (objs s2 x) = shape (objs s x)" for x by (simp add: s2_def s1_def)
  have t: "table (nodes s2) ps = table (nodes s) ps" "table (nodes s1) ps = table (nodes s) ps" for ps
    by (rule table_shape, simp add: sh, rule table_shape, simp add: s1_def)
  have "space_inv w s2 k (L k)" if k: "k \<in> H" for k
  proof (rule space_inv_unchanged [OF inv(1) [OF k]])
    show "pm_mapped (nodes s2 p) \<longleftrightarrow> k = cpu_vm_head s2" if "p \<in> set (L k)" for p
      using that marked [OF k that] pg [OF k that] dis [OF k h] by (auto simp: s2_def s1_def nodes_def)
    show "objs s2 k = objs s k" using hd [OF k] by (simp add: s2_def s1_def)
  qed (rule sh)
  then have "native_ok w H L s2" using ok h inv(2) t by (simp add: native_ok_def s2_def) (simp add: s1_def)
  then show ?thesis using run t by (simp add: s2_def)
qed

section \<open>Mapping\<close>

definition entered :: "u64 \<Rightarrow> u64 \<Rightarrow> u64 \<Rightarrow> u64 \<Rightarrow> u32 \<Rightarrow> 'p native \<Rightarrow> 'p native" where
  "entered h pp va pa prot s = (let n = \<lparr>pm_va = va, pm_pa = pa, pm_next = vh_head (heads s h), pm_prot = prot,
       pm_mapped = (h = cpu_vm_head s), pm_key = pm_key (nodes s pp)\<rparr>
     in s\<lparr>objs := (objs s)(pp := Page_obj n, h := Head_obj ((heads s h)\<lparr>vh_head := pp\<rparr>)),
       host_map := (if h = cpu_vm_head s then (host_map s)(va \<mapsto> (pa, mmap_prot prot)) else host_map s)\<rparr>)"

definition map_args_ok :: "host \<Rightarrow> u64 \<Rightarrow> u64 \<Rightarrow> u64 \<Rightarrow> bool" where
  "map_args_ok w as va pa \<longleftrightarrow> in_user va \<and> aligned_to w va \<and> aligned_to w pa \<and> as \<noteq> 0"

lemma link_page_run:
  assumes "is_page (objs s pp)" "is_head (objs s h)"
  shows "link_page h pp va pa prot s = Inr ((), s\<lparr>objs := (objs s)(pp := Page_obj \<lparr>pm_va = va, pm_pa = pa, pm_next = vh_head (heads s h),
    pm_prot = prot, pm_mapped = False, pm_key = pm_key (nodes s pp)\<rparr>, h := Head_obj ((heads s h)\<lparr>vh_head := pp\<rparr>))\<rparr>)"
proof -
  have "pp \<noteq> h" using assms page_not_head by auto
  then show ?thesis using assms by (cases "nodes s pp") (simp add: link_page_def thenM_def bindM_def nodes_def heads_def)
qed

lemma native_map_run:
  assumes "map_args_ok w as va pa" "nas_ptr (spaces s as) = h" "h \<noteq> 0"
    and "find_page pgalloc h va s = Inr (pp, s1)" "cpu_vm_head s1 = cpu_vm_head s" "is_page (objs s1 pp)" "is_head (objs s1 h)"
    and "h = cpu_vm_head s \<Longrightarrow> host_accepts w"
  shows "native_map pgalloc w as va pa prot s = Inr ((), entered h pp va pa prot s1)"
proof -
  have "pp \<noteq> h" using assms(6,7) page_not_head by auto
  moreover have "h = cpu_vm_head s \<Longrightarrow> mmap_ok w va pa (mmap_prot prot) (host_map s1)"
    using assms(1,8) by (simp add: map_args_ok_def host_accepts_def)
  ultimately show ?thesis using assms(1-7)
    by (auto simp add: native_map_def map_args_ok_def aligned_to_def assertM_def thenM_def bindM_def retM_def am_pmem_map_def link_page_run set_mapped_run
        nodes_def touch_def fun_upd_twist entered_def Let_def)
qed

text \<open>A page that is not mapped: the allocator's page becomes its descriptor.\<close>

lemma find_page_fresh:
  assumes "is_head (objs s h)" "vh_hash (heads s h) (page_key va) = None" "card (dom (vh_hash (heads s h))) < vh_size (heads s h)"
    and "pgalloc (native_pool s) = (b, p')" "b \<noteq> 0" "b \<noteq> h"
  shows "find_page pgalloc h va s = Inr (b, s\<lparr>native_pool := p', objs := (objs s)(b := key_stored (page_key va) (objs s b),
    h := Head_obj ((heads s h)\<lparr>vh_hash := (vh_hash (heads s h))(page_key va \<mapsto> b), vh_nr_page := vh_nr_page (heads s h) + 1\<rparr>))\<rparr>)"
  using assms
  by (simp add: find_page_def hash_enter_def new_page_def thenM_def bindM_def retM_def heads_def)

lemma key_stored_page [simp]: "is_page (key_stored k x)" "pm_key (node_of (key_stored k x)) = k"
  by (cases x; simp add: key_stored_def)+

lemma map_fresh:
  fixes s :: "'p native"
  assumes ok: "native_ok w H L s" and a: "map_args_ok w as va pa" "nas_ptr (spaces s as) = h" "h \<in> H"
    and fresh: "vh_hash (heads s h) (page_key va) = None" "length (L h) < vh_size (heads s h)"
    and b: "pgalloc (native_pool s) = (b, p')" "b \<noteq> 0" "b \<notin> H" "\<And>k. k \<in> H \<Longrightarrow> b \<notin> set (L k)"
    and w: "host_accepts w"
  shows "\<exists>s'. native_map pgalloc w as va pa prot s = Inr ((), s') \<and> native_ok w H (L(h := b # L h)) s'
    \<and> table (nodes s') (b # L h) = (table (nodes s) (L h))(va \<mapsto> (pa, mmap_prot prot))
    \<and> (\<forall>k \<in> H. k \<noteq> h \<longrightarrow> table (nodes s') (L k) = table (nodes s) (L k))"
proof -
  have inv: "\<And>k. k \<in> H \<Longrightarrow> space_inv w s k (L k)" "h \<noteq> 0" using ok a(3) by (auto simp: native_ok_def)
  have u: "in_user va" "aligned_to w va" "aligned_to w pa" using a(1) by (simp_all add: map_args_ok_def)
  have hd: "is_head (objs s k)" if "k \<in> H" for k using inv(1) [OF that] by (simp add: space_inv_def)
  have bh: "b \<noteq> h" using b(3) a(3) by auto
  have notp: "h \<notin> set (L k)" if "k \<in> H" for k
    using inv(1) [OF that] chain_is_page page_not_head hd [OF a(3)] by (auto simp: space_inv_def)
  have "card (dom (vh_hash (heads s h))) \<le> length (L h)"
    using inv(1) [OF a(3)] by (simp add: space_inv_def) (metis card_image_le card_length finite_set le_trans)
  then have room: "card (dom (vh_hash (heads s h))) < vh_size (heads s h)" using fresh(2) by linarith
  define hd1 where "hd1 = (heads s h)\<lparr>vh_hash := (vh_hash (heads s h))(page_key va \<mapsto> b), vh_nr_page := vh_nr_page (heads s h) + 1\<rparr>"
  define s1 where "s1 = s\<lparr>native_pool := p', objs := (objs s)(b := key_stored (page_key va) (objs s b), h := Head_obj hd1)\<rparr>"
  define s' where "s' = entered h b va pa prot s1"
  have "find_page pgalloc h va s = Inr (b, s1)"
    unfolding s1_def hd1_def by (rule find_page_fresh [of s h va pgalloc, OF hd [OF a(3)] fresh(1) room b(1,2) bh])
  then have run: "native_map pgalloc w as va pa prot s = Inr ((), s')"
    unfolding s'_def by (intro native_map_run a inv(2) w) (simp_all add: s1_def bh)
  have n: "objs s' p = objs s p" if "p \<noteq> b" "p \<noteq> h" for p using that by (simp add: s'_def entered_def s1_def Let_def)
  have nb: "objs s' b = Page_obj \<lparr>pm_va = va, pm_pa = pa, pm_next = vh_head (heads s h), pm_prot = prot,
      pm_mapped = (h = cpu_vm_head s), pm_key = page_key va\<rparr>"
    using bh by (simp add: s'_def entered_def s1_def hd1_def Let_def nodes_def heads_def)
  have nh: "objs s' h = Head_obj (hd1\<lparr>vh_head := b\<rparr>)" by (simp add: s'_def entered_def s1_def Let_def heads_def)
  have o: "objs s' p = objs s p" if "k \<in> H" "p \<in> set (L k)" for k p using that n b(4) notp by metis
  have t: "table (nodes s') (L k) = table (nodes s) (L k)" if "k \<in> H" for k
    unfolding table_def using o [OF that] by (intro arg_cong [of _ _ map_of] map_cong refl) (simp add: nodes_def)
  have tb: "table (nodes s') (b # L h) = (table (nodes s) (L h))(va \<mapsto> (pa, mmap_prot prot))"
    using t [OF a(3)] nb by (simp add: table_def page_entry_def nodes_def)
  have f: "cpu_vm_head s' = cpu_vm_head s" "native_enable s' = native_enable s"
    "host_map s' = (if h = cpu_vm_head s then (host_map s)(va \<mapsto> (pa, mmap_prot prot)) else host_map s)"
    by (simp_all add: s'_def entered_def s1_def Let_def)
  have "space_inv w s' h (b # L h)"
  proof -
    have c: "chain (objs s') (vh_head (heads s h)) (L h)"
      by (rule chain_cong [of "L h" "objs s"]) (use inv(1) [OF a(3)] o [OF a(3)] in \<open>simp_all add: space_inv_def\<close>)
    have k: "page_key (pm_va (nodes s p)) \<noteq> page_key va" if "p \<in> set (L h)" for p
      using that inv(1) [OF a(3)] fresh(1) by (auto simp: space_inv_def)
    have "page_inv w (nodes s' p) \<and> vh_hash (heads s' h) (page_key (pm_va (nodes s' p))) = Some p
        \<and> (pm_mapped (nodes s' p) \<longleftrightarrow> h = cpu_vm_head s')" if "p \<in> set (b # L h)" for p
    proof (cases "p = b")
      case True
      then show ?thesis using nb nh f u by (simp add: hd1_def nodes_def heads_def page_inv_def)
    next
      case False
      then show ?thesis using that o [OF a(3), of p] k [of p] f nh inv(1) [OF a(3)]
        by (simp add: hd1_def space_inv_def nodes_def heads_def)
    qed
    moreover have "dom (vh_hash (heads s' h)) = (\<lambda>p. page_key (pm_va (nodes s' p))) ` set (b # L h)"
      using inv(1) [OF a(3)] nh nb o [OF a(3)] by (simp add: hd1_def space_inv_def nodes_def heads_def)
    moreover have "chain (objs s') (vh_head (heads s' h)) (b # L h)" "distinct (b # L h)"
      using c nh nb b(2) b(4) [OF a(3)] inv(1) [OF a(3)] by (simp_all add: space_inv_def heads_def)
    moreover have "is_head (objs s' h)" using nh by simp
    ultimately show ?thesis unfolding space_inv_def by blast
  qed
  moreover have "space_inv w s' k (L k)" if k: "k \<in> H" "k \<noteq> h" for k
  proof (rule space_inv_unchanged [OF inv(1) [OF k(1)]])
    show "objs s' k = objs s k" using k b(3) by (intro n) auto
    show "shape (objs s' p) = shape (objs s p)" if "p \<in> set (L k)" for p using o [OF k(1) that] by simp
    show "pm_mapped (nodes s' p) \<longleftrightarrow> k = cpu_vm_head s'" if "p \<in> set (L k)" for p
      using o [OF k(1) that] inv(1) [OF k(1)] that f(1) by (simp add: space_inv_def nodes_def)
  qed
  moreover have "host_map s' = (if cpu_vm_head s' = 0 then Map.empty else table (nodes s') ((L(h := b # L h)) (cpu_vm_head s')))"
  proof (cases "h = cpu_vm_head s")
    case True
    then show ?thesis using ok tb inv(2) unfolding f native_ok_def by simp
  next
    case False
    then show ?thesis using ok t [of "cpu_vm_head s"] unfolding f native_ok_def by auto
  qed
  moreover have "set ((L(h := b # L h)) k) \<inter> set ((L(h := b # L h)) l) = {}" if "k \<in> H" "l \<in> H" "k \<noteq> l" for k l
  proof -
    have "set (L k) \<inter> set (L l) = {}" using ok that by (simp add: native_ok_def)
    then show ?thesis using b(4) [OF that(1)] b(4) [OF that(2)] that(3) by auto
  qed
  ultimately have new: "\<forall>k \<in> H. space_inv w s' k ((L(h := b # L h)) k)"
    "\<forall>k \<in> H. \<forall>l \<in> H. k \<noteq> l \<longrightarrow> set ((L(h := b # L h)) k) \<inter> set ((L(h := b # L h)) l) = {}"
    "host_map s' = (if cpu_vm_head s' = 0 then Map.empty else table (nodes s') ((L(h := b # L h)) (cpu_vm_head s')))"
    by (simp_all only: fun_upd_apply) auto
  have "native_ok w H (L(h := b # L h)) s'"
    unfolding native_ok_def using new ok f(1,2) by (simp only: native_ok_def simp_thms)
  then show ?thesis using run tb t by blast
qed

text \<open>
  Mapping a page that is mapped already puts its descriptor in front of the list it is part of: from then on the list is a
  cycle, and switching to the space runs for ever, unless the host refuses a mapping on the way.
\<close>

lemma chain_upto:
  "chain os p (a @ q # b) \<Longrightarrow> 0 \<notin> set (a @ [q]) \<and> p \<in> set (a @ [q]) \<and> (\<forall>x \<in> set a. pm_next (node_of (os x)) \<in> set (a @ [q]))"
  by (induction a arbitrary: p) auto

definition never_returns :: "host \<Rightarrow> (unit \<times> 'p native) result \<Rightarrow> bool" where
  "never_returns w r \<longleftrightarrow> r = Inl Diverges \<or> r = Inl Assert_fail \<and> \<not> host_accepts w"

lemma list_foreach_cycle:
  fixes s :: "'p native"
  assumes C: "0 \<notin> C" "\<And>q. q \<in> C \<Longrightarrow> is_page (objs s q) \<and> pm_next (nodes s q) \<in> C \<and> page_inv w (nodes s q)"
    and "p \<in> C" "\<And>x. shape (objs t x) = shape (objs s x)"
  shows "never_returns w (list_foreach fuel (map_page w) p t)"
  using assms(3,4)
proof (induction fuel arbitrary: p t)
  case 0
  then show ?case using C(1) by (auto simp: failM_def never_returns_def)
next
  case (Suc fuel)
  have p: "p \<noteq> 0" "is_page (objs t p)" "page_inv w (nodes t p)" "pm_next (node_of (objs t p)) \<in> C"
    using Suc.prems(1) C(1) C(2) [OF Suc.prems(1)] shape_fields [OF Suc.prems(2) [of p]] shape_page_inv [OF Suc.prems(2) [of p]]
    by (auto simp: nodes_def)
  have sh: "shape (objs (mapped p t) x) = shape (objs s x)" for x using Suc.prems(2) by (simp add: shape_mapped)
  have m: "is_page (objs (mapped p t) p)" "pm_next (nodes (mapped p t) p) \<in> C" using p by (simp_all add: mapped_def nodes_def)
  from Suc.IH [OF m(2) sh] map_page_run [OF p(2,3)] show ?case
    using p(1) m(1) by (auto simp: never_returns_def thenM_def bindM_def)
qed

lemma unmap_list_any:
  fixes s :: "'p native"
  assumes "chain (objs s) p ps" "\<And>q. q \<in> set ps \<Longrightarrow> page_inv w (nodes s q)"
  shows "never_returns w (list_foreach fuel (unmap_page w) p s)
    \<or> (\<exists>s'. list_foreach fuel (unmap_page w) p s = Inr ((), s') \<and> (\<forall>x. shape (objs s' x) = shape (objs s x)))"
  using assms
proof (induction ps arbitrary: fuel p s)
  case Nil
  then show ?case by (cases fuel) (auto simp: retM_def)
next
  case (Cons q ps)
  show ?case
  proof (cases fuel)
    case 0
    then show ?thesis using Cons.prems(1) by (simp add: failM_def never_returns_def)
  next
    case (Suc n)
    let ?t = "unmapped q s"
    have q: "p = q" "q \<noteq> 0" "is_page (objs s q)" "page_inv w (nodes s q)" "chain (objs s) (pm_next (node_of (objs s q))) ps"
      using Cons.prems by auto
    have sh: "is_page (objs ?t x) = is_page (objs s x)" "pm_next (node_of (objs ?t x)) = pm_next (node_of (objs s x))"
      "page_inv w (nodes ?t x) = page_inv w (nodes s x)" for x
      using shape_fields [OF shape_unmapped [of q s x]] shape_page_inv [OF shape_unmapped [of q s x]] by (simp_all add: nodes_def)
    have "chain (objs ?t) (pm_next (nodes ?t q)) ps" unfolding nodes_def sh by (rule chain_cong [OF _ q(5)]) (simp add: sh)
    from Cons.IH [OF this, of n] Cons.prems(2) sh(3)
    have "never_returns w (list_foreach n (unmap_page w) (pm_next (nodes ?t q)) ?t)
      \<or> (\<exists>s'. list_foreach n (unmap_page w) (pm_next (nodes ?t q)) ?t = Inr ((), s') \<and> (\<forall>x. shape (objs s' x) = shape (objs s x)))"
      by (simp add: shape_unmapped)
    moreover have "list_foreach fuel (unmap_page w) p s = list_foreach n (unmap_page w) (pm_next (nodes ?t q)) ?t"
      if "unmap_page w q s = Inr ((), ?t)" using Suc q that sh(1) [of q] by (simp add: thenM_def bindM_def)
    moreover have "list_foreach fuel (unmap_page w) p s = Inl Assert_fail" if "unmap_page w q s = Inl Assert_fail"
      using Suc q that by (simp add: thenM_def bindM_def)
    ultimately show ?thesis using unmap_page_run [OF q(3,4)] by (fastforce simp: never_returns_def)
  qed
qed

text \<open>A switch to a space whose list has entered a cycle \<open>C\<close>, away from a space with an intact list.\<close>

lemma switch_cycle:
  fixes s :: "'p native"
  assumes C: "0 \<notin> C" "\<And>q. q \<in> C \<Longrightarrow> is_page (objs s q) \<and> pm_next (nodes s q) \<in> C \<and> page_inv w (nodes s q)"
    and h: "is_head (objs s h)" "vh_head (heads s h) \<in> C" "h \<noteq> 0" "h \<noteq> cpu_vm_head s" "native_enable s"
    and now: "cpu_vm_head s = 0 \<or> is_head (objs s k) \<and> cpu_vm_head s = k \<and> chain (objs s) (vh_head (heads s k)) ps
      \<and> (\<forall>p \<in> set ps. page_inv w (nodes s p))"
  shows "never_returns w (am_switch w fuel h s)"
proof -
  define u :: "('p, unit) N" where "u = (if cpu_vm_head s \<noteq> 0 then bindM (head_at (cpu_vm_head s)) (\<lambda>v. list_foreach fuel (unmap_page w) (vh_head v))
    else retM ())"
  define m :: "('p, unit) N" where "m = bindM (head_at h) (\<lambda>v. list_foreach fuel (map_page w) (vh_head v))"
  consider "never_returns w (u s)" | t where "u s = Inr ((), t)" "\<And>x. shape (objs t x) = shape (objs s x)"
  proof (cases "cpu_vm_head s = 0")
    case False
    then have "is_head (objs s k)" "cpu_vm_head s = k" "chain (objs s) (vh_head (heads s k)) ps" "\<forall>p \<in> set ps. page_inv w (nodes s p)"
      using now by simp_all
    then show ?thesis using that unmap_list_any [of s "vh_head (heads s k)" ps w fuel] False by (auto simp: u_def bindM_def)
  qed (use that in \<open>auto simp: u_def retM_def\<close>)
  then have "never_returns w (thenM u m s)"
  proof cases
    case (2 t)
    have "objs t h = objs s h" by (rule shape_head [OF 2(2) h(1)])
    then show ?thesis using 2(1) h(1) list_foreach_cycle [OF C h(2) 2(2)] by (simp add: thenM_def bindM_def m_def heads_def)
  qed (auto simp: never_returns_def thenM_def bindM_def)
  moreover have "am_switch w fuel h s = thenM (thenM u m) (modifyM (\<lambda>s. s\<lparr>cpu_vm_head := h\<rparr>)) s"
    using h(3-5) by (simp add: am_switch_def u_def m_def)
  ultimately show ?thesis by (auto simp: never_returns_def thenM_def bindM_def)
qed

lemma remap_diverges:
  fixes s :: "'p native"
  assumes ok: "native_ok w H L s" and a: "map_args_ok w as va pa" "nas_ptr (spaces s as) = h" "h \<in> H"
    and again: "table (nodes s) (L h) va \<noteq> None" and cur: "h \<noteq> cpu_vm_head s"
  shows "\<exists>s'. native_map pgalloc w as va pa prot s = Inr ((), s') \<and> (\<forall>fuel. never_returns w (am_switch w fuel h s'))"
proof -
  let ?c = "cpu_vm_head s"
  have inv: "\<And>k. k \<in> H \<Longrightarrow> space_inv w s k (L k)" "h \<noteq> 0" using ok a(3) by (auto simp: native_ok_def)
  have hd: "is_head (objs s k)" if "k \<in> H" for k using inv(1) [OF that] by (simp add: space_inv_def)
  have pg: "is_page (objs s p)" "page_inv w (nodes s p)" if "k \<in> H" "p \<in> set (L k)" for k p
    using inv(1) [OF that(1)] that(2) chain_is_page by (auto simp: space_inv_def)
  obtain pp where pp: "pp \<in> set (L h)" "pm_va (nodes s pp) = va"
    using again by (auto simp: table_def page_entry_def dest!: map_of_SomeD)
  have f: "find_page pgalloc h va s = Inr (pp, s)"
    using inv(1) [OF a(3)] pp pg [OF a(3) pp(1)] by (auto simp: space_inv_def find_page_def bindM_def retM_def page_inv_def)
  define s' where "s' = entered h pp va pa prot s"
  have run: "native_map pgalloc w as va pa prot s = Inr ((), s')"
    unfolding s'_def by (rule native_map_run [OF a(1,2) inv(2) f refl pg(1) [OF a(3) pp(1)] hd [OF a(3)]]) (use cur in simp)
  obtain xs ys where xy: "L h = xs @ pp # ys" "pp \<notin> set xs" using split_list_first [OF pp(1)] by blast
  let ?C = "set (xs @ [pp])"
  have c: "0 \<notin> ?C" "vh_head (heads s h) \<in> ?C" "\<forall>x \<in> set xs. pm_next (node_of (objs s x)) \<in> ?C"
  proof -
    have "chain (objs s) (vh_head (heads s h)) (xs @ pp # ys)" using inv(1) [OF a(3)] by (simp add: space_inv_def flip: xy(1))
    from chain_upto [OF this] show "0 \<notin> ?C" "vh_head (heads s h) \<in> ?C" "\<forall>x \<in> set xs. pm_next (node_of (objs s x)) \<in> ?C" by blast+
  qed
  have neq: "p \<noteq> h" if "k \<in> H" "p \<in> set (L k)" for k p using pg(1) [OF that] hd [OF a(3)] page_not_head by blast
  have n: "objs s' x = objs s x" if "x \<noteq> pp" "x \<noteq> h" for x using that by (simp add: s'_def entered_def Let_def)
  have np: "objs s' pp = Page_obj \<lparr>pm_va = va, pm_pa = pa, pm_next = vh_head (heads s h), pm_prot = prot, pm_mapped = False,
      pm_key = page_key va\<rparr>" "objs s' h = Head_obj ((heads s h)\<lparr>vh_head := pp\<rparr>)"
    using neq [OF a(3) pp(1)] cur pg(2) [OF a(3) pp(1)] pp(2) by (simp_all add: s'_def entered_def Let_def page_inv_def)
  have e: "cpu_vm_head s' = ?c" "native_enable s'" using ok by (simp_all add: s'_def entered_def Let_def native_ok_def)
  have C: "is_page (objs s' q) \<and> pm_next (nodes s' q) \<in> ?C \<and> page_inv w (nodes s' q)" if "q \<in> ?C" for q
  proof (cases "q = pp")
    case True
    then show ?thesis using np(1) c(2) a(1) by (simp add: nodes_def page_inv_def map_args_ok_def)
  next
    case False
    then have q: "q \<in> set xs" "q \<in> set (L h)" using that xy(1) by auto
    then show ?thesis using n [OF False neq [OF a(3) q(2)]] c(3) pg [OF a(3) q(2)] by (simp add: nodes_def)
  qed
  have "never_returns w (am_switch w fuel h s')" for fuel
  proof (rule switch_cycle [OF c(1) C])
    show "cpu_vm_head s' = 0 \<or> is_head (objs s' ?c) \<and> cpu_vm_head s' = ?c
        \<and> chain (objs s') (vh_head (heads s' ?c)) (L ?c) \<and> (\<forall>p \<in> set (L ?c). page_inv w (nodes s' p))"
    proof (cases "?c = 0")
      case False
      then have k: "?c \<in> H" "?c \<noteq> h" using ok cur by (auto simp: native_ok_def)
      have "set (L h) \<inter> set (L ?c) = {}" using ok k a(3) by (auto simp: native_ok_def)
      then have "pp \<noteq> ?c" "pp \<notin> set (L ?c)" using page_not_head hd [OF k(1)] pg(1) [OF a(3) pp(1)] pp(1) by auto
      then have o: "objs s' ?c = objs s ?c" "\<And>p. p \<in> set (L ?c) \<Longrightarrow> objs s' p = objs s p" using n neq k by metis+
      have "chain (objs s') (vh_head (heads s' ?c)) (L ?c)"
        by (rule chain_cong [of "L ?c" "objs s"]) (use inv(1) [OF k(1)] o in \<open>simp_all add: space_inv_def heads_def\<close>)
      then show ?thesis using hd [OF k(1)] o pg(2) [OF k(1)] e(1) by (simp add: nodes_def)
    qed (simp add: e(1))
  qed (use np(2) e cur inv(2) in \<open>simp_all add: heads_def\<close>)
  then show ?thesis using run by blast
qed

section \<open>New spaces\<close>

lemma protect_adds_space:
  fixes s :: "'p native"
  assumes ok: "native_ok w H L s" and "as \<noteq> 0" "pgalloc (native_pool s) = (h, p')" "h \<noteq> 0" "h \<notin> H" "\<And>k. k \<in> H \<Longrightarrow> h \<notin> set (L k)"
    and room: "hcreate w (unat ((USER_END - USER_START) div am_pgsize w)) = Some room"
  shows "\<exists>s'. native_protect pgalloc w as s = Inr ((), s') \<and> native_ok w (insert h H) (L(h := [])) s'
    \<and> nas_ptr (spaces s' as) = h \<and> host_map s' = host_map s \<and> vh_size (heads s' h) = room"
proof -
  define s' where "s' = s\<lparr>native_pool := p',
       objs := (objs s)(h := Head_obj \<lparr>vh_head = 0, vh_hash = Map.empty, vh_size = room, vh_nr_page = 0\<rparr>),
       spaces := (spaces s)(as := \<lparr>nas_pgsize = am_pgsize w, nas_start = USER_START, nas_end = USER_END, nas_ptr = h\<rparr>)\<rparr>"
  have "native_protect pgalloc w as s = Inr ((), s')"
    using assms(2-4) room by (simp add: native_protect_def assertM_def thenM_def bindM_def modifyM_def retM_def s'_def)
  moreover have "space_inv w s' h []" by (simp add: space_inv_def s'_def heads_def)
  moreover have k: "space_inv w s' k (L k)" "table (nodes s') (L k) = table (nodes s) (L k)" if "k \<in> H" for k
  proof -
    have i: "space_inv w s k (L k)" "k \<noteq> h" "h \<notin> set (L k)" using ok that assms(5,6) by (auto simp: native_ok_def)
    then have o: "objs s' p = objs s p" if "p \<in> set (L k)" for p using that by (auto simp: s'_def)
    show "space_inv w s' k (L k)"
      by (rule space_inv_unchanged [OF i(1)]) (use i o in \<open>auto simp: space_inv_def nodes_def s'_def\<close>)
    show "table (nodes s') (L k) = table (nodes s) (L k)"
      unfolding table_def using o by (intro arg_cong [of _ _ map_of] map_cong refl) (simp add: nodes_def)
  qed
  moreover have f: "cpu_vm_head s' = cpu_vm_head s" "native_enable s' = native_enable s" "host_map s' = host_map s"
    "nas_ptr (spaces s' as) = h" "vh_size (heads s' h) = room" by (simp_all add: s'_def heads_def)
  moreover have "cpu_vm_head s = 0 \<or> cpu_vm_head s \<in> H" "0 \<notin> H" using ok by (simp_all add: native_ok_def)
  moreover from this have "cpu_vm_head s \<noteq> h" using assms(4,5) by auto
  moreover have "host_map s = (if cpu_vm_head s = 0 then Map.empty else table (nodes s) (L (cpu_vm_head s)))" "native_enable s"
    "\<forall>k \<in> H. \<forall>l \<in> H. k \<noteq> l \<longrightarrow> set (L k) \<inter> set (L l) = {}" using ok by (simp_all add: native_ok_def)
  ultimately show ?thesis using assms(4) by (auto simp: native_ok_def)
qed

lemma map_then_switch:
  fixes s :: "'p native"
  assumes ok: "native_ok w H L s" and a: "map_args_ok w as va pa" "nas_ptr (spaces s as) = h" "h \<in> H"
    and fresh: "vh_hash (heads s h) (page_key va) = None" "length (L h) < vh_size (heads s h)"
    and b: "pgalloc (native_pool s) = (b, p')" "b \<noteq> 0" "b \<notin> H" "\<And>k. k \<in> H \<Longrightarrow> b \<notin> set (L k)"
    and w: "host_accepts w" and k: "k \<in> H" and f: "\<And>l. l \<in> H \<Longrightarrow> length (L l) < fuel"
  shows "\<exists>s1 s2. native_map pgalloc w as va pa prot s = Inr ((), s1) \<and> am_switch w fuel k s1 = Inr ((), s2)
    \<and> cpu_vm_head s2 = k \<and> native_ok w H (L(h := b # L h)) s2
    \<and> host_map s2 = (if k = h then (table (nodes s) (L h))(va \<mapsto> (pa, mmap_prot prot)) else table (nodes s) (L k))"
proof -
  obtain s1 where s1: "native_map pgalloc w as va pa prot s = Inr ((), s1)" "native_ok w H (L(h := b # L h)) s1"
    "table (nodes s1) (b # L h) = (table (nodes s) (L h))(va \<mapsto> (pa, mmap_prot prot))"
    "\<forall>k \<in> H. k \<noteq> h \<longrightarrow> table (nodes s1) (L k) = table (nodes s) (L k)"
    using map_fresh [where pgalloc = pgalloc, OF ok a fresh b w] by blast
  have "length ((L(h := b # L h)) l) \<le> fuel" if "l \<in> H" for l using f [OF that] f [OF a(3)] by auto
  from switch_installs [OF s1(2) k this w] obtain s2 where s2: "am_switch w fuel k s1 = Inr ((), s2)"
    "native_ok w H (L(h := b # L h)) s2" "cpu_vm_head s2 = k" "host_map s2 = table (nodes s1) ((L(h := b # L h)) k)" by blast
  moreover have "table (nodes s1) ((L(h := b # L h)) k)
      = (if k = h then (table (nodes s) (L h))(va \<mapsto> (pa, mmap_prot prot)) else table (nodes s) (L k))"
    using s1(3,4) k by simp
  ultimately show ?thesis using s1(1) by metis
qed

end
