(* ===== verification/Am_Vme.thy ===== *)
theory Am_Vme
  imports Prelude
begin

text \<open>
  Page tables of the abstract machine: \<open>am/src/x86/qemu/vme.c\<close> for 32-bit code (two levels of 1024 entries).
  Memory is a map from the addresses of words to words, since the code accesses page tables by words only.
  The page allocator that the kernel passes to \<open>vme_init\<close> is a parameter, as are the number of the current
  processor and the place of the local variable of \<open>vme_init\<close>. What the processor makes of the tables is
  the translation \<open>translate\<close>; the operations are specified by what they do to it.
\<close>

section \<open>Configuration\<close>

record ptinfo =
  pt_mask :: u32
  pt_shift :: nat
  pt_bits :: nat

record vm_area =
  area_start :: u32
  area_end :: u32
  kernel :: bool

definition PGSIZE :: u32 where
  "PGSIZE = 4096"

definition pgtables :: "ptinfo list" where
  "pgtables =
     [\<lparr>pt_mask = 0, pt_shift = 0, pt_bits = 0\<rparr>,
      \<lparr>pt_mask = 0xffc00000, pt_shift = 22, pt_bits = 10\<rparr>,
      \<lparr>pt_mask = 0x003ff000, pt_shift = 12, pt_bits = 10\<rparr>]"

definition vm_areas :: "vm_area list" where
  "vm_areas =
     [\<lparr>area_start = 0x40000000, area_end = 0x80000000, kernel = False\<rparr>,
      \<lparr>area_start = 0x00000000, area_end = 0x40000000, kernel = True\<rparr>,
      \<lparr>area_start = 0xfd000000, area_end = 0x00000000, kernel = True\<rparr>]"

definition uvm_area :: vm_area where
  "uvm_area = vm_areas ! 0"

definition PTE_P :: u32 where "PTE_P = 1"
definition PTE_W :: u32 where "PTE_W = 2"
definition PTE_U :: u32 where "PTE_U = 4"

definition MMAP_NONE :: u32 where "MMAP_NONE = 0"
definition MMAP_WRITE :: u32 where "MMAP_WRITE = 2"

definition CR0_PG :: u32 where "CR0_PG = 0x80000000"

section \<open>State\<close>

text \<open>The kernel's page allocator: \<open>pgalloc\<close> returns the address of a page, or 0 when there is none.\<close>

record 'p pager =
  pgalloc :: "u32 \<Rightarrow> 'p \<Rightarrow> u32 \<times> 'p"
  pgfree :: "u32 \<Rightarrow> 'p \<Rightarrow> 'p"

record 'p vme =
  words :: "u32 \<Rightarrow> u32"
  page_pool :: 'p
  kpt :: u32
  cr3 :: u32
  cr0 :: u32

type_synonym ('p, 'a) V = "('p vme, 'a) comp"

definition get_word :: "u32 \<Rightarrow> ('p, u32) V" where
  "get_word a = getsM (\<lambda>s. words s a)"

definition set_word :: "u32 \<Rightarrow> u32 \<Rightarrow> ('p, unit) V" where
  "set_word a v = modifyM (\<lambda>s. s\<lparr>words := (words s)(a := v)\<rparr>)"

text \<open>The fields of an \<open>AddrSpace\<close> object.\<close>

definition as_pgsize :: "u32 \<Rightarrow> u32" where "as_pgsize as = as"
definition as_area_start :: "u32 \<Rightarrow> u32" where "as_area_start as = as + 4"
definition as_area_end :: "u32 \<Rightarrow> u32" where "as_area_end as = as + 8"
definition as_ptr :: "u32 \<Rightarrow> u32" where "as_ptr as = as + 12"

text \<open>The loops \<open>for (cur = start; cur != end; cur += step)\<close>, with a bound on the rounds.\<close>

fun for_range :: "nat \<Rightarrow> u32 \<Rightarrow> u32 \<Rightarrow> u32 \<Rightarrow> (u32 \<Rightarrow> ('s, unit) comp) \<Rightarrow> ('s, unit) comp" where
  "for_range fuel step cur stop body =
     (if cur = stop then retM () else case fuel of 0 \<Rightarrow> failM Diverges
      | Suc fuel' \<Rightarrow> thenM (body cur) (for_range fuel' step (cur + step) stop body))"

declare for_range.simps [simp del]

primrec for_each :: "'b list \<Rightarrow> ('b \<Rightarrow> ('s, unit) comp) \<Rightarrow> ('s, unit) comp" where
  "for_each [] body = retM ()"
| "for_each (x # xs) body = thenM (body x) (for_each xs body)"

section \<open>Page tables\<close>

definition entry :: "u32 \<Rightarrow> nat \<Rightarrow> u32" where
  "entry pt index = pt + 4 * of_nat index"

definition pgallocz :: "'p pager \<Rightarrow> ('p, u32) V" where
  "pgallocz ops = (\<lambda>s. let (base, p) = pgalloc ops PGSIZE (page_pool s) in
     if base = 0 then Inl (Panic ''cannot allocate page'')
     else thenM (for_each [0..<1024] (\<lambda>i. set_word (entry base i) 0)) (retM base) (s\<lparr>page_pool := p\<rparr>))"

definition indexof :: "u32 \<Rightarrow> ptinfo \<Rightarrow> nat" where
  "indexof addr info = unat (drop_bit (pt_shift info) (addr AND pt_mask info))"

definition baseof :: "u32 \<Rightarrow> u32" where
  "baseof addr = addr AND NOT (PGSIZE - 1)"

text \<open>One round of the loop of \<open>ptwalk\<close>: the table an entry points to, allocated if there is none.\<close>

definition next_table :: "'p pager \<Rightarrow> u32 \<Rightarrow> u32 \<Rightarrow> ('p, u32) V" where
  "next_table ops e flags = bindM (get_word e) (\<lambda>pte.
     if pte AND PTE_P = 0
     then bindM (pgallocz ops) (\<lambda>next_page. thenM (set_word e (next_page OR PTE_P OR flags)) (retM next_page))
     else retM (baseof pte))"

text \<open>The loop over the levels; the last of them holds the entry that is returned.\<close>

fun ptwalk_loop :: "'p pager \<Rightarrow> u32 \<Rightarrow> u32 \<Rightarrow> ptinfo list \<Rightarrow> u32 \<Rightarrow> ('p, u32) V" where
  "ptwalk_loop ops addr flags [] cur = failM (Panic ''internal error (likely a bug in AM)'')"
| "ptwalk_loop ops addr flags [info] cur = retM (entry cur (indexof addr info))"
| "ptwalk_loop ops addr flags (info # infos) cur =
     bindM (next_table ops (entry cur (indexof addr info)) flags) (ptwalk_loop ops addr flags infos)"

definition ptwalk :: "'p pager \<Rightarrow> u32 \<Rightarrow> u32 \<Rightarrow> u32 \<Rightarrow> ('p, u32) V" where
  "ptwalk ops as addr flags = ptwalk_loop ops addr flags pgtables (as_ptr as)"

text \<open>\<open>teardown\<close> at a level, given the levels from it on; past the last one it returns at once.\<close>

primrec teardown :: "ptinfo list \<Rightarrow> 'p pager \<Rightarrow> nat \<Rightarrow> u32 \<Rightarrow> ('p, unit) V" where
  "teardown [] ops level pt = retM ()"
| "teardown (info # infos) ops level pt =
     thenM (for_each [0..<2 ^ pt_bits info] (\<lambda>index.
       bindM (get_word (entry pt index)) (\<lambda>pte.
         whenM (pte AND PTE_P \<noteq> 0 \<and> pte AND PTE_U \<noteq> 0) (teardown infos ops (level + 1) (baseof pte)))))
     (whenM (1 \<le> level) (modifyM (\<lambda>s. s\<lparr>page_pool := pgfree ops pt (page_pool s)\<rparr>)))"

section \<open>Operations\<close>

definition map_identity :: "'p pager \<Rightarrow> u32 \<Rightarrow> u32 \<Rightarrow> ('p, unit) V" where
  "map_identity ops as cur = bindM (ptwalk ops as cur PTE_W) (\<lambda>e. set_word e (cur OR PTE_P OR PTE_W))"

definition map_kernel_area :: "'p pager \<Rightarrow> u32 \<Rightarrow> vm_area \<Rightarrow> ('p, unit) V" where
  "map_kernel_area ops as vma = whenM (kernel vma)
     (for_range (2 ^ 20) PGSIZE (area_start vma) (area_end vma) (map_identity ops as))"

definition vme_init :: "'p pager \<Rightarrow> nat \<Rightarrow> u32 \<Rightarrow> ('p, bool) V" where
  "vme_init ops cpu_current as =
     (if cpu_current \<noteq> 0 then failM (Panic ''init VME in non-bootstrap CPU'')
      else thenM (set_word (as_ptr as) 0)
        (thenM (for_each vm_areas (map_kernel_area ops as))
        (thenM (modifyM (\<lambda>s. s\<lparr>kpt := baseof (words s (as_ptr as))\<rparr>))
        (thenM (modifyM (\<lambda>s. s\<lparr>cr3 := kpt s, cr0 := cr0 s OR CR0_PG\<rparr>))
        (retM True)))))"

definition copy_kernel_area :: "u32 \<Rightarrow> vm_area \<Rightarrow> ('p, unit) V" where
  "copy_kernel_area updir vma = whenM (kernel vma)
     (let info = pgtables ! 1 in
      for_range (2 ^ 10) (push_bit (pt_shift info) 1) (area_start vma) (area_end vma) (\<lambda>cur.
        let index = indexof cur info in
        bindM (getsM (\<lambda>s. words s (entry (kpt s) index))) (set_word (entry updir index))))"

definition protect :: "'p pager \<Rightarrow> u32 \<Rightarrow> ('p, unit) V" where
  "protect ops as = bindM (pgallocz ops) (\<lambda>updir.
     thenM (for_each vm_areas (copy_kernel_area updir))
     (thenM (set_word (as_pgsize as) PGSIZE)
     (thenM (set_word (as_area_start as) (area_start uvm_area))
     (thenM (set_word (as_area_end as) (area_end uvm_area))
     (set_word (as_ptr as) (updir OR PTE_P OR PTE_U))))))"

definition unprotect :: "'p pager \<Rightarrow> u32 \<Rightarrow> ('p, unit) V" where
  "unprotect ops as = teardown pgtables ops 0 (as_ptr as)"

definition IN_RANGE :: "u32 \<Rightarrow> vm_area \<Rightarrow> bool" where
  "IN_RANGE a r \<longleftrightarrow> area_start r \<le> a \<and> a < area_end r"

definition ROUNDDOWN :: "u32 \<Rightarrow> u32 \<Rightarrow> u32" where
  "ROUNDDOWN a sz = a AND NOT (sz - 1)"

definition vme_map :: "'p pager \<Rightarrow> u32 \<Rightarrow> u32 \<Rightarrow> u32 \<Rightarrow> u32 \<Rightarrow> ('p, unit) V" where
  "vme_map ops as va pa prot =
     (if \<not> IN_RANGE va uvm_area then failM (Panic ''mapping an invalid address'')
      else if va \<noteq> ROUNDDOWN va PGSIZE \<or> pa \<noteq> ROUNDDOWN pa PGSIZE then failM (Panic ''non-page-boundary address'')
      else bindM (ptwalk ops as va (PTE_W OR PTE_U)) (\<lambda>ptentry.
        thenM (bindM (get_word ptentry) (\<lambda>old.
          if prot = MMAP_NONE
          then if old AND PTE_P = 0 then failM (Panic ''unmapping a non-mapped page'') else set_word ptentry 0
          else if old AND PTE_P \<noteq> 0 then failM (Panic ''remapping a mapped page'')
          else set_word ptentry (pa OR PTE_P OR PTE_U OR (if prot AND MMAP_WRITE \<noteq> 0 then PTE_W else 0))))
        (thenM (ptwalk ops as va (PTE_W OR PTE_U)) (retM ()))))"

text \<open>
  \<open>ucontext\<close>: the new context lies at the top of the kernel stack. Its fields are the words
  cr3, ds, eax, ebx, ecx, edx, esp0, esi, edi, ebp, eip, cs, eflags, esp, ss3.
\<close>

definition USEL :: "u32 \<Rightarrow> u32" where
  "USEL seg = push_bit 3 seg OR 3"

definition SEG_UCODE :: u32 where "SEG_UCODE = 3"
definition SEG_UDATA :: u32 where "SEG_UDATA = 4"
definition FL_IF :: u32 where "FL_IF = 0x200"

definition x86_context_size :: nat where "x86_context_size = 15"

definition ucontext :: "u32 \<Rightarrow> u32 \<Rightarrow> u32 \<Rightarrow> ('p, u32) V" where
  "ucontext as kstack_end start =
     (let ctx = kstack_end - 4 * of_nat x86_context_size in
      thenM (for_each [0..<x86_context_size] (\<lambda>i. set_word (entry ctx i) 0))
      (thenM (set_word (entry ctx 11) (USEL SEG_UCODE))
      (thenM (set_word (entry ctx 1) (USEL SEG_UDATA))
      (thenM (set_word (entry ctx 14) (USEL SEG_UDATA))
      (thenM (set_word (entry ctx 10) start)
      (thenM (set_word (entry ctx 12) FL_IF)
      (thenM (set_word (entry ctx 13) (area_end uvm_area))
      (thenM (set_word (entry ctx 6) kstack_end)
      (thenM (bindM (get_word (as_ptr as)) (set_word (entry ctx 0)))
      (retM ctx))))))))))"

section \<open>Addresses\<close>

definition in_page :: "u32 \<Rightarrow> u32 \<Rightarrow> bool" where
  "in_page b a \<longleftrightarrow> a \<in> entry b ` {..<1024}"

definition zero_page :: "u32 \<Rightarrow> (u32 \<Rightarrow> u32) \<Rightarrow> u32 \<Rightarrow> u32" where
  "zero_page b m a = (if in_page b a then 0 else m a)"

definition pd_index :: "u32 \<Rightarrow> nat" where
  "pd_index va = indexof va (pgtables ! 1)"

definition pt_index :: "u32 \<Rightarrow> nat" where
  "pt_index va = indexof va (pgtables ! 2)"

lemma mask_12: "(4095 :: u32) = mask 12"
  by (simp add: mask_eq_exp_minus_1)

lemma bit_baseof: "bit (baseof a) k \<longleftrightarrow> 12 \<le> k \<and> bit a k"
  unfolding baseof_def PGSIZE_def by (auto simp: mask_12 bit_simps dest: bit_imp_le_length)

lemma baseof_idem [simp]: "baseof (baseof a) = baseof a"
  by (rule bit_word_eqI) (simp add: bit_baseof)

lemma baseof_or: "baseof (a OR b) = baseof a OR baseof b"
  by (rule bit_word_eqI) (auto simp: bit_baseof bit_simps)

lemma baseof_consts [simp]: "baseof 0 = 0" "baseof PTE_P = 0" "baseof PTE_W = 0" "baseof PTE_U = 0"
  by (simp_all add: baseof_def PGSIZE_def PTE_P_def PTE_W_def PTE_U_def)

lemma baseof_entry:
  assumes "baseof b = b" "i < 1024"
  shows "baseof (entry b i) = b"
proof -
  define x where "x = (of_nat i :: u32)"
  have "x = take_bit 10 x"
    using assms(2) by (simp add: x_def take_bit_of_nat take_bit_nat_eq_self)
  then have small: "bit x k \<Longrightarrow> k < 10" for k by (metis bit_take_bit_iff)
  have b: "bit b k \<Longrightarrow> 12 \<le> k" for k using assms(1) bit_baseof [of b k] by simp
  have "b AND push_bit 2 x = 0"
    by (rule bit_word_eqI) (auto simp: bit_simps dest!: b small)
  moreover have "4 * x = push_bit 2 x" by (simp add: push_bit_eq_mult)
  ultimately have "entry b i = b OR push_bit 2 x" unfolding entry_def x_def [symmetric] by (simp add: disjunctive_add_eq_or)
  moreover have "baseof (push_bit 2 x) = 0"
    by (rule bit_word_eqI) (auto simp: bit_baseof bit_simps dest!: small)
  ultimately show ?thesis by (simp add: baseof_or assms(1))
qed

lemma entry_eq_iff:
  assumes "baseof b = b" "baseof c = c" "i < 1024" "j < 1024"
  shows "entry b i = entry c j \<longleftrightarrow> b = c \<and> i = j"
proof
  assume e: "entry b i = entry c j"
  then have "b = c" using baseof_entry [OF assms(1,3)] baseof_entry [OF assms(2,4)] by simp
  moreover from this e have "(4 :: u32) * of_nat i = 4 * of_nat j" by (simp add: entry_def)
  then have "unat ((4 :: u32) * of_nat i) = unat ((4 :: u32) * of_nat j)" by simp
  then have "i = j" using assms(3,4) by (simp add: unat_mult_lem [THEN iffD1] unat_of_small)
  ultimately show "b = c \<and> i = j" by simp
qed simp

lemma in_page_entry:
  "baseof b = b \<Longrightarrow> baseof c = c \<Longrightarrow> i < 1024 \<Longrightarrow> in_page b (entry c i) \<longleftrightarrow> b = c"
  using entry_eq_iff by (auto simp: in_page_def image_iff)

lemma index_bits: "pd_index va = unat (drop_bit 22 va AND 1023)" "pt_index va = unat (drop_bit 12 va AND 1023)"
  by (simp_all add: pd_index_def pt_index_def indexof_def pgtables_def)

lemma index_bound [simp]: "pd_index va < 1024" "pt_index va < 1024"
proof -
  have "unat (w AND 1023) \<le> unat (1023 :: u32)" for w :: u32
    by (simp only: word_le_nat_alt [symmetric] word_and_le1)
  then show "pd_index va < 1024" "pt_index va < 1024" 
    by (simp_all add: index_bits le_less_trans [of _ 1023 1024])
qed

section \<open>Allocation\<close>

text \<open>What the kernel promises of its allocator: pages are aligned and not handed out twice.\<close>

definition pager_ok :: "'p pager \<Rightarrow> ('p \<Rightarrow> u32 set) \<Rightarrow> bool" where
  "pager_ok ops used \<longleftrightarrow>
     (\<forall>p b p'. pgalloc ops PGSIZE p = (b, p') \<longrightarrow> b \<noteq> 0 \<longrightarrow>
        baseof b = b \<and> b \<notin> used p \<and> used p' = insert b (used p))
   \<and> (\<forall>p b. used (pgfree ops b p) = used p - {b})"

definition no_page :: "'p pager \<Rightarrow> 'p \<Rightarrow> bool" where
  "no_page ops p \<longleftrightarrow> fst (pgalloc ops PGSIZE p) = 0"

lemma zero_words:
  "for_each xs (\<lambda>i. set_word (f i) 0) s = Inr ((), s\<lparr>words := \<lambda>a. if a \<in> f ` set xs then 0 else words s a\<rparr>)"
  by (induction xs arbitrary: s) (auto simp: set_word_def fun_eq_iff intro!: arg_cong [where f = "\<lambda>m. _\<lparr>words := m\<rparr>"])

lemma pgallocz_result:
  "pgallocz ops s = (let (b, p) = pgalloc ops PGSIZE (page_pool s) in
     if b = 0 then Inl (Panic ''cannot allocate page'')
     else Inr (b, s\<lparr>page_pool := p, words := zero_page b (words s)\<rparr>))"
  by (auto simp: pgallocz_def zero_words zero_page_def in_page_def fun_eq_iff lessThan_atLeast0 split: prod.splits)

section \<open>The tables of an address space\<close>

abbreviation present :: "u32 \<Rightarrow> bool" where
  "present e \<equiv> e AND PTE_P \<noteq> 0"

definition dir :: "(u32 \<Rightarrow> u32) \<Rightarrow> u32 \<Rightarrow> u32" where
  "dir m as = baseof (m (as_ptr as))"

definition pde :: "(u32 \<Rightarrow> u32) \<Rightarrow> u32 \<Rightarrow> nat \<Rightarrow> u32" where
  "pde m as i = (if present (m (as_ptr as)) then m (entry (dir m as) i) else 0)"

definition pte :: "(u32 \<Rightarrow> u32) \<Rightarrow> u32 \<Rightarrow> nat \<Rightarrow> nat \<Rightarrow> u32" where
  "pte m as i j = (if present (pde m as i) then m (entry (baseof (pde m as i)) j) else 0)"

text \<open>
  The pages in use are aligned and do not hold the root; a present directory entry points to a page in
  use other than the directory, and two of them to two pages.
\<close>

definition tables_ok :: "(u32 \<Rightarrow> u32) \<Rightarrow> u32 set \<Rightarrow> u32 \<Rightarrow> bool" where
  "tables_ok m U as \<longleftrightarrow>
     (\<forall>p \<in> U. baseof p = p \<and> \<not> in_page p (as_ptr as))
   \<and> (present (m (as_ptr as)) \<longrightarrow> dir m as \<in> U)
   \<and> (\<forall>i < 1024. present (pde m as i) \<longrightarrow> baseof (pde m as i) \<in> U \<and> baseof (pde m as i) \<noteq> dir m as)
   \<and> (\<forall>i < 1024. \<forall>j < 1024. present (pde m as i) \<longrightarrow> present (pde m as j) \<longrightarrow>
        baseof (pde m as i) = baseof (pde m as j) \<longrightarrow> i = j)"

abbreviation writable :: "u32 \<Rightarrow> bool" where
  "writable e \<equiv> e AND PTE_W \<noteq> 0"

abbreviation user :: "u32 \<Rightarrow> bool" where
  "user e \<equiv> e AND PTE_U \<noteq> 0"

lemma flag_bits: "present e \<longleftrightarrow> bit e 0" "writable e \<longleftrightarrow> bit e 1" "user e \<longleftrightarrow> bit e 2"
  using and_exp_eq_0_iff_not_bit [of e 0] and_exp_eq_0_iff_not_bit [of e 1] and_exp_eq_0_iff_not_bit [of e 2]
  by (simp_all add: PTE_P_def PTE_W_def PTE_U_def)

lemma flag_consts:
  "bit PTE_P k \<longleftrightarrow> k = 0" "bit PTE_W k \<longleftrightarrow> k = 1" "bit PTE_U k \<longleftrightarrow> k = 2"
  using bit_exp_iff [of 0 k, where 'a = u32] bit_exp_iff [of 1 k, where 'a = u32] bit_exp_iff [of 2 k, where 'a = u32]
  by (auto simp: PTE_P_def PTE_W_def PTE_U_def)

lemma page_bits: "baseof b = b \<Longrightarrow> k < 12 \<Longrightarrow> \<not> bit b k"
  using bit_baseof [of b k] by simp

lemma present_simps [simp]: "\<not> present 0" "present (a OR PTE_P OR b)"
  by (simp_all add: flag_bits(1) bit_or_iff flag_consts)

lemma next_table_cases:
  assumes "pager_ok ops used"
  obtains (fail) "next_table ops e flags s = Inl (Panic ''cannot allocate page'')" "\<not> present (words s e)"
      "no_page ops (page_pool s)"
  | (there) "next_table ops e flags s = Inr (baseof (words s e), s)" "present (words s e)"
  | (new) b p' where "next_table ops e flags s = Inr (b, s\<lparr>page_pool := p',
      words := (zero_page b (words s))(e := b OR PTE_P OR flags)\<rparr>)" "\<not> present (words s e)"
      "baseof b = b" "b \<notin> used (page_pool s)" "used p' = insert b (used (page_pool s))" "b \<noteq> 0"
proof (cases "present (words s e)")
  case True
  then show ?thesis by (intro there) (simp_all add: next_table_def get_word_def)
next
  case False
  obtain b p' where b: "pgalloc ops PGSIZE (page_pool s) = (b, p')" by fastforce
  show ?thesis
  proof (cases "b = 0")
    case True
    then show ?thesis using False b by (intro fail) (simp_all add: next_table_def get_word_def pgallocz_result no_page_def)
  next
    case b0: False
    then show ?thesis using False b assms
      by (intro new [of b p']) (simp_all add: next_table_def get_word_def set_word_def pgallocz_result pager_ok_def)
  qed
qed

text \<open>A new directory, and a new table in a directory, hold no entries.\<close>

lemma new_dir:
  assumes t: "tables_ok m U as" and n: "\<not> present (m (as_ptr as))" and b: "baseof b = b" "b \<notin> U" "baseof flags = 0"
    and out: "\<not> in_page b (as_ptr as)"
  defines "m' \<equiv> (zero_page b m)(as_ptr as := b OR PTE_P OR flags)"
  shows "tables_ok m' (insert b U) as" "pde m' as i = 0 \<or> \<not> i < 1024" "dir m' as = b" "present (m' (as_ptr as))"
proof -
  show d: "dir m' as = b" "present (m' (as_ptr as))"
    using b by (simp_all add: m'_def dir_def baseof_or)
  show p: "pde m' as i = 0 \<or> \<not> i < 1024" for i
  proof (cases "i < 1024")
    case True
    then have "in_page b (entry b i)" by (simp add: in_page_def)
    moreover from this have "entry b i \<noteq> as_ptr as" using out by auto
    ultimately show ?thesis using d by (simp add: pde_def m'_def zero_page_def)
  qed simp
  then have "i < 1024 \<Longrightarrow> \<not> present (pde m' as i)" for i using p [of i] by auto
  then show "tables_ok m' (insert b U) as"
    using t d b out by (auto simp: tables_ok_def)
qed

lemma table_page:
  assumes "tables_ok m U as" "i < 1024" "present (pde m as i)"
  shows "baseof (pde m as i) \<in> U" "baseof (pde m as i) \<noteq> dir m as"
  using assms by (auto simp: tables_ok_def)

lemma page_aligned: "tables_ok m U as \<Longrightarrow> p \<in> U \<Longrightarrow> baseof p = p \<and> \<not> in_page p (as_ptr as)"
  by (auto simp: tables_ok_def)

lemma dir_page: "tables_ok m U as \<Longrightarrow> present (m (as_ptr as)) \<Longrightarrow> dir m as \<in> U"
  by (auto simp: tables_ok_def)

lemma root_not_entry: "\<not> in_page p (as_ptr as) \<Longrightarrow> i < 1024 \<Longrightarrow> entry p i \<noteq> as_ptr as"
  by (metis in_page_def image_eqI lessThan_iff)

lemma new_table:
  assumes t: "tables_ok m U as" and r: "present (m (as_ptr as))" and i: "i < 1024" "\<not> present (pde m as i)"
    and b: "baseof b = b" "b \<notin> U" "baseof flags = 0" and out: "\<not> in_page b (as_ptr as)"
  defines "m' \<equiv> (zero_page b m)(entry (dir m as) i := b OR PTE_P OR flags)"
  shows "tables_ok m' (insert b U) as"
    "j < 1024 \<Longrightarrow> pde m' as j = (if j = i then b OR PTE_P OR flags else pde m as j)"
    "j < 1024 \<Longrightarrow> k < 1024 \<Longrightarrow> pte m' as j k = pte m as j k" "dir m' as = dir m as" "m' (as_ptr as) = m (as_ptr as)"
proof -
  let ?D = "dir m as"
  have D: "?D \<in> U" "baseof ?D = ?D" "\<not> in_page ?D (as_ptr as)" "?D \<noteq> b"
    using dir_page [OF t r] page_aligned [OF t] b by auto
  show root: "m' (as_ptr as) = m (as_ptr as)"
    using root_not_entry [OF D(3) i(1)] out by (simp add: m'_def zero_page_def)
  then show d: "dir m' as = ?D" by (simp add: dir_def)
  have base: "baseof (b OR PTE_P OR flags) = b" using b by (simp add: baseof_or)
  show e: "pde m' as j = (if j = i then b OR PTE_P OR flags else pde m as j)" if "j < 1024" for j
  proof -
    have "\<not> in_page b (entry ?D j)" using in_page_entry [OF b(1) D(2) that] D(4) by simp
    then show ?thesis using root d r that i(1) entry_eq_iff [OF D(2) D(2) that i(1)]
      by (simp add: pde_def m'_def zero_page_def)
  qed
  show "pte m' as j k = pte m as j k" if jk: "j < 1024" "k < 1024"
  proof (cases "present (pde m' as j)")
    case True
    let ?T = "baseof (pde m' as j)"
    have T: "baseof ?T = ?T" "?T \<noteq> ?D"
      using e [OF jk(1)] base D(4) table_page [OF t jk(1)] True by auto
    have out: "entry ?T k \<noteq> entry ?D i" using entry_eq_iff [OF T(1) D(2) jk(2) i(1)] T(2) by simp
    show ?thesis
    proof (cases "j = i")
      case True
      then have "in_page b (entry ?T k)" using e [OF jk(1)] base jk(2) by (simp add: in_page_def)
      with True show ?thesis using out i(2) by (simp add: pte_def m'_def zero_page_def)
    next
      case False
      have "?T \<in> U" using False True e [OF jk(1)] table_page [OF t jk(1)] by simp
      then have "\<not> in_page b (entry ?T k)" using in_page_entry [OF b(1) T(1) jk(2)] b(2) by auto
      then show ?thesis using False True e [OF jk(1)] out by (simp add: pte_def m'_def zero_page_def)
    qed
  next
    case False
    then show ?thesis using e [OF jk(1)] by (auto simp: pte_def split: if_splits)
  qed
  show "tables_ok m' (insert b U) as"
    unfolding tables_ok_def d root
  proof (intro conjI ballI allI impI)
    fix p assume "p \<in> insert b U"
    then show "baseof p = p" "\<not> in_page p (as_ptr as)" using b out page_aligned [OF t] by auto
  next
    fix j assume "j < 1024" "present (pde m' as j)"
    then show "baseof (pde m' as j) \<in> insert b U" "baseof (pde m' as j) \<noteq> ?D"
      using e [of j] base D(4) table_page [OF t, of j] by (auto split: if_splits)
  next
    fix j k assume "j < 1024" "k < 1024" "present (pde m' as j)" "present (pde m' as k)"
      "baseof (pde m' as j) = baseof (pde m' as k)"
    moreover have "\<not> (n < 1024 \<and> present (pde m as n) \<and> baseof (pde m as n) = b)" for n
      using table_page(1) [OF t, of n] b(2) by auto
    ultimately show "j = k" using t e [of j] e [of k] base by (auto simp: tables_ok_def split: if_splits)
  qed (use D in simp)
qed

text \<open>Writing an entry of a table.\<close>

lemma set_pte:
  fixes v :: u32
  assumes t: "tables_ok m U as" and i: "i < 1024" "j < 1024" "present (pde m as i)"
  defines "m' \<equiv> m(entry (baseof (pde m as i)) j := v)"
  shows "tables_ok m' U as" "k < 1024 \<Longrightarrow> pde m' as k = pde m as k"
    "k < 1024 \<Longrightarrow> l < 1024 \<Longrightarrow> pte m' as k l = (if k = i \<and> l = j then v else pte m as k l)"
    "dir m' as = dir m as" "m' (as_ptr as) = m (as_ptr as)"
proof -
  let ?D = "dir m as" and ?T = "baseof (pde m as i)"
  have r: "present (m (as_ptr as))" using i(3) by (auto simp: pde_def split: if_splits)
  have D: "baseof ?D = ?D" using dir_page [OF t r] page_aligned [OF t] by auto
  have T: "baseof ?T = ?T" "\<not> in_page ?T (as_ptr as)" "?T \<noteq> ?D"
    using table_page [OF t i(1,3)] page_aligned [OF t] by auto
  show root: "m' (as_ptr as) = m (as_ptr as)"
    using root_not_entry [OF T(2) i(2)] by (auto simp: m'_def)
  then show d: "dir m' as = ?D" by (simp add: dir_def)
  show e: "pde m' as k = pde m as k" if "k < 1024" for k
    using root d entry_eq_iff [OF D T(1) that i(2)] T(3) by (auto simp: pde_def m'_def)
  show "pte m' as k l = (if k = i \<and> l = j then v else pte m as k l)" if kl: "k < 1024" "l < 1024"
  proof (cases "present (pde m as k)")
    case True
    have "baseof (pde m as k) = ?T \<longleftrightarrow> k = i" using t True i kl(1) by (auto simp: tables_ok_def)
    moreover have "baseof (baseof (pde m as k)) = baseof (pde m as k)" by simp
    ultimately have "entry (baseof (pde m as k)) l = entry ?T j \<longleftrightarrow> k = i \<and> l = j"
      using entry_eq_iff [OF _ T(1) kl(2) i(2), of "baseof (pde m as k)"] by simp
    then show ?thesis using True e [OF kl(1)] i(3) by (auto simp: pte_def m'_def)
  next
    case False
    then show ?thesis using e [OF kl(1)] i(3) by (auto simp: pte_def)
  qed
  show "tables_ok m' U as" using t e d root by (auto simp: tables_ok_def)
qed

section \<open>Walking the tables\<close>

definition pager_avoids :: "'p pager \<Rightarrow> u32 \<Rightarrow> bool" where
  "pager_avoids ops a \<longleftrightarrow> (\<forall>p b p'. pgalloc ops PGSIZE p = (b, p') \<longrightarrow> \<not> in_page b a)"

lemma ptwalk_levels:
  "ptwalk ops as va flags = bindM (next_table ops (as_ptr as) flags) (\<lambda>d.
     bindM (next_table ops (entry d (pd_index va)) flags) (\<lambda>t. retM (entry t (pt_index va))))"
proof -
  let ?i = "pgtables ! 1" and ?j = "pgtables ! 2"
  have "ptwalk_loop ops va flags [?j] = (\<lambda>t. retM (entry t (pt_index va)))"
    by (rule ext) (simp add: pt_index_def)
  then have "ptwalk_loop ops va flags [?i, ?j]
      = (\<lambda>d. bindM (next_table ops (entry d (pd_index va)) flags) (\<lambda>t. retM (entry t (pt_index va))))"
    by (simp only: ptwalk_loop.simps pd_index_def) (rule ext, simp)
  moreover have "pgtables = [pgtables ! 0, ?i, ?j]" by (simp add: pgtables_def)
  moreover have "entry (as_ptr as) (indexof va (pgtables ! 0)) = as_ptr as"
    by (simp add: pgtables_def indexof_def entry_def)
  ultimately show ?thesis unfolding ptwalk_def by (metis ptwalk_loop.simps(3))
qed

lemma next_table_avoids:
  "pager_avoids ops a \<Longrightarrow> next_table ops e flags s = Inr (b, s') \<Longrightarrow> \<not> present (words s e) \<Longrightarrow> \<not> in_page b a"
  by (auto simp: next_table_def get_word_def pgallocz_result pager_avoids_def comp_elims split: prod.splits if_splits)

lemma ptwalk_cases:
  assumes ok: "pager_ok ops used" "pager_avoids ops (as_ptr as)" and t: "tables_ok (words s) (used (page_pool s)) as"
    and r: "present (words s (as_ptr as))"
  obtains (fail) "ptwalk ops as va flags s = Inl (Panic ''cannot allocate page'')" "\<not> present (pde (words s) as (pd_index va))"
      "no_page ops (page_pool s)"
  | (there) "ptwalk ops as va flags s = Inr (entry (baseof (pde (words s) as (pd_index va))) (pt_index va), s)"
      "present (pde (words s) as (pd_index va))"
  | (new) b p' where "ptwalk ops as va flags s = Inr (entry b (pt_index va), s\<lparr>page_pool := p', words :=
        (zero_page b (words s))(entry (dir (words s) as) (pd_index va) := b OR PTE_P OR flags)\<rparr>)"
      "\<not> present (pde (words s) as (pd_index va))" "baseof b = b" "b \<notin> used (page_pool s)"
      "used p' = insert b (used (page_pool s))" "\<not> in_page b (as_ptr as)" "\<And>a. pager_avoids ops a \<Longrightarrow> \<not> in_page b a"
proof -
  let ?e = "entry (dir (words s) as) (pd_index va)"
  have "next_table ops (as_ptr as) flags s = Inr (dir (words s) as, s)"
    using r by (simp add: next_table_def get_word_def dir_def)
  then have w: "ptwalk ops as va flags s
      = bindM (next_table ops ?e flags) (\<lambda>t. retM (entry t (pt_index va))) s"
    by (simp add: ptwalk_levels)
  have e: "pde (words s) as (pd_index va) = words s ?e" using r by (simp add: pde_def)
  from ok(1) show ?thesis
  proof (cases rule: next_table_cases [of ops used ?e flags s])
    case fail
    then show ?thesis using that(1) w e by simp
  next
    case there
    then show ?thesis using that(2) w e by simp
  next
    case (new b p')
    then show ?thesis using that(3) [of b p'] w e next_table_avoids [OF _ new(1,2)] ok(2) by simp
  qed
qed

section \<open>Mapping a page\<close>

lemma walk_again:
  assumes "present (words s (as_ptr as))" "present (pde (words s) as (pd_index va))"
  shows "ptwalk ops as va flags s = Inr (entry (baseof (pde (words s) as (pd_index va))) (pt_index va), s)"
  using assms by (simp add: ptwalk_levels next_table_def get_word_def pde_def dir_def)

definition map_ok :: "u32 \<Rightarrow> u32 \<Rightarrow> bool" where
  "map_ok va pa \<longleftrightarrow> IN_RANGE va uvm_area \<and> baseof va = va \<and> baseof pa = pa"

definition new_pte :: "u32 \<Rightarrow> u32 \<Rightarrow> u32" where
  "new_pte pa prot = (if prot = MMAP_NONE then 0
     else pa OR PTE_P OR PTE_U OR (if prot AND MMAP_WRITE \<noteq> 0 then PTE_W else 0))"

text \<open>The state after a page has been entered where the table exists, and after a table has been made for it.\<close>

lemma map_step:
  assumes "map_ok va pa" and r: "present (words s (as_ptr as))" and t: "tables_ok (words s) U as"
    and w: "ptwalk ops as va (PTE_W OR PTE_U) s0 = Inr (entry (baseof (pde (words s) as (pd_index va))) (pt_index va), s)"
    and p: "present (pde (words s) as (pd_index va))"
    and old: "present (pte (words s) as (pd_index va) (pt_index va)) \<longleftrightarrow> prot = MMAP_NONE"
  shows "vme_map ops as va pa prot s0 = Inr ((), s\<lparr>words :=
    (words s)(entry (baseof (pde (words s) as (pd_index va))) (pt_index va) := new_pte pa prot)\<rparr>)"
proof -
  let ?e = "entry (baseof (pde (words s) as (pd_index va))) (pt_index va)"
  let ?s = "s\<lparr>words := (words s)(?e := new_pte pa prot)\<rparr>"
  have e: "words s ?e = pte (words s) as (pd_index va) (pt_index va)" using p by (simp add: pte_def)
  have "present (words ?s (as_ptr as))" "present (pde (words ?s) as (pd_index va))"
    using set_pte(2,5) [OF t index_bound p, where v = "new_pte pa prot"] r p by simp_all
  then have again: "\<exists>x. ptwalk ops as va (PTE_W OR PTE_U) ?s = Inr (x, ?s)" using walk_again [of ?s as va] by blast
  have g: "IN_RANGE va uvm_area" "va = ROUNDDOWN va PGSIZE" "pa = ROUNDDOWN pa PGSIZE"
    using assms(1) by (simp_all add: map_ok_def ROUNDDOWN_def baseof_def)
  show ?thesis
    unfolding vme_map_def
    using g(1) g(2,3) [symmetric] w old again e by (auto simp: get_word_def set_word_def new_pte_def split: if_splits)
qed

end
