(* ===== verification/Vme_Spaces.thy ===== *)
theory Vme_Spaces
  imports Am_Vme
begin

text \<open>
  What the page tables of \<open>vme.c\<close> mean: the translation of addresses, address spaces and the pages they own,
  and the effect of every operation on them. \<open>map\<close> refines the update of a partial map, \<open>protect\<close> makes a space
  with the kernel's mappings only, \<open>unprotect\<close> gives all pages back, \<open>vme_init\<close> maps the kernel to itself.
\<close>

unbundle bit_operations_syntax

section \<open>Translation\<close>

text \<open>What the processor does with an address: the frame, and whether user code may use and write it.\<close>

definition frame :: "u32 \<Rightarrow> u32" where
  "frame e = word_of_int (uint e div 4096 * 4096)"

definition translate :: "(u32 \<Rightarrow> u32) \<Rightarrow> u32 \<Rightarrow> u32 \<Rightarrow> (u32 \<times> bool \<times> bool) option" where
  "translate m root va =
     (let d = m (frame root + 4 * word_of_int (uint va div 2 ^ 22));
          e = m (frame d + 4 * word_of_int (uint va div 2 ^ 12 mod 2 ^ 10))
      in if bit d 0 \<and> bit e 0
         then Some (frame e + word_of_int (uint va mod 2 ^ 12), bit d 1 \<and> bit e 1, bit d 2 \<and> bit e 2) else None)"

lemma frame_baseof: "frame = baseof"
proof
  fix a :: u32
  have "uint a div 4096 * 4096 = push_bit 12 (drop_bit 12 (uint a))"
    by (simp add: push_bit_eq_mult drop_bit_eq_div)
  then show "frame a = baseof a"
    unfolding frame_def by (intro bit_word_eqI) (auto simp: bit_baseof bit_simps)
qed

lemma index_div: "int (pd_index va) = uint va div 2 ^ 22" "int (pt_index va) = uint va div 2 ^ 12 mod 2 ^ 10"
proof -
  have m: "(1023 :: u32) = mask 10" by (simp add: mask_eq_exp_minus_1)
  have w: "take_bit 32 (uint va) = uint va" using uint_bounded [of va] by (intro take_bit_int_eq_self) auto
  have u: "uint (drop_bit k va AND 1023) = take_bit 10 (drop_bit k (uint va))" for k
    unfolding m take_bit_eq_mask [symmetric] by (simp add: unsigned_take_bit_eq unsigned_drop_bit_eq w)
  have "take_bit 10 (drop_bit 22 (uint va)) = uint va div 2 ^ 22"
    unfolding drop_bit_eq_div using uint_bounded [of va]
    by (intro take_bit_int_eq_self) (simp_all add: pos_imp_zdiv_nonneg_iff)
  then show "int (pd_index va) = uint va div 2 ^ 22" using u [of 22] by (simp add: index_bits)
  show "int (pt_index va) = uint va div 2 ^ 12 mod 2 ^ 10"
    using u [of 12] by (simp add: index_bits take_bit_eq_mod drop_bit_eq_div)
qed

definition offset :: "u32 \<Rightarrow> u32" where
  "offset va = word_of_int (uint va mod 2 ^ 12)"

lemma translate_entries:
  "translate m root va = (let d = m (entry (baseof root) (pd_index va)); e = m (entry (baseof d) (pt_index va)) in
    if present d \<and> present e then Some (baseof e + offset va, writable d \<and> writable e, user d \<and> user e) else None)"
proof -
  have "entry x (pd_index va) = x + 4 * word_of_int (uint va div 2 ^ 22)"
    "entry x (pt_index va) = x + 4 * word_of_int (uint va div 2 ^ 12 mod 2 ^ 10)" for x
    unfolding entry_def index_div [symmetric] by simp_all
  then show ?thesis by (simp add: translate_def Let_def frame_baseof flag_bits offset_def)
qed

lemma translate_pte:
  assumes r: "present (m (as_ptr as))"
  shows "translate m (m (as_ptr as)) va = (let d = pde m as (pd_index va); e = pte m as (pd_index va) (pt_index va) in
    if present e then Some (baseof e + offset va, writable d \<and> writable e, user d \<and> user e) else None)"
  using r by (auto simp: translate_entries Let_def pte_def pde_def dir_def)

lemma two_digits:
  assumes "a < 1024" "b < 1024"
  shows "1024 * int c + int a = 1024 * int d + int b \<longleftrightarrow> c = d \<and> a = b"
proof
  assume e: "1024 * int c + int a = 1024 * int d + int b"
  have "1024 * c + a = 1024 * d + b" using e by linarith
  then have "(1024 * c + a) div 1024 = (1024 * d + b) div 1024" by simp
  then have "c = d" using assms by simp
  then show "c = d \<and> a = b" using e by simp
qed simp

lemma uint_baseof: "uint (baseof x) = uint x div 4096 * 4096"
proof -
  have "0 \<le> n \<Longrightarrow> n < 2 ^ 32 \<Longrightarrow> 0 \<le> n div 4096 * 4096 \<and> n div 4096 * 4096 < 2 ^ 32" for n :: int by auto
  from this [of "uint x"] have "0 \<le> uint x div 4096 * 4096" "uint x div 4096 * 4096 < 2 ^ 32"
    using uint_bounded [of x] by auto
  then show ?thesis unfolding frame_baseof [symmetric] frame_def
    by (simp add: unsigned_of_int take_bit_int_eq_self del: of_int_mult)
qed

lemma same_page: "baseof x = baseof y \<longleftrightarrow> pd_index x = pd_index y \<and> pt_index x = pt_index y"
proof -
  have d: "uint x div 4096 = 1024 * int (pd_index x) + int (pt_index x)" for x :: u32
    unfolding index_div using zdiv_zmult2_eq [of 1024 "uint x" 4096] by simp
  have "baseof x = baseof y \<longleftrightarrow> uint x div 4096 = uint y div 4096"
    using uint_baseof by (auto simp: word_uint_eq_iff)
  also have "\<dots> \<longleftrightarrow> pd_index x = pd_index y \<and> pt_index x = pt_index y"
    unfolding d by (rule two_digits [OF index_bound(2) index_bound(2)])
  finally show ?thesis .
qed

section \<open>Address spaces\<close>

text \<open>
  The tables that belong to the space itself are those the user bit marks; the others are the kernel's. Every
  page in use beyond those of the rest of the system, \<open>U0\<close>, is the directory or such a table.
\<close>

definition user_tables :: "(u32 \<Rightarrow> u32) \<Rightarrow> u32 \<Rightarrow> u32 list" where
  "user_tables m as = map (\<lambda>i. baseof (pde m as i)) (filter (\<lambda>i. present (pde m as i) \<and> user (pde m as i)) [0..<1024])"

definition user_index :: "nat \<Rightarrow> bool" where
  "user_index i \<longleftrightarrow> 256 \<le> i \<and> i < 512"

definition space_ok :: "('p \<Rightarrow> u32 set) \<Rightarrow> u32 set \<Rightarrow> u32 \<Rightarrow> 'p vme \<Rightarrow> bool" where
  "space_ok used U0 as s \<longleftrightarrow>
     tables_ok (words s) (used (page_pool s)) as
   \<and> present (words s (as_ptr as)) \<and> user (words s (as_ptr as))
   \<and> (\<forall>i < 1024. user_index i \<longrightarrow> present (pde (words s) as i) \<longrightarrow>
        user (pde (words s) as i) \<and> writable (pde (words s) as i))
   \<and> used (page_pool s) = U0 \<union> insert (dir (words s) as) (set (user_tables (words s) as))
   \<and> dir (words s) as \<notin> U0 \<and> set (user_tables (words s) as) \<inter> U0 = {}"

lemma user_tables_set:
  "set (user_tables m as) = {baseof (pde m as i) |i. i < 1024 \<and> present (pde m as i) \<and> user (pde m as i)}"
  by (auto simp: user_tables_def)

lemma user_tables_cong: "(\<And>i. i < 1024 \<Longrightarrow> pde m' as i = pde m as i) \<Longrightarrow> user_tables m' as = user_tables m as"
  unfolding user_tables_def by (intro map_cong filter_cong) auto

lemma user_va: "IN_RANGE va uvm_area \<Longrightarrow> user_index (pd_index va)"
proof -
  assume "IN_RANGE va uvm_area"
  then have "0x40000000 \<le> uint va" "uint va < 0x80000000"
    by (simp_all add: IN_RANGE_def uvm_area_def vm_areas_def word_le_def word_less_def)
  then have "256 \<le> int (pd_index va)" "int (pd_index va) < 512" unfolding index_div by simp_all
  then show ?thesis by (simp add: user_index_def)
qed

lemma new_flags: "baseof b = b \<Longrightarrow> user (b OR PTE_P OR (PTE_W OR PTE_U)) \<and> writable (b OR PTE_P OR (PTE_W OR PTE_U))"
  by (simp add: flag_bits bit_or_iff flag_consts)

text \<open>Making a table for an address keeps the space.\<close>

lemma space_new_table:
  assumes sp: "space_ok used U0 as s" and n: "\<not> present (pde (words s) as i)" "user_index i" "i < 1024"
    and b: "baseof b = b" "b \<notin> used (page_pool s)" "used p' = insert b (used (page_pool s))" "\<not> in_page b (as_ptr as)"
  defines "s' \<equiv> s\<lparr>page_pool := p',
      words := (zero_page b (words s))(entry (dir (words s) as) i := b OR PTE_P OR (PTE_W OR PTE_U))\<rparr>"
  shows "space_ok used U0 as s'" "j < 1024 \<Longrightarrow> k < 1024 \<Longrightarrow> pte (words s') as j k = pte (words s) as j k"
    "baseof (pde (words s') as i) = b" "present (pde (words s') as i)"
    "j < 1024 \<Longrightarrow> j \<noteq> i \<Longrightarrow> pde (words s') as j = pde (words s) as j"
proof -
  let ?m = "words s" and ?m' = "words s'"
  have t: "tables_ok ?m (used (page_pool s)) as" and r: "present (?m (as_ptr as))" using sp unfolding space_ok_def by blast+
  have f: "baseof (PTE_W OR PTE_U) = 0" by (simp add: baseof_or)
  note nt = new_table [OF t r n(3,1) b(1,2) f b(4), folded s'_def]
  have m': "?m' = (zero_page b ?m)(entry (dir ?m as) i := b OR PTE_P OR (PTE_W OR PTE_U))" by (simp add: s'_def)
  have e: "pde ?m' as j = (if j = i then b OR PTE_P OR (PTE_W OR PTE_U) else pde ?m as j)" if "j < 1024" for j
    using nt(2) [OF that] unfolding m' .
  show "j < 1024 \<Longrightarrow> k < 1024 \<Longrightarrow> pte ?m' as j k = pte ?m as j k" using nt(3) unfolding m' .
  have base: "baseof (b OR PTE_P OR (PTE_W OR PTE_U)) = b" using b(1) by (simp add: baseof_or)
  then show "baseof (pde ?m' as i) = b" "present (pde ?m' as i)" using e [OF n(3)] by simp_all
  show "j < 1024 \<Longrightarrow> j \<noteq> i \<Longrightarrow> pde ?m' as j = pde ?m as j" using e by simp
  have u: "set (user_tables ?m' as) = insert b (set (user_tables ?m as))"
  proof (intro equalityI subsetI)
    fix x assume "x \<in> set (user_tables ?m' as)"
    then show "x \<in> insert b (set (user_tables ?m as))"
      unfolding user_tables_set using e base by (auto split: if_splits)
  next
    fix x assume "x \<in> insert b (set (user_tables ?m as))"
    then consider "x = b" | j where "j < 1024" "present (pde ?m as j)" "user (pde ?m as j)" "x = baseof (pde ?m as j)"
      unfolding user_tables_set by auto
    then show "x \<in> set (user_tables ?m' as)"
    proof cases
      case 1
      then show ?thesis unfolding user_tables_set using e [OF n(3)] base n(3) new_flags [OF b(1)]
        by (intro CollectI exI [of _ i]) simp
    next
      case (2 j)
      then show ?thesis unfolding user_tables_set using e [of j] n(1) by (intro CollectI exI [of _ j]) auto
    qed
  qed
  have "b \<notin> U0" using sp b(2) by (auto simp: space_ok_def)
  then show "space_ok used U0 as s'"
    using sp nt(1,4,5) u e new_flags [OF b(1)] b(3) unfolding space_ok_def m'
    by (auto simp: s'_def)
qed

lemma space_set_pte:
  fixes v :: u32
  assumes sp: "space_ok used U0 as s" and i: "i < 1024" "j < 1024" "present (pde (words s) as i)"
  defines "s' \<equiv> s\<lparr>words := (words s)(entry (baseof (pde (words s) as i)) j := v)\<rparr>"
  shows "space_ok used U0 as s'"
    "k < 1024 \<Longrightarrow> l < 1024 \<Longrightarrow> pte (words s') as k l = (if k = i \<and> l = j then v else pte (words s) as k l)"
    "k < 1024 \<Longrightarrow> pde (words s') as k = pde (words s) as k"
proof -
  have t: "tables_ok (words s) (used (page_pool s)) as" using sp unfolding space_ok_def by blast
  have m: "words s' = (words s)(entry (baseof (pde (words s) as i)) j := v)" by (simp add: s'_def)
  note st = set_pte [OF t i, where v = v, folded m]
  show "k < 1024 \<Longrightarrow> l < 1024 \<Longrightarrow> pte (words s') as k l = (if k = i \<and> l = j then v else pte (words s) as k l)"
    by (rule st(3))
  show "k < 1024 \<Longrightarrow> pde (words s') as k = pde (words s) as k" for k by (rule st(2))
  have "user_tables (words s') as = user_tables (words s) as" by (rule user_tables_cong) (rule st(2))
  moreover have "page_pool s' = page_pool s" by (simp add: s'_def)
  ultimately show "space_ok used U0 as s'"
    using sp st(1,2,4,5) unfolding space_ok_def by simp
qed

text \<open>
  Mapping: the operation changes the entry of the page and nothing else, or stops because the page is
  mapped already, is not mapped, or there is no memory for a table.
\<close>

lemma vme_map_result:
  assumes ok: "pager_ok ops used" "pager_avoids ops (as_ptr as)" and sp: "space_ok used U0 as s" and g: "map_ok va pa"
  defines "old \<equiv> pte (words s) as (pd_index va) (pt_index va)"
  obtains (fail) "vme_map ops as va pa prot s = Inl (Panic ''cannot allocate page'')" "\<not> present old" "no_page ops (page_pool s)"
  | (absent) "vme_map ops as va pa prot s = Inl (Panic ''unmapping a non-mapped page'')" "\<not> present old" "prot = MMAP_NONE"
  | (remap) "vme_map ops as va pa prot s = Inl (Panic ''remapping a mapped page'')" "present old" "prot \<noteq> MMAP_NONE"
  | (entered) s' where "vme_map ops as va pa prot s = Inr ((), s')" "space_ok used U0 as s'"
      "present old \<longleftrightarrow> prot = MMAP_NONE"
      "\<And>k l. k < 1024 \<Longrightarrow> l < 1024 \<Longrightarrow> pte (words s') as k l
         = (if k = pd_index va \<and> l = pt_index va then new_pte pa prot else pte (words s) as k l)"
      "\<And>k. k < 1024 \<Longrightarrow> present (pde (words s) as k) \<or> k \<noteq> pd_index va \<Longrightarrow> pde (words s') as k = pde (words s) as k"
      "present (pde (words s') as (pd_index va))"
      "\<And>a. words s' a = words s a \<or> (\<exists>p. p \<notin> U0 \<and> baseof p = p \<and> in_page p a
         \<and> (p \<in> used (page_pool s) \<or> (\<forall>x. pager_avoids ops x \<longrightarrow> \<not> in_page p x)))"
      "\<And>p. p \<in> used (page_pool s') \<Longrightarrow> p \<in> used (page_pool s) \<or> (\<forall>x. pager_avoids ops x \<longrightarrow> \<not> in_page p x)"
      "kpt s' = kpt s"
proof -
  have t: "tables_ok (words s) (used (page_pool s)) as" and r: "present (words s (as_ptr as))"
    using sp unfolding space_ok_def by blast+
  have u: "user_index (pd_index va)" using g by (simp add: map_ok_def user_va)
  have gs: "IN_RANGE va uvm_area" "ROUNDDOWN va PGSIZE = va" "ROUNDDOWN pa PGSIZE = pa"
    using g by (simp_all add: map_ok_def ROUNDDOWN_def baseof_def)
  let ?w = "ptwalk ops as va (PTE_W OR PTE_U) s"
  define owned where "owned p \<longleftrightarrow> p \<in> used (page_pool s) \<or> (\<forall>x. pager_avoids ops x \<longrightarrow> \<not> in_page p x)" for p
  define changeable where "changeable a \<longleftrightarrow> (\<exists>p. p \<notin> U0 \<and> baseof p = p \<and> in_page p a \<and> owned p)" for a
  have walk: thesis if w: "?w = Inr (entry (baseof (pde (words s1) as (pd_index va))) (pt_index va), s1)"
    and sp1: "space_ok used U0 as s1" and p: "present (pde (words s1) as (pd_index va))"
    and q: "\<And>k l. k < 1024 \<Longrightarrow> l < 1024 \<Longrightarrow> pte (words s1) as k l = pte (words s) as k l"
    and d: "\<And>k. k < 1024 \<Longrightarrow> present (pde (words s) as k) \<or> k \<noteq> pd_index va \<Longrightarrow> pde (words s1) as k = pde (words s) as k"
    and fr: "\<And>a. words s1 a = words s a \<or> changeable a" and fresh: "\<And>a. a \<in> used (page_pool s1) \<Longrightarrow> owned a"
    and kp: "kpt s1 = kpt s"
    for s1
  proof -
    let ?e = "entry (baseof (pde (words s1) as (pd_index va))) (pt_index va)"
    have o: "words s1 ?e = old" using p q [of "pd_index va" "pt_index va"] by (simp add: pte_def old_def)
    have t1: "tables_ok (words s1) (used (page_pool s1)) as" "present (words s1 (as_ptr as))"
      using sp1 unfolding space_ok_def by blast+
    show thesis
    proof (cases "present old \<longleftrightarrow> prot = MMAP_NONE")
      case True
      have "present (pte (words s1) as (pd_index va) (pt_index va)) \<longleftrightarrow> prot = MMAP_NONE"
        using True q [of "pd_index va" "pt_index va"] by (simp add: old_def)
      note r' = map_step [OF g t1(2,1) w p this]
      note st = space_set_pte [OF sp1 index_bound p, where v = "new_pte pa prot"]
      have "user (pde (words s1) as (pd_index va))"
        using sp1 u p index_bound(1) [of va] unfolding space_ok_def by blast
      then have "baseof (pde (words s1) as (pd_index va)) \<in> set (user_tables (words s1) as)"
        using p index_bound(1) [of va] unfolding user_tables_set by blast
      then have "baseof (pde (words s1) as (pd_index va)) \<in> used (page_pool s1) - U0"
        using sp1 unfolding space_ok_def by blast
      moreover from this have "owned (baseof (pde (words s1) as (pd_index va)))" using fresh by blast
      moreover have "in_page (baseof (pde (words s1) as (pd_index va))) ?e" by (simp add: in_page_def)
      ultimately have "changeable ?e" unfolding changeable_def by (metis DiffD2 baseof_idem)
      then have "words (s1\<lparr>words := (words s1)(?e := new_pte pa prot)\<rparr>) a = words s a \<or> changeable a" for a
        using fr [of a] by auto
      then show ?thesis
        by (intro entered [OF r' st(1) True]) (use st(2,3) q d p fresh kp in \<open>auto simp: changeable_def owned_def\<close>)
    next
      case False
      then show ?thesis
        using remap absent w o gs by (cases "prot = MMAP_NONE") (auto simp: vme_map_def get_word_def)
    qed
  qed
  from ok t r show thesis
  proof (cases rule: ptwalk_cases [where va = va and flags = "PTE_W OR PTE_U"])
    case fail
    then show ?thesis using that(1) gs by (simp add: vme_map_def old_def pte_def)
  next
    case there
    then show ?thesis by (intro walk [of s]) (use sp in \<open>auto simp: owned_def\<close>)
  next
    case (new b p')
    let ?s1 = "s\<lparr>page_pool := p', words := (zero_page b (words s))(entry (dir (words s) as) (pd_index va)
        := b OR PTE_P OR (PTE_W OR PTE_U))\<rparr>"
    note nt = space_new_table [OF sp new(2) u index_bound(1) new(3-6)]
    have "in_page (dir (words s) as) (entry (dir (words s) as) (pd_index va))" by (simp add: in_page_def)
    moreover have "dir (words s) as \<in> used (page_pool s) - U0" "b \<notin> U0"
      using sp new(4) unfolding space_ok_def by blast+
    moreover have "baseof (dir (words s) as) = dir (words s) as" by (simp add: dir_def)
    ultimately have "words ?s1 a = words s a \<or> changeable a" for a
      using new(3,7) unfolding changeable_def owned_def by (auto simp: zero_page_def)
    moreover have "owned a" if "a \<in> used (page_pool ?s1)" for a using that new(5,7) by (auto simp: owned_def)
    moreover have "pde (words ?s1) as k = pde (words s) as k"
      if "k < 1024" "present (pde (words s) as k) \<or> k \<noteq> pd_index va" for k
      using nt(5) [of k] that new(2) by metis
    ultimately show ?thesis
      by (intro walk [of ?s1]) (use new(1) nt(1-4) in auto)
  qed
qed

text \<open>In terms of translations.\<close>

definition lookup :: "'p vme \<Rightarrow> u32 \<Rightarrow> u32 \<Rightarrow> (u32 \<times> bool \<times> bool) option" where
  "lookup s as x = translate (words s) (words s (as_ptr as)) x"

lemma new_pte_fields:
  assumes "baseof pa = pa"
  shows "present (new_pte pa prot) \<longleftrightarrow> prot \<noteq> MMAP_NONE"
    "prot \<noteq> MMAP_NONE \<Longrightarrow> baseof (new_pte pa prot) = pa \<and> user (new_pte pa prot)
       \<and> (writable (new_pte pa prot) \<longleftrightarrow> prot AND MMAP_WRITE \<noteq> 0)"
  using page_bits [OF assms] assms
  by (auto simp: new_pte_def flag_bits bit_or_iff flag_consts baseof_or)

lemma lookup_pte:
  assumes "space_ok used U0 as s"
  shows "lookup s as x = (let d = pde (words s) as (pd_index x); e = pte (words s) as (pd_index x) (pt_index x) in
    if present e then Some (baseof e + offset x, writable d \<and> writable e, user d \<and> user e) else None)"
  using assms translate_pte [of "words s" as x] unfolding lookup_def space_ok_def by blast

lemma vme_map_lookup:
  assumes ok: "pager_ok ops used" "pager_avoids ops (as_ptr as)" and sp: "space_ok used U0 as s" and g: "map_ok va pa"
  shows "case vme_map ops as va pa prot s of
      Inl e \<Rightarrow> e = Panic ''cannot allocate page'' \<and> lookup s as va = None \<and> no_page ops (page_pool s)
        \<or> e = Panic ''unmapping a non-mapped page'' \<and> lookup s as va = None \<and> prot = MMAP_NONE
        \<or> e = Panic ''remapping a mapped page'' \<and> lookup s as va \<noteq> None \<and> prot \<noteq> MMAP_NONE
    | Inr (u, s') \<Rightarrow> space_ok used U0 as s' \<and> (lookup s as va = None \<longleftrightarrow> prot \<noteq> MMAP_NONE)
        \<and> (\<forall>x. lookup s' as x = (if baseof x = va
             then if prot = MMAP_NONE then None else Some (pa + offset x, prot AND MMAP_WRITE \<noteq> 0, True)
             else lookup s as x))"
  using ok sp g
proof (cases rule: vme_map_result [where prot = prot])
  case (entered s')
  have va: "baseof va = va" and pa: "baseof pa = pa" and u: "user_index (pd_index va)"
    using g by (simp_all add: map_ok_def user_va)
  have d': "user (pde (words s') as (pd_index va))" "writable (pde (words s') as (pd_index va))"
    using entered(2,6) u index_bound(1) [of va] unfolding space_ok_def by blast+
  have "lookup s' as x = (if baseof x = va
      then if prot = MMAP_NONE then None else Some (pa + offset x, prot AND MMAP_WRITE \<noteq> 0, True)
      else lookup s as x)" for x
  proof (cases "baseof x = va")
    case True
    then have "pd_index x = pd_index va" "pt_index x = pt_index va" using same_page [of x va] va by simp_all
    then show ?thesis using True d' entered(4) [of "pd_index va" "pt_index va"] new_pte_fields [OF pa, of prot]
      by (simp add: lookup_pte [OF entered(2)] Let_def)
  next
    case False
    then have n: "\<not> (pd_index x = pd_index va \<and> pt_index x = pt_index va)" using same_page [of x va] va by auto
    have e: "pte (words s') as (pd_index x) (pt_index x) = pte (words s) as (pd_index x) (pt_index x)"
      using entered(4) [of "pd_index x" "pt_index x"] n by auto
    show ?thesis
    proof (cases "present (pde (words s) as (pd_index x))")
      case True
      then show ?thesis using False e entered(5) [of "pd_index x"]
        by (simp add: lookup_pte [OF entered(2)] lookup_pte [OF sp] Let_def)
    next
      case absent: False
      then have "pte (words s) as (pd_index x) (pt_index x) = 0" by (simp add: pte_def)
      then show ?thesis using False e by (simp add: lookup_pte [OF entered(2)] lookup_pte [OF sp] Let_def)
    qed
  qed
  then show ?thesis using entered(1-3) by (auto simp: lookup_pte [OF sp] Let_def)
qed (simp_all add: lookup_pte [OF sp] Let_def)

section \<open>Tearing down\<close>

lemma for_each_fold:
  "(\<And>x s. x \<in> set xs \<Longrightarrow> body x s = Inr ((), f x s)) \<Longrightarrow> for_each xs body s = Inr ((), fold f xs s)"
  by (induction xs arbitrary: s) simp_all

definition user_entries :: "(u32 \<Rightarrow> u32) \<Rightarrow> u32 \<Rightarrow> nat list \<Rightarrow> u32 list" where
  "user_entries m pt xs = map (\<lambda>i. baseof (m (entry pt i))) (filter (\<lambda>i. present (m (entry pt i)) \<and> user (m (entry pt i))) xs)"

lemma free_entries:
  "fold (\<lambda>i s. if present (words s (entry pt i)) \<and> user (words s (entry pt i))
      then s\<lparr>page_pool := pgfree ops (baseof (words s (entry pt i))) (page_pool s)\<rparr> else s) xs s
   = s\<lparr>page_pool := fold (pgfree ops) (user_entries (words s) pt xs) (page_pool s)\<rparr>"
  by (induction xs arbitrary: s) (simp_all add: user_entries_def)

lemma teardown_table:
  "teardown [info] ops (Suc n) pt s = Inr ((), s\<lparr>page_pool := pgfree ops pt (page_pool s)\<rparr>)"
proof -
  let ?body = "\<lambda>index. bindM (get_word (entry pt index)) (\<lambda>pte.
      whenM (present pte \<and> user pte) (teardown [] ops (Suc n + 1) (baseof pte)))"
  have "for_each [0..<2 ^ pt_bits info] ?body s = Inr ((), fold (\<lambda>i s. s) [0..<2 ^ pt_bits info] s)"
    by (rule for_each_fold) (simp add: get_word_def)
  moreover have "fold (\<lambda>i s. s) xs s = s" for xs :: "nat list" by (induction xs) simp_all
  ultimately show ?thesis by (simp del: for_each.simps)
qed

lemma teardown_directory:
  "teardown [info, info'] ops (Suc n) pt s = Inr ((), s\<lparr>page_pool :=
     pgfree ops pt (fold (pgfree ops) (user_entries (words s) pt [0..<2 ^ pt_bits info]) (page_pool s))\<rparr>)"
proof -
  let ?body = "\<lambda>index. bindM (get_word (entry pt index)) (\<lambda>pte.
      whenM (present pte \<and> user pte) (teardown [info'] ops (Suc n + 1) (baseof pte)))"
  let ?f = "\<lambda>i s. if present (words s (entry pt i)) \<and> user (words s (entry pt i))
      then s\<lparr>page_pool := pgfree ops (baseof (words s (entry pt i))) (page_pool s)\<rparr> else s"
  have "for_each [0..<2 ^ pt_bits info] ?body s = Inr ((), fold ?f [0..<2 ^ pt_bits info] s)"
    by (rule for_each_fold) (simp add: get_word_def teardown_table del: teardown.simps)
  then show ?thesis unfolding free_entries by (simp del: for_each.simps add: teardown.simps(2) [of info])
qed

lemma unprotect_frees:
  assumes "present (words s (as_ptr as))" "user (words s (as_ptr as))"
  shows "unprotect ops as s = Inr ((), s\<lparr>page_pool :=
    pgfree ops (dir (words s) as) (fold (pgfree ops) (user_tables (words s) as) (page_pool s))\<rparr>)"
proof -
  obtain i0 i1 i2 where i: "pgtables = [i0, i1, i2]" "pt_bits i0 = 0" "pt_bits i1 = 10"
    by (simp add: pgtables_def)
  have "user_entries (words s) (dir (words s) as) [0..<1024] = user_tables (words s) as"
    using assms by (simp add: user_entries_def user_tables_def pde_def)
  then show ?thesis
    using assms i(2,3) teardown_directory [of i1 i2 ops 0 "dir (words s) as" s]
    unfolding unprotect_def i(1) teardown.simps(2) [of i0]
    by (simp add: get_word_def entry_def dir_def del: teardown.simps)
qed

lemma used_after_frees:
  "pager_ok ops used \<Longrightarrow> used (fold (pgfree ops) bs p) = used p - set bs"
  by (induction bs arbitrary: p) (auto simp: pager_ok_def)

lemma unprotect_returns_pages:
  assumes ok: "pager_ok ops used" and sp: "space_ok used U0 as s"
  obtains s' where "unprotect ops as s = Inr ((), s')" "used (page_pool s') = U0" "words s' = words s"
proof -
  have r: "present (words s (as_ptr as))" "user (words s (as_ptr as))" using sp unfolding space_ok_def by blast+
  have "used (pgfree ops (dir (words s) as) (fold (pgfree ops) (user_tables (words s) as) (page_pool s)))
      = used (page_pool s) - set (user_tables (words s) as) - {dir (words s) as}"
    using ok used_after_frees [OF ok] by (simp add: pager_ok_def)
  also have "\<dots> = U0" using sp unfolding space_ok_def by blast
  finally show ?thesis using that unprotect_frees [OF r, of ops] by simp
qed

section \<open>New address spaces\<close>

lemma for_range_list:
  assumes "a \<le> b" "b - a \<le> fuel" "b * st \<le> 2 ^ 32" "(b - a) * st < 2 ^ 32" "0 < st"
  shows "for_range fuel (of_nat st) (of_nat (a * st)) (of_nat (b * st)) body
    = for_each (map (\<lambda>j. of_nat (j * st)) [a..<b]) body"
  using assms
proof (induction fuel arbitrary: a)
  case 0
  then show ?case by (simp add: for_range.simps)
next
  case (Suc fuel)
  show ?case
  proof (cases "a = b")
    case True
    then show ?thesis by (simp add: for_range.simps)
  next
    case False
    then have ab: "a < b" using Suc.prems(1) by simp
    have "of_nat (a * st) \<noteq> (of_nat (b * st) :: u32)"
    proof
      assume "of_nat (a * st) = (of_nat (b * st) :: u32)"
      then have "(b * st) mod 2 ^ 32 = (a * st) mod 2 ^ 32"
        by (simp add: word_of_nat_eq_iff take_bit_eq_mod del: of_nat_mult)
      then have "2 ^ 32 dvd b * st - a * st" using ab mod_eq_dvd_iff_nat [of "a * st" "b * st" "2 ^ 32"] by simp
      then have "2 ^ 32 dvd (b - a) * st" by (simp add: diff_mult_distrib)
      then show False using Suc.prems(4,5) ab by (auto dest: dvd_imp_le)
    qed
    moreover have "(of_nat (a * st) :: u32) + of_nat st = of_nat (Suc a * st)" by (simp add: add.commute)
    moreover have "for_range fuel (of_nat st) (of_nat (Suc a * st)) (of_nat (b * st)) body
        = for_each (map (\<lambda>j. of_nat (j * st)) [Suc a..<b]) body"
    proof (rule Suc.IH)
      have "(b - Suc a) * st \<le> (b - a) * st" by (rule mult_right_mono) simp_all
      then show "(b - Suc a) * st < 2 ^ 32" using Suc.prems(4) by (rule le_less_trans)
    qed (use Suc.prems ab in auto)
    ultimately show ?thesis
      using ab by (subst for_range.simps) (simp add: upt_conv_Cons del: of_nat_mult mult_Suc)
  qed
qed

lemma pd_index_of_nat: "j < 1024 \<Longrightarrow> pd_index (of_nat (j * 4194304)) = j"
proof -
  assume "j < 1024"
  then have "uint (of_nat (j * 4194304) :: u32) = int j * 4194304"
    by (simp add: unsigned_of_nat take_bit_nat_eq_self del: of_nat_mult)
  then have "int (pd_index (of_nat (j * 4194304))) = int j" unfolding index_div by simp
  then show ?thesis by simp
qed

definition copy_entries :: "u32 \<Rightarrow> u32 \<Rightarrow> nat list \<Rightarrow> (u32 \<Rightarrow> u32) \<Rightarrow> u32 \<Rightarrow> u32" where
  "copy_entries u k = fold (\<lambda>i m. m(entry u i := m (entry k i)))"

lemma copy_area:
  fixes s :: "'p vme"
  assumes "kernel vma" "area_start vma = of_nat (a * 4194304)" "area_end vma = of_nat (b * 4194304)"
    and "a \<le> b" "b \<le> 1024" "b - a < 1024"
  shows "copy_kernel_area u vma s = Inr ((), s\<lparr>words := copy_entries u (kpt s) [a..<b] (words s)\<rparr>)"
proof -
  let ?body = "\<lambda>cur. bindM (getsM (\<lambda>s. words s (entry (kpt s) (pd_index cur)))) (set_word (entry u (pd_index cur)))"
  let ?f = "\<lambda>cur s. s\<lparr>words := (words s)(entry u (pd_index cur) := words s (entry (kpt s) (pd_index cur)))\<rparr>"
  have "copy_kernel_area u vma s = for_range (2 ^ 10) (of_nat 4194304) (of_nat (a * 4194304)) (of_nat (b * 4194304)) ?body s"
    using assms(1-3) by (simp add: copy_kernel_area_def whenM_def Let_def pd_index_def pgtables_def push_bit_eq_mult)
  also have "\<dots> = for_each (map (\<lambda>j. of_nat (j * 4194304)) [a..<b]) ?body s"
    by (rule fun_cong [OF for_range_list]) (use assms(4-6) in auto)
  also have "\<dots> = Inr ((), fold ?f (map (\<lambda>j. of_nat (j * 4194304)) [a..<b]) s)"
    by (rule for_each_fold) (simp add: set_word_def)
  finally have "copy_kernel_area u vma s = \<dots>" .
  moreover have "fold ?f (map (\<lambda>j. of_nat (j * 4194304)) xs) s = s\<lparr>words := copy_entries u (kpt s) xs (words s)\<rparr>"
    if "list_all (\<lambda>j. j < 1024) xs" for xs and s :: "'p vme"
    using that by (induction xs arbitrary: s) (simp_all add: copy_entries_def pd_index_of_nat del: of_nat_mult)
  ultimately show ?thesis using assms(5) by (simp add: list_all_iff)
qed

lemma copy_entries_other: "\<not> in_page u a \<Longrightarrow> list_all (\<lambda>i. i < 1024) xs \<Longrightarrow> copy_entries u k xs m a = m a"
  by (induction xs arbitrary: m) (auto simp: copy_entries_def in_page_def)

lemma copy_entries_at:
  assumes "baseof u = u" "baseof k = k" "u \<noteq> k" "i < 1024" "list_all (\<lambda>i. i < 1024) xs"
  shows "copy_entries u k xs m (entry u i) = (if i \<in> set xs then m (entry k i) else m (entry u i))"
  using assms(5)
proof (induction xs arbitrary: m)
  case (Cons x xs)
  have "entry k i \<noteq> entry u x" "entry u i = entry u x \<longleftrightarrow> i = x"
    using Cons.prems entry_eq_iff [OF assms(2,1,4), of x] entry_eq_iff [OF assms(1,1,4), of x] assms(3) by auto
  moreover have "copy_entries u k (x # xs) m = copy_entries u k xs (m(entry u x := m (entry k x)))"
    by (simp add: copy_entries_def)
  ultimately show ?case using Cons by auto
qed (simp add: copy_entries_def)

text \<open>The directory of the kernel, and the place of the object that describes an address space.\<close>

definition kernel_index :: "nat \<Rightarrow> bool" where
  "kernel_index i \<longleftrightarrow> i < 256 \<or> 1012 \<le> i \<and> i < 1024"

definition kernel_ok :: "('p \<Rightarrow> u32 set) \<Rightarrow> 'p vme \<Rightarrow> bool" where
  "kernel_ok used s \<longleftrightarrow> (\<forall>p \<in> used (page_pool s). baseof p = p) \<and> kpt s \<in> used (page_pool s)
     \<and> (\<forall>i. kernel_index i \<longrightarrow> present (words s (entry (kpt s) i)) \<longrightarrow>
          baseof (words s (entry (kpt s) i)) \<in> used (page_pool s) \<and> \<not> user (words s (entry (kpt s) i)))
     \<and> (\<forall>i j. kernel_index i \<longrightarrow> kernel_index j \<longrightarrow> present (words s (entry (kpt s) i)) \<longrightarrow>
          present (words s (entry (kpt s) j)) \<longrightarrow>
          baseof (words s (entry (kpt s) i)) = baseof (words s (entry (kpt s) j)) \<longrightarrow> i = j)"

definition as_fields :: "u32 \<Rightarrow> u32 set" where
  "as_fields as = {as_pgsize as, as_area_start as, as_area_end as, as_ptr as}"

definition clear :: "'p pager \<Rightarrow> u32 set \<Rightarrow> u32 \<Rightarrow> bool" where
  "clear ops U a \<longleftrightarrow> pager_avoids ops a \<and> (\<forall>p \<in> U. \<not> in_page p a)"

definition object_ok :: "'p pager \<Rightarrow> u32 set \<Rightarrow> u32 \<Rightarrow> bool" where
  "object_ok ops U as \<longleftrightarrow> (\<forall>a \<in> as_fields as. clear ops U a)"

lemma copy_kernel:
  fixes s :: "'p vme"
  shows "for_each vm_areas (copy_kernel_area u) s
   = Inr ((), s\<lparr>words := copy_entries u (kpt s) ([0..<256] @ [1012..<1024]) (words s)\<rparr>)"
proof -
  let ?v1 = "\<lparr>area_start = 0x00000000, area_end = 0x40000000, kernel = True\<rparr>"
  let ?v2 = "\<lparr>area_start = 0xfd000000, area_end = 0x00000000, kernel = True\<rparr>"
  have end_of_memory: "(0 :: u32) = of_nat (1024 * 4194304)" by (simp add: word_uint_eq_iff)
  have "copy_kernel_area u ?v1 s = Inr ((), s\<lparr>words := copy_entries u (kpt s) [0..<256] (words s)\<rparr>)"
    by (rule copy_area) simp_all
  moreover have "copy_kernel_area u ?v2 t = Inr ((), t\<lparr>words := copy_entries u (kpt t) [1012..<1024] (words t)\<rparr>)"
    for t :: "'p vme" by (rule copy_area) (use end_of_memory in simp_all)
  ultimately show ?thesis
    by (simp add: vm_areas_def copy_entries_def copy_kernel_area_def [of u "\<lparr>area_start = 0x40000000, area_end = _, kernel = _\<rparr>"] del: upt_rec_numeral)
qed

lemma protect_space:
  fixes s :: "'p vme"
  assumes ok: "pager_ok ops used" and k: "kernel_ok used s" and o: "object_ok ops (used (page_pool s)) as"
    and p: "pgalloc ops PGSIZE (page_pool s) = (b, p')" "b \<noteq> 0"
  obtains s' where "protect ops as s = Inr ((), s')" "space_ok used (used (page_pool s)) as s'"
    "\<And>x. lookup s' as x = (if kernel_index (pd_index x) then translate (words s) (kpt s) x else None)"
    "\<And>q i. q \<in> used (page_pool s) \<Longrightarrow> i < 1024 \<Longrightarrow> words s' (entry q i) = words s (entry q i)"
    "kpt s' = kpt s" "used (page_pool s') = insert b (used (page_pool s))"
    "\<And>a. a \<notin> as_fields as \<Longrightarrow> \<not> in_page b a \<Longrightarrow> words s' a = words s a"
proof -
  let ?U = "used (page_pool s)" and ?k = "kpt s"
  have b: "baseof b = b" "b \<notin> ?U" "used p' = insert b ?U" using ok p by (auto simp: pager_ok_def)
  have kp: "?k \<in> ?U" "baseof ?k = ?k" "?k \<noteq> b" using k b(2) by (auto simp: kernel_ok_def)
  have out: "\<not> in_page b a" "q \<in> ?U \<Longrightarrow> \<not> in_page q a"
    if "a \<in> {as_pgsize as, as_area_start as, as_area_end as, as_ptr as}" for a q
    using o p(1) that unfolding object_ok_def as_fields_def clear_def pager_avoids_def by blast+
  define xs where "xs = [0..<256] @ [1012..<1024::nat]"
  have xs: "list_all (\<lambda>i. i < 1024) xs" "i \<in> set xs \<longleftrightarrow> kernel_index i" for i
    unfolding xs_def set_append set_upt kernel_index_def list_all_iff by auto
  define m where "m = copy_entries b ?k xs (zero_page b (words s))"
  define m' where "m' = m(as_pgsize as := PGSIZE, as_area_start as := area_start uvm_area,
    as_area_end as := area_end uvm_area, as_ptr as := b OR PTE_P OR PTE_U)"
  define s' where "s' = s\<lparr>page_pool := p', words := m'\<rparr>"
  have run: "protect ops as s = Inr ((), s')"
    using p by (simp add: protect_def pgallocz_result copy_kernel set_word_def s'_def m'_def m_def xs_def)
  have keep: "m' (entry q i) = m (entry q i)" if "q \<in> insert b ?U" "i < 1024" for q i
  proof -
    have "entry q i \<noteq> a" if "a \<in> {as_pgsize as, as_area_start as, as_area_end as, as_ptr as}" for a
      using out [OF that] \<open>q \<in> insert b ?U\<close> \<open>i < 1024\<close> by (auto simp: in_page_def)
    then show ?thesis by (simp add: m'_def)
  qed
  have d: "m (entry b i) = (if kernel_index i then words s (entry ?k i) else 0)" if "i < 1024" for i
    using copy_entries_at [OF b(1) kp(2) kp(3) [symmetric] that xs(1)] that
      in_page_entry [OF b(1) kp(2) that] in_page_entry [OF b(1) b(1) that] kp(3)
    by (simp add: m_def xs(2) zero_page_def)
  have old: "m (entry q i) = words s (entry q i)" if "q \<in> ?U" "i < 1024" for q i
  proof -
    have "baseof q = q" "q \<noteq> b" using k that b(2) by (auto simp: kernel_ok_def)
    then have "\<not> in_page b (entry q i)" using in_page_entry [OF b(1) _ that(2), of q] by auto
    then show ?thesis unfolding m_def using copy_entries_other [OF _ xs(1)] by (simp add: zero_page_def)
  qed
  have root: "m' (as_ptr as) = b OR PTE_P OR PTE_U" by (simp add: m'_def)
  have dir: "dir m' as = b" using b(1) by (simp add: dir_def root baseof_or)
  have e: "pde m' as i = (if kernel_index i then words s (entry ?k i) else 0)" if "i < 1024" for i
    using that keep [of b i] d [OF that] by (simp add: pde_def dir root)
  have pres: "present (pde m' as i) \<Longrightarrow> i < 1024 \<Longrightarrow> kernel_index i \<and> pde m' as i = words s (entry ?k i)" for i
    using e [of i] by (auto split: if_splits)
  have "tables_ok m' (insert b ?U) as"
    unfolding tables_ok_def dir root
  proof (intro conjI ballI allI impI)
    fix q assume "q \<in> insert b ?U"
    then show "baseof q = q" "\<not> in_page q (as_ptr as)" using b(1) k out [of "as_ptr as"] by (auto simp: kernel_ok_def)
  next
    fix i assume "i < 1024" "present (pde m' as i)"
    then show "baseof (pde m' as i) \<in> insert b ?U" "baseof (pde m' as i) \<noteq> b"
      using pres [of i] k b(2) by (auto simp: kernel_ok_def)
  next
    fix i j assume "i < 1024" "j < 1024" "present (pde m' as i)" "present (pde m' as j)"
      "baseof (pde m' as i) = baseof (pde m' as j)"
    then show "i = j" using pres [of i] pres [of j] k by (auto simp: kernel_ok_def)
  qed simp
  moreover have "user_tables m' as = []"
    using pres k by (fastforce simp: user_tables_def filter_empty_conv kernel_ok_def)
  moreover have "user (m' (as_ptr as))" by (simp add: root flag_bits bit_or_iff flag_consts)
  moreover have "\<not> present (pde m' as i)" if "user_index i" "i < 1024" for i
    using e [OF that(2)] that by (auto simp: user_index_def kernel_index_def)
  moreover have "present (m' (as_ptr as))" by (simp add: root)
  ultimately have sp: "space_ok used ?U as s'"
    using b(2,3) by (auto simp: space_ok_def s'_def dir)
  have lk: "lookup s' as x = (if kernel_index (pd_index x) then translate (words s) ?k x else None)" for x
  proof -
    have "pte m' as (pd_index x) (pt_index x) = words s (entry (baseof (pde m' as (pd_index x))) (pt_index x))"
      if "present (pde m' as (pd_index x))"
      using that pres [OF that] k keep old by (auto simp: pte_def kernel_ok_def)
    moreover have "words s' = m'" by (simp add: s'_def)
    ultimately show ?thesis using e [of "pd_index x"] kp(2)
      by (auto simp: lookup_pte [OF sp] Let_def translate_entries pte_def)
  qed
  have "m' a = words s a" if "a \<notin> as_fields as" "\<not> in_page b a" for a
    using that copy_entries_other [OF that(2) xs(1)] by (simp add: m'_def m_def as_fields_def zero_page_def)
  then show ?thesis by (intro that [OF run sp lk]) (use keep old b(3) in \<open>auto simp: s'_def\<close>)
qed

section \<open>The tables of the kernel\<close>

text \<open>Page \<open>n\<close> of the address space, and the tables once the pages of a set are mapped to themselves.\<close>

definition page_addr :: "nat \<Rightarrow> u32" where
  "page_addr n = of_nat (n * 4096)"

definition page_no :: "u32 \<Rightarrow> nat" where
  "page_no x = pd_index x * 1024 + pt_index x"

definition tables_made :: "(u32 \<Rightarrow> u32) \<Rightarrow> u32 \<Rightarrow> nat set" where
  "tables_made m as = {i. i < 1024 \<and> present (pde m as i)}"

definition identity_ok :: "('p \<Rightarrow> u32 set) \<Rightarrow> nat \<Rightarrow> u32 \<Rightarrow> nat set \<Rightarrow> 'p vme \<Rightarrow> bool" where
  "identity_ok used c0 as N s \<longleftrightarrow> tables_ok (words s) (used (page_pool s)) as
     \<and> tables_made (words s) as \<subseteq> {i. kernel_index i}
     \<and> card (used (page_pool s)) \<le> c0 + of_bool (present (words s (as_ptr as))) + card (tables_made (words s) as)
     \<and> (\<forall>i < 1024. present (pde (words s) as i) \<longrightarrow> writable (pde (words s) as i) \<and> \<not> user (pde (words s) as i))
     \<and> (\<forall>i < 1024. \<forall>j < 1024. pte (words s) as i j
          = (if i * 1024 + j \<in> N then page_addr (i * 1024 + j) OR PTE_P OR PTE_W else 0))"

lemma page_addr_index:
  assumes "n < 2 ^ 20"
  shows "pd_index (page_addr n) = n div 1024" "pt_index (page_addr n) = n mod 1024" "baseof (page_addr n) = page_addr n"
proof -
  have u: "uint (page_addr n) = int n * 4096"
    using assms unfolding page_addr_def by (simp add: unsigned_of_nat take_bit_nat_eq_self del: of_nat_mult)
  have "int (pd_index (page_addr n)) = int (n div 1024)" unfolding index_div u
    using div_mult_mult2 [of 4096 "int n" 1024] by (simp add: zdiv_int)
  then show "pd_index (page_addr n) = n div 1024" by simp
  have "int (pt_index (page_addr n)) = int (n mod 1024)" unfolding index_div u by (simp add: zmod_int)
  then show "pt_index (page_addr n) = n mod 1024" by simp
  show "baseof (page_addr n) = page_addr n"
    unfolding frame_baseof [symmetric] frame_def u by (simp add: page_addr_def)
qed

lemma kernel_flags: "baseof b = b \<Longrightarrow> writable (b OR PTE_P OR PTE_W) \<and> \<not> user (b OR PTE_P OR PTE_W)"
  using page_bits [of b 2] by (simp add: flag_bits bit_or_iff flag_consts)

text \<open>An allocator that has a page left as long as at most \<open>n\<close> are in use. The kernel needs a directory and 268 tables.\<close>

definition serves :: "'p pager \<Rightarrow> ('p \<Rightarrow> u32 set) \<Rightarrow> nat \<Rightarrow> bool" where
  "serves ops used n \<longleftrightarrow> (\<forall>p. card (used p) \<le> n \<longrightarrow> \<not> no_page ops p)"

lemma card_kernel: "card {i. kernel_index i} = 268" "finite {i. kernel_index i}"
proof -
  have k: "{i. kernel_index i} = {..<256} \<union> {1012..<1024}" by (auto simp: kernel_index_def)
  show "finite {i. kernel_index i}" unfolding k by simp
  show "card {i. kernel_index i} = 268" unfolding k by (subst card_Un_disjoint) auto
qed

lemma new_root:
  assumes ok: "pager_ok ops used" "pager_avoids ops (as_ptr as)" "serves ops used (c0 + 268)" and inv: "identity_ok used c0 as N s"
  shows "present (words s (as_ptr as)) \<or> (\<exists>s1. ptwalk ops as va PTE_W s = ptwalk ops as va PTE_W s1
    \<and> identity_ok used c0 as N s1 \<and> present (words s1 (as_ptr as)))"
  using ok(1)
proof (cases rule: next_table_cases [of ops used "as_ptr as" PTE_W s])
  case fail
  then have "tables_made (words s) as = {}" by (simp add: tables_made_def pde_def)
  then have "card (used (page_pool s)) \<le> c0 + 268" using inv fail(2) by (simp add: identity_ok_def)
  then show ?thesis using ok(3) fail(3) by (simp add: serves_def)
next
  case (new b p')
  let ?s1 = "s\<lparr>page_pool := p', words := (zero_page b (words s))(as_ptr as := b OR PTE_P OR PTE_W)\<rparr>"
  have t: "tables_ok (words s) (used (page_pool s)) as" using inv by (simp add: identity_ok_def)
  have out: "\<not> in_page b (as_ptr as)" by (rule next_table_avoids [OF ok(2) new(1,2)])
  note nd = new_dir [OF t new(2,3,4) baseof_consts(3) out]
  have "next_table ops (as_ptr as) PTE_W ?s1 = Inr (b, ?s1)"
    using nd(3,4) by (simp add: next_table_def get_word_def dir_def)
  then have "ptwalk ops as va PTE_W s = ptwalk ops as va PTE_W ?s1"
    using new(1) by (simp add: ptwalk_levels)
  moreover have "identity_ok used c0 as N ?s1"
  proof -
    have p: "pde (words ?s1) as i = 0" if "i < 1024" for i using nd(2) that by auto
    then have made: "tables_made (words ?s1) as = {}" "tables_made (words s) as = {}"
      using new(2) by (simp_all add: tables_made_def pde_def)
    have "card (insert b (used (page_pool s))) \<le> Suc (card (used (page_pool s)))" by (simp add: card_insert_if)
    also have "card (used (page_pool s)) \<le> c0" using inv made(2) new(2) by (simp add: identity_ok_def)
    finally have "card (used p') \<le> Suc c0" using new(5) by simp
    moreover have "pte (words s) as i j = 0" for i j using new(2) by (simp add: pte_def pde_def)
    ultimately show ?thesis using inv nd(1,4) p new(5) made by (simp add: identity_ok_def pte_def)
  qed
  ultimately show ?thesis using nd(4) by auto
qed simp

lemma identity_set:
  assumes inv: "identity_ok used c0 as N s" and n: "n < 2 ^ 20" and p: "present (pde (words s) as (n div 1024))"
  shows "identity_ok used c0 as (insert n N) (s\<lparr>words := (words s)(entry (baseof (pde (words s) as (n div 1024))) (n mod 1024)
    := page_addr n OR PTE_P OR PTE_W)\<rparr>)"
proof -
  have i: "n div 1024 < 1024" "n mod 1024 < 1024" using n by auto
  have t: "tables_ok (words s) (used (page_pool s)) as" using inv by (simp add: identity_ok_def)
  note st = set_pte [OF t i p, where v = "page_addr n OR PTE_P OR PTE_W"]
  let ?m = "(words s)(entry (baseof (pde (words s) as (n div 1024))) (n mod 1024) := page_addr n OR PTE_P OR PTE_W)"
  have made: "tables_made ?m as = tables_made (words s) as" using st(2) by (auto simp: tables_made_def)
  have "k * 1024 + l = n \<longleftrightarrow> k = n div 1024 \<and> l = n mod 1024" if "l < 1024" for k l using that by auto
  then show ?thesis using inv st(1-3,5) made by (auto simp: identity_ok_def)
qed

lemma identity_new_table:
  assumes inv: "identity_ok used c0 as N s" and r: "present (words s (as_ptr as))" and i: "kernel_index i"
    and b: "\<not> present (pde (words s) as i)" "baseof b = b" "b \<notin> used (page_pool s)"
      "used p' = insert b (used (page_pool s))" "\<not> in_page b (as_ptr as)"
  defines "s' \<equiv> s\<lparr>page_pool := p', words := (zero_page b (words s))(entry (dir (words s) as) i := b OR PTE_P OR PTE_W)\<rparr>"
  shows "identity_ok used c0 as N s'" "pde (words s') as i = b OR PTE_P OR PTE_W"
proof -
  have t: "tables_ok (words s) (used (page_pool s)) as" using inv by (simp add: identity_ok_def)
  have i': "i < 1024" using i by (auto simp: kernel_index_def)
  note nt = new_table [OF t r i' b(1,2,3) baseof_consts(3) b(5)]
  have w: "words s' = (zero_page b (words s))(entry (dir (words s) as) i := b OR PTE_P OR PTE_W)" by (simp add: s'_def)
  note nt = nt [folded w]
  show e: "pde (words s') as i = b OR PTE_P OR PTE_W" using nt(2) [OF i'] by simp
  have made: "tables_made (words s') as = insert i (tables_made (words s) as)"
    using nt(2) i' by (auto simp: tables_made_def split: if_splits)
  have "i \<notin> tables_made (words s) as" "finite (tables_made (words s) as)"
    using b(1) by (simp_all add: tables_made_def)
  then have "card (tables_made (words s') as) = Suc (card (tables_made (words s) as))" using made by simp
  moreover have "card (used p') \<le> Suc (card (used (page_pool s)))" unfolding b(4) by (simp add: card_insert_if)
  moreover have "page_pool s' = p'" by (simp add: s'_def)
  ultimately show "identity_ok used c0 as N s'"
    using inv nt(1-3,5) b(4) i made kernel_flags [OF b(2)] unfolding identity_ok_def by (auto split: if_splits)
qed

lemma identity_step:
  assumes ok: "pager_ok ops used" "pager_avoids ops (as_ptr as)" "serves ops used (c0 + 268)" and inv: "identity_ok used c0 as N s"
    and n: "n < 2 ^ 20" "kernel_index (n div 1024)"
  shows "\<exists>s'. map_identity ops as (page_addr n) s = Inr ((), s') \<and> identity_ok used c0 as (insert n N) s'"
proof -
  have rooted: ?thesis if r: "present (words s1 (as_ptr as))" and inv1: "identity_ok used c0 as N s1"
    and w: "ptwalk ops as (page_addr n) PTE_W s = ptwalk ops as (page_addr n) PTE_W s1" for s1
  proof -
    note ix = page_addr_index(1,2) [OF n(1)]
    have t: "tables_ok (words s1) (used (page_pool s1)) as" using inv1 by (simp add: identity_ok_def)
    from ok(1,2) t r show ?thesis
    proof (cases rule: ptwalk_cases [where va = "page_addr n" and flags = PTE_W])
      case fail
      have "tables_made (words s1) as \<subset> {i. kernel_index i}"
        using inv1 fail(2) n(2) ix unfolding identity_ok_def tables_made_def by auto
      then have "card (tables_made (words s1) as) < 268" using psubset_card_mono card_kernel by metis
      then have "card (used (page_pool s1)) \<le> c0 + 268" using inv1 r by (simp add: identity_ok_def)
      then show ?thesis using ok(3) fail(3) by (simp add: serves_def)
    next
      case there
      then show ?thesis using w identity_set [OF inv1 n(1)] by (simp add: map_identity_def set_word_def ix)
    next
      case (new b p')
      note nt = identity_new_table [OF inv1 r n(2) new(2) [unfolded ix] new(3-6)]
      have b: "baseof (b OR PTE_P OR PTE_W) = b" using new(3) by (simp add: baseof_or)
      show ?thesis
        using identity_set [OF nt(1) n(1)] nt(2) w new(1) b by (simp add: map_identity_def set_word_def ix)
    qed
  qed
  from new_root [OF ok inv, of "page_addr n"] show ?thesis using rooted inv by blast
qed

lemma identity_pages:
  assumes ok: "pager_ok ops used" "pager_avoids ops (as_ptr as)" "serves ops used (c0 + 268)" and inv: "identity_ok used c0 as N s"
    and xs: "list_all (\<lambda>n. n < 2 ^ 20 \<and> kernel_index (n div 1024)) xs"
  shows "\<exists>s'. for_each (map page_addr xs) (map_identity ops as) s = Inr ((), s') \<and> identity_ok used c0 as (N \<union> set xs) s'"
  using inv xs
proof (induction xs arbitrary: N s)
  case (Cons x xs)
  then have "x < 2 ^ 20" "kernel_index (x div 1024)" by simp_all
  from identity_step [OF ok Cons.prems(1) this]
  obtain s' where s': "map_identity ops as (page_addr x) s = Inr ((), s')" "identity_ok used c0 as (insert x N) s'" by blast
  show ?case using Cons.IH [OF s'(2)] Cons.prems(2) s'(1) by simp
qed simp

lemma map_area:
  assumes "kernel vma" "area_start vma = page_addr a" "area_end vma = page_addr b"
    and "a \<le> b" "b \<le> 2 ^ 20" "b - a < 2 ^ 20"
  shows "map_kernel_area ops as vma = for_each (map page_addr [a..<b]) (map_identity ops as)"
proof -
  have "map_kernel_area ops as vma = for_range (2 ^ 20) (of_nat 4096) (of_nat (a * 4096)) (of_nat (b * 4096)) (map_identity ops as)"
    using assms(1-3) by (simp add: map_kernel_area_def whenM_def PGSIZE_def page_addr_def)
  also have "\<dots> = for_each (map (\<lambda>j. of_nat (j * 4096)) [a..<b]) (map_identity ops as)"
    by (rule for_range_list) (use assms(4-6) in auto)
  finally show ?thesis by (simp add: page_addr_def [abs_def])
qed

lemma kernel_pages:
  assumes ok: "pager_ok ops used" "pager_avoids ops (as_ptr as)" "serves ops used (c0 + 268)" and inv: "identity_ok used c0 as {} s"
  shows "\<exists>s'. for_each vm_areas (map_kernel_area ops as) s = Inr ((), s')
    \<and> identity_ok used c0 as ({..<0x40000} \<union> {0xfd000..<0x100000}) s'"
proof -
  let ?v0 = "\<lparr>area_start = 0x40000000, area_end = 0x80000000, kernel = False\<rparr>"
  let ?v1 = "\<lparr>area_start = 0x00000000, area_end = 0x40000000, kernel = True\<rparr>"
  let ?v2 = "\<lparr>area_start = 0xfd000000, area_end = 0x00000000, kernel = True\<rparr>"
  have end_of_memory: "(0 :: u32) = page_addr 0x100000" by (simp add: word_uint_eq_iff page_addr_def)
  have v0: "map_kernel_area ops as ?v0 s = Inr ((), s)" by (simp add: map_kernel_area_def)
  have v1: "map_kernel_area ops as ?v1 = for_each (map page_addr [0..<0x40000]) (map_identity ops as)"
    by (rule map_area) (simp_all add: page_addr_def)
  have v2: "map_kernel_area ops as ?v2 = for_each (map page_addr [0xfd000..<0x100000]) (map_identity ops as)"
    by (rule map_area) (use end_of_memory in \<open>simp_all add: page_addr_def\<close>)
  have run: "for_each vm_areas (map_kernel_area ops as) s
      = thenM (map_kernel_area ops as ?v1) (thenM (map_kernel_area ops as ?v2) (retM ())) s"
    unfolding vm_areas_def for_each.simps by (rule thenM_Inr [where m = "map_kernel_area ops as ?v0" and s = s, OF v0])
  have l: "list_all (\<lambda>n. n < 2 ^ 20 \<and> kernel_index (n div 1024)) [0..<0x40000]"
    "list_all (\<lambda>n. n < 2 ^ 20 \<and> kernel_index (n div 1024)) [0xfd000..<0x100000]"
    unfolding list_all_iff set_upt kernel_index_def by auto
  obtain s1 where "for_each (map page_addr [0..<0x40000]) (map_identity ops as) s = Inr ((), s1)"
    "identity_ok used c0 as ({} \<union> set [0..<0x40000]) s1" using identity_pages [OF ok inv l(1)] by blast
  then have s1: "map_kernel_area ops as ?v1 s = Inr ((), s1)" "identity_ok used c0 as {..<0x40000} s1"
    unfolding v1 set_upt by (simp_all add: lessThan_atLeast0)
  obtain s2 where "for_each (map page_addr [0xfd000..<0x100000]) (map_identity ops as) s1 = Inr ((), s2)"
    "identity_ok used c0 as ({..<0x40000} \<union> set [0xfd000..<0x100000]) s2"
    using identity_pages [OF ok s1(2) l(2)] by blast
  then have "map_kernel_area ops as ?v2 s1 = Inr ((), s2)"
    "identity_ok used c0 as ({..<0x40000} \<union> {0xfd000..<0x100000}) s2" unfolding v2 set_upt by blast+
  then show ?thesis unfolding run using s1(1) by simp
qed

lemma page_no_kernel: "page_no x \<in> {..<0x40000} \<union> {0xfd000..<0x100000} \<longleftrightarrow> kernel_index (pd_index x)"
proof -
  have "j < 1024 \<Longrightarrow> i < 1024 \<Longrightarrow> i * 1024 + j \<in> {..<0x40000} \<union> {0xfd000..<0x100000} \<longleftrightarrow> kernel_index i" for i j :: nat
    unfolding kernel_index_def by auto
  from this [OF index_bound(2) index_bound(1)] show ?thesis unfolding page_no_def .
qed

lemma page_no_offset: "page_addr (page_no x) + offset x = x"
proof -
  have "uint x div 4096 = int (page_no x)"
    unfolding page_no_def using zdiv_zmult2_eq [of 1024 "uint x" 4096] index_div [of x] by simp
  then have "word_of_int (int (page_no x) * 4096 + uint x mod 4096) = x"
    using div_mult_mod_eq [of "uint x" 4096] by simp
  then show ?thesis by (simp add: page_addr_def offset_def)
qed

lemma vme_init_identity:
  assumes ok: "pager_ok ops used" "pager_avoids ops (as_ptr as)" "serves ops used (card (used (page_pool s)) + 268)"
    and U: "\<And>p. p \<in> used (page_pool s) \<Longrightarrow> baseof p = p \<and> \<not> in_page p (as_ptr as)"
  shows "\<exists>s'. vme_init ops 0 as s = Inr (True, s') \<and> cr3 s' = kpt s' \<and> bit (cr0 s') 31 \<and> kernel_ok used s'
    \<and> (\<forall>x. translate (words s') (cr3 s') x = (if kernel_index (pd_index x) then Some (x, True, False) else None))"
proof -
  let ?s0 = "s\<lparr>words := (words s)(as_ptr as := 0)\<rparr>" and ?c = "card (used (page_pool s))"
  have z: "\<not> present (pde (words ?s0) as i)" "pte (words ?s0) as i j = 0" for i j
    by (simp_all add: pte_def pde_def)
  have "identity_ok used ?c as {} ?s0"
    using U z by (simp add: identity_ok_def tables_ok_def tables_made_def)
  then obtain s1 where s1: "for_each vm_areas (map_kernel_area ops as) ?s0 = Inr ((), s1)"
    and inv: "identity_ok used ?c as ({..<0x40000} \<union> {0xfd000..<0x100000}) s1" using kernel_pages [OF ok] by blast
  let ?N = "{..<0x40000} \<union> {0xfd000..<0x100000::nat}" and ?m = "words s1"
  define s' where "s' = s1\<lparr>kpt := dir ?m as, cr3 := dir ?m as, cr0 := cr0 s1 OR CR0_PG\<rparr>"
  have run: "vme_init ops 0 as s = Inr (True, s')"
    using s1 by (simp add: vme_init_def set_word_def dir_def s'_def)
  have t: "tables_ok ?m (used (page_pool s1)) as" using inv by (simp add: identity_ok_def)
  have e: "pte ?m as (pd_index x) (pt_index x) = (if kernel_index (pd_index x)
      then page_addr (page_no x) OR PTE_P OR PTE_W else 0)" for x
  proof -
    have "pte ?m as (pd_index x) (pt_index x) = (if page_no x \<in> ?N then page_addr (page_no x) OR PTE_P OR PTE_W else 0)"
      using inv index_bound [of x] unfolding identity_ok_def page_no_def by blast
    then show ?thesis unfolding page_no_kernel .
  qed
  have "kernel_index (pd_index 0)" by (simp add: kernel_index_def index_bits)
  then have "present (pte ?m as (pd_index 0) (pt_index 0))" unfolding e by simp
  then have r: "present (?m (as_ptr as))" by (auto simp: pte_def pde_def split: if_splits)
  have "translate ?m (dir ?m as) x = (if kernel_index (pd_index x) then Some (x, True, False) else None)" for x
  proof -
    have "translate ?m (dir ?m as) x = translate ?m (?m (as_ptr as)) x"
      by (simp add: translate_entries dir_def)
    moreover have "page_no x < 2 ^ 20" if "kernel_index (pd_index x)"
      using page_no_kernel [of x] that by auto
    moreover have "writable (pde ?m as (pd_index x)) \<and> \<not> user (pde ?m as (pd_index x))"
      if "kernel_index (pd_index x)"
    proof -
      have "present (pte ?m as (pd_index x) (pt_index x))" using that unfolding e by simp
      then have "present (pde ?m as (pd_index x))" by (auto simp: pte_def split: if_splits)
      then show ?thesis using inv index_bound(1) [of x] unfolding identity_ok_def by blast
    qed
    ultimately show ?thesis
      using e [of x] page_addr_index(3) [of "page_no x"] kernel_flags [of "page_addr (page_no x)"]
      by (auto simp: translate_pte [of ?m as, OF r] Let_def baseof_or page_no_offset)
  qed
  moreover have "kernel_ok used s'"
  proof -
    have d: "pde ?m as i = ?m (entry (dir ?m as) i)" for i using r by (simp add: pde_def)
    have k: "kernel_index i \<Longrightarrow> i < 1024" for i by (auto simp: kernel_index_def)
    show ?thesis
      using t inv r k unfolding kernel_ok_def tables_ok_def identity_ok_def d [symmetric] s'_def by (simp add: d)
  qed
  moreover have "bit (cr0 s') 31" by (simp add: s'_def bit_or_iff CR0_PG_def)
  ultimately show ?thesis using run by (auto simp: s'_def)
qed

section \<open>The life of an address space\<close>

definition map_all :: "'p pager \<Rightarrow> u32 \<Rightarrow> (u32 \<times> u32 \<times> u32) list \<Rightarrow> ('p, unit) V" where
  "map_all ops as reqs = for_each reqs (\<lambda>(va, pa, prot). vme_map ops as va pa prot)"

text \<open>The specification: a partial map from the pages to frames and the permission to write.\<close>

definition spec_map :: "u32 \<times> u32 \<times> u32 \<Rightarrow> (u32 \<rightharpoonup> u32 \<times> bool) \<Rightarrow> (u32 \<rightharpoonup> u32 \<times> bool)" where
  "spec_map r M = (case r of (va, pa, prot) \<Rightarrow>
     M(va := if prot = MMAP_NONE then None else Some (pa, prot AND MMAP_WRITE \<noteq> 0)))"

definition represents :: "(u32 \<Rightarrow> (u32 \<times> bool \<times> bool) option) \<Rightarrow> (u32 \<rightharpoonup> u32 \<times> bool) \<Rightarrow> 'p vme \<Rightarrow> u32 \<Rightarrow> bool" where
  "represents K M s as \<longleftrightarrow> (\<forall>x. lookup s as x = (if kernel_index (pd_index x) then K x
     else map_option (\<lambda>(pa, w). (pa + offset x, w, True)) (M (baseof x))))"

lemma vme_map_guards: "vme_map ops as va pa prot s = Inr (u, s') \<Longrightarrow> map_ok va pa"
  by (auto simp: vme_map_def map_ok_def ROUNDDOWN_def baseof_def split: if_splits)

lemma user_not_kernel: "user_index i \<Longrightarrow> \<not> kernel_index i"
  by (simp add: user_index_def kernel_index_def)

lemma vme_map_represents:
  assumes ok: "pager_ok ops used" "pager_avoids ops (as_ptr as)" and sp: "space_ok used U0 as s" and r: "represents K M s as"
    and run: "vme_map ops as va pa prot s = Inr (u, s')"
  shows "space_ok used U0 as s' \<and> represents K (spec_map (va, pa, prot) M) s' as"
proof -
  have g: "map_ok va pa" by (rule vme_map_guards [OF run])
  then have va: "baseof va = va" "\<not> kernel_index (pd_index va)" by (simp_all add: map_ok_def user_va user_not_kernel)
  have "space_ok used U0 as s'" and l: "lookup s' as x = (if baseof x = va
      then if prot = MMAP_NONE then None else Some (pa + offset x, prot AND MMAP_WRITE \<noteq> 0, True)
      else lookup s as x)" for x
    using vme_map_lookup [OF ok sp g, of prot] run by auto
  moreover have "\<not> kernel_index (pd_index x)" if "baseof x = va" for x
    using va that same_page [of x va] by simp
  ultimately show ?thesis using r by (auto simp: represents_def spec_map_def)
qed

lemma map_all_represents:
  assumes ok: "pager_ok ops used" "pager_avoids ops (as_ptr as)" and "space_ok used U0 as s" "represents K M s as"
    and "map_all ops as reqs s = Inr (u, s')"
  shows "space_ok used U0 as s' \<and> represents K (fold spec_map reqs M) s' as"
  using assms(3-5)
proof (induction reqs arbitrary: M s)
  case (Cons r reqs)
  obtain va pa prot where r: "r = (va, pa, prot)" by (cases r) auto
  from Cons.prems(3) r obtain s1 where s1: "vme_map ops as va pa prot s = Inr ((), s1)" "map_all ops as reqs s1 = Inr (u, s')"
    by (auto simp: map_all_def comp_elims)
  from vme_map_represents [OF ok Cons.prems(1,2) s1(1)] have "space_ok used U0 as s1" "represents K (spec_map r M) s1 as"
    using r by auto
  from Cons.IH [OF this s1(2)] show ?case by simp
qed (simp add: map_all_def)

lemma protect_represents:
  assumes ok: "pager_ok ops used" and k: "kernel_ok used s" "object_ok ops (used (page_pool s)) as"
    and run: "protect ops as s = Inr (u, s')"
  shows "space_ok used (used (page_pool s)) as s' \<and> represents (translate (words s) (kpt s)) Map.empty s' as"
proof -
  obtain b p' where p: "pgalloc ops PGSIZE (page_pool s) = (b, p')" by fastforce
  have "b \<noteq> 0" using run p by (auto simp: protect_def pgallocz_result comp_elims)
  then obtain s1 where "protect ops as s = Inr ((), s1)" "space_ok used (used (page_pool s)) as s1"
    "\<And>x. lookup s1 as x = (if kernel_index (pd_index x) then translate (words s) (kpt s) x else None)"
    using protect_space [OF ok k p] by metis
  then show ?thesis using run by (simp add: represents_def)
qed

lemma avoids_root: "object_ok ops U as \<Longrightarrow> pager_avoids ops (as_ptr as)"
  by (simp add: object_ok_def as_fields_def clear_def)

lemma space_maps:
  assumes ok: "pager_ok ops used" and k: "kernel_ok used s" "object_ok ops (used (page_pool s)) as"
    and run: "thenM (protect ops as) (map_all ops as reqs) s = Inr (u, s')"
  shows "space_ok used (used (page_pool s)) as s'
    \<and> represents (translate (words s) (kpt s)) (fold spec_map reqs Map.empty) s' as"
proof -
  from run obtain s1 where s1: "protect ops as s = Inr ((), s1)" "map_all ops as reqs s1 = Inr (u, s')"
    by (auto simp: comp_elims)
  show ?thesis
    using map_all_represents [OF ok avoids_root [OF k(2)] _ _ s1(2)] protect_represents [OF ok k s1(1)] by blast
qed

lemma space_returns_pages:
  assumes ok: "pager_ok ops used" and k: "kernel_ok used s" "object_ok ops (used (page_pool s)) as"
    and run: "thenM (protect ops as) (map_all ops as reqs) s = Inr (u, s1)"
  shows "\<exists>s'. unprotect ops as s1 = Inr ((), s') \<and> used (page_pool s') = used (page_pool s)"
  using space_maps [OF ok k run] unprotect_returns_pages [OF ok] by metis

text \<open>
  A legal sequence of requests, over the specification alone: a page is entered when it has no mapping and taken out
  when it has one. A directory and its 1024 tables are all the pages a space can hold, so such a sequence is served.
\<close>

fun legal :: "(u32 \<rightharpoonup> u32 \<times> bool) \<Rightarrow> (u32 \<times> u32 \<times> u32) list \<Rightarrow> bool" where
  "legal M [] \<longleftrightarrow> True"
| "legal M ((va, pa, prot) # reqs) \<longleftrightarrow> map_ok va pa \<and> (M va = None \<longleftrightarrow> prot \<noteq> MMAP_NONE)
     \<and> legal (spec_map (va, pa, prot) M) reqs"

lemma space_pages:
  assumes "space_ok used U0 as s"
  shows "card (used (page_pool s)) \<le> card U0 + 1025"
proof -
  let ?T = "user_tables (words s) as"
  have "length ?T \<le> 1024" using length_filter_le [of _ "[0..<1024]"] by (simp add: user_tables_def)
  then have "card (insert (dir (words s) as) (set ?T)) \<le> 1025"
    using card_length [of "dir (words s) as # ?T"] by simp
  moreover have "used (page_pool s) = U0 \<union> insert (dir (words s) as) (set ?T)" using assms unfolding space_ok_def by blast
  ultimately show ?thesis using card_Un_le [of U0 "insert (dir (words s) as) (set ?T)"] by simp
qed

lemma vme_map_served:
  assumes ok: "pager_ok ops used" "pager_avoids ops (as_ptr as)" "serves ops used (card U0 + 1025)"
    and sp: "space_ok used U0 as s" and r: "represents K M s as"
    and g: "map_ok va pa" "M va = None \<longleftrightarrow> prot \<noteq> MMAP_NONE"
  shows "\<exists>s'. vme_map ops as va pa prot s = Inr ((), s')"
proof -
  have "\<not> kernel_index (pd_index va)" "baseof va = va" using g(1) by (simp_all add: map_ok_def user_va user_not_kernel)
  then have "lookup s as va = None \<longleftrightarrow> prot \<noteq> MMAP_NONE" using r g(2) by (simp add: represents_def)
  moreover have "\<not> no_page ops (page_pool s)" using space_pages [OF sp] ok(3) by (simp add: serves_def)
  ultimately show ?thesis
    using vme_map_lookup [OF ok(1,2) sp g(1), of prot] by (auto split: sum.splits)
qed

lemma map_all_served:
  assumes ok: "pager_ok ops used" "pager_avoids ops (as_ptr as)" "serves ops used (card U0 + 1025)"
    and "space_ok used U0 as s" "represents K M s as" "legal M reqs"
  shows "\<exists>s'. map_all ops as reqs s = Inr ((), s')"
  using assms(4-6)
proof (induction M reqs arbitrary: s rule: legal.induct)
  case (2 M va pa prot reqs)
  then obtain s1 where s1: "vme_map ops as va pa prot s = Inr ((), s1)" using vme_map_served [OF ok] by fastforce
  obtain s' where "map_all ops as reqs s1 = Inr ((), s')"
    using 2 vme_map_represents [OF ok(1,2) 2(2,3) s1] by auto
  then show ?case using s1 by (simp add: map_all_def)
qed (simp add: map_all_def)

lemma space_served:
  assumes ok: "pager_ok ops used" "serves ops used (card (used (page_pool s)) + 1025)"
    and k: "kernel_ok used s" "object_ok ops (used (page_pool s)) as" and l: "legal Map.empty reqs"
  shows "\<exists>s'. thenM (protect ops as) (map_all ops as reqs) s = Inr ((), s')"
proof -
  obtain b p' where p: "pgalloc ops PGSIZE (page_pool s) = (b, p')" by fastforce
  moreover have "\<not> no_page ops (page_pool s)" using ok(2) by (simp add: serves_def)
  ultimately have "b \<noteq> 0" by (simp add: no_page_def)
  then obtain s1 where s1: "protect ops as s = Inr ((), s1)" using protect_space [OF ok(1) k p] by metis
  then have "\<exists>s'. map_all ops as reqs s1 = Inr ((), s')"
    using map_all_served [OF ok(1) avoids_root [OF k(2)] ok(2) _ _ l] protect_represents [OF ok(1) k s1] by blast
  then show ?thesis using s1 by auto
qed

section \<open>Several address spaces\<close>

text \<open>What a walk from \<open>as\<close> reads when its tables are among \<open>U\<close>, and what an operation on another space keeps.\<close>

definition same_pages :: "u32 set \<Rightarrow> (u32 \<Rightarrow> u32) \<Rightarrow> (u32 \<Rightarrow> u32) \<Rightarrow> bool" where
  "same_pages U m m' \<longleftrightarrow> (\<forall>q \<in> U. \<forall>i < 1024. m' (entry q i) = m (entry q i))"

definition leaves :: "'p pager \<Rightarrow> ('p \<Rightarrow> u32 set) \<Rightarrow> u32 set \<Rightarrow> u32 set \<Rightarrow> 'p vme \<Rightarrow> 'p vme \<Rightarrow> bool" where
  "leaves ops used U F s s' \<longleftrightarrow> same_pages U (words s) (words s') \<and> kpt s' = kpt s
     \<and> (\<forall>a. clear ops (used (page_pool s)) a \<longrightarrow> clear ops (used (page_pool s')) a \<and> (a \<notin> F \<longrightarrow> words s' a = words s a))"

lemma same_pages_trans: "same_pages U m m' \<Longrightarrow> same_pages U m' m'' \<Longrightarrow> same_pages U m m''"
  by (simp add: same_pages_def)

lemma leaves_trans: "leaves ops used U F s s' \<Longrightarrow> leaves ops used U F s' s'' \<Longrightarrow> leaves ops used U F s s''"
  unfolding leaves_def using same_pages_trans by metis

lemma leaves_mono: "leaves ops used U F s s' \<Longrightarrow> F \<subseteq> G \<Longrightarrow> leaves ops used U G s s'"
  unfolding leaves_def by blast

lemma leaves_refl: "leaves ops used U F s s"
  by (simp add: leaves_def same_pages_def)

lemma lookup_same:
  assumes t: "tables_ok (words s) U as" "present (words s (as_ptr as))"
    and m: "same_pages U (words s) (words s')" "words s' (as_ptr as) = words s (as_ptr as)"
  shows "lookup s' as x = lookup s as x"
proof -
  have d: "dir (words s) as \<in> U" using dir_page [OF t] .
  have e: "pde (words s') as i = pde (words s) as i" if "i < 1024" for i
    using m d that by (simp add: pde_def dir_def same_pages_def)
  have "pte (words s') as i j = pte (words s) as i j" if "i < 1024" "j < 1024" for i j
  proof (cases "present (pde (words s) as i)")
    case True
    then have "baseof (pde (words s) as i) \<in> U" using t(1) that(1) unfolding tables_ok_def by blast
    then show ?thesis using e [OF that(1)] m(1) that(2) True by (simp add: pte_def same_pages_def)
  qed (simp add: pte_def e [OF that(1)])
  then show ?thesis using e m(2) t(2) translate_pte [of "words s" as x] translate_pte [of "words s'" as x]
    by (simp add: lookup_def)
qed

lemma vme_map_leaves:
  assumes ok: "pager_ok ops used" "pager_avoids ops (as_ptr as)" and sp: "space_ok used U0 as s"
    and run: "vme_map ops as va pa prot s = Inr (u, s')"
  shows "space_ok used U0 as s' \<and> leaves ops used U0 {} s s'"
  using ok sp vme_map_guards [OF run]
proof (cases rule: vme_map_result [where prot = prot])
  case (entered s1)
  then have s1: "s1 = s'" using run by simp
  have "tables_ok (words s) (used (page_pool s)) as" "U0 \<subseteq> used (page_pool s)" using sp unfolding space_ok_def by blast+
  then have al: "baseof q = q" if "q \<in> U0" for q using page_aligned that by blast
  have "words s' (entry q i) = words s (entry q i)" if "q \<in> U0" "i < 1024" for q i
  proof -
    have "in_page p (entry q i) \<Longrightarrow> baseof p = p \<Longrightarrow> p \<in> U0" for p
      using in_page_entry [OF _ al [OF that(1)] that(2), of p] that(1) by auto
    then show ?thesis using entered(7) [of "entry q i"] s1 by auto
  qed
  moreover have "clear ops (used (page_pool s')) a \<and> words s' a = words s a" if "clear ops (used (page_pool s)) a" for a
    using that entered(7) [of a] entered(8) s1 unfolding clear_def by blast
  ultimately show ?thesis using entered(2,9) s1 by (simp add: leaves_def same_pages_def)
qed (use run in simp_all)

lemma map_all_leaves:
  assumes ok: "pager_ok ops used" "pager_avoids ops (as_ptr as)" and "space_ok used U0 as s"
    and "map_all ops as reqs s = Inr (u, s')"
  shows "leaves ops used U0 {} s s'"
  using assms(3,4)
proof (induction reqs arbitrary: s)
  case (Cons r reqs)
  obtain va pa prot where r: "r = (va, pa, prot)" by (cases r) auto
  from Cons.prems(2) r obtain s1 where s1: "vme_map ops as va pa prot s = Inr ((), s1)" "map_all ops as reqs s1 = Inr (u, s')"
    by (auto simp: map_all_def comp_elims)
  from vme_map_leaves [OF ok Cons.prems(1) s1(1)] Cons.IH [OF _ s1(2)] show ?case using leaves_trans by blast
qed (simp add: map_all_def leaves_refl)

lemma space_leaves:
  assumes ok: "pager_ok ops used" and k: "kernel_ok used s" "object_ok ops (used (page_pool s)) as"
    and run: "thenM (protect ops as) (map_all ops as reqs) s = Inr (u, s')"
  shows "leaves ops used (used (page_pool s)) (as_fields as) s s'"
proof -
  obtain b p' where p: "pgalloc ops PGSIZE (page_pool s) = (b, p')" by fastforce
  from run obtain s1 where s1: "protect ops as s = Inr ((), s1)" "map_all ops as reqs s1 = Inr (u, s')"
    by (auto simp: comp_elims)
  have "b \<noteq> 0" using s1(1) p by (auto simp: protect_def pgallocz_result comp_elims)
  from protect_space [OF ok k p this] s1(1) have
      sp: "space_ok used (used (page_pool s)) as s1" and
      w: "\<And>q i. q \<in> used (page_pool s) \<Longrightarrow> i < 1024 \<Longrightarrow> words s1 (entry q i) = words s (entry q i)" and
      u: "kpt s1 = kpt s" "used (page_pool s1) = insert b (used (page_pool s))" and
      f: "\<And>a. a \<notin> as_fields as \<Longrightarrow> \<not> in_page b a \<Longrightarrow> words s1 a = words s a"
    by auto
  have "clear ops (used (page_pool s1)) a \<and> (a \<notin> as_fields as \<longrightarrow> words s1 a = words s a)"
    if "clear ops (used (page_pool s)) a" for a
    using that p f [of a] unfolding clear_def pager_avoids_def u(2) by blast
  then have "leaves ops used (used (page_pool s)) (as_fields as) s s1"
    using w u(1) unfolding leaves_def same_pages_def by blast
  moreover have "leaves ops used (used (page_pool s)) (as_fields as) s1 s'"
    using map_all_leaves [OF ok avoids_root [OF k(2)] sp s1(2)] leaves_mono by blast
  ultimately show ?thesis by (rule leaves_trans)
qed

lemma kernel_kept:
  assumes k: "kernel_ok used s" and l: "leaves ops used (used (page_pool s)) F s s'"
    and U: "used (page_pool s) \<subseteq> used (page_pool s')" "\<And>p. p \<in> used (page_pool s') \<Longrightarrow> baseof p = p"
  shows "kernel_ok used s'"
    "kernel_index (pd_index x) \<Longrightarrow> translate (words s') (kpt s') x = translate (words s) (kpt s) x"
proof -
  have w: "words s' (entry q i) = words s (entry q i)" if "q \<in> used (page_pool s)" "i < 1024" for q i
    using l that by (simp add: leaves_def same_pages_def)
  have kp: "kpt s' = kpt s" "kpt s \<in> used (page_pool s)" "baseof (kpt s) = kpt s"
    using l k by (simp_all add: leaves_def kernel_ok_def)
  have d: "words s' (entry (kpt s) i) = words s (entry (kpt s) i)" if "kernel_index i" for i
    using w [OF kp(2), of i] that by (auto simp: kernel_index_def)
  show "kernel_ok used s'"
    unfolding kernel_ok_def kp(1)
  proof (intro conjI ballI allI impI)
    fix i assume i: "kernel_index i" "present (words s' (entry (kpt s) i))"
    show "baseof (words s' (entry (kpt s) i)) \<in> used (page_pool s')" "\<not> user (words s' (entry (kpt s) i))"
      using k i d [OF i(1)] U(1) by (auto simp: kernel_ok_def)
  next
    fix i j assume ij: "kernel_index i" "kernel_index j" "present (words s' (entry (kpt s) i))"
      "present (words s' (entry (kpt s) j))" "baseof (words s' (entry (kpt s) i)) = baseof (words s' (entry (kpt s) j))"
    then show "i = j" using k unfolding d [OF ij(1)] d [OF ij(2)] by (simp add: kernel_ok_def)
  qed (use U kp(2) in blast)+
  assume "kernel_index (pd_index x)"
  moreover from this have "words s' (entry (baseof (words s (entry (kpt s) (pd_index x)))) (pt_index x))
      = words s (entry (baseof (words s (entry (kpt s) (pd_index x)))) (pt_index x))"
    if "present (words s (entry (kpt s) (pd_index x)))"
    using w k that by (simp add: kernel_ok_def)
  ultimately show "translate (words s') (kpt s') x = translate (words s) (kpt s) x"
    using d kp by (auto simp: translate_entries Let_def)
qed

lemma represents_cong:
  "represents K M s as \<Longrightarrow> (\<And>x. kernel_index (pd_index x) \<Longrightarrow> K x = K' x) \<Longrightarrow> (\<And>x. lookup s' as x = lookup s as x)
   \<Longrightarrow> represents K' M s' as"
  by (simp add: represents_def)

text \<open>Two spaces, made and filled one after the other, each hold what was asked of them.\<close>

lemma spaces_isolated:
  assumes ok: "pager_ok ops used" "serves ops used (card (used (page_pool s)) + 2050)" and k: "kernel_ok used s"
    and o: "object_ok ops (used (page_pool s)) as1" "object_ok ops (used (page_pool s)) as2" "as_ptr as1 \<notin> as_fields as2"
    and l: "legal Map.empty reqs1" "legal Map.empty reqs2"
  shows "\<exists>s'. thenM (thenM (protect ops as1) (map_all ops as1 reqs1)) (thenM (protect ops as2) (map_all ops as2 reqs2)) s
        = Inr ((), s')
    \<and> represents (translate (words s) (kpt s)) (fold spec_map reqs1 Map.empty) s' as1
    \<and> represents (translate (words s) (kpt s)) (fold spec_map reqs2 Map.empty) s' as2"
proof -
  let ?U = "used (page_pool s)"
  have sv: "serves ops used n" if "n \<le> card ?U + 2050" for n using ok(2) that by (simp add: serves_def)
  obtain s1 where r1: "thenM (protect ops as1) (map_all ops as1 reqs1) s = Inr ((), s1)"
    using space_served [OF ok(1) sv k o(1) l(1)] by auto
  note m1 = space_maps [OF ok(1) k o(1) r1] and l1 = space_leaves [OF ok(1) k o(1) r1]
  let ?U1 = "used (page_pool s1)"
  have t1: "tables_ok (words s1) ?U1 as1" "present (words s1 (as_ptr as1))" "?U \<subseteq> ?U1"
    using m1 unfolding space_ok_def by blast+
  have "\<And>p. p \<in> ?U1 \<Longrightarrow> baseof p = p" using t1(1) unfolding tables_ok_def by blast
  note k1 = kernel_kept [OF k l1 t1(3) this]
  have o1: "object_ok ops ?U1 as1" "object_ok ops ?U1 as2" using o l1 unfolding object_ok_def leaves_def by blast+
  have "card ?U1 \<le> card ?U + 1025" using space_pages m1 by blast
  then obtain s' where r2: "thenM (protect ops as2) (map_all ops as2 reqs2) s1 = Inr ((), s')"
    using space_served [OF ok(1) sv k1(1) o1(2) l(2)] by auto
  note m2 = space_maps [OF ok(1) k1(1) o1(2) r2] and l2 = space_leaves [OF ok(1) k1(1) o1(2) r2]
  have "same_pages ?U1 (words s1) (words s')" "words s' (as_ptr as1) = words s1 (as_ptr as1)"
    using l2 o1(1) o(3) unfolding leaves_def object_ok_def as_fields_def by blast+
  then have "lookup s' as1 x = lookup s1 as1 x" for x by (rule lookup_same [OF t1(1,2)])
  then have "represents (translate (words s) (kpt s)) (fold spec_map reqs1 Map.empty) s' as1"
    using m1 represents_cong by blast
  moreover have "represents (translate (words s) (kpt s)) (fold spec_map reqs2 Map.empty) s' as2"
    using m2 k1(2) represents_cong by blast
  ultimately show ?thesis using r1 r2 by simp
qed

section \<open>User contexts\<close>

lemma ucontext_fields:
  assumes "as_ptr as \<notin> entry (kstack_end - 60) ` {..<15}"
  shows "\<exists>s'. ucontext as kstack_end start s = Inr (kstack_end - 60, s') \<and> page_pool s' = page_pool s
    \<and> words s' (entry (kstack_end - 60) 0) = words s (as_ptr as) \<and> words s' (entry (kstack_end - 60) 10) = start
    \<and> words s' (entry (kstack_end - 60) 13) = 0x80000000 \<and> words s' (entry (kstack_end - 60) 6) = kstack_end
    \<and> words s' (entry (kstack_end - 60) 11) = 0x1b \<and> words s' (entry (kstack_end - 60) 14) = 0x23
    \<and> (\<forall>a. a \<notin> entry (kstack_end - 60) ` {..<15} \<longrightarrow> words s' a = words s a)"
proof -
  let ?c = "kstack_end - 60"
  have z: "for_each [0..<x86_context_size] (\<lambda>i. set_word (entry ?c i) 0) s
      = Inr ((), s\<lparr>words := \<lambda>a. if a \<in> entry ?c ` {..<15} then 0 else words s a\<rparr>)"
    unfolding zero_words by (simp add: x86_context_size_def lessThan_atLeast0)
  have in_ctx: "entry ?c i \<in> entry ?c ` {..<15}" if "i < 15" for i using that by simp
  have ne: "as_ptr as \<noteq> entry ?c i" if "i < 15" for i using assms that by auto
  let ?m = "(\<lambda>a. if a \<in> entry ?c ` {..<15} then 0 else words s a)
      (entry ?c 11 := 0x1b, entry ?c 1 := 0x23, entry ?c 14 := 0x23, entry ?c 10 := start, entry ?c 12 := FL_IF,
       entry ?c 13 := 0x80000000, entry ?c 6 := kstack_end, entry ?c 0 := words s (as_ptr as))"
  have run: "ucontext as kstack_end start s = Inr (?c, s\<lparr>words := ?m\<rparr>)"
    using z ne assms
    by (simp add: ucontext_def Let_def set_word_def get_word_def x86_context_size_def USEL_def SEG_UCODE_def SEG_UDATA_def
        uvm_area_def vm_areas_def)
  have "?m (entry ?c 0) = words s (as_ptr as)" "?m (entry ?c 10) = start" "?m (entry ?c 13) = 0x80000000"
    "?m (entry ?c 6) = kstack_end" "?m (entry ?c 11) = 0x1b" "?m (entry ?c 14) = 0x23"
    by (simp_all add: entry_def)
  moreover have "?m a = words s a" if "a \<notin> entry ?c ` {..<15}" for a
    using that in_ctx [of 0] in_ctx [of 1] in_ctx [of 6] in_ctx [of 10] in_ctx [of 11] in_ctx [of 12] in_ctx [of 13]
      in_ctx [of 14] by auto
  ultimately show ?thesis using run by simp
qed

end
