(* ===== verification/Vme_Example.thy ===== *)
theory Vme_Example
  imports Vme_Spaces
begin

text \<open>
  A concrete instance of the hypotheses on the page allocator: an allocator of 2304 pages from \<open>0x100000\<close> on that returns
  the first one not in use, a kernel with an empty directory, and requests that map two pages of a space and
  take the first one out again.
\<close>

unbundle bit_operations_syntax

definition free_pages :: "u32 list" where
  "free_pages = map page_addr [0x100..<0xa00]"

definition page_ops :: "u32 list pager" where
  "page_ops = \<lparr>pgalloc = (\<lambda>_ us. case find (\<lambda>b. b \<notin> set us) free_pages of None \<Rightarrow> (0, us) | Some b \<Rightarrow> (b, b # us)),
     pgfree = (\<lambda>b us. removeAll b us)\<rparr>"

definition vme_start :: "u32 list vme" where
  "vme_start = \<lparr>words = (\<lambda>_. 0), page_pool = [0x100000], kpt = 0x100000, cr3 = 0, cr0 = 0\<rparr>"

definition vme_requests :: "(u32 \<times> u32 \<times> u32) list" where
  "vme_requests = [(0x40000000, 0x2000000, MMAP_WRITE), (0x40001000, 0x2001000, 1), (0x40000000, 0, MMAP_NONE)]"

lemma vme_requests_legal: "legal Map.empty vme_requests"
  by code_simp

lemma free_page:
  assumes "b \<in> set free_pages"
  shows "b \<noteq> 0" "baseof b = b" "0x100000 \<le> uint b"
proof -
  from assms obtain n where n: "b = page_addr n" "0x100 \<le> n" "n < 0xa00"
    unfolding free_pages_def set_map set_upt by auto
  have u: "uint b = int n * 4096"
    using n unfolding page_addr_def by (simp add: unsigned_of_nat take_bit_nat_eq_self del: of_nat_mult)
  then show "0x100000 \<le> uint b" using n by simp
  then show "b \<noteq> 0" by auto
  show "baseof b = b" using n page_addr_index(3) [of n] by simp
qed

lemma page_ops_ok: "pager_ok page_ops set"
  using free_page by (auto simp: pager_ok_def page_ops_def find_Some_iff split: option.splits)

lemma page_ops_avoids:
  assumes "uint a < 0x100000" "0x1000 \<le> uint a"
  shows "pager_avoids page_ops a"
proof -
  have "\<not> in_page b a" if "b = 0 \<or> b \<in> set free_pages" for b
  proof
    assume "in_page b a"
    moreover have "baseof b = b" using that free_page(2) by auto
    ultimately have "baseof a = b" by (auto simp: in_page_def baseof_entry)
    then have "uint b = uint a div 4096 * 4096" using uint_baseof [of a] by simp
    then show False using assms that free_page(3) [of b] by auto
  qed
  then show ?thesis unfolding pager_avoids_def page_ops_def
    by (auto simp: find_Some_iff split: option.splits)
qed

lemma page_ops_serves:
  assumes "k \<le> 2200"
  shows "serves page_ops set k"
proof -
  have "inj_on page_addr {0x100..<0xa00}"
  proof (rule inj_onI)
    fix m n assume "m \<in> {0x100..<0xa00}" "n \<in> {0x100..<0xa00}" "page_addr m = page_addr n"
    moreover from this have "m < 2 ^ 20" "n < 2 ^ 20" by auto
    ultimately have "m div 1024 = n div 1024" "m mod 1024 = n mod 1024" using page_addr_index(1,2) by metis+
    then show "m = n" by (metis div_mult_mod_eq)
  qed
  then have c: "card (set free_pages) = 2304" unfolding free_pages_def set_map set_upt by (simp add: card_image)
  have "\<not> no_page page_ops us" if "card (set us) \<le> 2200" for us
  proof (cases "find (\<lambda>b. b \<notin> set us) free_pages")
    case None
    then have "set free_pages \<subseteq> set us" by (auto simp: find_None_iff)
    then have "card (set free_pages) \<le> card (set us)" by (simp add: card_mono)
    then show ?thesis using c that by simp
  next
    case (Some b)
    then have "b \<in> set free_pages" by (auto simp: find_Some_iff)
    then show ?thesis using Some free_page(1) by (simp add: no_page_def page_ops_def)
  qed
  then show ?thesis using assms by (simp add: serves_def)
qed

lemma vme_start_ok:
  "kernel_ok set vme_start" "object_ok page_ops {0x100000} 0x9000" "object_ok page_ops {0x100000} 0xa000"
proof -
  have "baseof 0x100000 = 0x100000" by (simp add: baseof_def PGSIZE_def)
  then show "kernel_ok set vme_start" by (simp add: kernel_ok_def vme_start_def)
  have "\<not> in_page 0x100000 a" if "uint a < 0x100000" for a
  proof
    assume "in_page 0x100000 a"
    then obtain i where "a = entry 0x100000 i" "i < 1024" unfolding in_page_def by blast
    then have "baseof a = 0x100000" using \<open>baseof 0x100000 = 0x100000\<close> baseof_entry by simp
    then have "uint a div 4096 * 4096 = 0x100000" using uint_baseof [of a] by simp
    then show False using that by linarith
  qed
  then show "object_ok page_ops {0x100000} 0x9000" "object_ok page_ops {0x100000} 0xa000"
    by (simp_all add: object_ok_def as_fields_def clear_def as_pgsize_def as_area_start_def
        as_area_end_def as_ptr_def page_ops_avoids)
qed

lemma vme_start_pool: "set (page_pool vme_start) = {0x100000}"
  by (simp add: vme_start_def)

lemma vme_start_space:
  obtains s where "protect page_ops 0x9000 vme_start = Inr ((), s)" "space_ok set {0x100000} 0x9000 s"
    "represents (translate (words vme_start) (kpt vme_start)) Map.empty s 0x9000"
proof -
  have "serves page_ops set (card (set (page_pool vme_start)) + 1025)" by (simp add: vme_start_pool page_ops_serves)
  from space_served [OF page_ops_ok this vme_start_ok(1), of "0x9000" "[]"] obtain s
    where s: "protect page_ops 0x9000 vme_start = Inr ((), s)"
    using vme_start_ok(2) by (auto simp: vme_start_pool map_all_def comp_elims)
  show ?thesis using protect_represents [OF page_ops_ok vme_start_ok(1) _ s] vme_start_ok(2) s that
    by (simp add: vme_start_pool)
qed

end
