(* ===== verification/Klib_Int64.thy ===== *)
theory Klib_Int64
  imports Prelude "HOL-Library.Signed_Division"
begin

text \<open>
  64-bit division and bit counting for 32-bit targets, \<open>abstract-machine/klib/src/int64.c\<close>. Signed
  numbers are kept as words; the union \<open>udwords\<close> is the pair of its halves, read as one number by \<open>uall\<close>.
  A division by zero, which the C code leaves undefined, is an error value. The compiler turns
  \<open>__builtin_clz\<close> and \<open>__builtin_ctz\<close> into calls of \<open>__clzsi2\<close> and \<open>__ctzsi2\<close> of the same file.

  The lemmas show that the bit counts are right on every non-zero word, that the shift-and-subtract loop
  computes quotient and remainder, and that the four division entry points agree with integer division.
\<close>

unbundle bit_operations_syntax

section \<open>Halves\<close>

record udwords =
  low :: u32
  high :: u32

definition uall :: "udwords \<Rightarrow> u64" where
  "uall x = push_bit 32 (ucast (high x)) OR ucast (low x)"

definition udw :: "u64 \<Rightarrow> udwords" where
  "udw a = \<lparr>low = ucast a, high = ucast (drop_bit 32 a)\<rparr>"

section \<open>Counting zeros\<close>

text \<open>
  One round of the binary searches: the comparison selects \<open>t\<close> as \<open>m\<close> or 0, the word is shifted, the
  count grows by \<open>t\<close>.
\<close>

definition clz_step :: "u32 \<Rightarrow> nat \<Rightarrow> u32 \<times> u32 \<Rightarrow> u32 \<times> u32" where
  "clz_step m_bits m p = (let x = fst p; t = (if x AND m_bits = 0 then m else 0)
     in (drop_bit (m - t) x, snd p + of_nat t))"

definition clzsi2 :: "u32 \<Rightarrow> u32" where
  "clzsi2 a = (let (x, r) = clz_step 0xC 2 (clz_step 0xF0 4 (clz_step 0xFF00 8 (clz_step 0xFFFF0000 16 (a, 0))))
     in r + ((2 - x) AND - (of_bool (x AND 2 = 0))))"

definition ctz_step :: "u32 \<Rightarrow> nat \<Rightarrow> u32 \<times> u32 \<Rightarrow> u32 \<times> u32" where
  "ctz_step m_bits m p = (let x = fst p; t = (if x AND m_bits = 0 then m else 0)
     in (drop_bit t x, snd p + of_nat t))"

definition ctzsi2 :: "u32 \<Rightarrow> u32" where
  "ctzsi2 a = (let (x0, r) = ctz_step 0x3 2 (ctz_step 0x0F 4 (ctz_step 0x00FF 8 (ctz_step 0x0000FFFF 16 (a, 0))));
      x = x0 AND 3
     in r + ((2 - drop_bit 1 x) AND - (of_bool (x AND 1 = 0))))"

definition ctzdi2 :: "u64 \<Rightarrow> u32" where
  "ctzdi2 a = (let x = udw a; f = - (of_bool (low x = 0))
     in ctzsi2 ((high x AND f) OR (low x AND NOT f)) + (f AND 32))"

definition clzdi2 :: "u64 \<Rightarrow> u32" where
  "clzdi2 a = (let x = udw a; f = - (of_bool (high x = 0))
     in clzsi2 ((high x AND NOT f) OR (low x AND f)) + (f AND 32))"

section \<open>Unsigned division\<close>

text \<open>One iteration of the loop on the pair \<open>r:q\<close>; \<open>s\<close> is all ones when \<open>r\<close> is at least \<open>d\<close>.\<close>

definition udiv_step :: "u64 \<Rightarrow> udwords \<times> udwords \<times> u32 \<Rightarrow> udwords \<times> udwords \<times> u32" where
  "udiv_step d p = (let (r, q, carry) = p;
      r1 = \<lparr>low = push_bit 1 (low r) OR drop_bit 31 (high q), high = push_bit 1 (high r) OR drop_bit 31 (low r)\<rparr>;
      q1 = \<lparr>low = push_bit 1 (low q) OR carry, high = push_bit 1 (high q) OR drop_bit 31 (low q)\<rparr>;
      s = signed_drop_bit 63 (d - uall r1 - 1)
     in (udw (uall r1 - (d AND s)), q1, ucast (s AND 1)))"

fun udiv_loop :: "nat \<Rightarrow> u64 \<Rightarrow> udwords \<times> udwords \<times> u32 \<Rightarrow> udwords \<times> udwords \<times> u32" where
  "udiv_loop 0 d p = p"
| "udiv_loop (Suc sr) d p = udiv_loop sr d (udiv_step d p)"

definition udiv_tail :: "u64 \<Rightarrow> u32 \<Rightarrow> udwords \<Rightarrow> udwords \<Rightarrow> (u64 \<times> u64) result" where
  "udiv_tail d sr q r = (let (r', q', carry) = udiv_loop (unat sr) d (r, q, 0)
     in Inr (push_bit 1 (uall q') OR ucast carry, uall r'))"

text \<open>
  \<open>__udivmoddi4\<close>: quotient and remainder. The shift counts \<open>32 - sr\<close> and \<open>64 - sr\<close> are below 32 on every
  path that uses them.
\<close>

definition udivmoddi4 :: "u64 \<Rightarrow> u64 \<Rightarrow> (u64 \<times> u64) result" where
  "udivmoddi4 a b = (let n = udw a; d = udw b in
     if high n = 0 then
       if high d = 0 then
         if low d = 0 then Inl (Panic ''division by zero'')
         else Inr (ucast (low n div low d), ucast (low n mod low d))
       else Inr (0, ucast (low n))
     else if low d = 0 then
       if high d = 0 then Inl (Panic ''division by zero'')
       else if low n = 0 then
         Inr (ucast (high n div high d), uall \<lparr>low = 0, high = high n mod high d\<rparr>)
       else if high d AND (high d - 1) = 0 then
         Inr (ucast (drop_bit (unat (ctzsi2 (high d))) (high n)), uall \<lparr>low = low n, high = high n AND (high d - 1)\<rparr>)
       else let sr = clzsi2 (high d) - clzsi2 (high n) in
         if sr > 30 then Inr (0, a)
         else let sr = sr + 1 in
           udiv_tail b sr \<lparr>low = 0, high = push_bit (unat (32 - sr)) (low n)\<rparr>
             \<lparr>low = push_bit (unat (32 - sr)) (high n) OR drop_bit (unat sr) (low n), high = drop_bit (unat sr) (high n)\<rparr>
     else if high d = 0 then
       if low d AND (low d - 1) = 0 then
         if low d = 1 then Inr (a, ucast (low n AND (low d - 1)))
         else let sr = ctzsi2 (low d) in
           Inr (uall \<lparr>low = push_bit (unat (32 - sr)) (high n) OR drop_bit (unat sr) (low n), high = drop_bit (unat sr) (high n)\<rparr>,
             ucast (low n AND (low d - 1)))
       else let sr = 1 + 32 + clzsi2 (low d) - clzsi2 (high n) in
         if sr = 32 then udiv_tail b sr \<lparr>low = 0, high = low n\<rparr> \<lparr>low = high n, high = 0\<rparr>
         else if sr < 32 then
           udiv_tail b sr \<lparr>low = 0, high = push_bit (unat (32 - sr)) (low n)\<rparr>
             \<lparr>low = push_bit (unat (32 - sr)) (high n) OR drop_bit (unat sr) (low n), high = drop_bit (unat sr) (high n)\<rparr>
         else
           udiv_tail b sr \<lparr>low = push_bit (unat (64 - sr)) (low n),
               high = push_bit (unat (64 - sr)) (high n) OR drop_bit (unat (sr - 32)) (low n)\<rparr>
             \<lparr>low = drop_bit (unat (sr - 32)) (high n), high = 0\<rparr>
     else let sr = clzsi2 (high d) - clzsi2 (high n) in
       if sr > 31 then Inr (0, a)
       else let sr = sr + 1 in
         if sr = 32 then udiv_tail b sr \<lparr>low = 0, high = low n\<rparr> \<lparr>low = high n, high = 0\<rparr>
         else udiv_tail b sr \<lparr>low = 0, high = push_bit (unat (32 - sr)) (low n)\<rparr>
             \<lparr>low = push_bit (unat (32 - sr)) (high n) OR drop_bit (unat sr) (low n), high = drop_bit (unat sr) (high n)\<rparr>)"

definition udivdi3 :: "u64 \<Rightarrow> u64 \<Rightarrow> u64 result" where
  "udivdi3 a b = bindE (udivmoddi4 a b) (\<lambda>(q, r). Inr q)"

definition umoddi3 :: "u64 \<Rightarrow> u64 \<Rightarrow> u64 result" where
  "umoddi3 a b = bindE (udivmoddi4 a b) (\<lambda>(q, r). Inr r)"

section \<open>Signed division\<close>

definition divdi3 :: "u64 \<Rightarrow> u64 \<Rightarrow> u64 result" where
  "divdi3 a b = (let s_a = signed_drop_bit 63 a; s_b = signed_drop_bit 63 b;
       a' = (a XOR s_a) - s_a; b' = (b XOR s_b) - s_b; s = s_a XOR s_b
     in bindE (udivmoddi4 a' b') (\<lambda>(q, r). Inr ((q XOR s) - s)))"

definition divmoddi4 :: "u64 \<Rightarrow> u64 \<Rightarrow> (u64 \<times> u64) result" where
  "divmoddi4 a b = bindE (divdi3 a b) (\<lambda>d. Inr (d, a - d * b))"

definition moddi3 :: "u64 \<Rightarrow> u64 \<Rightarrow> u64 result" where
  "moddi3 a b = (let s_b = signed_drop_bit 63 b; b' = (b XOR s_b) - s_b;
       s = signed_drop_bit 63 a; a' = (a XOR s) - s
     in bindE (udivmoddi4 a' b') (\<lambda>(q, r). Inr ((r XOR s) - s)))"

section \<open>Halves as numbers\<close>

lemma unat_uall: "unat (uall x) = unat (high x) * 2 ^ 32 + unat (low x)"
proof -
  have "push_bit 32 (ucast (high x) :: u64) AND ucast (low x) = 0"
    by (rule bit_word_eqI) (auto simp: bit_simps dest: bit_imp_le_length)
  then have "uall x = push_bit 32 (ucast (high x)) + ucast (low x)"
    unfolding uall_def by (simp add: disjunctive_add_eq_or)
  then show ?thesis
    using u32_bound [of "high x"] u32_bound [of "low x"]
    by (simp add: unat_word_ariths push_bit_eq_mult unsigned_ucast_eq take_bit_nat_eq_self)
qed

lemma udw_uall [simp]: "udw (uall x) = x"
proof (cases x)
  case (fields l h)
  have "\<not> bit l (32 + n)" for n by (auto dest: bit_imp_le_length)
  with fields show ?thesis by (auto simp: udw_def uall_def bit_simps intro!: bit_word_eqI)
qed

lemma uall_udw [simp]: "uall (udw a) = a"
  by (auto simp: udw_def uall_def intro!: bit_word_eqI simp: bit_simps)

section \<open>The bit counts are right\<close>

lemma high_mask_zero:
  fixes x :: u32
  assumes "take_bit (2 * m) x = x"
  shows "x AND push_bit m (mask m) = 0 \<longleftrightarrow> drop_bit m x = 0"
proof -
  have top: "bit x n \<Longrightarrow> n < 2 * m" for n using assms by (metis bit_take_bit_iff)
  show ?thesis
  proof
    assume zero: "x AND push_bit m (mask m) = 0"
    show "drop_bit m x = 0"
    proof (rule bit_word_eqI)
      fix n
      assume "n < LENGTH(32)"
      have "\<not> bit (x AND push_bit m (mask m)) (m + n)" by (simp add: zero)
      then show "bit (drop_bit m x) n = bit 0 n"
        using top [of "m + n"] by (auto simp: bit_simps dest: bit_imp_le_length)
    qed
  next
    assume "drop_bit m x = 0"
    then have low: "\<not> bit x (m + n)" for n by (simp flip: bit_drop_bit_eq [unfolded comp_def, THEN fun_cong])
    show "x AND push_bit m (mask m) = 0"
    proof (rule bit_word_eqI)
      fix n
      show "bit (x AND push_bit m (mask m)) n = bit 0 n"
        using low [of "n - m"] by (cases "m \<le> n") (simp_all add: bit_simps)
    qed
  qed
qed

lemma below_iff: "unat (x :: u32) < 2 ^ m \<longleftrightarrow> drop_bit m x = 0"
  by (simp flip: unsigned_eq_0_iff [where ?'a = nat] add: unat_drop_bit div_eq_0_iff)

lemma below_take: "unat (x :: u32) < 2 ^ m \<Longrightarrow> take_bit m x = x"
  by (simp add: below_iff take_bit_eq_self_iff_drop_bit_eq_0)

text \<open>
  After a round on a word below \<open>2^(2m)\<close> the word is non-zero and below \<open>2^m\<close>, and shift and count
  add up to \<open>m\<close>.
\<close>

lemma clz_step_spec:
  fixes x :: u32
  assumes "x \<noteq> 0" and bound: "unat x < 2 ^ (2 * m)" and M: "M = push_bit m (mask m)"
  shows "\<exists>x' t. clz_step M m (x, r) = (x', r + of_nat t) \<and> t \<le> m \<and> x' = drop_bit (m - t) x \<and> x' \<noteq> 0 \<and> unat x' < 2 ^ m"
proof -
  have iff: "x AND M = 0 \<longleftrightarrow> unat x < 2 ^ m"
    unfolding M high_mask_zero [OF below_take [OF bound]] below_iff ..
  show ?thesis
  proof (cases "unat x < 2 ^ m")
    case True
    with assms(1) iff show ?thesis by (intro exI [of _ x] exI [of _ m]) (simp add: clz_step_def Let_def)
  next
    case False
    have "unat x div 2 ^ m < 2 ^ m" using bound by (simp add: less_mult_imp_div_less mult_2 power_add)
    moreover have "drop_bit m x \<noteq> 0" using False by (simp add: below_iff)
    ultimately show ?thesis
      using False iff by (intro exI [of _ "drop_bit m x"] exI [of _ 0]) (simp add: clz_step_def Let_def unat_drop_bit)
  qed
qed

text \<open>\<open>__clzsi2\<close>: the word shifted right by 31 minus the count is 1.\<close>

lemma small_word: "unat (x :: u32) < 4 \<Longrightarrow> x \<noteq> 0 \<Longrightarrow> x = 1 \<or> x = 2 \<or> x = 3"
proof -
  assume "unat x < 4" "x \<noteq> 0"
  then have "unat x = 1 \<or> unat x = 2 \<or> unat x = 3"
    using unat_eq_zero [of x] by linarith
  then show ?thesis by (simp add: word_unat_eq_iff)
qed

lemma clzsi2_spec:
  assumes "a \<noteq> 0"
  shows "unat (clzsi2 a) < 32 \<and> drop_bit (31 - unat (clzsi2 a)) a = 1"
proof -
  have a: "unat a < 2 ^ (2 * 16)" using u32_bound [of a] by simp
  have M: "(0xFFFF0000 :: u32) = push_bit 16 (mask 16)" "(0xFF00 :: u32) = push_bit 8 (mask 8)"
    "(0xF0 :: u32) = push_bit 4 (mask 4)" "(0xC :: u32) = push_bit 2 (mask 2)"
    by (simp_all add: mask_numeral)
  obtain x1 t1 where 1: "clz_step 0xFFFF0000 16 (a, 0) = (x1, 0 + of_nat t1)" "t1 \<le> 16" "x1 = drop_bit (16 - t1) a"
    "x1 \<noteq> 0" "unat x1 < 2 ^ (2 * 8)"
    using clz_step_spec [OF assms a M(1), of 0] by auto
  obtain x2 t2 where 2: "clz_step 0xFF00 8 (x1, 0 + of_nat t1) = (x2, 0 + of_nat t1 + of_nat t2)" "t2 \<le> 8"
    "x2 = drop_bit (8 - t2) x1" "x2 \<noteq> 0" "unat x2 < 2 ^ (2 * 4)"
    using clz_step_spec [OF 1(4,5) M(2), of "0 + of_nat t1"] by auto
  obtain x3 t3 where 3: "clz_step 0xF0 4 (x2, 0 + of_nat t1 + of_nat t2) = (x3, 0 + of_nat t1 + of_nat t2 + of_nat t3)"
    "t3 \<le> 4" "x3 = drop_bit (4 - t3) x2" "x3 \<noteq> 0" "unat x3 < 2 ^ (2 * 2)"
    using clz_step_spec [OF 2(4,5) M(3), of "0 + of_nat t1 + of_nat t2"] by auto
  obtain x4 t4 where 4: "clz_step 0xC 2 (x3, 0 + of_nat t1 + of_nat t2 + of_nat t3)
      = (x4, 0 + of_nat t1 + of_nat t2 + of_nat t3 + of_nat t4)"
    "t4 \<le> 2" "x4 = drop_bit (2 - t4) x3" "x4 \<noteq> 0" "unat x4 < 2 ^ 2"
    using clz_step_spec [OF 3(4,5) M(4), of "0 + of_nat t1 + of_nat t2 + of_nat t3"] by auto
  define r where "r = t1 + t2 + t3 + t4"
  have r: "r \<le> 30" and x4: "x4 = drop_bit (30 - r) a"
    using 1(2,3) 2(2,3) 3(2,3) 4(2,3) by (simp_all add: r_def drop_bit_drop_bit algebra_simps)
  have eq: "clzsi2 a = of_nat r + ((2 - x4) AND - (of_bool (x4 AND 2 = 0)))"
    unfolding clzsi2_def 1(1) 2(1) 3(1) 4(1) by (simp add: r_def)
  from small_word [OF _ 4(4)] 4(5) consider "x4 = 1" | "x4 = 2 \<or> x4 = 3" by auto
  then show ?thesis
  proof cases
    case 1
    then have "clzsi2 a = of_nat (r + 1)" by (simp add: eq)
    moreover have "unat (of_nat (r + 1) :: u32) = r + 1" using r by (simp only: unat_of_nat) simp
    ultimately show ?thesis using r x4 1 by simp
  next
    case 2
    then have "clzsi2 a = of_nat r" by (auto simp: eq)
    moreover have "unat (of_nat r :: u32) = r" using r by (simp only: unat_of_nat) simp
    moreover have "drop_bit (31 - r) a = drop_bit 1 x4" using r by (simp add: x4 drop_bit_drop_bit flip: Suc_diff_le)
    ultimately show ?thesis using r 2 by auto
  qed
qed

text \<open>\<open>__ctzsi2\<close>: the bits below the count are zero and the bit at the count is one.\<close>

lemma take_bit_split:
  fixes x :: u32
  shows "take_bit (m + n) x = 0 \<longleftrightarrow> take_bit m x = 0 \<and> take_bit n (drop_bit m x) = 0"
proof -
  have "take_bit m (take_bit (m + n) x) = take_bit m x" by simp
  moreover have "drop_bit m (take_bit (m + n) x) = take_bit n (drop_bit m x)"
    by (simp add: take_bit_drop_bit add.commute)
  moreover have "y = 0 \<longleftrightarrow> take_bit m y = 0 \<and> drop_bit m y = 0" for y :: u32
    using bits_ident [of m y] by auto
  ultimately show ?thesis by metis
qed

lemma ctz_step_spec:
  fixes x :: u32
  assumes "take_bit (2 * m) x \<noteq> 0" and M: "M = mask m"
  shows "\<exists>x' t. ctz_step M m (x, r) = (x', r + of_nat t) \<and> t \<le> m \<and> x' = drop_bit t x \<and> take_bit t x = 0 \<and> take_bit m x' \<noteq> 0"
proof (cases "take_bit m x = 0")
  case True
  with assms have "take_bit m (drop_bit m x) \<noteq> 0" by (auto simp: mult_2 take_bit_split)
  with True M show ?thesis
    by (intro exI [of _ "drop_bit m x"] exI [of _ m]) (simp add: ctz_step_def Let_def flip: take_bit_eq_mask)
next
  case False
  with M show ?thesis
    by (intro exI [of _ x] exI [of _ 0]) (simp add: ctz_step_def Let_def flip: take_bit_eq_mask)
qed

lemma ctzsi2_spec:
  assumes "a \<noteq> 0"
  shows "unat (ctzsi2 a) < 32 \<and> take_bit (unat (ctzsi2 a)) a = 0 \<and> bit a (unat (ctzsi2 a))"
proof -
  have a: "take_bit (2 * 16) a \<noteq> 0" using assms by (simp add: take_bit_word_eq_self)
  have M: "(0x0000FFFF :: u32) = mask 16" "(0x00FF :: u32) = mask 8" "(0x0F :: u32) = mask 4" "(0x3 :: u32) = mask 2"
    by (simp_all add: mask_numeral)
  obtain x1 t1 where 1: "ctz_step 0x0000FFFF 16 (a, 0) = (x1, 0 + of_nat t1)" "t1 \<le> 16" "x1 = drop_bit t1 a"
    "take_bit t1 a = 0" "take_bit (2 * 8) x1 \<noteq> 0"
    using ctz_step_spec [OF a M(1), of 0] by auto
  obtain x2 t2 where 2: "ctz_step 0x00FF 8 (x1, 0 + of_nat t1) = (x2, 0 + of_nat t1 + of_nat t2)" "t2 \<le> 8"
    "x2 = drop_bit t2 x1" "take_bit t2 x1 = 0" "take_bit (2 * 4) x2 \<noteq> 0"
    using ctz_step_spec [OF 1(5) M(2), of "0 + of_nat t1"] by auto
  obtain x3 t3 where 3: "ctz_step 0x0F 4 (x2, 0 + of_nat t1 + of_nat t2) = (x3, 0 + of_nat t1 + of_nat t2 + of_nat t3)"
    "t3 \<le> 4" "x3 = drop_bit t3 x2" "take_bit t3 x2 = 0" "take_bit (2 * 2) x3 \<noteq> 0"
    using ctz_step_spec [OF 2(5) M(3), of "0 + of_nat t1 + of_nat t2"] by auto
  obtain x4 t4 where 4: "ctz_step 0x3 2 (x3, 0 + of_nat t1 + of_nat t2 + of_nat t3)
      = (x4, 0 + of_nat t1 + of_nat t2 + of_nat t3 + of_nat t4)"
    "t4 \<le> 2" "x4 = drop_bit t4 x3" "take_bit t4 x3 = 0" "take_bit 2 x4 \<noteq> 0"
    using ctz_step_spec [OF 3(5) M(4), of "0 + of_nat t1 + of_nat t2 + of_nat t3"] by auto
  define r where "r = t1 + (t2 + (t3 + t4))"
  have r: "r \<le> 30" using 1(2) 2(2) 3(2) 4(2) by (simp add: r_def)
  have low: "take_bit r a = 0"
    unfolding r_def take_bit_split using 1(3,4) 2(3,4) 3(3,4) 4(4) by simp
  have x4: "x4 = drop_bit r a"
    using 1(3) 2(3) 3(3) 4(3) by (simp add: r_def drop_bit_drop_bit algebra_simps)
  define x where "x = x4 AND 3"
  have xt: "x = take_bit 2 x4" by (simp add: x_def take_bit_eq_mask mask_numeral)
  have eq: "ctzsi2 a = of_nat r + ((2 - drop_bit 1 x) AND - (of_bool (x AND 1 = 0)))"
    unfolding ctzsi2_def 1(1) 2(1) 3(1) 4(1) by (simp add: r_def x_def)
  have bits: "bit a r = bit x 0" "bit a (Suc r) = bit x 1"
    by (simp_all add: xt x4 bit_simps)
  have "unat x < 4" unfolding xt by (simp add: unsigned_take_bit_eq take_bit_nat_less_exp [of 2, simplified])
  with small_word [of x] 4(5) xt consider "x = 1 \<or> x = 3" | "x = 2" by auto
  then show ?thesis
  proof cases
    case 1
    then have "ctzsi2 a = of_nat r" "bit x 0" by (auto simp: eq)
    moreover have "unat (of_nat r :: u32) = r" using r by (simp only: unat_of_nat) simp
    ultimately show ?thesis using r low bits by simp
  next
    case 2
    then have "ctzsi2 a = of_nat (Suc r)" "\<not> bit x 0" "bit x 1" by (simp_all add: eq bit_1_iff)
    moreover have "unat (of_nat (Suc r) :: u32) = Suc r" using r by (simp only: unat_of_nat) simp
    moreover have "take_bit (Suc r) a = 0"
    proof (rule bit_word_eqI)
      fix n
      have "bit (take_bit r a) n = False" by (simp add: low)
      with bits(1) \<open>\<not> bit x 0\<close> show "bit (take_bit (Suc r) a) n = bit 0 n"
        by (auto simp: bit_take_bit_iff less_Suc_eq)
    qed
    ultimately show ?thesis using r bits by simp
  qed
qed

section \<open>The division loop\<close>

lemma uall_shift_gen:
  assumes "0 < j" and "j < 32"
  shows "uall \<lparr>low = push_bit j (low x) OR t, high = push_bit j (high x) OR drop_bit (32 - j) (low x)\<rparr>
    = push_bit j (uall x) OR ucast t"
proof (rule bit_word_eqI)
  fix n
  assume n: "n < LENGTH(64)"
  have l: "bit (low x) i \<Longrightarrow> i < 32" "bit t i \<Longrightarrow> i < 32" for i by (auto dest: bit_imp_le_length)
  show "bit (uall \<lparr>low = push_bit j (low x) OR t, high = push_bit j (high x) OR drop_bit (32 - j) (low x)\<rparr>) n
      = bit (push_bit j (uall x) OR ucast t) n"
  proof (cases "n < 32")
    case True
    with assms show ?thesis by (auto simp: uall_def bit_simps)
  next
    case False
    then obtain i where "n = 32 + i" using le_Suc_ex [of 32 n] by auto
    with assms n show ?thesis
      by (cases "j \<le> i") (auto simp: uall_def bit_simps algebra_simps dest: l)
  qed
qed

lemma uall_shift:
  "uall \<lparr>low = push_bit 1 (low x) OR t, high = push_bit 1 (high x) OR drop_bit 31 (low x)\<rparr> = push_bit 1 (uall x) OR ucast t"
  using uall_shift_gen [of 1 x t] by simp

lemma unat_shift:
  assumes "t = 0 \<or> t = 1"
  shows "unat (push_bit 1 (w :: u64) OR ucast (t :: u32)) = (2 * unat w + unat t) mod 2 ^ 64"
proof -
  have "push_bit 1 w AND ucast t = 0"
    using assms by (auto simp: and_one_eq mod_2_eq_odd)
  then have "push_bit 1 w OR ucast t = 2 * w + ucast t"
    by (simp add: disjunctive_add_eq_or [symmetric] push_bit_eq_mult mult.commute)
  moreover have "unat (ucast t :: u64) = unat t" using assms by auto
  ultimately show ?thesis by (simp add: unat_word_ariths mod_simps)
qed

lemma bit_63_iff: "bit (w :: u64) 63 \<longleftrightarrow> 2 ^ 63 \<le> unat w"
proof -
  have "bit w 63 \<longleftrightarrow> bit (unat w) 63" by (simp add: bit_unsigned_iff)
  then have "bit w 63 \<longleftrightarrow> odd (unat w div 2 ^ 63)" by (simp add: bit_iff_odd)
  moreover have "unat w < 2 ^ 64" using unsigned_less [of w, where ?'a = nat] by simp
  then have "unat w div 2 ^ 63 < 2" by (simp add: less_mult_imp_div_less)
  then have "unat w div 2 ^ 63 = 0 \<or> unat w div 2 ^ 63 = 1" by linarith
  ultimately show ?thesis by (auto simp: div_eq_0_iff)
qed

lemma sign_mask: "signed_drop_bit 63 (w :: u64) = (if bit w 63 then - 1 else 0)"
  by (rule bit_word_eqI) (auto simp: bit_simps min_def not_less_eq_eq)

text \<open>The sign of \<open>d - r - 1\<close> decides the comparison when it does not overflow.\<close>

lemma compare_mask:
  fixes d r :: u64
  assumes "unat d \<le> 2 ^ 63 \<and> unat r < 2 * unat d \<or> 2 ^ 63 \<le> unat d \<and> 2 ^ 63 \<le> unat r"
  shows "signed_drop_bit 63 (d - r - 1) = (if d \<le> r then - 1 else 0)"
proof -
  have bounds: "unat r < 2 ^ 64" "unat d < 2 ^ 64"
    using unsigned_less [of r, where ?'a = nat] unsigned_less [of d, where ?'a = nat] by simp_all
  have "bit (d - r - 1) 63 \<longleftrightarrow> d \<le> r"
  proof (cases "d \<le> r")
    case True
    define k where "k = unat (r - d)"
    have "k = unat r - unat d" using True by (simp add: k_def unat_sub)
    then have k: "k < 2 ^ 63" using assms bounds by auto
    have "d - r - 1 = of_nat (2 ^ 64 - (k + 1))"
      using k by (simp add: k_def of_nat_diff)
    then have "unat (d - r - 1) = 2 ^ 64 - (k + 1)" by (simp add: unat_of_nat)
    then show ?thesis using True k unfolding bit_63_iff by simp
  next
    case False
    then have "unat r + 1 \<le> unat d" by (simp add: word_le_nat_alt)
    then have "unat (d - r - 1) = unat d - unat r - 1"
      using False by (simp add: unat_sub word_le_nat_alt unat_arith_simps)
    then show ?thesis using False assms bounds unfolding bit_63_iff by (auto simp: word_le_nat_alt)
  qed
  then show ?thesis by (simp add: sign_mask)
qed

text \<open>
  The state of the loop with \<open>k\<close> iterations to go: the upper \<open>64 - k\<close> bits of \<open>N\<close> have been divided,
  \<open>r\<close> is the remainder so far, \<open>q\<close> holds the remaining bits of \<open>N\<close> above the quotient so far, whose last
  bit is still in \<open>carry\<close>.
\<close>

definition udiv_inv :: "nat \<Rightarrow> nat \<Rightarrow> nat \<Rightarrow> udwords \<times> udwords \<times> u32 \<Rightarrow> bool" where
  "udiv_inv N D k p \<longleftrightarrow> (case p of (r, q, c) \<Rightarrow>
     unat (uall r) = N div 2 ^ k mod D
     \<and> unat (uall q) = N mod 2 ^ k * 2 ^ (64 - k) + N div 2 ^ k div D div 2
     \<and> c = of_nat (N div 2 ^ k div D mod 2))"

lemma div_pow_Suc: "N div 2 ^ k = 2 * (N div 2 ^ Suc k) + N div 2 ^ k mod 2" for N :: nat
  by (simp add: div_mult2_eq mult.commute [of 2])

lemma mod_pow_Suc: "N mod 2 ^ Suc k = (N div 2 ^ k mod 2) * 2 ^ k + N mod 2 ^ k" for N :: nat
  using mod_mult2_eq [of N "2 ^ k" 2] by (simp add: mult.commute)

text \<open>The arithmetic of one iteration.\<close>

lemma quotient_bound:
  fixes N D k :: nat
  assumes "N < 2 ^ 64" and "k \<le> 64"
  shows "N div 2 ^ k div D < 2 ^ (64 - k)"
proof -
  have "N div 2 ^ k < 2 ^ (64 - k)"
    using assms by (simp add: less_mult_imp_div_less flip: power_add)
  then show ?thesis using div_le_dividend order_le_less_trans by blast
qed

lemma top_bit:
  fixes N D k :: nat
  assumes "N < 2 ^ 64" and "k < 64"
  shows "(N mod 2 ^ Suc k * 2 ^ (64 - Suc k) + N div 2 ^ Suc k div D div 2) div 2 ^ 63 = N div 2 ^ k mod 2"
proof -
  let ?Q = "N div 2 ^ Suc k div D div 2"
  have p: "2 ^ 63 = 2 ^ (64 - Suc k) * (2 ^ k :: nat)" using assms by (simp flip: power_add)
  have "?Q < 2 ^ (64 - Suc k)"
    using quotient_bound [OF assms(1), of "Suc k" D] assms(2) div_le_dividend order_le_less_trans by (metis Suc_leI)
  then have "(N mod 2 ^ Suc k * 2 ^ (64 - Suc k) + ?Q) div 2 ^ (64 - Suc k) = N mod 2 ^ Suc k" by simp
  then have "(N mod 2 ^ Suc k * 2 ^ (64 - Suc k) + ?Q) div 2 ^ 63 = N mod 2 ^ Suc k div 2 ^ k"
    unfolding p div_mult2_eq by simp
  also have "\<dots> = N div 2 ^ k mod 2" unfolding mod_pow_Suc by simp
  finally show ?thesis .
qed

lemma quotient_shift:
  fixes N D k :: nat
  assumes "N < 2 ^ 64" and "k < 64"
  shows "(2 * (N mod 2 ^ Suc k * 2 ^ (64 - Suc k) + N div 2 ^ Suc k div D div 2) + N div 2 ^ Suc k div D mod 2) mod 2 ^ 64
    = N mod 2 ^ k * 2 ^ (64 - k) + N div 2 ^ Suc k div D"
proof -
  let ?Q = "N div 2 ^ Suc k div D" and ?b = "N div 2 ^ k mod 2"
  have p: "2 * 2 ^ (64 - Suc k) = (2 ^ (64 - k) :: nat)"
    using assms by (simp flip: power_Suc add: Suc_diff_Suc)
  have e: "2 ^ k * 2 ^ (64 - k) = (2 ^ 64 :: nat)" using assms by (simp flip: power_add)
  have "2 * (N mod 2 ^ Suc k * 2 ^ (64 - Suc k) + ?Q div 2) + ?Q mod 2 = N mod 2 ^ Suc k * 2 ^ (64 - k) + ?Q"
    using p by (simp add: algebra_simps)
  also have "\<dots> = ?b * 2 ^ 64 + (N mod 2 ^ k * 2 ^ (64 - k) + ?Q)"
    unfolding mod_pow_Suc e [symmetric] by (simp add: algebra_simps)
  finally have "(2 * (N mod 2 ^ Suc k * 2 ^ (64 - Suc k) + ?Q div 2) + ?Q mod 2) mod 2 ^ 64
      = (N mod 2 ^ k * 2 ^ (64 - k) + ?Q) mod 2 ^ 64" by (simp only: mod_mult_self3)
  moreover have "?Q < 2 ^ (64 - k)"
    using quotient_bound [OF assms(1), of "Suc k" D] assms(2) p by simp
  then have "N mod 2 ^ k * 2 ^ (64 - k) + ?Q < Suc (N mod 2 ^ k) * 2 ^ (64 - k)" by simp
  then have "N mod 2 ^ k * 2 ^ (64 - k) + ?Q < 2 ^ 64"
    using mult_le_mono1 [of "Suc (N mod 2 ^ k)" "2 ^ k" "2 ^ (64 - k)"] e by (simp add: Suc_leI)
  ultimately show ?thesis by simp
qed

lemma div_mod_near:
  fixes q R D :: nat
  assumes "R < 2 * D"
  shows "(q * D + R) div D = q + (if D \<le> R then 1 else 0)" and "(q * D + R) mod D = (if D \<le> R then R - D else R)"
proof -
  have "(q * D + R) div D = q + R div D" "(q * D + R) mod D = R mod D" using assms by simp_all
  moreover have "R div D = (if D \<le> R then 1 else 0)"
  proof (cases "D \<le> R")
    case True
    with assms have "R div D = Suc ((R - D) div D)" by (intro le_div_geq) auto
    with True assms show ?thesis by simp
  qed simp
  moreover have "R mod D = (if D \<le> R then R - D else R)" using assms by (simp add: le_mod_geq)
  ultimately show "(q * D + R) div D = q + (if D \<le> R then 1 else 0)" "(q * D + R) mod D = (if D \<le> R then R - D else R)"
    by simp_all
qed

lemma divide_one_bit:
  fixes N D k :: nat
  defines "R1 \<equiv> 2 * (N div 2 ^ Suc k mod D) + N div 2 ^ k mod 2"
  assumes "0 < D"
  shows "N div 2 ^ k div D = 2 * (N div 2 ^ Suc k div D) + (if D \<le> R1 then 1 else 0)"
    and "N div 2 ^ k mod D = (if D \<le> R1 then R1 - D else R1)" and "R1 < 2 * D" and "R1 \<le> N div 2 ^ k"
proof -
  let ?A = "N div 2 ^ Suc k"
  have b: "N div 2 ^ k mod 2 \<le> 1" by simp
  have "2 * ?A = 2 * (D * (?A div D) + ?A mod D)" by (simp only: mult_div_mod_eq)
  with div_pow_Suc [of N k] have A: "N div 2 ^ k = 2 * (?A div D) * D + R1"
    unfolding R1_def by (simp only: algebra_simps)
  have m: "?A mod D < D" using assms by simp
  then show lt: "R1 < 2 * D" unfolding R1_def using b by linarith
  show "R1 \<le> N div 2 ^ k" using A by simp
  show "N div 2 ^ k div D = 2 * (?A div D) + (if D \<le> R1 then 1 else 0)"
    using div_mod_near(1) [OF lt, of "2 * (?A div D)"] by (simp only: A [symmetric])
  show "N div 2 ^ k mod D = (if D \<le> R1 then R1 - D else R1)"
    using div_mod_near(2) [OF lt, of "2 * (?A div D)"] by (simp only: A [symmetric])
qed

lemma udiv_step_parts:
  assumes "c = 0 \<or> c = 1"
  obtains r1 where "udiv_step d (r, q, c) = (udw (uall r1 - (d AND signed_drop_bit 63 (d - uall r1 - 1))),
      \<lparr>low = push_bit 1 (low q) OR c, high = push_bit 1 (high q) OR drop_bit 31 (low q)\<rparr>,
      ucast (signed_drop_bit 63 (d - uall r1 - 1) AND 1))"
    and "unat (uall r1) = (2 * unat (uall r) + unat (uall q) div 2 ^ 63) mod 2 ^ 64"
    and "unat (uall \<lparr>low = push_bit 1 (low q) OR c, high = push_bit 1 (high q) OR drop_bit 31 (low q)\<rparr>)
      = (2 * unat (uall q) + unat c) mod 2 ^ 64"
proof -
  let ?t = "drop_bit 31 (high q)"
  have "unat ?t = unat (high q) div 2 ^ 31" by (rule unat_drop_bit)
  also have "\<dots> < 2" using u32_bound [of "high q"] by (simp add: less_mult_imp_div_less)
  finally have t: "?t = 0 \<or> ?t = 1" by (auto simp: less_2_cases_iff word_unat_eq_iff)
  have "unat (uall q) div 2 ^ 63 = unat (uall q) div 2 ^ 32 div 2 ^ 31" by (simp flip: div_mult2_eq)
  also have "unat (uall q) div 2 ^ 32 = unat (high q)" using u32_bound [of "low q"] by (simp add: unat_uall)
  finally have top: "unat ?t = unat (uall q) div 2 ^ 63" by (simp add: unat_drop_bit)
  show ?thesis
    by (rule that [of "\<lparr>low = push_bit 1 (low r) OR ?t, high = push_bit 1 (high r) OR drop_bit 31 (low r)\<rparr>"])
      (simp_all only: udiv_step_def Let_def split_beta fst_conv snd_conv uall_shift unat_shift [OF t] unat_shift [OF assms] top)
qed

lemma udiv_step_inv:
  assumes inv: "udiv_inv N (unat d) (Suc k) p" and N: "N < 2 ^ 64" and k: "k < 64" and d: "d \<noteq> 0"
    and cmp: "unat d \<le> 2 ^ 63 \<or> k = 0 \<and> 2 ^ 63 \<le> N"
  shows "udiv_inv N (unat d) k (udiv_step d p)"
proof -
  obtain r q c where p: "p = (r, q, c)" by (cases p)
  let ?D = "unat d" and ?Q = "N div 2 ^ Suc k div unat d"
  define R1 where "R1 = 2 * (N div 2 ^ Suc k mod ?D) + N div 2 ^ k mod 2"
  have D: "0 < ?D" using d by (simp add: unat_gt_0)
  note one = divide_one_bit [OF D, of N k, folded R1_def]
  have r: "unat (uall r) = N div 2 ^ Suc k mod ?D" and q: "unat (uall q) = N mod 2 ^ Suc k * 2 ^ (64 - Suc k) + ?Q div 2"
    and c: "c = of_nat (?Q mod 2)"
    using inv by (simp_all add: udiv_inv_def p)
  have c01: "c = 0 \<or> c = 1" using c by (cases "even ?Q") (simp_all add: mod_2_eq_odd)
  have uc: "unat c = ?Q mod 2" using c by (cases "even ?Q") (simp_all add: mod_2_eq_odd)
  obtain r1 where step: "udiv_step d (r, q, c) = (udw (uall r1 - (d AND signed_drop_bit 63 (d - uall r1 - 1))),
      \<lparr>low = push_bit 1 (low q) OR c, high = push_bit 1 (high q) OR drop_bit 31 (low q)\<rparr>,
      ucast (signed_drop_bit 63 (d - uall r1 - 1) AND 1))"
    and r1: "unat (uall r1) = (2 * unat (uall r) + unat (uall q) div 2 ^ 63) mod 2 ^ 64"
    and q1: "unat (uall \<lparr>low = push_bit 1 (low q) OR c, high = push_bit 1 (high q) OR drop_bit 31 (low q)\<rparr>)
      = (2 * unat (uall q) + unat c) mod 2 ^ 64"
    using udiv_step_parts [OF c01] by blast
  have "unat (uall r1) = R1 mod 2 ^ 64" unfolding r1 r q top_bit [OF N k] R1_def ..
  moreover have "R1 < 2 ^ 64" using one(4) div_le_dividend [of N "2 ^ k"] N by linarith
  ultimately have R1: "unat (uall r1) = R1" by (simp only: mod_less)
  have "signed_drop_bit 63 (d - uall r1 - 1) = (if d \<le> uall r1 then - 1 else 0)"
  proof (rule compare_mask)
    show "?D \<le> 2 ^ 63 \<and> unat (uall r1) < 2 * ?D \<or> 2 ^ 63 \<le> ?D \<and> 2 ^ 63 \<le> unat (uall r1)"
    proof (cases "?D \<le> 2 ^ 63")
      case True
      with one(3) R1 show ?thesis by simp
    next
      case False
      with cmp have "k = 0" "2 ^ 63 \<le> N" by auto
      moreover have "N div 2 < ?D" using False N by simp
      ultimately have "R1 = N" by (simp add: R1_def)
      with False R1 \<open>2 ^ 63 \<le> N\<close> show ?thesis by simp
    qed
  qed
  moreover have "d \<le> uall r1 \<longleftrightarrow> ?D \<le> R1" using R1 by (simp add: word_le_nat_alt)
  ultimately have s: "signed_drop_bit 63 (d - uall r1 - 1) = (if ?D \<le> R1 then - 1 else 0)" by simp
  have "unat (uall r1 - (d AND (if ?D \<le> R1 then - 1 else 0))) = N div 2 ^ k mod ?D"
    using R1 one(2) by (simp add: unat_sub word_le_nat_alt)
  moreover have "unat (uall \<lparr>low = push_bit 1 (low q) OR c, high = push_bit 1 (high q) OR drop_bit 31 (low q)\<rparr>)
      = N mod 2 ^ k * 2 ^ (64 - k) + N div 2 ^ k div ?D div 2"
    unfolding q1 q uc quotient_shift [OF N k] one(1) by simp
  moreover have "(ucast ((if ?D \<le> R1 then - 1 else 0 :: u64) AND 1) :: u32) = of_nat (N div 2 ^ k div ?D mod 2)"
    unfolding one(1) by simp
  ultimately show ?thesis unfolding p step s udiv_inv_def by simp
qed

lemma udiv_loop_inv:
  assumes "udiv_inv N (unat d) k p" and "N < 2 ^ 64" and "k \<le> 64" and "d \<noteq> 0"
    and "unat d \<le> 2 ^ 63 \<or> k = 1 \<and> 2 ^ 63 \<le> N"
  shows "udiv_inv N (unat d) 0 (udiv_loop k d p)"
  using assms
proof (induction k arbitrary: p)
  case (Suc k)
  show ?case
  proof (cases "unat d \<le> 2 ^ 63")
    case True
    have "udiv_inv N (unat d) k (udiv_step d p)" using Suc.prems by (intro udiv_step_inv) auto
    with Suc True show ?thesis by simp
  next
    case False
    with Suc.prems have "k = 0" "2 ^ 63 \<le> N" by auto
    then have "udiv_inv N (unat d) 0 (udiv_step d p)" using Suc.prems by (intro udiv_step_inv) auto
    with \<open>k = 0\<close> show ?thesis by simp
  qed
qed simp

lemma udiv_tail_spec:
  assumes k: "1 \<le> unat sr" "unat sr \<le> 63" and b: "b \<noteq> 0"
    and q: "uall q = push_bit (64 - unat sr) a" and r: "uall r = drop_bit (unat sr) a"
    and lt: "unat a div 2 ^ unat sr < unat b" and cmp: "unat b \<le> 2 ^ 63 \<or> unat sr = 1 \<and> 2 ^ 63 \<le> unat a"
  shows "udiv_tail b sr q r = Inr (a div b, a mod b)"
proof -
  let ?k = "unat sr" and ?N = "unat a"
  have "unat (uall q) = (?N * 2 ^ (64 - ?k)) mod 2 ^ 64"
    unfolding q unsigned_push_bit_eq by (simp add: take_bit_eq_mod push_bit_eq_mult)
  also have "(2 :: nat) ^ 64 = 2 ^ ?k * 2 ^ (64 - ?k)" using k by (simp flip: power_add)
  finally have "unat (uall q) = ?N mod 2 ^ ?k * 2 ^ (64 - ?k)" by (simp add: mult_mod_left)
  moreover have "unat (uall r) = ?N div 2 ^ ?k" unfolding r by (rule unat_drop_bit)
  ultimately have "udiv_inv ?N (unat b) ?k (r, q, 0)"
    using lt by (simp add: udiv_inv_def)
  then have "udiv_inv ?N (unat b) 0 (udiv_loop ?k b (r, q, 0))"
    using k b cmp u64_bound by (intro udiv_loop_inv) auto
  then obtain r' q' c where loop: "udiv_loop ?k b (r, q, 0) = (r', q', c)"
    and r': "unat (uall r') = ?N mod unat b" and q': "unat (uall q') = ?N div unat b div 2"
    and c: "c = of_nat (?N div unat b mod 2)"
    by (cases "udiv_loop ?k b (r, q, 0)") (auto simp: udiv_inv_def)
  have c01: "c = 0 \<or> c = 1" "unat c = ?N div unat b mod 2"
    using c by (cases "even (?N div unat b)"; simp add: mod_2_eq_odd)+
  have "unat (push_bit 1 (uall q') OR ucast c) = (?N div unat b) mod 2 ^ 64"
    unfolding unat_shift [OF c01(1)] q' c01(2) by simp
  also have "\<dots> = ?N div unat b"
    using div_le_dividend [of ?N "unat b"] u64_bound [of a] by (intro mod_less) linarith
  finally have "push_bit 1 (uall q') OR ucast c = a div b"
    by (simp add: word_unat_eq_iff unat_div_distrib)
  moreover have "uall r' = a mod b" using r' by (simp add: word_unat_eq_iff unat_mod_distrib)
  ultimately show ?thesis by (simp add: udiv_tail_def loop)
qed

text \<open>The initial values of \<open>q\<close> and \<open>r\<close> for the three ranges of \<open>sr\<close>.\<close>

lemma udw_fields [simp]: "low (udw a) = ucast a" "high (udw a) = ucast (drop_bit 32 a)"
  by (simp_all add: udw_def)

lemma start_small:
  assumes "0 < k" and "k < 32"
  shows "uall \<lparr>low = 0, high = push_bit (32 - k) (low (udw a))\<rparr> = push_bit (64 - k) a"
    and "uall \<lparr>low = push_bit (32 - k) (high (udw a)) OR drop_bit k (low (udw a)), high = drop_bit k (high (udw a))\<rparr>
      = drop_bit k a"
proof -
  show "uall \<lparr>low = 0, high = push_bit (32 - k) (low (udw a))\<rparr> = push_bit (64 - k) a"
    using assms by (intro bit_word_eqI) (auto simp: uall_def bit_simps)
  show "uall \<lparr>low = push_bit (32 - k) (high (udw a)) OR drop_bit k (low (udw a)), high = drop_bit k (high (udw a))\<rparr>
      = drop_bit k a"
  proof (rule bit_word_eqI)
    fix n
    assume n: "n < LENGTH(64)"
    have out: "bit a i \<Longrightarrow> i < 64" for i by (auto dest: bit_imp_le_length)
    show "bit (uall \<lparr>low = push_bit (32 - k) (high (udw a)) OR drop_bit k (low (udw a)), high = drop_bit k (high (udw a))\<rparr>) n
        = bit (drop_bit k a) n"
      using assms n by (cases "n < 32"; cases "n + k < 32") (auto simp: uall_def bit_simps dest: out simp: algebra_simps)
  qed
qed

lemma start_32:
  "uall \<lparr>low = 0, high = low (udw a)\<rparr> = push_bit 32 a" "uall \<lparr>low = high (udw a), high = 0\<rparr> = drop_bit 32 a"
proof -
  show "uall \<lparr>low = 0, high = low (udw a)\<rparr> = push_bit 32 a"
    by (rule bit_word_eqI) (auto simp: uall_def bit_simps)
  have "bit a (32 + n) \<Longrightarrow> n < 32" for n using bit_imp_le_length [of a "32 + n"] by simp
  then show "uall \<lparr>low = high (udw a), high = 0\<rparr> = drop_bit 32 a"
    by (intro bit_word_eqI) (auto simp: uall_def bit_simps)
qed

lemma start_large:
  assumes "32 < k" and "k < 64"
  shows "uall \<lparr>low = push_bit (64 - k) (low (udw a)), high = push_bit (64 - k) (high (udw a)) OR drop_bit (k - 32) (low (udw a))\<rparr>
      = push_bit (64 - k) a"
    and "uall \<lparr>low = drop_bit (k - 32) (high (udw a)), high = 0\<rparr> = drop_bit k a"
proof -
  show "uall \<lparr>low = push_bit (64 - k) (low (udw a)), high = push_bit (64 - k) (high (udw a)) OR drop_bit (k - 32) (low (udw a))\<rparr>
      = push_bit (64 - k) a"
    using uall_shift_gen [of "64 - k" "udw a" 0] assms by simp
  show "uall \<lparr>low = drop_bit (k - 32) (high (udw a)), high = 0\<rparr> = drop_bit k a"
    using assms by (intro bit_word_eqI) (auto simp: uall_def bit_simps dest: bit_imp_le_length)
qed

section \<open>Powers of two\<close>

lemma ctz_number:
  assumes "x \<noteq> 0"
  shows "\<exists>m. unat x = 2 ^ unat (ctzsi2 x) * (2 * m + 1)"
proof -
  let ?k = "unat (ctzsi2 x)"
  have "take_bit ?k x = 0" "bit x ?k" using ctzsi2_spec [OF assms] by simp_all
  then have "unat x mod 2 ^ ?k = 0" "odd (unat x div 2 ^ ?k)"
    using bit_unsigned_iff [of x ?k, where ?'a = nat] unsigned_take_bit_eq [of ?k x, where ?'a = nat]
    by (simp_all add: take_bit_eq_mod bit_iff_odd)
  then show ?thesis by (metis add.right_neutral mult_div_mod_eq oddE)
qed

lemma div_with_rest: "r < q \<Longrightarrow> (q * m + r) div q = (m :: nat)"
  by simp

lemma below_div_mod:
  assumes "a < (b :: u64)"
  shows "a div b = 0" and "a mod b = a"
  using assms by (simp_all add: word_unat_eq_iff unat_div_distrib unat_mod_distrib word_less_nat_alt)

lemma power_of_two:
  assumes "x \<noteq> 0" and "x AND (x - 1) = 0"
  shows "unat x = 2 ^ unat (ctzsi2 x)"
proof -
  let ?k = "unat (ctzsi2 x)"
  obtain m where m: "unat x = 2 ^ ?k * (2 * m + 1)" using ctz_number [OF assms(1)] by blast
  have x: "unat x = 2 ^ Suc ?k * m + 2 ^ ?k" using m by (simp add: algebra_simps)
  have u1: "unat (x - 1) = unat x - 1" using assms(1) by (simp add: unat_minus_one)
  have "unat x div 2 ^ Suc ?k = m" unfolding x by simp
  moreover have "unat x - 1 = 2 ^ Suc ?k * m + (2 ^ ?k - 1)" using x by simp
  moreover have "(2 ^ Suc ?k * m + (2 ^ ?k - 1)) div 2 ^ Suc ?k = m"
  proof -
    have "(2 :: nat) ^ ?k - 1 < 2 ^ Suc ?k" by (simp add: less_imp_diff_less)
    then show ?thesis by (rule div_with_rest)
  qed
  ultimately have "drop_bit (Suc ?k) x = drop_bit (Suc ?k) (x - 1)"
    by (simp only: word_unat_eq_iff unat_drop_bit u1)
  moreover have "drop_bit (Suc ?k) (x AND (x - 1)) = drop_bit (Suc ?k) x AND drop_bit (Suc ?k) (x - 1)"
    by (rule drop_bit_and)
  ultimately have "drop_bit (Suc ?k) x = 0" using assms(2) by simp
  then have "m = 0" using \<open>unat x div 2 ^ Suc ?k = m\<close> unat_drop_bit [of "Suc ?k" x] by simp
  with m show ?thesis by simp
qed

lemma and_below_power:
  fixes w x :: u32
  assumes "unat x = 2 ^ k"
  shows "unat (w AND (x - 1)) = unat w mod 2 ^ k"
proof -
  have "x = 2 ^ k" using arg_cong [OF assms, of "of_nat :: nat \<Rightarrow> u32"] by simp
  then have "x - 1 = mask k" by (simp add: mask_eq_exp_minus_1)
  then have "w AND (x - 1) = take_bit k w" by (simp only: take_bit_eq_mask)
  then show ?thesis by (simp only: unsigned_take_bit_eq) (simp only: take_bit_eq_mod)
qed

section \<open>Division is division\<close>

lemma clz_range:
  assumes "x \<noteq> 0"
  shows "2 ^ (31 - unat (clzsi2 x)) \<le> unat x" and "unat x < 2 ^ (32 - unat (clzsi2 x))" and "unat (clzsi2 x) < 32"
proof -
  let ?c = "unat (clzsi2 x)"
  have c: "?c < 32" "drop_bit (31 - ?c) x = 1" using clzsi2_spec [OF assms] by simp_all
  then have one: "unat x div 2 ^ (31 - ?c) = 1" using unat_drop_bit [of "31 - ?c" x] by simp
  show "2 ^ (31 - ?c) \<le> unat x" using one by (metis div_less leI zero_neq_one)
  have "unat x < 2 * 2 ^ (31 - ?c)"
    using dividend_less_div_times [of "2 ^ (31 - ?c)" "unat x"] one by simp
  also have "2 * 2 ^ (31 - ?c) = (2 :: nat) ^ (32 - ?c)" using c(1) by (simp flip: power_Suc add: Suc_diff_Suc)
  finally show "unat x < 2 ^ (32 - ?c)" .
  show "?c < 32" by (rule c)
qed

lemma number_of_halves: "unat a = unat (high (udw a)) * 2 ^ 32 + unat (low (udw a))"
  using unat_uall [of "udw a"] by (simp del: udw_fields)

text \<open>With the leading zeros of both high halves known: how the numbers compare.\<close>

lemma high_range:
  assumes "high (udw a) \<noteq> 0"
  shows "2 ^ (63 - unat (clzsi2 (high (udw a)))) \<le> unat a" and "unat a < 2 ^ (64 - unat (clzsi2 (high (udw a))))"
proof -
  let ?c = "unat (clzsi2 (high (udw a)))" and ?h = "unat (high (udw a))"
  note r = clz_range [OF assms]
  have e: "2 ^ (63 - ?c) = 2 ^ (31 - ?c) * (2 :: nat) ^ 32" "2 ^ (64 - ?c) = 2 ^ (32 - ?c) * (2 :: nat) ^ 32"
    using r(3) by (simp_all only: power_add [symmetric]) (simp_all add: add.commute)
  have "2 ^ (31 - ?c) * (2 :: nat) ^ 32 \<le> ?h * 2 ^ 32" using r(1) by (rule mult_le_mono1)
  then show "2 ^ (63 - ?c) \<le> unat a" unfolding e number_of_halves [of a] by linarith
  have "Suc ?h * 2 ^ 32 \<le> 2 ^ (32 - ?c) * (2 :: nat) ^ 32" using r(2) by (intro mult_le_mono1) simp
  then show "unat a < 2 ^ (64 - ?c)" unfolding e number_of_halves [of a] using u32_bound [of "low (udw a)"] by simp
qed

lemma clz_diff:
  fixes x y :: u32
  assumes "unat x < 32" and "unat y < 32"
  shows "unat y \<le> unat x \<Longrightarrow> unat (x - y) = unat x - unat y"
    and "unat x < unat y \<Longrightarrow> 31 < unat (x - y)"
proof -
  show "unat y \<le> unat x \<Longrightarrow> unat (x - y) = unat x - unat y" by (simp add: unat_sub word_le_nat_alt)
  assume "unat x < unat y"
  then have "unat (x - y) = 2 ^ 32 + unat x - unat y"
    using assms by (simp add: unat_sub_if_size word_size)
  then show "31 < unat (x - y)" using assms by simp
qed


lemma small_high: "high (udw a) = 0 \<Longrightarrow> unat a = unat (low (udw a))"
  by (simp add: number_of_halves [of a] del: udw_fields)

lemma udivmod_no_high:
  assumes "high (udw a) = 0" and "b \<noteq> 0"
  shows "udivmoddi4 a b = Inr (a div b, a mod b)"
proof (cases "high (udw b) = 0")
  case True
  have nz: "low (udw b) \<noteq> 0" using assms(2) small_high [OF True] by (auto simp del: udw_fields simp: unat_eq_0)
  have "ucast (low (udw a) div low (udw b)) = a div b" "ucast (low (udw a) mod low (udw b)) = a mod b"
    using small_high [OF True] small_high [OF assms(1)] u32_bound [of "low (udw a) div low (udw b)"] u32_bound [of "low (udw a) mod low (udw b)"]
    by (simp_all del: udw_fields add: word_unat_eq_iff unsigned_ucast_eq unat_div_distrib unat_mod_distrib take_bit_nat_eq_self)
  with True assms nz show ?thesis by (simp add: udivmoddi4_def del: udw_fields)
next
  case False
  then have "unat (high (udw b)) \<noteq> 0" by (simp del: udw_fields add: unat_eq_0)
  then have "a < b" using small_high [OF assms(1)] number_of_halves [of b] u32_bound [of "low (udw a)"]
    by (simp del: udw_fields add: word_less_nat_alt)
  moreover have "ucast (low (udw a)) = a"
    using small_high [OF assms(1)] u32_bound [of "low (udw a)"]
    by (simp del: udw_fields add: word_unat_eq_iff unsigned_ucast_eq take_bit_nat_eq_self)
  ultimately show ?thesis using False assms by (simp add: udivmoddi4_def below_div_mod del: udw_fields)
qed


lemma halves_div:
  fixes h d l :: nat
  assumes "l < 2 ^ 32"
  shows "(h * 2 ^ 32 + l) div (2 ^ 32 * d) = h div d" and "(h * 2 ^ 32 + l) mod (2 ^ 32 * d) = (h mod d) * 2 ^ 32 + l"
  using assms by (simp_all only: div_mult2_eq mod_mult2_eq) simp_all

lemma shift_from_high:
  assumes n: "high (udw a) \<noteq> 0" and d: "high (udw b) \<noteq> 0"
    and k: "unat (clzsi2 (high (udw a))) \<le> unat (clzsi2 (high (udw b)))"
    and sr: "k = Suc (unat (clzsi2 (high (udw b))) - unat (clzsi2 (high (udw a))))"
  shows "unat a div 2 ^ k < unat b" and "unat b \<le> 2 ^ 63 \<or> k = 1 \<and> 2 ^ 63 \<le> unat a" and "k \<le> 32"
proof -
  let ?n = "unat (clzsi2 (high (udw a)))" and ?d = "unat (clzsi2 (high (udw b)))"
  have less: "?n < 32" "?d < 32" using clz_range(3) n d by blast+
  have "64 - ?n = (63 - ?d) + k" using k sr less by simp
  then have "unat a < 2 ^ (63 - ?d) * 2 ^ k" using high_range(2) [OF n] by (simp only: power_add)
  then have "unat a div 2 ^ k < 2 ^ (63 - ?d)" by (simp add: less_mult_imp_div_less)
  also have "\<dots> \<le> unat b" by (rule high_range(1) [OF d])
  finally show "unat a div 2 ^ k < unat b" .
  show "k \<le> 32" using sr less by simp
  show "unat b \<le> 2 ^ 63 \<or> k = 1 \<and> 2 ^ 63 \<le> unat a"
  proof (cases "?d = 0")
    case True
    then have "?n = 0" "k = 1" using k sr by simp_all
    then show ?thesis using high_range(1) [OF n] by simp
  next
    case False
    then have "(2 :: nat) ^ (64 - ?d) \<le> 2 ^ 63" by (intro power_increasing) simp_all
    then show ?thesis using high_range(2) [OF d] by linarith
  qed
qed

lemma below_divisor:
  assumes n: "high (udw a) \<noteq> 0" and d: "high (udw b) \<noteq> 0"
    and less: "unat (clzsi2 (high (udw b))) < unat (clzsi2 (high (udw a)))"
  shows "(0, a) = (a div b, a mod b)"
proof -
  have "(2 :: nat) ^ (64 - unat (clzsi2 (high (udw a)))) \<le> 2 ^ (63 - unat (clzsi2 (high (udw b))))"
    using less by (intro power_increasing) simp_all
  then have "a < b" using high_range(2) [OF n] high_range(1) [OF d] by (simp only: word_less_nat_alt)
  then show ?thesis by (simp add: below_div_mod)
qed


lemma minus_count: "unat (x :: u32) \<le> 32 \<Longrightarrow> unat (32 - x) = 32 - unat x" "unat (x :: u32) \<le> 64 \<Longrightarrow> unat (64 - x) = 64 - unat x"
  "32 \<le> unat (x :: u32) \<Longrightarrow> unat (x - 32) = unat x - 32"
  by (simp_all add: unat_sub word_le_nat_alt)

lemma tail_small:
  assumes "1 \<le> unat sr" "unat sr < 32" "b \<noteq> 0" "unat a div 2 ^ unat sr < unat b"
    "unat b \<le> 2 ^ 63 \<or> unat sr = 1 \<and> 2 ^ 63 \<le> unat a"
  shows "udiv_tail b sr \<lparr>low = 0, high = push_bit (unat (32 - sr)) (low (udw a))\<rparr>
      \<lparr>low = push_bit (unat (32 - sr)) (high (udw a)) OR drop_bit (unat sr) (low (udw a)), high = drop_bit (unat sr) (high (udw a))\<rparr>
    = Inr (a div b, a mod b)"
  using assms start_small [of "unat sr" a] minus_count(1) [of sr]
  by (intro udiv_tail_spec) (simp_all del: udw_fields)

lemma tail_32:
  assumes "unat sr = 32" "b \<noteq> 0" "unat a div 2 ^ 32 < unat b" "unat b \<le> 2 ^ 63"
  shows "udiv_tail b sr \<lparr>low = 0, high = low (udw a)\<rparr> \<lparr>low = high (udw a), high = 0\<rparr> = Inr (a div b, a mod b)"
  using assms start_32 [of a] by (intro udiv_tail_spec) (simp_all del: udw_fields)

lemma tail_large:
  assumes "32 < unat sr" "unat sr < 64" "b \<noteq> 0" "unat a div 2 ^ unat sr < unat b" "unat b \<le> 2 ^ 63"
  shows "udiv_tail b sr \<lparr>low = push_bit (unat (64 - sr)) (low (udw a)),
        high = push_bit (unat (64 - sr)) (high (udw a)) OR drop_bit (unat (sr - 32)) (low (udw a))\<rparr>
      \<lparr>low = drop_bit (unat (sr - 32)) (high (udw a)), high = 0\<rparr> = Inr (a div b, a mod b)"
  using assms start_large [of "unat sr" a] minus_count(2,3) [of sr]
  by (intro udiv_tail_spec) (simp_all del: udw_fields)


lemma not_power_clz:
  assumes "x AND (x - 1) \<noteq> 0"
  shows "unat (clzsi2 x) \<le> 30"
proof (rule ccontr)
  assume "\<not> ?thesis"
  moreover have nz: "x \<noteq> 0" using assms by auto
  ultimately have "unat (clzsi2 x) = 31" using clz_range(3) [OF nz] by simp
  then have "unat x = 1" using clz_range(1,2) [OF nz] by simp
  then have "x = 1" by (simp add: word_unat_eq_iff)
  with assms show False by simp
qed

lemma succ_count: "unat (x :: u32) \<le> 31 \<Longrightarrow> unat (x + 1) = Suc (unat x)"
  by (simp add: unat_word_ariths)

text \<open>The branch with both high halves present, shared by a zero and a nonzero low half of the divisor.\<close>

lemma udiv_high_high:
  assumes n: "high (udw a) \<noteq> 0" and d: "high (udw b) \<noteq> 0"
    and sr: "sr = clzsi2 (high (udw b)) - clzsi2 (high (udw a))"
  shows "31 < sr \<Longrightarrow> (0, a) = (a div b, a mod b)"
    and "sr = 31 \<Longrightarrow> udiv_tail b (sr + 1) \<lparr>low = 0, high = low (udw a)\<rparr> \<lparr>low = high (udw a), high = 0\<rparr> = Inr (a div b, a mod b)"
    and "sr < 31 \<Longrightarrow> udiv_tail b (sr + 1) \<lparr>low = 0, high = push_bit (unat (32 - (sr + 1))) (low (udw a))\<rparr>
      \<lparr>low = push_bit (unat (32 - (sr + 1))) (high (udw a)) OR drop_bit (unat (sr + 1)) (low (udw a)),
       high = drop_bit (unat (sr + 1)) (high (udw a))\<rparr> = Inr (a div b, a mod b)"
proof -
  let ?n = "clzsi2 (high (udw a))" and ?d = "clzsi2 (high (udw b))"
  have less: "unat ?n < 32" "unat ?d < 32" using clz_range(3) n d by blast+
  have b: "b \<noteq> 0" using d by auto
  { assume "31 < sr"
    then have "31 < unat sr" by (simp add: word_less_nat_alt)
    then have "unat ?d < unat ?n" using clz_diff(1) [OF less(2,1)] less sr by (cases "unat ?n \<le> unat ?d") auto
    then show "(0, a) = (a div b, a mod b)" by (rule below_divisor [OF n d]) }
  { assume small: "sr \<le> 31"
    then have small: "unat sr \<le> 31" by (simp add: word_le_nat_alt)
    then have le: "unat ?n \<le> unat ?d" using clz_diff(2) [OF less(2,1)] sr by (cases "unat ?n \<le> unat ?d") auto
    then have "unat (sr + 1) = Suc (unat ?d - unat ?n)" using succ_count [OF small] clz_diff(1) [OF less(2,1)] sr by simp
    note shift_from_high [OF n d le this] }
  note shift = this
  { assume "sr = 31"
    with shift b show "udiv_tail b (sr + 1) \<lparr>low = 0, high = low (udw a)\<rparr> \<lparr>low = high (udw a), high = 0\<rparr> = Inr (a div b, a mod b)"
      by (intro tail_32) auto }
  { assume "sr < 31"
    moreover then have "unat (sr + 1) = Suc (unat sr)" "unat sr < 31" by (simp_all add: succ_count word_less_nat_alt)
    ultimately show "udiv_tail b (sr + 1) \<lparr>low = 0, high = push_bit (unat (32 - (sr + 1))) (low (udw a))\<rparr>
      \<lparr>low = push_bit (unat (32 - (sr + 1))) (high (udw a)) OR drop_bit (unat (sr + 1)) (low (udw a)),
       high = drop_bit (unat (sr + 1)) (high (udw a))\<rparr> = Inr (a div b, a mod b)"
      using shift b by (intro tail_small) auto }
qed

lemma udivmod_low_zero:
  assumes n: "high (udw a) \<noteq> 0" and l: "low (udw b) = 0" and d: "high (udw b) \<noteq> 0"
  shows "udivmoddi4 a b = Inr (a div b, a mod b)"
proof -
  let ?h = "high (udw a)" and ?l = "low (udw a)" and ?d = "high (udw b)"
  have b: "unat b = 2 ^ 32 * unat ?d" using number_of_halves [of b] l by (simp del: udw_fields)
  note ud = halves_div [OF u32_bound [of ?l], of "unat ?h" "unat ?d"]
  have qd: "ucast (?h div ?d) = a div b"
    using number_of_halves [of a] b ud(1) u32_bound [of "?h div ?d"]
    by (simp del: udw_fields add: word_unat_eq_iff unat_div_distrib unsigned_ucast_eq take_bit_nat_eq_self)
  have rem: "unat r = unat ?h mod unat ?d \<Longrightarrow> uall \<lparr>low = ?l, high = r\<rparr> = a mod b" for r
    using number_of_halves [of a] b ud(2)
    by (simp del: udw_fields add: word_unat_eq_iff unat_mod_distrib unat_uall)
  consider "?l = 0" | "?l \<noteq> 0" "?d AND (?d - 1) = 0" | "?l \<noteq> 0" "?d AND (?d - 1) \<noteq> 0" by blast
  then show ?thesis
  proof cases
    case 1
    with n l d qd rem [of "?h mod ?d"] show ?thesis by (simp add: udivmoddi4_def unat_mod_distrib del: udw_fields)
  next
    case 2
    have p: "unat ?d = 2 ^ unat (ctzsi2 ?d)" using d 2 by (intro power_of_two)
    have "drop_bit (unat (ctzsi2 ?d)) ?h = ?h div ?d" using p by (simp del: udw_fields add: word_unat_eq_iff unat_drop_bit unat_div_distrib)
    moreover have "unat (?h AND (?d - 1)) = unat ?h mod unat ?d" using and_below_power [OF p] p by simp
    ultimately show ?thesis using n l d 2 qd rem by (simp add: udivmoddi4_def del: udw_fields)
  next
    case 3
    let ?sr = "clzsi2 ?d - clzsi2 ?h"
    have "?sr \<noteq> 31"
    proof
      assume "?sr = 31"
      then have "unat ?sr = 31" by simp
      moreover have "unat (clzsi2 ?h) < 32" "unat (clzsi2 ?d) < 32" using clz_range(3) n d by blast+
      ultimately have "31 \<le> unat (clzsi2 ?d)"
        using clz_diff [of "clzsi2 ?d" "clzsi2 ?h"] by (cases "unat (clzsi2 ?h) \<le> unat (clzsi2 ?d)") simp_all
      with not_power_clz [OF 3(2)] show False by simp
    qed
    then have "30 < ?sr \<longleftrightarrow> 31 < ?sr" by (auto simp: word_less_nat_alt word_unat_eq_iff)
    moreover have "?sr < 31 \<or> 31 < ?sr" using \<open>?sr \<noteq> 31\<close> by (simp add: neq_iff)
    ultimately show ?thesis using udiv_high_high [OF n d refl] n l d 3
      by (auto simp: udivmoddi4_def Let_def simp del: udw_fields)
  qed
qed


lemma low_mod:
  fixes h l k :: nat
  assumes "k < 32"
  shows "(h * 2 ^ 32 + l) mod 2 ^ k = l mod 2 ^ k"
proof -
  have "(2 :: nat) ^ 32 = 2 ^ (32 - k) * 2 ^ k" using assms by (simp flip: power_add)
  then have "(h * 2 ^ 32 + l) mod 2 ^ k = (l + (h * 2 ^ (32 - k)) * 2 ^ k) mod 2 ^ k"
    by (simp only: mult.assoc add.commute)
  then show ?thesis by (simp only: mod_mult_self1)
qed

lemma udivmod_power:
  assumes n: "high (udw a) \<noteq> 0" and l: "low (udw b) \<noteq> 0" and d: "high (udw b) = 0"
    and p: "low (udw b) AND (low (udw b) - 1) = 0"
  shows "udivmoddi4 a b = Inr (a div b, a mod b)"
proof -
  let ?k = "unat (ctzsi2 (low (udw b)))"
  have k: "unat (low (udw b)) = 2 ^ ?k" using l p by (rule power_of_two)
  have k32: "?k < 32" using ctzsi2_spec [OF l] by simp
  have b: "unat b = 2 ^ ?k" using small_high [OF d] k by simp
  have "unat (ucast (low (udw a) AND (low (udw b) - 1)) :: u64) = unat (low (udw a) AND (low (udw b) - 1))"
    using u32_bound [of "low (udw a) AND (low (udw b) - 1)"]
    by (simp del: udw_fields add: unsigned_ucast_eq take_bit_nat_eq_self)
  also have "\<dots> = unat a mod unat b"
    unfolding b number_of_halves [of a] low_mod [OF k32] by (rule and_below_power [OF k])
  finally have rem: "ucast (low (udw a) AND (low (udw b) - 1)) = a mod b"
    by (simp del: udw_fields add: word_unat_eq_iff unat_mod_distrib)
  have quot: "drop_bit ?k a = a div b" using b by (simp del: udw_fields add: word_unat_eq_iff unat_drop_bit unat_div_distrib)
  show ?thesis
  proof (cases "low (udw b) = 1")
    case True
    then have "a div b = a" using b k by (simp del: udw_fields add: word_unat_eq_iff unat_div_distrib)
    with True n l d p rem show ?thesis by (simp add: udivmoddi4_def del: udw_fields)
  next
    case False
    have "0 < ?k"
    proof (rule ccontr)
      assume "\<not> 0 < ?k"
      with k have "unat (low (udw b)) = 1" by simp
      with False show False by (simp del: udw_fields add: word_unat_eq_iff)
    qed
    then show ?thesis
      using False n l d p rem start_small(2) [of ?k a] k32 minus_count(1) [of "ctzsi2 (low (udw b))"] quot
      by (simp add: udivmoddi4_def Let_def del: udw_fields)
  qed
qed

lemma udivmod_low_only:
  assumes n: "high (udw a) \<noteq> 0" and l: "low (udw b) \<noteq> 0" and d: "high (udw b) = 0"
    and p: "low (udw b) AND (low (udw b) - 1) \<noteq> 0"
  shows "udivmoddi4 a b = Inr (a div b, a mod b)"
proof -
  let ?n = "unat (clzsi2 (high (udw a)))" and ?d = "unat (clzsi2 (low (udw b)))"
  define sr where "sr = 1 + 32 + clzsi2 (low (udw b)) - clzsi2 (high (udw a))"
  have less: "?n < 32" "?d \<le> 30" using clz_range(3) [OF n] not_power_clz [OF p] by auto
  have up: "unat (1 + 32 + clzsi2 (low (udw b))) = 33 + ?d" using less by (simp add: unat_word_ariths)
  have sr: "unat sr = 33 + ?d - ?n" using less up unfolding sr_def by (simp add: unat_sub word_le_nat_alt)
  have b: "unat b < 2 ^ 63" "b \<noteq> 0" "2 ^ (31 - ?d) \<le> unat b"
    using small_high [OF d] u32_bound [of "low (udw b)"] l clz_range(1) [OF l] by (auto simp: word_unat_eq_iff simp del: udw_fields)
  have "64 - ?n = (31 - ?d) + unat sr" using less sr by simp
  then have "unat a < 2 ^ (31 - ?d) * 2 ^ unat sr" using high_range(2) [OF n] by (simp only: power_add)
  then have lt: "unat a div 2 ^ unat sr < unat b" using b(3) by (auto dest: less_mult_imp_div_less)
  consider "unat sr = 32" | "unat sr < 32" | "32 < unat sr" by linarith
  then show ?thesis
  proof cases
    case 1
    then have "sr = 32" by (simp add: word_unat_eq_iff)
    with 1 b lt n l d p tail_32 [of sr b a] show ?thesis
      by (simp add: udivmoddi4_def Let_def del: udw_fields flip: sr_def [simplified])
  next
    case 2
    then have "sr \<noteq> 32" "sr < 32" by (auto simp: word_less_nat_alt)
    with 2 b lt n l d p sr_def sr less tail_small [of sr b a] show ?thesis by (simp add: udivmoddi4_def Let_def del: udw_fields)
  next
    case 3
    then have "sr \<noteq> 32" "\<not> sr < 32" by (auto simp: word_less_nat_alt)
    with 3 b lt n l d p sr_def sr less tail_large [of sr b a] show ?thesis by (simp add: udivmoddi4_def Let_def del: udw_fields)
  qed
qed

theorem udivmoddi4_divides:
  assumes "b \<noteq> 0"
  shows "udivmoddi4 a b = Inr (a div b, a mod b)"
proof -
  let ?h = "high (udw a)" and ?l = "low (udw b)" and ?d = "high (udw b)"
  consider "?h = 0" | "?h \<noteq> 0" "?l = 0" | "?h \<noteq> 0" "?l \<noteq> 0" "?d = 0" | "?h \<noteq> 0" "?l \<noteq> 0" "?d \<noteq> 0" by blast
  then show ?thesis
  proof cases
    case 1 with assms show ?thesis by (intro udivmod_no_high)
  next
    case 2
    then have "?d \<noteq> 0" using assms number_of_halves [of b] by (auto simp: unat_eq_0 simp del: udw_fields)
    with 2 show ?thesis by (intro udivmod_low_zero)
  next
    case 3 then show ?thesis using udivmod_power udivmod_low_only by blast
  next
    case 4
    let ?sr = "clzsi2 ?d - clzsi2 ?h"
    have "?sr + 1 = 32 \<longleftrightarrow> ?sr = 31" using add_right_cancel [of ?sr 1 31] by simp
    then show ?thesis using udiv_high_high [OF 4(1,3) refl] 4
      by (auto simp: udivmoddi4_def Let_def not_less le_less simp del: udw_fields)
  qed
qed

lemma udivmoddi4_zero: "udivmoddi4 a 0 = Inl (Panic ''division by zero'')"
  by (simp add: udivmoddi4_def Let_def)


lemma udivdi3_divides: "b \<noteq> 0 \<Longrightarrow> udivdi3 a b = Inr (a div b)"
  by (simp add: udivdi3_def udivmoddi4_divides)

lemma umoddi3_divides: "b \<noteq> 0 \<Longrightarrow> umoddi3 a b = Inr (a mod b)"
  by (simp add: umoddi3_def udivmoddi4_divides)

section \<open>Signed division rounds towards zero\<close>

lemma negate_by_mask: "(x XOR (if c then - 1 else 0)) - (if c then - 1 else 0) = (if c then - x else x)" for x :: u64
  by (simp add: not_eq_complement)

lemma bit_63_sint: "bit a 63 \<longleftrightarrow> sint (a :: u64) < 0"
  using bit_last_iff [of a] by simp

lemma sint_nonzero: "b \<noteq> 0 \<Longrightarrow> sint (b :: u64) \<noteq> 0"
  using signed_word_eqI [of b 0, where ?'a = int] by auto

lemma magnitude:
  fixes a :: u64
  shows "(a XOR signed_drop_bit 63 a) - signed_drop_bit 63 a = word_of_int \<bar>sint a\<bar>" (is ?abs)
    and "int (unat (word_of_int \<bar>sint a\<bar> :: u64)) = \<bar>sint a\<bar>" (is ?num)
proof -
  show ?abs unfolding sign_mask negate_by_mask bit_63_sint by simp
  have "\<bar>sint a\<bar> \<le> 2 ^ 63" using sint_greater_eq [of a] sint_less [of a] by (simp add: abs_le_iff)
  then show ?num by (simp add: unsigned_of_int take_bit_int_eq_self)
qed

lemma signed_by_magnitudes:
  fixes a b :: u64
  assumes "b \<noteq> 0"
  shows "udivmoddi4 (word_of_int \<bar>sint a\<bar>) (word_of_int \<bar>sint b\<bar>)
    = Inr (word_of_int (\<bar>sint a\<bar> div \<bar>sint b\<bar>), word_of_int (\<bar>sint a\<bar> mod \<bar>sint b\<bar>))"
proof -
  let ?a = "word_of_int \<bar>sint a\<bar> :: u64" and ?b = "word_of_int \<bar>sint b\<bar> :: u64"
  have "?b \<noteq> 0"
  proof
    assume "?b = 0"
    then have "\<bar>sint b\<bar> = 0" using magnitude(2) [of b] by simp
    with sint_nonzero [OF assms] show False by simp
  qed
  moreover have "?a div ?b = word_of_int (\<bar>sint a\<bar> div \<bar>sint b\<bar>)" "?a mod ?b = word_of_int (\<bar>sint a\<bar> mod \<bar>sint b\<bar>)"
    using magnitude(2) [of a] magnitude(2) [of b] by (simp_all add: word_div_def word_mod_def)
  ultimately show ?thesis by (simp add: udivmoddi4_divides)
qed

theorem divdi3_truncates:
  assumes "b \<noteq> 0"
  shows "divdi3 a b = Inr (word_of_int (sint a sdiv sint b))"
proof -
  have signs: "signed_drop_bit 63 a XOR signed_drop_bit 63 b = (if (sint a < 0) \<noteq> (sint b < 0) then - 1 else 0)"
    by (auto simp: sign_mask bit_63_sint)
  have "sint b \<noteq> 0" by (rule sint_nonzero [OF assms])
  then show ?thesis
    unfolding divdi3_def Let_def signs magnitude(1) signed_by_magnitudes [OF assms] negate_by_mask bindE_Inr prod.case
    by (auto simp: signed_divide_int_def sgn_if)
qed

theorem moddi3_truncates:
  assumes "b \<noteq> 0"
  shows "moddi3 a b = Inr (word_of_int (sint a smod sint b))"
  unfolding moddi3_def Let_def magnitude(1) signed_by_magnitudes [OF assms] bindE_Inr prod.case
  unfolding sign_mask negate_by_mask bit_63_sint
  by (auto simp: signed_modulo_int_def sgn_if)

lemma divmoddi4_agrees:
  assumes "b \<noteq> 0"
  shows "divmoddi4 a b = Inr (word_of_int (sint a sdiv sint b), word_of_int (sint a smod sint b))"
proof -
  have "word_of_int (sint a) - word_of_int (sint a sdiv sint b) * word_of_int (sint b) = (word_of_int (sint a smod sint b) :: u64)"
    using minus_sdiv_mult_eq_smod [of "sint a" "sint b"] by (metis wi_hom_mult wi_hom_sub)
  then show ?thesis by (simp add: divmoddi4_def divdi3_truncates [OF assms])
qed

section \<open>Counting zeros of a double word\<close>

lemma clzdi2_range:
  assumes "a \<noteq> 0"
  shows "2 ^ (63 - unat (clzdi2 a)) \<le> unat a \<and> unat a < 2 ^ (64 - unat (clzdi2 a))"
proof (cases "high (udw a) = 0")
  case True
  then have l: "low (udw a) \<noteq> 0" using assms small_high [OF True] by (auto simp del: udw_fields simp: unat_eq_0)
  note r = clz_range [OF l]
  have "unat (clzsi2 (low (udw a)) + 32) = unat (clzsi2 (low (udw a))) + 32" using r(3) by (simp add: unat_word_ariths del: udw_fields)
  then show ?thesis using True r small_high [OF True] by (simp add: clzdi2_def Let_def del: udw_fields)
next
  case False
  then show ?thesis using high_range [OF False] by (simp add: clzdi2_def Let_def del: udw_fields)
qed

lemma ctzdi2_number:
  assumes "a \<noteq> 0"
  shows "\<exists>m. unat a = 2 ^ unat (ctzdi2 a) * (2 * m + 1)"
proof (cases "low (udw a) = 0")
  case True
  then have h: "high (udw a) \<noteq> 0" using assms number_of_halves [of a] by (auto simp del: udw_fields simp: unat_eq_0)
  obtain m where "unat (high (udw a)) = 2 ^ unat (ctzsi2 (high (udw a))) * (2 * m + 1)" using ctz_number [OF h] by blast
  moreover have "unat (ctzsi2 (high (udw a)) + 32) = unat (ctzsi2 (high (udw a))) + 32"
    using ctzsi2_spec [OF h] by (simp add: unat_word_ariths del: udw_fields)
  ultimately have "unat a = 2 ^ unat (ctzdi2 a) * (2 * m + 1)"
    using True number_of_halves [of a] by (simp add: ctzdi2_def Let_def power_add del: udw_fields)
  then show ?thesis by blast
next
  case False
  let ?k = "unat (ctzsi2 (low (udw a)))"
  obtain m where m: "unat (low (udw a)) = 2 ^ ?k * (2 * m + 1)" using ctz_number [OF False] by blast
  have "?k < 32" using ctzsi2_spec [OF False] by simp
  then have "(2 :: nat) ^ 32 = 2 ^ ?k * (2 * 2 ^ (31 - ?k))" by (simp del: udw_fields flip: power_add power_Suc)
  then have "unat a = 2 ^ ?k * (2 * (unat (high (udw a)) * 2 ^ (31 - ?k) + m) + 1)"
    unfolding number_of_halves [of a] m by (simp only: ) (simp add: algebra_simps del: udw_fields)
  moreover have "ctzdi2 a = ctzsi2 (low (udw a))" using False by (simp add: ctzdi2_def Let_def del: udw_fields)
  ultimately show ?thesis by metis
qed

end
