(* ===== verification/Libgcc.thy ===== *)
theory Libgcc
  imports Riscv_Spec Klib_Int64
begin

text \<open>
  The arithmetic that programs for a processor without multiplier call instead of the instructions,
  \<open>am/src/riscv/npc/libgcc\<close> (the ysyxSoC copy is the same): \<open>muldi3.S\<close> and \<open>div.S\<close>, which for 32-bit targets define
  \<open>__mulsi3\<close>, \<open>__udivsi3\<close>, \<open>__umodsi3\<close>, \<open>__divsi3\<close> and \<open>__modsi3\<close>, and the 64-bit \<open>__muldi3\<close> of \<open>multi3.c\<close> and
  \<open>__ashldi3\<close>. The assembly routines are functions of their argument registers; \<open>a0\<close> and \<open>a1\<close> hold the results.
  They agree with the instructions of the M extension on all arguments.
\<close>

unbundle bit_operations_syntax

section \<open>Routines\<close>

text \<open>\<open>muldi3.S\<close>: the loop at \<open>.L1\<close>.\<close>

lemma drop_bit_shrinks: "drop_bit (Suc 0) (a :: u32) \<noteq> 0 \<Longrightarrow> unat (drop_bit (Suc 0) a) < unat a"
proof -
  assume "drop_bit (Suc 0) a \<noteq> 0"
  then have "0 < unat (drop_bit (Suc 0) a)" by (simp add: unat_gt_0)
  then show ?thesis by (simp add: unat_drop_bit)
qed

function mulsi_loop :: "u32 \<Rightarrow> u32 \<Rightarrow> u32 \<Rightarrow> u32" where
  "mulsi_loop a0 a1 a2 =
     (let a0' = (if a1 AND 1 \<noteq> 0 then a0 + a2 else a0); a1' = drop_bit 1 a1; a2' = push_bit 1 a2
      in if a1' \<noteq> 0 then mulsi_loop a0' a1' a2' else a0')"
  by pat_completeness auto
termination
  by (relation "measure (\<lambda>(a0, a1, a2). unat a1)") (simp_all add: drop_bit_shrinks)

definition mulsi3 :: "u32 \<Rightarrow> u32 \<Rightarrow> u32" where
  "mulsi3 a0 a1 = mulsi_loop 0 a1 a0"

lemma positive_half: "\<not> (a :: u32) \<le>s 0 \<longleftrightarrow> 0 < unat a \<and> unat a < 2 ^ 31"
proof -
  have "sint a \<le> 0 \<longleftrightarrow> uint a = 0 \<or> 2 ^ 31 \<le> uint a"
  proof (cases "2 ^ 31 \<le> uint a")
    case True
    have "uint a < 4294967296" "2147483648 \<le> uint a" using True uint_lt2p [of a] by simp_all
    then have "uint a div 2147483648 = 1"
      by (intro int_div_pos_eq [where r = "uint a - 2147483648"]) simp_all
    then have "sint a = uint a - 2 ^ 32" by (simp add: sint_uint signed_take_bit_eq_take_bit_minus take_bit_int_eq_self bit_iff_odd)
    then show ?thesis using uint_bounded [of a] True by simp
  next
    case False
    moreover have "- (2 ^ 31) \<le> uint a" by (rule order_trans [OF _ unsigned_greater_eq]) simp
    ultimately have "sint a = uint a" unfolding sint_uint by (intro signed_take_bit_int_eq_self) simp_all
    then show ?thesis using False by auto
  qed
  moreover have "0 < unat a \<longleftrightarrow> uint a \<noteq> 0" by (simp add: unat_gt_0 unsigned_eq_0_iff)
  moreover have "unat a < 2 ^ 31 \<longleftrightarrow> \<not> 2 ^ 31 \<le> uint a" by (simp add: not_le nat_less_iff flip: nat_uint_eq)
  ultimately show ?thesis unfolding word_sle_eq by auto
qed

lemma double_small: "unat (a :: u32) < 2 ^ 31 \<Longrightarrow> unat (push_bit (Suc 0) a) = 2 * unat a"
  by (simp add: unat_word_ariths push_bit_eq_mult)

text \<open>\<open>div.S\<close>: the loop at \<open>.L1\<close> shifts the divisor up, the loop at \<open>.L3\<close> subtracts it.\<close>

function udivsi_up :: "u32 \<Rightarrow> u32 \<Rightarrow> u32 \<Rightarrow> u32 \<times> u32" where
  "udivsi_up a1 a2 a3 =
     (if a2 \<le>s 0 then (a2, a3)
      else let a2' = push_bit 1 a2; a3' = push_bit 1 a3 in if a1 > a2' then udivsi_up a1 a2' a3' else (a2', a3'))"
  by pat_completeness auto
termination
proof (relation "measure (\<lambda>(a1, a2, a3). 2 ^ 32 - unat a2)")
  fix a1 a2 a3 x y :: u32 assume "\<not> a2 \<le>s 0" and x: "x = push_bit 1 a2"
  then have "0 < unat a2" "unat a2 < 2 ^ 31" by (simp_all only: positive_half)
  then show "((a1, x, y), a1, a2, a3) \<in> measure (\<lambda>(a1, a2, a3). 2 ^ 32 - unat a2)"
    using x double_small [of a2] by simp
qed simp

function udivsi_down :: "u32 \<Rightarrow> u32 \<Rightarrow> u32 \<Rightarrow> u32 \<Rightarrow> u32 \<times> u32" where
  "udivsi_down a0 a1 a2 a3 =
     (let (a0', a1') = (if a1 < a2 then (a0, a1) else (a0 OR a3, a1 - a2)); a3' = drop_bit 1 a3; a2' = drop_bit 1 a2
      in if a3' \<noteq> 0 then udivsi_down a0' a1' a2' a3' else (a0', a1'))"
  by pat_completeness auto
termination
  by (relation "measure (\<lambda>(a0, a1, a2, a3). unat a3)") (simp_all add: drop_bit_shrinks)

definition udivsi3 :: "u32 \<Rightarrow> u32 \<Rightarrow> u32 \<times> u32" where
  "udivsi3 a0 a1 =
     (if a1 = 0 then (- 1, a0)
      else let (a2, a3) = (if a1 \<ge> a0 then (a1, 1) else udivsi_up a0 a1 1) in udivsi_down 0 a0 a2 a3)"

definition umodsi3 :: "u32 \<Rightarrow> u32 \<Rightarrow> u32" where
  "umodsi3 a0 a1 = snd (udivsi3 a0 a1)"

definition divsi3 :: "u32 \<Rightarrow> u32 \<Rightarrow> u32" where
  "divsi3 a0 a1 =
     (if a0 <s 0 then
        (if 0 <s a1 then - fst (udivsi3 (- a0) a1) else fst (udivsi3 (- a0) (- a1)))
      else if a1 <s 0 then - fst (udivsi3 a0 (- a1))
      else fst (udivsi3 a0 a1))"

definition modsi3 :: "u32 \<Rightarrow> u32 \<Rightarrow> u32" where
  "modsi3 a0 a1 =
     (let b = (if a1 <s 0 then - a1 else a1)
      in if a0 <s 0 then - snd (udivsi3 (- a0) b) else snd (udivsi3 a0 b))"

text \<open>\<open>multi3.c\<close>: the loop over the low halves.\<close>

function muldi_loop :: "u32 \<Rightarrow> u32 \<Rightarrow> u32 \<Rightarrow> u32 \<Rightarrow> u32 \<Rightarrow> udwords" where
  "muldi_loop u_low v_low w_low w_high w_high_tmp =
     (let new_w_low = w_low + u_low;
          w_high_tmp2x = push_bit 1 w_high_tmp;
          w_high_tmp1 = w_high_tmp + w_high;
          carry = of_bool (new_w_low < w_low);
          (w_low', w_high') = (if v_low AND 1 \<noteq> 0 then (new_w_low, carry + w_high_tmp1) else (w_low, w_high));
          u_low_msb = drop_bit 31 u_low;
          v_low' = drop_bit 1 v_low;
          u_low' = push_bit 1 u_low;
          w_high_tmp' = u_low_msb OR w_high_tmp2x
      in if v_low' \<noteq> 0 then muldi_loop u_low' v_low' w_low' w_high' w_high_tmp' else \<lparr>low = w_low', high = w_high'\<rparr>)"
  by pat_completeness auto
termination
  by (relation "measure (\<lambda>(u, v, _). unat v)") (simp_all add: drop_bit_shrinks)

definition muldi3 :: "u64 \<Rightarrow> u64 \<Rightarrow> u64" where
  "muldi3 u v =
     (let uu = udw u; vv = udw v;
          w = muldi_loop (low uu) (low vv) 0 0 0;
          w1 = (if high uu \<noteq> 0 then w\<lparr>high := high w + mulsi3 (low vv) (high uu)\<rparr> else w);
          w2 = (if high vv \<noteq> 0 then w1\<lparr>high := high w1 + mulsi3 (low uu) (high vv)\<rparr> else w1)
      in uall w2)"

text \<open>\<open>ashldi3.c\<close>; a shift by a negative count or by the width of the operand or more is undefined in C.\<close>

definition shl32 :: "u32 \<Rightarrow> int \<Rightarrow> u32 result" where
  "shl32 x n = (if 0 \<le> n \<and> n < 32 then Inr (push_bit (nat n) x) else Inl Out_of_bounds)"

definition shr32 :: "u32 \<Rightarrow> int \<Rightarrow> u32 result" where
  "shr32 x n = (if 0 \<le> n \<and> n < 32 then Inr (drop_bit (nat n) x) else Inl Out_of_bounds)"

definition ashldi3 :: "u64 \<Rightarrow> int \<Rightarrow> u64 result" where
  "ashldi3 u b =
     (if b = 0 then Inr u
      else let uu = udw u; bm = 32 - b in
        if bm \<le> 0 then bindE (shl32 (low uu) (- bm)) (\<lambda>h. Inr (uall \<lparr>low = 0, high = h\<rparr>))
        else bindE (shr32 (low uu) bm) (\<lambda>carries. bindE (shl32 (low uu) b) (\<lambda>l. bindE (shl32 (high uu) b) (\<lambda>h.
          Inr (uall \<lparr>low = l, high = h OR carries\<rparr>)))))"

section \<open>Multiplication\<close>

lemma low_bit_split: "a = 2 * drop_bit (Suc 0) a + of_bool (a AND 1 \<noteq> 0)" for a :: "'a :: len word"
proof -
  have "drop_bit (Suc 0) a = a div 2" by (simp add: drop_bit_Suc)
  moreover have "a AND 1 \<noteq> 0 \<longleftrightarrow> odd a" by (simp add: and_one_eq mod_2_eq_odd)
  ultimately show ?thesis using mult_div_mod_eq [of 2 a] by (simp add: mod_2_eq_odd)
qed

declare mulsi_loop.simps [simp del]

lemma mulsi_loop_product: "mulsi_loop a0 a1 a2 = a0 + a1 * a2"
proof (induction a0 a1 a2 rule: mulsi_loop.induct)
  case (1 a0 a1 a2)
  have split: "a1 * a2 = drop_bit (Suc 0) a1 * (2 * a2) + (if a1 AND 1 \<noteq> 0 then a2 else 0)"
    by (subst low_bit_split [of a1]) (simp add: algebra_simps)
  show ?case
    by (subst mulsi_loop.simps) (use 1 split in \<open>auto simp: Let_def push_bit_eq_mult mult.commute\<close>)
qed

lemma mulsi3_product: "mulsi3 a b = a * b"
  by (simp add: mulsi3_def mulsi_loop_product mult.commute)

section \<open>Division\<close>

declare udivsi_up.simps [simp del] udivsi_down.simps [simp del]

text \<open>Shifting up keeps the divisor times a power of two, until it reaches more than half of the dividend.\<close>

lemma udivsi_up_scales:
  assumes "unat a2 = d * 2 ^ k" "unat a3 = 2 ^ k" "a2 < a1" "d \<noteq> 0" "udivsi_up a1 a2 a3 = (x, y)"
  shows "\<exists>j. unat x = d * 2 ^ j \<and> unat y = 2 ^ j \<and> unat a1 < 2 * unat x"
  using assms
proof (induction a1 a2 a3 arbitrary: k rule: udivsi_up.induct)
  case (1 a1 a2 a3)
  show ?case
  proof (cases "a2 \<le>s 0")
    case True
    then have "x = a2" "y = a3" using 1(6) by (subst (asm) udivsi_up.simps; simp)+
    moreover have "0 < unat a2" using 1(2,5) by simp
    then have "2 ^ 31 \<le> unat a2" using True positive_half [of a2] by linarith
    then have "unat a1 < 2 * unat a2" using u32_bound [of a1] by simp
    ultimately show ?thesis using 1(2,3) by blast
  next
    case False
    then have s: "unat a2 < 2 ^ 31" "0 < unat a2" by (simp_all only: positive_half)
    have "2 ^ k * 1 \<le> 2 ^ k * d" using 1(5) by (intro mult_le_mono) simp_all
    then have "unat a3 \<le> unat a2" using 1(2,3) by (simp add: mult.commute)
    then have a3: "unat a3 < 2 ^ 31" using s(1) by linarith
    then have d: "unat (push_bit (Suc 0) a2) = d * 2 ^ Suc k" "unat (push_bit (Suc 0) a3) = 2 ^ Suc k"
      using double_small [OF s(1)] double_small [OF a3] 1(2,3) by simp_all
    show ?thesis
    proof (cases "push_bit (Suc 0) a2 < a1")
      case True
      have "udivsi_up a1 (push_bit (Suc 0) a2) (push_bit (Suc 0) a3) = (x, y)"
        using 1(6) False True by (subst (asm) udivsi_up.simps) (simp add: Let_def)
      then show ?thesis using 1(1) [of "push_bit 1 a2" "push_bit 1 a3" "Suc k"] False True d 1(5) by simp
    next
      case stop: False
      then have "x = push_bit (Suc 0) a2" "y = push_bit (Suc 0) a3"
        using 1(6) False by (subst (asm) udivsi_up.simps; simp add: Let_def)+
      moreover have "unat a1 \<le> unat (push_bit (Suc 0) a2)" using stop by (simp add: word_less_nat_alt not_less)
      ultimately have "unat a1 < 2 * unat x" using double_small [OF s(1)] s(2) by simp
      then show ?thesis using \<open>x = _\<close> \<open>y = _\<close> d by blast
    qed
  qed
qed

text \<open>Shifting down: the quotient found so far is a multiple of \<open>2 ^ (k + 1)\<close>, the rest is below twice the divisor.\<close>

lemma or_next_bit:
  fixes x y :: u32
  assumes "unat y = 2 ^ k" "unat x = q * 2 ^ Suc k" "unat x + unat y < 2 ^ 32"
  shows "unat (x OR y) = unat x + unat y"
proof -
  have "bit (unat x) k = False" using assms(2) by (simp add: bit_iff_odd)
  then have "\<not> bit x k" by (auto simp: bit_unsigned_iff dest: bit_imp_le_length)
  moreover have y: "y = 2 ^ k" using arg_cong [OF assms(1), of "of_nat :: nat \<Rightarrow> u32"] by simp
  ultimately have "x AND y = 0" by (simp add: and_exp_eq_0_iff_not_bit)
  then have "x OR y = x + y" by (simp add: disjunctive_add_eq_or)
  then show ?thesis using assms(3) by (simp add: unat_word_ariths)
qed

lemma udivsi_down_step:
  fixes a0 a1 a2 a3 :: u32
  assumes "unat a2 = d * 2 ^ k" "unat a3 = 2 ^ k" "unat a0 = q * 2 ^ Suc k" "unat a1 < 2 * unat a2" "d \<noteq> 0"
    "unat a0 * d + unat a1 < 2 ^ 32"
  obtains q' b0 b1 where "(if a1 < a2 then (a0, a1) else (a0 OR a3, a1 - a2)) = (b0, b1)" "unat b0 = q' * 2 ^ k"
    "unat b1 < unat a2" "unat b0 * d + unat b1 = unat a0 * d + unat a1"
proof (cases "a1 < a2")
  case True
  then show ?thesis using assms that [of a0 a1 "2 * q"] by (simp add: word_less_nat_alt)
next
  case False
  then have le: "unat a2 \<le> unat a1" by (simp add: word_less_nat_alt)
  have "(unat a0 + 2 ^ k) * d \<le> unat a0 * d + unat a1" using le assms(1) by (simp add: algebra_simps)
  moreover have "unat a0 + 2 ^ k \<le> (unat a0 + 2 ^ k) * d" using assms(5) by simp
  ultimately have "unat a0 + unat a3 < 2 ^ 32" using assms(2,6) by linarith
  then have o: "unat (a0 OR a3) = unat a0 + 2 ^ k" using or_next_bit [OF assms(2,3)] assms(2) by simp
  have m: "unat (a1 - a2) = unat a1 - unat a2" using le by (simp add: unat_sub word_le_nat_alt)
  have "(unat a0 + 2 ^ k) * d + (unat a1 - unat a2) = unat a0 * d + unat a1" using le assms(1) by (simp add: algebra_simps)
  then show ?thesis using o m False assms(3,4) that [of "a0 OR a3" "a1 - a2" "2 * q + 1"] by (simp add: algebra_simps)
qed

lemma udivsi_down_divides:
  assumes "unat a2 = d * 2 ^ k" "unat a3 = 2 ^ k" "unat a0 = q * 2 ^ Suc k" "unat a1 < 2 * unat a2" "d \<noteq> 0"
    "n = unat a0 * d + unat a1" "n < 2 ^ 32"
  shows "udivsi_down a0 a1 a2 a3 = (of_nat (n div d), of_nat (n mod d))"
  using assms
proof (induction k arbitrary: a0 a1 a2 a3 q)
  case 0
  obtain q' b0 b1 where b: "(if a1 < a2 then (a0, a1) else (a0 OR a3, a1 - a2)) = (b0, b1)" "unat b1 < d" "unat b0 * d + unat b1 = n"
    using udivsi_down_step [OF 0(1-5)] 0 by (metis mult.right_neutral power_0)
  have "drop_bit (Suc 0) a3 = 0" using 0(2) by (intro word_unat_eq_iff [THEN iffD2]) (simp add: unat_drop_bit)
  then have "udivsi_down a0 a1 a2 a3 = (b0, b1)" by (subst udivsi_down.simps) (simp add: b(1))
  moreover have "n div d = unat b0" "n mod d = unat b1" using b(2) by (simp_all flip: b(3))
  ultimately show ?case by simp
next
  case (Suc k)
  obtain q' b0 b1 where b: "(if a1 < a2 then (a0, a1) else (a0 OR a3, a1 - a2)) = (b0, b1)" "unat b0 = q' * 2 ^ Suc k"
    "unat b1 < unat a2" "unat b0 * d + unat b1 = n"
    using udivsi_down_step [OF Suc.prems(1-5)] Suc.prems(6,7) by metis
  have d: "unat (drop_bit (Suc 0) a2) = d * 2 ^ k" "unat (drop_bit (Suc 0) a3) = 2 ^ k"
    using Suc.prems(1,2) by (simp_all add: unat_drop_bit)
  then have "drop_bit (Suc 0) a3 \<noteq> 0" by auto
  then have "udivsi_down a0 a1 a2 a3 = udivsi_down b0 b1 (drop_bit (Suc 0) a2) (drop_bit (Suc 0) a3)"
    by (subst udivsi_down.simps) (simp add: b(1))
  then show ?case using Suc.IH [OF d b(2) _ Suc.prems(5) b(4) [symmetric] Suc.prems(7)] b(3) d Suc.prems(1) by simp
qed

lemma udivsi3_divides: "udivsi3 a b = (if b = 0 then (- 1, a) else (a div b, a mod b))"
proof (cases "b = 0")
  case False
  obtain x y where xy: "(if b \<ge> a then (b, 1) else udivsi_up a b 1) = (x, y)" by fastforce
  have b: "unat b \<noteq> 0" using False by (simp add: unat_eq_zero)
  have "\<exists>j. unat x = unat b * 2 ^ j \<and> unat y = 2 ^ j \<and> unat a < 2 * unat x"
  proof (cases "b \<ge> a")
    case True
    then show ?thesis using xy b by (intro exI [of _ 0]) (auto simp: word_le_nat_alt)
  next
    case False
    then show ?thesis using xy b udivsi_up_scales [of b "unat b" 0 1 a x y] by simp
  qed
  then obtain j where "unat x = unat b * 2 ^ j" "unat y = 2 ^ j" "unat a < 2 * unat x" by blast
  from udivsi_down_divides [OF this(1,2) _ this(3) b refl, of 0 0] u32_bound [of a]
  have "udivsi_down 0 a x y = (of_nat (unat a div unat b), of_nat (unat a mod unat b))" by simp
  then show ?thesis using False xy by (simp add: udivsi3_def word_arith_nat_div word_arith_nat_mod)
qed (simp add: udivsi3_def)

lemma magnitude32:
  fixes a :: u32
  shows "(if a <s 0 then - a else a) = word_of_int \<bar>sint a\<bar>" "uint (word_of_int \<bar>sint a\<bar> :: u32) = \<bar>sint a\<bar>"
proof -
  show "(if a <s 0 then - a else a) = word_of_int \<bar>sint a\<bar>" by (simp add: word_sless_alt)
  have "\<bar>sint a\<bar> \<le> 2 ^ 31" using sint_greater_eq [of a] sint_less [of a] by (simp add: abs_le_iff)
  then show "uint (word_of_int \<bar>sint a\<bar> :: u32) = \<bar>sint a\<bar>" by (simp add: unsigned_of_int take_bit_int_eq_self)
qed

lemma udivsi3_magnitudes:
  assumes "b \<noteq> 0"
  shows "udivsi3 (if a <s 0 then - a else a) (if b <s 0 then - b else b)
    = (word_of_int (\<bar>sint a\<bar> div \<bar>sint b\<bar>), word_of_int (\<bar>sint a\<bar> mod \<bar>sint b\<bar>))"
proof -
  have "(if b <s 0 then - b else b) \<noteq> 0" using assms by simp
  then show ?thesis unfolding udivsi3_divides magnitude32(1) by (simp add: word_div_def word_mod_def magnitude32(2))
qed

lemma divsi3_divides: "divsi3 a b = alu_spec DIVV a b"
proof (cases "b = 0")
  case False
  then have s: "sint b \<noteq> 0" using signed_word_eqI [of b 0, where ?'a = int] by auto
  have neg: "0 <s b \<longleftrightarrow> \<not> b <s 0" using s by (auto simp: word_sless_alt)
  show ?thesis using udivsi3_magnitudes [OF False, of a] False s neg
    by (auto simp: divsi3_def word_sless_alt signed_divide_int_def sgn_if split: if_splits)
qed (simp add: divsi3_def udivsi3_divides)

lemma modsi3_remainder: "modsi3 a b = alu_spec REM a b"
proof (cases "b = 0")
  case False
  then show ?thesis using udivsi3_magnitudes [OF False, of a]
    by (auto simp: modsi3_def Let_def word_sless_alt signed_modulo_int_def signed_divide_int_def sgn_if split: if_splits)
qed (simp add: modsi3_def udivsi3_divides)

lemma libgcc_unsigned: "fst (udivsi3 a b) = alu_spec DIVU a b" "umodsi3 a b = alu_spec REMU a b" "mulsi3 a b = alu_spec MUL a b"
  by (simp_all add: udivsi3_divides umodsi3_def mulsi3_product word_div_def word_mod_def)

section \<open>Double words\<close>

lemma uall_sum: "uall x = 2 ^ 32 * ucast (high x) + ucast (low x)"
proof -
  have "push_bit 32 (ucast (high x) :: u64) AND ucast (low x) = 0"
    by (rule bit_word_eqI) (auto simp: bit_simps dest: bit_imp_le_length)
  then show ?thesis unfolding uall_def by (simp add: disjunctive_add_eq_or push_bit_eq_mult mult.commute)
qed

lemma high_int: "2 ^ 32 * (ucast (word_of_int k :: u32) :: u64) = word_of_int (2 ^ 32 * k)"
proof -
  have "word_of_int (2 ^ 32 * (k mod 2 ^ 32)) = (word_of_int (2 ^ 32 * k) :: u64)"
    by (intro word_of_int_eq_iff [THEN iffD2]) (simp add: take_bit_eq_mod mult_mod_right mod_mod_trivial)
  then show ?thesis by (simp add: unsigned_of_int take_bit_eq_mod)
qed

lemma high_add: "2 ^ 32 * (ucast (x + y :: u32) :: u64) = 2 ^ 32 * ucast x + 2 ^ 32 * ucast y"
  using high_int [of "uint x + uint y"] high_int [of "uint x"] high_int [of "uint y"] by (simp add: algebra_simps)

lemma high_mult: "2 ^ 32 * (ucast (x * y :: u32) :: u64) = 2 ^ 32 * (ucast x * ucast y)"
  using high_int [of "uint x * uint y"] by (simp add: algebra_simps)

lemma low_add: "ucast (l + l' :: u32) + 2 ^ 32 * (of_bool (l + l' < l) :: u64) = ucast l + ucast l'"
proof -
  have "int (unat (l + l')) + 2 ^ 32 * of_bool (l + l' < l) = int (unat l) + int (unat l')"
    using u32_bound [of l] u32_bound [of l'] by (auto simp: unat_word_ariths word_less_nat_alt mod_if)
  from arg_cong [OF this, of "word_of_int :: int \<Rightarrow> u64"] show ?thesis by simp
qed

lemma uall_add:
  "uall \<lparr>low = l + l', high = of_bool (l + l' < l) + (h + h')\<rparr> = uall \<lparr>low = l, high = h\<rparr> + uall \<lparr>low = l', high = h'\<rparr>"
proof -
  let ?c = "l + l' < l"
  have "2 ^ 32 * (ucast (of_bool ?c + (h + h') :: u32) :: u64) = 2 ^ 32 * of_bool ?c + (2 ^ 32 * ucast h + 2 ^ 32 * ucast h')"
    unfolding high_add by (cases ?c) simp_all
  then have "uall \<lparr>low = l + l', high = of_bool ?c + (h + h')\<rparr>
      = (ucast (l + l') + 2 ^ 32 * of_bool ?c) + (2 ^ 32 * ucast h + 2 ^ 32 * ucast h')"
    by (simp only: uall_sum udwords.select_convs ac_simps)
  then show ?thesis unfolding low_add by (simp only: uall_sum udwords.select_convs ac_simps)
qed

lemma uall_double: "uall \<lparr>low = push_bit (Suc 0) l, high = drop_bit 31 l OR push_bit (Suc 0) h\<rparr> = 2 * uall \<lparr>low = l, high = h\<rparr>"
proof -
  have msb: "drop_bit 31 l = of_bool (l + l < l)"
  proof (rule word_unat_eq_iff [THEN iffD2])
    have "unat l div 2 ^ 31 = of_bool (2 ^ 31 \<le> unat l)" using u32_bound [of l] by auto
    moreover have "l + l < l \<longleftrightarrow> 2 ^ 31 \<le> unat l" using u32_bound [of l] by (auto simp: word_less_nat_alt unat_word_ariths mod_if)
    ultimately show "unat (drop_bit 31 l) = unat (of_bool (l + l < l) :: u32)" by (simp add: unat_drop_bit)
  qed
  have "of_bool c AND (h + h) = 0" for c
    using push_bit_double [of 0 h] by (cases c) (auto simp: one_and_eq mod_2_eq_odd simp flip: mult_2)
  then have "drop_bit 31 l OR push_bit (Suc 0) h = of_bool (l + l < l) + (h + h)"
    unfolding msb by (simp add: disjunctive_add_eq_or push_bit_eq_mult mult.commute flip: mult_2)
  moreover have "push_bit (Suc 0) l = l + l" by (simp add: push_bit_eq_mult)
  ultimately show ?thesis using uall_add [of l l h h] by (simp only: mult_2)
qed

declare muldi_loop.simps [simp del]

lemma muldi_loop_product:
  "uall (muldi_loop u v wl wh t) = uall \<lparr>low = wl, high = wh\<rparr> + ucast v * uall \<lparr>low = u, high = t\<rparr>"
proof (induction u v wl wh t rule: muldi_loop.induct)
  case (1 u v wl wh t)
  let ?U = "uall \<lparr>low = u, high = t\<rparr>" and ?W = "uall \<lparr>low = wl, high = wh\<rparr>"
  let ?p = "if v AND 1 \<noteq> 0 then (wl + u, of_bool (wl + u < wl) + (t + wh)) else (wl, wh)"
  have w: "uall \<lparr>low = fst ?p, high = snd ?p\<rparr> = ?W + of_bool (v AND 1 \<noteq> 0) * ?U"
    using uall_add [of wl u wh t] by (simp add: add.commute)
  have v: "ucast v = 2 * (ucast (drop_bit (Suc 0) v) :: u64) + of_bool (v AND 1 \<noteq> 0)"
  proof -
    have "unat v = 2 * unat (drop_bit (Suc 0) v) + of_bool (v AND 1 \<noteq> 0)"
    proof -
      have "v AND 1 \<noteq> 0 \<longleftrightarrow> odd (unat v)"
        using bit_unsigned_iff [of v 0, where ?'a = nat] by (simp add: and_one_eq mod_2_eq_odd bit_0)
      then show ?thesis using mult_div_mod_eq [of 2 "unat v"] by (simp add: unat_drop_bit mod_2_eq_odd)
    qed
    from arg_cong [OF this, of "of_nat :: nat \<Rightarrow> u64"] show ?thesis by simp
  qed
  have d: "uall \<lparr>low = push_bit 1 u, high = drop_bit 31 u OR push_bit 1 t\<rparr> = 2 * ?U" using uall_double [of u t] by simp
  have run: "muldi_loop u v wl wh t = (if drop_bit (Suc 0) v \<noteq> 0
      then muldi_loop (push_bit 1 u) (drop_bit 1 v) (fst ?p) (snd ?p) (drop_bit 31 u OR push_bit 1 t)
      else \<lparr>low = fst ?p, high = snd ?p\<rparr>)"
    by (subst muldi_loop.simps) (simp add: Let_def split: prod.splits if_splits)
  show ?case
  proof (cases "drop_bit (Suc 0) v = 0")
    case True
    then show ?thesis unfolding run using w v by simp
  next
    case False
    have "uall (muldi_loop u v wl wh t) = uall \<lparr>low = fst ?p, high = snd ?p\<rparr> + ucast (drop_bit (Suc 0) v) * (2 * ?U)"
      unfolding run using False 1 [of "wl + u"] d by (simp add: Let_def split: prod.splits)
    then show ?thesis unfolding w v by (simp add: algebra_simps)
  qed
qed

lemma muldi3_product: "muldi3 u v = u * v"
proof -
  let ?u = "udw u" and ?v = "udw v"
  let ?w = "muldi_loop (low ?u) (low ?v) 0 0 0"
  let ?h = "high ?w + low ?v * high ?u + low ?u * high ?v"
  have "muldi3 u v = uall \<lparr>low = low ?w, high = ?h\<rparr>"
    by (cases "muldi_loop (low ?u) (low ?v) 0 0 0") (simp add: muldi3_def Let_def mulsi3_product)
  also have "\<dots> = uall ?w + 2 ^ 32 * (ucast (low ?v) * ucast (high ?u)) + 2 ^ 32 * (ucast (low ?u) * ucast (high ?v))"
    unfolding uall_sum udwords.select_convs high_add high_mult by (simp only: ac_simps)
  also have "uall ?w = ucast (low ?v) * ucast (low ?u)"
    unfolding muldi_loop_product by (simp add: uall_sum)
  also have "ucast (low ?v) * ucast (low ?u) + 2 ^ 32 * (ucast (low ?v) * ucast (high ?u)) + 2 ^ 32 * (ucast (low ?u) * ucast (high ?v))
      = uall ?u * uall ?v"
  proof -
    have "2 ^ 32 * ucast (high ?u) * (2 ^ 32 * ucast (high ?v)) = (0 :: u64)"
    proof -
      have z: "(2 ^ 32 * 2 ^ 32 :: u64) = 0" by (simp add: word_uint_eq_iff)
      have "2 ^ 32 * ucast (high ?u) * (2 ^ 32 * ucast (high ?v)) = (2 ^ 32 * 2 ^ 32 :: u64) * (ucast (high ?u) * ucast (high ?v))"
        by (simp only: ac_simps)
      then show ?thesis unfolding z by simp
    qed
    then show ?thesis unfolding uall_sum by (simp only: distrib_left distrib_right ac_simps add_0_left add_0_right)
  qed
  finally show ?thesis by simp
qed

lemma ashldi3_shifts:
  assumes "0 \<le> b" "b < 64"
  shows "ashldi3 u b = Inr (push_bit (nat b) u)"
proof -
  obtain n where n: "b = int n" "n < 64" using assms by (metis nat_0_le nat_less_iff of_nat_numeral zless_nat_eq_int_zless)
  consider "n = 0" | "0 < n" "n < 32" | "32 \<le> n" by linarith
  then show ?thesis
  proof cases
    case 1
    then show ?thesis using n by (simp add: ashldi3_def)
  next
    case 2
    then have "ashldi3 u b = Inr (uall \<lparr>low = push_bit n (low (udw u)), high = push_bit n (high (udw u)) OR drop_bit (32 - n) (low (udw u))\<rparr>)"
      using n by (simp add: ashldi3_def Let_def shl32_def shr32_def nat_diff_distrib)
    also have "uall \<lparr>low = push_bit n (low (udw u)), high = push_bit n (high (udw u)) OR drop_bit (32 - n) (low (udw u))\<rparr> = push_bit n u"
      using 2 by (intro bit_word_eqI) (auto simp: uall_def udw_def bit_simps)
    finally show ?thesis using n by simp
  next
    case 3
    then have "ashldi3 u b = Inr (uall \<lparr>low = 0, high = push_bit (n - 32) (low (udw u))\<rparr>)"
      using n by (simp add: ashldi3_def Let_def shl32_def nat_diff_distrib)
    also have "uall \<lparr>low = 0, high = push_bit (n - 32) (low (udw u))\<rparr> = push_bit n u"
      using 3 by (intro bit_word_eqI) (auto simp: uall_def udw_def bit_simps)
    finally show ?thesis using n by simp
  qed
qed

end
