(* ===== verification/Gen_Expr.thy ===== *)
theory Gen_Expr
  imports Sdb_Expr Text_Format
begin

text \<open>
  The generator of test expressions for the debugger, \<open>tools/gen-expr/gen-expr.c\<close>: random expressions of unsigned numbers,
  written to a buffer while their value is computed. The random numbers are a parameter, a sequence of the
  values \<open>rand\<close> returns; so are the compiler and the program it makes. The development shows that the generator ends,
  stays in its buffers, and that the debugger gives every expression without a zero literal the value the generator computed.
\<close>

section \<open>State\<close>

definition NUL :: char where "NUL = CHR 0x00"

definition BUF_SIZE :: nat where "BUF_SIZE = 65536"

record gstate =
  gbuf :: string
  position :: u32
  gcnt :: int
  draws :: nat

type_synonym 'a G = "(gstate, 'a) comp"

text \<open>The next value of \<open>rand\<close>.\<close>

definition rand_next :: "(nat \<Rightarrow> nat) \<Rightarrow> nat G" where
  "rand_next rnd = (\<lambda>s. Inr (rnd (draws s), s\<lparr>draws := draws s + 1\<rparr>))"

definition buf_set :: "nat \<Rightarrow> char \<Rightarrow> unit G" where
  "buf_set i ch = (\<lambda>s. if i < length (gbuf s) then Inr ((), s\<lparr>gbuf := (gbuf s)[i := ch]\<rparr>) else Inl Out_of_bounds)"

section \<open>The generator\<close>

function cnt_num :: "u32 \<Rightarrow> nat" where
  "cnt_num num = (if num = 0 then 0 else Suc (cnt_num (num div 10)))"
  by pat_completeness auto
termination
proof (relation "measure unat")
  fix num :: u32 assume "num \<noteq> 0"
  then have "0 < unat num" by (simp add: unat_gt_0)
  then show "(num div 10, num) \<in> measure unat" by (simp add: unat_div)
qed simp

definition gen :: "char \<Rightarrow> unit G" where
  "gen ch = (\<lambda>s. thenM (buf_set (unat (position s)) ch) (modifyM (\<lambda>s. s\<lparr>position := position s + 1\<rparr>)) s)"

text \<open>The digit at place \<open>i\<close>: \<open>tmp\<close> is divided by ten \<open>i\<close> times.\<close>

definition digit_at :: "u32 \<Rightarrow> nat \<Rightarrow> nat" where
  "digit_at num i = ((\<lambda>tmp. tmp div 10) ^^ i) (unat num) mod 10"

primrec gen_digits :: "u32 \<Rightarrow> nat list \<Rightarrow> unit G" where
  "gen_digits num [] = retM ()"
| "gen_digits num (i # is) = thenM (gen (char_of (digit_at num i + 48))) (gen_digits num is)"

definition gen_num :: "(nat \<Rightarrow> nat) \<Rightarrow> u32 G" where
  "gen_num rnd = bindM (rand_next rnd) (\<lambda>r.
     let num = of_nat (r mod 1000000)
     in thenM (gen_digits num (rev [0..<cnt_num num])) (thenM (gen CHR ''u'') (retM num)))"

definition op_char :: "nat \<Rightarrow> char" where
  "op_char opn = [CHR ''+'', CHR ''-'', CHR ''*'', CHR ''/''] ! opn"

definition gen_rand_op :: "(nat \<Rightarrow> nat) \<Rightarrow> char G" where
  "gen_rand_op rnd = bindM (rand_next rnd) (\<lambda>r. let c = op_char (r mod 4) in thenM (gen c) (retM c))"

definition choose_num :: "(nat \<Rightarrow> nat) \<Rightarrow> nat \<Rightarrow> nat G" where
  "choose_num rnd num = bindM (rand_next rnd) (\<lambda>r. retM (r mod num))"

text \<open>The value of the last \<open>switch\<close>; a division by zero replaces the second operand by \<open>1\<close>.\<close>

definition gen_result :: "char \<Rightarrow> u32 \<Rightarrow> u32 \<Rightarrow> u32 \<Rightarrow> u32 G" where
  "gen_result opc start_pos ret3 ret4 =
     (if opc = CHR ''+'' then retM (ret3 + ret4)
      else if opc = CHR ''-'' then retM (ret3 - ret4)
      else if opc = CHR ''*'' then retM (ret3 * ret4)
      else if opc = CHR ''/'' then
        (if ret4 = 0 then
           thenM (modifyM (\<lambda>s. s\<lparr>position := start_pos\<rparr>))
           (thenM (gen CHR ''1'') (\<lambda>s. thenM (buf_set (unat (position s)) NUL) (retM ret3) s))
         else retM (ret3 div ret4))
      else retM 0)"

primrec gen_rand_expr :: "(nat \<Rightarrow> nat) \<Rightarrow> nat \<Rightarrow> u32 G" where
  "gen_rand_expr rnd 0 = failM Diverges"
| "gen_rand_expr rnd (Suc fuel) =
     thenM (modifyM (\<lambda>s. s\<lparr>gcnt := gcnt s + 1\<rparr>))
     (\<lambda>s. if gcnt s < 100
       then bindM (choose_num rnd 3) (\<lambda>k.
         if k = 0 then gen_num rnd
         else if k = 1 then gen_rand_expr rnd fuel
         else thenM (gen CHR ''('') (bindM (gen_rand_expr rnd fuel) (\<lambda>ret3. thenM (gen CHR '')'')
           (bindM (gen_rand_op rnd) (\<lambda>opc. bindM (getsM position) (\<lambda>start_pos.
             thenM (gen CHR ''('') (bindM (gen_rand_expr rnd fuel) (\<lambda>ret4. thenM (gen CHR '')'')
               (gen_result opc start_pos ret3 ret4)))))))))  s
       else gen_num rnd s)"

section \<open>The program\<close>

definition code_format :: "string \<Rightarrow> string" where
  "code_format e = ''#include <stdio.h>'' @ [CHR 0x0A] @ ''int main() {   unsigned result = '' @ e
     @ '';   printf('' @ [CHR 0x22] @ ''%uu'' @ [CHR 0x22] @ '', result);   return 0; }''"

definition CODE_SIZE :: nat where "CODE_SIZE = 65536 + 128"

definition c_text :: "string \<Rightarrow> string" where
  "c_text b = takeWhile (\<lambda>ch. ch \<noteq> NUL) b"

text \<open>
  One round of the loop of \<open>main\<close>: \<open>gcc\<close> tells whether the source compiles, \<open>run\<close> is the number the compiled program
  prints. The line is printed only when the source compiles.
\<close>

definition gen_round :: "(nat \<Rightarrow> nat) \<Rightarrow> (string \<Rightarrow> bool) \<Rightarrow> (string \<Rightarrow> u32) \<Rightarrow> string option G" where
  "gen_round rnd gcc run =
     thenM (modifyM (\<lambda>s. s\<lparr>position := 0, gcnt := 0\<rparr>)) (thenM (gen_rand_expr rnd 100)
     (thenM (\<lambda>s. buf_set (unat (position s)) NUL s) (\<lambda>s.
       let code = code_format (c_text (gbuf s)) in
       if CODE_SIZE \<le> length code then Inl Out_of_bounds
       else Inr (if gcc code then Some (dec_nat (unat (run code)) @ '' '' @ c_text (gbuf s) @ [CHR 0x0A]) else None, s))))"

primrec gen_main :: "(nat \<Rightarrow> nat) \<Rightarrow> (string \<Rightarrow> bool) \<Rightarrow> (string \<Rightarrow> u32) \<Rightarrow> nat \<Rightarrow> string list G" where
  "gen_main rnd gcc run 0 = retM []"
| "gen_main rnd gcc run (Suc n) = bindM (gen_round rnd gcc run) (\<lambda>l. bindM (gen_main rnd gcc run n) (\<lambda>ls.
     retM (case l of None \<Rightarrow> ls | Some x \<Rightarrow> x # ls)))"

section \<open>Writing to the buffer\<close>

definition buf_ok :: "gstate \<Rightarrow> bool" where
  "buf_ok s \<longleftrightarrow> length (gbuf s) = BUF_SIZE \<and> unat (position s) \<le> BUF_SIZE"

definition written :: "gstate \<Rightarrow> string" where
  "written s = take (unat (position s)) (gbuf s)"

definition writes :: "gstate \<Rightarrow> string \<Rightarrow> gstate \<Rightarrow> bool" where
  "writes s w s' \<longleftrightarrow> buf_ok s' \<and> written s' = written s @ w \<and> gcnt s' = gcnt s \<and> draws s' = draws s"

lemma length_written: "buf_ok s \<Longrightarrow> length (written s) = unat (position s)"
  by (simp add: buf_ok_def written_def)

lemma writes_trans: "writes s v s' \<Longrightarrow> writes s' w s'' \<Longrightarrow> writes s (v @ w) s''"
  by (simp add: writes_def)

lemma gen_run:
  assumes "buf_ok s" "length (written s) < BUF_SIZE"
  shows "\<exists>s'. gen ch s = Inr ((), s') \<and> writes s [ch] s'"
proof -
  have l: "length (gbuf s) = BUF_SIZE" "unat (position s) < BUF_SIZE"
    using assms by (simp_all add: buf_ok_def written_def)
  then have "unat (position s + 1) = unat (position s) + 1"
    using unat_add_lem [where x = "position s" and y = 1] by (simp add: BUF_SIZE_def)
  then have "writes s [ch] (s\<lparr>gbuf := (gbuf s)[unat (position s) := ch], position := position s + 1\<rparr>)"
    using l by (simp add: writes_def buf_ok_def written_def take_Suc_conv_app_nth)
  then show ?thesis using l by (simp add: gen_def buf_set_def thenM_def bindM_def modifyM_def)
qed

lemma gen_digits_run:
  assumes "buf_ok s" "length (written s) + length is \<le> BUF_SIZE"
  shows "\<exists>s'. gen_digits num is s = Inr ((), s') \<and> writes s (map (\<lambda>i. char_of (digit_at num i + 48)) is) s'"
  using assms
proof (induction "is" arbitrary: s)
  case (Cons i "is")
  then obtain s1 where s1: "gen (char_of (digit_at num i + 48)) s = Inr ((), s1)" "writes s [char_of (digit_at num i + 48)] s1"
    using gen_run [of s] by fastforce
  moreover obtain s2 where "gen_digits num is s1 = Inr ((), s2)" "writes s1 (map (\<lambda>i. char_of (digit_at num i + 48)) is) s2"
    using Cons.IH [of s1] Cons.prems s1(2) by (auto simp: writes_def)
  ultimately show ?case using writes_trans by (fastforce simp: thenM_def bindM_def)
qed (simp add: retM_def writes_def)

section \<open>Numbers\<close>

definition dec_text :: "u32 \<Rightarrow> string" where
  "dec_text n = map (\<lambda>i. char_of (digit_at n i + 48)) (rev [0..<cnt_num n])"

declare cnt_num.simps [simp del]

lemma cnt_num_step: "n \<noteq> 0 \<Longrightarrow> cnt_num n = Suc (cnt_num (n div 10))" "cnt_num 0 = 0"
  by (subst cnt_num.simps; simp)+

lemma digit_at_Suc: "digit_at n (Suc i) = digit_at (n div 10) i"
  unfolding digit_at_def funpow_Suc_right comp_def unat_div by simp

lemma digit_at_0: "digit_at n 0 = unat n mod 10"
  by (simp add: digit_at_def)

lemma dec_text_step: "n \<noteq> 0 \<Longrightarrow> dec_text n = dec_text (n div 10) @ [char_of (unat n mod 10 + 48)]"
proof -
  assume n: "n \<noteq> 0"
  have "rev [0..<Suc k] = map Suc (rev [0..<k]) @ [0]" for k
    by (metis map_Suc_upt rev.simps(2) rev_map upt_conv_Cons zero_less_Suc)
  then show ?thesis using n
    by (simp add: dec_text_def cnt_num_step digit_at_Suc digit_at_0 comp_def del: upt_Suc)
qed

lemma dec_text_0: "dec_text 0 = []"
  by (simp add: dec_text_def cnt_num_step)

lemma length_dec_text: "unat n < 10 ^ k \<Longrightarrow> length (dec_text n) \<le> k"
proof (induction k arbitrary: n)
  case 0
  then have "n = 0" by (simp add: unat_eq_zero)
  then show ?case by (simp add: dec_text_0)
next
  case (Suc k)
  show ?case
  proof (cases "n = 0")
    case False
    have "unat (n div 10) < 10 ^ k" using Suc.prems by (simp add: unat_div less_mult_imp_div_less mult.commute)
    then show ?thesis using Suc.IH False by (simp add: dec_text_step)
  qed (simp add: dec_text_0)
qed

lemma digit_char:
  assumes "d < 10"
  shows "digit_val (char_of (d + 48)) = int d" "char_of (d + 48) \<in> set digits"
    "char_of (d + 48) = CHR ''0'' \<longleftrightarrow> d = 0" "isspace (char_of (d + 48)) = False"
    "char_of (d + 48) \<noteq> CHR ''-''" "char_of (d + 48) \<noteq> CHR ''+''"
proof -
  have "list_all (\<lambda>d. digit_val (char_of (d + 48)) = int d \<and> char_of (d + 48) \<in> set digits
      \<and> (char_of (d + 48) = CHR ''0'' \<longleftrightarrow> d = 0) \<and> \<not> isspace (char_of (d + 48))
      \<and> char_of (d + 48) \<noteq> CHR ''-'' \<and> char_of (d + 48) \<noteq> CHR ''+'') [0..<10]" by code_simp
  then have "digit_val (char_of (d + 48)) = int d \<and> char_of (d + 48) \<in> set digits
      \<and> (char_of (d + 48) = CHR ''0'' \<longleftrightarrow> d = 0) \<and> \<not> isspace (char_of (d + 48))
      \<and> char_of (d + 48) \<noteq> CHR ''-'' \<and> char_of (d + 48) \<noteq> CHR ''+''"
    unfolding list_all_iff set_upt using assms by simp
  then show "digit_val (char_of (d + 48)) = int d" "char_of (d + 48) \<in> set digits"
    "char_of (d + 48) = CHR ''0'' \<longleftrightarrow> d = 0" "isspace (char_of (d + 48)) = False"
    "char_of (d + 48) \<noteq> CHR ''-''" "char_of (d + 48) \<noteq> CHR ''+''" by blast+
qed

lemma dec_text_digits: "set (dec_text n) \<subseteq> set digits"
  by (induction n rule: cnt_num.induct)
    (metis dec_text_0 dec_text_step digit_char(2) empty_subsetI insert_subset list.set(1,2) mod_less_divisor set_append Un_least zero_less_numeral)

lemma dec_text_value: "strtol_digits 10 0 (dec_text n) = int (unat n)"
proof (induction n rule: cnt_num.induct)
  case (1 n)
  have "list_all (\<lambda>ch. digit_val ch < 10) (dec_text k)" for k
  proof (induction k rule: cnt_num.induct)
    case (1 k)
    then show ?case by (cases "k = 0") (simp_all add: dec_text_0 dec_text_step digit_char)
  qed
  then show ?case
    using 1 by (cases "n = 0")
      (simp_all add: dec_text_0 dec_text_step strtol_digits_append digit_char unat_div zdiv_int zmod_int)
qed

lemma dec_text_hd: "n \<noteq> 0 \<Longrightarrow> \<exists>ch cs. dec_text n = ch # cs \<and> ch \<in> set digits \<and> ch \<noteq> CHR ''0''"
proof (induction n rule: cnt_num.induct)
  case (1 n)
  show ?case
  proof (cases "n div 10 = 0")
    case True
    then have "unat (n div 10) = 0" by simp
    then have "unat n div 10 = 0" by (simp add: unat_div)
    then have "unat n mod 10 = unat n" by simp
    then show ?thesis using 1(2) True digit_char [of "unat n mod 10"]
      by (simp add: dec_text_step dec_text_0 unat_eq_zero)
  next
    case False
    then show ?thesis using 1 by (auto simp: dec_text_step [of n])
  qed
qed

lemma strtol_dec_text: "n \<noteq> 0 \<Longrightarrow> strtol (dec_text n) = int (unat n)"
proof -
  assume "n \<noteq> 0"
  then obtain ch cs where d: "dec_text n = ch # cs" "ch \<in> set digits" "ch \<noteq> CHR ''0''" using dec_text_hd by blast
  then have "\<not> isspace ch" "ch \<noteq> CHR ''-''" "ch \<noteq> CHR ''+''" by (auto simp: digits_def isspace_def)
  moreover have "strtol_unsigned (ch # cs) = int (unat n)"
    using dec_text_value [of n] d by (simp add: strtol_unsigned_def split: list.splits)
  moreover have "int (unat n) \<le> LONG_MAX" using of_nat_less_iff [where ?'a = int, THEN iffD2, OF u32_bound [of n]]
    unfolding LONG_MAX_def by simp
  ultimately show ?thesis by (simp add: strtol_def d(1))
qed

section \<open>The lexer on generated text\<close>

lemma best_max: "Some n \<in> set xs \<Longrightarrow> (\<And>m. Some m \<in> set xs \<Longrightarrow> m \<le> n) \<Longrightarrow> best xs = Some n"
proof -
  let ?f = "\<lambda>x b. case x of None \<Rightarrow> b | Some n \<Rightarrow> (case b of None \<Rightarrow> Some n | Some m \<Rightarrow> Some (max m n))"
  have "(\<And>m. Some m \<in> insert b (set xs) \<Longrightarrow> m \<le> n) \<Longrightarrow> Some n \<in> insert b (set xs) \<Longrightarrow> fold ?f xs b = Some n" for b
  proof (induction xs arbitrary: b)
    case (Cons x xs)
    have "fold ?f xs (?f x b) = Some n"
      by (rule Cons.IH) (use Cons.prems in \<open>auto simp: max_def intro: le_antisym split: option.splits if_splits\<close>)
    then show ?case by simp
  qed auto
  then show "Some n \<in> set xs \<Longrightarrow> (\<And>m. Some m \<in> set xs \<Longrightarrow> m \<le> n) \<Longrightarrow> best xs = Some n"
    unfolding best_def by blast
qed

definition suffix_len :: "string \<Rightarrow> nat" where
  "suffix_len s = (if s \<noteq> [] \<and> hd s = CHR ''u'' then 1 else 0)"

lemma rx_u: "rx_longest [(''u'', 0, Some 1)] s = Some (suffix_len s)"
  by (cases s) (auto simp: suffix_len_def best_def)

lemma rx_dec:
  assumes ds: "ds \<noteq> []" "set ds \<subseteq> set digits" and rest: "rest = [] \<or> hd rest \<notin> set digits"
  shows "rx_longest [(digits, 1, None), (''u'', 0, Some 1)] (ds @ rest) = Some (length ds + suffix_len rest)"
proof -
  have run: "length (takeWhile (\<lambda>c. c \<in> set digits) (ds @ rest)) = length ds"
  proof -
    have "takeWhile (\<lambda>c. c \<in> set digits) rest = []" using rest by (cases rest) auto
    then show ?thesis using ds(2) by (subst takeWhile_append2) auto
  qed
  have short: "suffix_len (drop k (ds @ rest)) = 0" if "k < length ds" for k
  proof -
    have "hd (drop k (ds @ rest)) = ds ! k" using that by (simp add: hd_drop_conv_nth nth_append)
    moreover have "ds ! k \<in> set digits" using that ds(2) by auto
    ultimately show ?thesis by (auto simp: suffix_len_def digits_def)
  qed
  let ?g = "\<lambda>k. map_option ((+) k) (rx_longest [(''u'', 0, Some 1)] (drop k (ds @ rest)))"
  have "best (map ?g [1..<Suc (length ds)]) = Some (length ds + suffix_len rest)"
  proof (rule best_max)
    have "?g (length ds) = Some (length ds + suffix_len rest)" unfolding rx_u by simp
    moreover have "length ds \<in> set [1..<Suc (length ds)]" using ds(1) by (cases ds) auto
    ultimately show "Some (length ds + suffix_len rest) \<in> set (map ?g [1..<Suc (length ds)])"
      unfolding set_map by (intro image_eqI [where x = "length ds"]) simp_all
    fix m assume "Some m \<in> set (map ?g [1..<Suc (length ds)])"
    then obtain k where "k \<in> set [1..<Suc (length ds)]" "Some m = ?g k" unfolding set_map by (elim imageE)
    then have "k \<le> length ds" "m = k + suffix_len (drop k (ds @ rest))"
      unfolding rx_u set_upt atLeastLessThan_iff less_Suc_eq_le option.map option.inject by blast+
    then show "m \<le> length ds + suffix_len rest" using short [of k] by (cases "k < length ds") auto
  qed
  then show ?thesis by (subst rx_longest.simps) (simp only: run Let_def option.case)
qed

text \<open>
  Text that the lexer turns into given tokens, whatever follows, as long as a number cannot go on there.
\<close>

definition stops :: "string \<Rightarrow> bool" where
  "stops rest \<longleftrightarrow> rest = [] \<or> hd rest = CHR '')''"

definition lexes :: "string \<Rightarrow> Token list \<Rightarrow> bool" where
  "lexes w new \<longleftrightarrow> (\<forall>rest old. stops rest \<longrightarrow> length old + length new \<le> NR_TOKEN \<longrightarrow>
     make_token_from (w @ rest) old = make_token_from rest (old @ new))"

lemma rx_class_fails: "c \<notin> set cls \<Longrightarrow> 0 < lo \<Longrightarrow> rx_longest ((cls, lo, hi) # rs) (c # cs) = None"
  by (cases hi) (simp_all add: best_def Let_def)

lemma rx_lit: "rx_longest (lit [x]) (c # cs) = (if c = x then Some 1 else None)"
  by (simp add: lit_def best_def)

lemma rx_lit_append: "c \<noteq> x \<Longrightarrow> rx_longest (lit [x] @ rs) (c # cs) = None"
  by (simp add: lit_def rx_class_fails del: rx_longest.simps)

lemma first_rule_dec:
  assumes d: "ds = ch # cs" "set ds \<subseteq> set digits" "ch \<noteq> CHR ''0''" and rest: "rest = [] \<or> hd rest \<notin> set digits"
  shows "first_rule rules (ds @ rest) = Some (length ds + suffix_len rest, TK_DEC)"
proof -
  have "rx_longest (lit ''0'' @ [(''xX'', 1, Some 1), (hexdigits, 1, None)]) (ds @ rest) = None"
    using d(1,3) by (simp add: rx_lit_append)
  then show ?thesis unfolding rules_def using rx_dec [OF _ d(2) rest] d(1) by simp
qed

lemma make_token_step:
  assumes "first_rule rules s = Some (n, t)" "n \<le> 32" "token_of t (take n s) old = Some x" "length old < NR_TOKEN" "s \<noteq> []"
  shows "make_token_from s old = make_token_from (drop n s) (old @ [x])"
  using assms by (cases s) auto

lemma lex_dec:
  assumes d: "ds = ch # cs" "set ds \<subseteq> set digits" "ch \<noteq> CHR ''0''" "length ds < 32" and u: "u = [] \<or> u = ''u''"
  shows "lexes (ds @ u) [\<lparr>tk_type = TK_DEC, tk_str = ds\<rparr>]"
  unfolding lexes_def
proof (intro allI impI)
  fix rest :: string and old :: "Token list"
  assume st: "stops rest" and len: "length old + length [\<lparr>tk_type = TK_DEC, tk_str = ds\<rparr>] \<le> NR_TOKEN"
  have sfx: "suffix_len (u @ rest) = length u" "u @ rest = [] \<or> hd (u @ rest) \<notin> set digits"
    using u st by (auto simp: suffix_len_def stops_def digits_def)
  have fr: "first_rule rules ((ds @ u) @ rest) = Some (length (ds @ u), TK_DEC)"
    using first_rule_dec [OF d(1-3) sfx(2)] by (simp add: sfx(1))
  have "last ds \<in> set digits" using d(1,2) last_in_set [of ds] by auto
  then have l: "last ds \<noteq> CHR ''u''" by (auto simp: digits_def)
  have tok: "token_of TK_DEC (ds @ u) old = Some \<lparr>tk_type = TK_DEC, tk_str = ds\<rparr>"
    using u l d(1,4) by (auto simp: token_of_def Let_def butlast_append)
  have ne: "(ds @ u) @ rest = ch # (cs @ u @ rest)" using d(1) by simp
  have "length (ds @ u) \<le> 32" using d(4) u by auto
  then show "make_token_from ((ds @ u) @ rest) old = make_token_from rest (old @ [\<lparr>tk_type = TK_DEC, tk_str = ds\<rparr>])"
    using len fr tok make_token_step [of "(ds @ u) @ rest" "length (ds @ u)" TK_DEC] d(1) by simp
qed

definition mark_chars :: "char set" where
  "mark_chars = {CHR ''('', CHR '')'', CHR ''+'', CHR ''-'', CHR ''*'', CHR ''/''}"

lemma first_rule_mark: "c \<in> mark_chars \<Longrightarrow> first_rule rules (c # cs) = Some (1, TK_CHR c)"
  unfolding mark_chars_def rules_def
  by (elim insertE emptyE) (simp_all add: rx_lit rx_lit_append rx_class_fails digits_def del: rx_longest.simps append.simps)

lemma lex_mark:
  assumes "c \<in> mark_chars" "c = CHR ''*'' \<Longrightarrow> old \<noteq> [] \<and> tk_type (last old) = TK_CHR CHR '')''" "length old < NR_TOKEN"
  shows "make_token_from (c # rest) old = make_token_from rest (old @ [plain (TK_CHR c)])"
proof -
  have "token_of (TK_CHR c) [c] old = Some (plain (TK_CHR c))"
    using assms(1,2) by (auto simp: token_of_def plain_def mark_chars_def)
  then show ?thesis using assms(3) by (simp add: first_rule_mark [OF assms(1)])
qed

section \<open>Trees behind the text\<close>

definition gen_ops :: "char set" where
  "gen_ops = {CHR ''+'', CHR ''-'', CHR ''*'', CHR ''/''}"

fun arith :: "ex \<Rightarrow> bool" where
  "arith (E_num hex s) = True"
| "arith (E_par e) = arith e"
| "arith (E_bin t a b) = (t \<in> TK_CHR ` gen_ops \<and> arith a \<and> arith b)"
| "arith _ = False"

fun tree_val :: "ex \<Rightarrow> u32" where
  "tree_val (E_num hex s) = word_of_int (strtol s)"
| "tree_val (E_par e) = tree_val e"
| "tree_val (E_bin t a b) = apply_op t (tree_val a) (tree_val b)"
| "tree_val _ = 0"

lemma arith_sem: "arith e \<Longrightarrow> sem c e = retM (tree_val e)"
  by (induction e) auto

definition denotes :: "ex \<Rightarrow> string \<Rightarrow> u32 \<Rightarrow> bool" where
  "denotes e w v \<longleftrightarrow> wf_ex e \<and> arith e \<and> tree_val e = v \<and> lexes w (toks e) \<and> length (toks e) \<le> length w \<and> NUL \<notin> set w"

lemma denotes_number:
  assumes "n \<noteq> 0" "unat n < 1000000"
  shows "denotes (E_num False (dec_text n)) (dec_text n @ ''u'') n"
proof -
  obtain ch cs where d: "dec_text n = ch # cs" "ch \<noteq> CHR ''0''" using dec_text_hd [OF assms(1)] by blast
  have "length (dec_text n) \<le> 6" using length_dec_text [of n 6] assms(2) by simp
  then have "lexes (dec_text n @ ''u'') [\<lparr>tk_type = TK_DEC, tk_str = dec_text n\<rparr>]"
    by (intro lex_dec [OF d(1) dec_text_digits d(2)]) auto
  moreover have "NUL \<notin> set (dec_text n)" using dec_text_digits [of n] by (auto simp: digits_def NUL_def)
  ultimately show ?thesis using strtol_dec_text [OF assms(1)] by (simp add: denotes_def NUL_def)
qed

lemma denotes_one: "denotes (E_num False ''1'') ''1'' 1"
proof -
  have "lexes (''1'' @ []) [\<lparr>tk_type = TK_DEC, tk_str = ''1''\<rparr>]" by (rule lex_dec) (auto simp: digits_def)
  moreover have "strtol ''1'' = 1"
    by (simp add: strtol_def strtol_unsigned_def isspace_def digit_val_def LONG_MAX_def)
  ultimately show ?thesis by (simp add: denotes_def NUL_def)
qed

lemma lexes_par:
  assumes "lexes w ts"
  shows "length old + length ts + 2 \<le> NR_TOKEN \<Longrightarrow>
    make_token_from (''('' @ w @ '')'' @ rest) old
      = make_token_from rest (old @ plain (TK_CHR CHR ''('') # ts @ [plain (TK_CHR CHR '')'')])"
proof -
  assume l: "length old + length ts + 2 \<le> NR_TOKEN"
  then have "make_token_from (''('' @ w @ '')'' @ rest) old = make_token_from (w @ '')'' @ rest) (old @ [plain (TK_CHR CHR ''('')])"
    using lex_mark [of "CHR ''(''" old] by (simp add: mark_chars_def)
  also have "\<dots> = make_token_from ('')'' @ rest) ((old @ [plain (TK_CHR CHR ''('')]) @ ts)"
    using assms l unfolding lexes_def by (simp add: stops_def)
  also have "\<dots> = make_token_from rest (old @ plain (TK_CHR CHR ''('') # ts @ [plain (TK_CHR CHR '')'')])"
    using lex_mark [of "CHR '')''" "(old @ [plain (TK_CHR CHR ''('')]) @ ts" rest] l by (simp add: mark_chars_def)
  finally show ?thesis .
qed

lemma lexes_parE: "lexes w ts \<Longrightarrow> lexes (''('' @ w @ '')'') (plain (TK_CHR CHR ''('') # ts @ [plain (TK_CHR CHR '')'')])"
  using lexes_par unfolding lexes_def [of "''('' @ w @ '')''"] by simp

lemma lexes_bin:
  assumes "lexes w ts" "lexes w2 ts2" "c \<in> gen_ops"
  shows "lexes (''('' @ w @ '')'' @ [c] @ w2)
    (plain (TK_CHR CHR ''('') # ts @ [plain (TK_CHR CHR '')'')] @ plain (TK_CHR c) # ts2)"
  unfolding lexes_def
proof (intro allI impI)
  fix rest :: string and old :: "Token list"
  let ?p = "plain (TK_CHR CHR ''('') # ts @ [plain (TK_CHR CHR '')'')]"
  assume st: "stops rest"
    and "length old + length (plain (TK_CHR CHR ''('') # ts @ [plain (TK_CHR CHR '')'')] @ plain (TK_CHR c) # ts2) \<le> NR_TOKEN"
  then have l: "length old + length ts + 3 + length ts2 \<le> NR_TOKEN" by simp
  have "make_token_from ((''('' @ w @ '')'' @ [c] @ w2) @ rest) old = make_token_from (c # w2 @ rest) (old @ ?p)"
    using lexes_par [OF assms(1), of old "c # w2 @ rest"] l by simp
  also have "\<dots> = make_token_from (w2 @ rest) ((old @ ?p) @ [plain (TK_CHR c)])"
    using assms(3) l by (intro lex_mark) (auto simp: gen_ops_def mark_chars_def)
  also have "\<dots> = make_token_from rest (old @ ?p @ plain (TK_CHR c) # ts2)"
    using assms(2) st l unfolding lexes_def by simp
  finally show "make_token_from ((''('' @ w @ '')'' @ [c] @ w2) @ rest) old
    = make_token_from rest (old @ plain (TK_CHR CHR ''('') # ts @ [plain (TK_CHR CHR '')'')] @ plain (TK_CHR c) # ts2)" by simp
qed

lemma denotes_bin:
  assumes a: "denotes a w x" and b: "denotes b w2 y" and "level b = 100" and c: "c \<in> gen_ops"
  shows "denotes (E_bin (TK_CHR c) (E_par a) b) (''('' @ w @ '')'' @ [c] @ w2) (apply_op (TK_CHR c) x y)"
proof -
  have "TK_CHR c \<in> binops" "prec (Some (TK_CHR c)) < 100" "c \<noteq> NUL" using c by (auto simp: gen_ops_def binops_def NUL_def)
  then show ?thesis
    using assms lexes_bin [of w "toks a" w2 "toks b" c] by (auto simp: denotes_def NUL_def)
qed

lemma denotes_par: "denotes e w v \<Longrightarrow> denotes (E_par e) (''('' @ w @ '')'') v"
  using lexes_parE by (auto simp: denotes_def NUL_def)

section \<open>Runs of the generator\<close>

definition no_zeros :: "(nat \<Rightarrow> nat) \<Rightarrow> bool" where
  "no_zeros rnd \<longleftrightarrow> (\<forall>i. rnd i mod 1000000 \<noteq> 0)"

lemma gen_num_run:
  assumes "buf_ok s" "length (written s) + 7 \<le> BUF_SIZE"
  shows "\<exists>n s'. gen_num rnd s = Inr (n, s') \<and> buf_ok s' \<and> written s' = written s @ dec_text n @ ''u'' \<and> gcnt s' = gcnt s
    \<and> unat n < 1000000 \<and> (no_zeros rnd \<longrightarrow> n \<noteq> 0)"
proof -
  define n :: u32 where "n = of_nat (rnd (draws s) mod 1000000)"
  let ?s1 = "s\<lparr>draws := draws s + 1\<rparr>"
  have n: "unat n = rnd (draws s) mod 1000000" unfolding n_def by (rule unat_of_small) simp
  then have l: "length (dec_text n) \<le> 6" using length_dec_text [of n 6] by simp
  have s1: "buf_ok ?s1" "written ?s1 = written s" using assms(1) by (simp_all add: buf_ok_def written_def)
  have len: "length (dec_text n) = cnt_num n" by (simp add: dec_text_def)
  obtain s2 where s2: "gen_digits n (rev [0..<cnt_num n]) ?s1 = Inr ((), s2)" "writes ?s1 (dec_text n) s2"
    using gen_digits_run [OF s1(1), of "rev [0..<cnt_num n]" n] s1(2) assms(2) l len by (auto simp: dec_text_def)
  then obtain s3 where s3: "gen CHR ''u'' s2 = Inr ((), s3)" "writes s2 ''u'' s3"
    using gen_run [of s2 "CHR ''u''"] assms(2) l s1(2) by (auto simp: writes_def)
  have "gen_num rnd s = Inr (n, s3)"
    using s2(1) s3(1) by (simp add: gen_num_def rand_next_def bindM_def thenM_def retM_def n_def Let_def)
  moreover have "no_zeros rnd \<Longrightarrow> n \<noteq> 0" using n unfolding no_zeros_def by (metis unat_0)
  ultimately show ?thesis using s2(2) s3(2) s1(2) n by (auto simp: writes_def)
qed

lemma op_char_ops: "op_char (n mod 4) \<in> gen_ops"
proof -
  have "n mod 4 < Suc (Suc (Suc (Suc 0)))" by simp
  then show ?thesis by (auto simp: op_char_def gen_ops_def less_Suc_eq)
qed

lemma gen_rand_op_run:
  assumes "buf_ok s" "length (written s) < BUF_SIZE"
  shows "\<exists>c s'. gen_rand_op rnd s = Inr (c, s') \<and> c \<in> gen_ops \<and> buf_ok s' \<and> written s' = written s @ [c] \<and> gcnt s' = gcnt s"
proof -
  let ?s1 = "s\<lparr>draws := draws s + 1\<rparr>" and ?c = "op_char (rnd (draws s) mod 4)"
  have s1: "buf_ok ?s1" "written ?s1 = written s" using assms(1) by (simp_all add: buf_ok_def written_def)
  obtain s2 where s2: "gen ?c ?s1 = Inr ((), s2)" "writes ?s1 [?c] s2"
    using gen_run [OF s1(1), of ?c] s1(2) assms(2) by auto
  have "?c \<in> gen_ops" by (rule op_char_ops)
  moreover have "gen_rand_op rnd s = Inr (?c, s2)"
    using s2(1) by (simp add: gen_rand_op_def rand_next_def bindM_def thenM_def retM_def Let_def)
  ultimately show ?thesis using s2(2) s1(2) by (auto simp: writes_def)
qed

lemma gen_result_run:
  assumes ok: "buf_ok s" and w: "written s = pre @ w" "unat start = length pre" "length w < BUF_SIZE" "w \<noteq> []"
    and l: "length (written s) + 2 \<le> BUF_SIZE" and c: "c \<in> gen_ops"
  shows "\<exists>s'. gen_result c start x y s = Inr (apply_op (TK_CHR c) x y, s') \<and> buf_ok s' \<and> gcnt s' = gcnt s
    \<and> written s' = pre @ (if c = CHR ''/'' \<and> y = 0 then ''1'' else w)"
proof (cases "c = CHR ''/'' \<and> y = 0")
  case True
  let ?s1 = "s\<lparr>position := start\<rparr>"
  have "length pre \<le> unat (position s)" using length_written [OF ok] w(1) by (metis le_add1 length_append)
  then have s1: "buf_ok ?s1" "written ?s1 = pre"
    using ok w(1,2) by (auto simp: buf_ok_def written_def) (metis append_eq_conv_conj min.absorb1 take_take)
  then obtain s2 where s2: "gen CHR ''1'' ?s1 = Inr ((), s2)" "writes ?s1 ''1'' s2"
    using gen_run [OF s1(1), of "CHR ''1''"] l w(1) by auto
  then have p: "buf_ok s2" "unat (position s2) < BUF_SIZE" "gcnt s2 = gcnt s" "written s2 = pre @ ''1''"
    using length_written [of s2] l w(1) s1(2) by (auto simp: writes_def)
  let ?s3 = "s2\<lparr>gbuf := (gbuf s2)[unat (position s2) := NUL]\<rparr>"
  have "gen_result c start x y s = Inr (x, ?s3)"
    using True s2(1) p(1,2) by (simp add: gen_result_def thenM_def bindM_def modifyM_def retM_def buf_set_def buf_ok_def)
  moreover have "buf_ok ?s3" "written ?s3 = written s2" using p(1) by (simp_all add: buf_ok_def written_def)
  ultimately show ?thesis using True p by (simp add: apply_op_def)
next
  case False
  then have "gen_result c start x y s = Inr (apply_op (TK_CHR c) x y, s)"
    using c by (auto simp: gen_ops_def gen_result_def apply_op_def retM_def word_div_def)
  then show ?thesis using ok w(1) False by auto
qed

text \<open>
  A call that starts with \<open>k\<close> calls before it makes at most \<open>max_calls k\<close> calls in all: fewer than a hundred of them
  have two calls below them. Every call writes at most seven characters of its own.
\<close>

definition max_calls :: "int \<Rightarrow> int" where
  "max_calls k = 1 + 2 * max 0 (99 - k)"

lemma calls_twice: "0 \<le> k \<Longrightarrow> k < 99 \<Longrightarrow> k + 2 \<le> k1 \<Longrightarrow> k1 \<le> k + 1 + max_calls (k + 1) \<Longrightarrow> k1 + max_calls k1 \<le> k + max_calls k"
  by (auto simp: max_calls_def max_def)

definition generated :: "(nat \<Rightarrow> nat) \<Rightarrow> gstate \<Rightarrow> string \<Rightarrow> u32 \<Rightarrow> gstate \<Rightarrow> bool" where
  "generated rnd s w v s' \<longleftrightarrow> buf_ok s' \<and> written s' = written s @ w \<and> gcnt s < gcnt s' \<and> gcnt s' \<le> gcnt s + max_calls (gcnt s)
     \<and> int (length w) \<le> 7 * (gcnt s' - gcnt s) \<and> w \<noteq> [] \<and> (no_zeros rnd \<longrightarrow> (\<exists>e. denotes e w v))"

lemma gen_num_generated:
  assumes "buf_ok s" "length (written s) + 7 \<le> BUF_SIZE" "written s0 = written s" "gcnt s = gcnt s0 + 1"
  shows "\<exists>v s' w. gen_num rnd s = Inr (v, s') \<and> generated rnd s0 w v s'"
proof -
  obtain n s' where n: "gen_num rnd s = Inr (n, s')" "buf_ok s'" "written s' = written s @ dec_text n @ ''u''" "gcnt s' = gcnt s"
    "unat n < 1000000" "no_zeros rnd \<longrightarrow> n \<noteq> 0" using gen_num_run [OF assms(1,2)] by blast
  have "length (dec_text n) \<le> 6" using length_dec_text [of n 6] n(5) by simp
  then have "generated rnd s0 (dec_text n @ ''u'') n s'"
    using n assms(3,4) denotes_number [of n] by (auto simp: generated_def max_calls_def)
  then show ?thesis using n(1) by blast
qed

definition gen_ready :: "nat \<Rightarrow> gstate \<Rightarrow> bool" where
  "gen_ready fuel s \<longleftrightarrow> buf_ok s \<and> 0 \<le> gcnt s \<and> 1 \<le> fuel \<and> 100 - gcnt s \<le> int fuel
     \<and> int (length (written s)) + 7 * max_calls (gcnt s) < int BUF_SIZE"

lemma gen_binary_generated:
  assumes IH: "\<And>s. gen_ready fuel s \<Longrightarrow> \<exists>v s' w. gen_rand_expr rnd fuel s = Inr (v, s') \<and> generated rnd s w v s'"
    and s: "buf_ok s" "written s = written s0" "gcnt s = gcnt s0 + 1" "gcnt s0 < 99" "0 \<le> gcnt s0" "99 - gcnt s0 \<le> int fuel"
      "int (length (written s0)) + 7 * max_calls (gcnt s0) < int BUF_SIZE"
  shows "\<exists>v s' w. thenM (gen CHR ''('') (bindM (gen_rand_expr rnd fuel) (\<lambda>ret3. thenM (gen CHR '')'')
           (bindM (gen_rand_op rnd) (\<lambda>opc. bindM (getsM position) (\<lambda>start_pos.
             thenM (gen CHR ''('') (bindM (gen_rand_expr rnd fuel) (\<lambda>ret4. thenM (gen CHR '')'')
               (gen_result opc start_pos ret3 ret4)))))))) s = Inr (v, s') \<and> generated rnd s0 w v s'"
proof -
  let ?k = "gcnt s0" and ?L = "int (length (written s0))"
  have c1: "max_calls ?k = max_calls (?k + 1) + 2" using s(4) by (simp add: max_calls_def max_def)
  have pos: "1 \<le> max_calls j" for j by (simp add: max_calls_def)
  obtain s1 where s1: "gen CHR ''('' s = Inr ((), s1)" "buf_ok s1" "written s1 = written s0 @ ''(''" "gcnt s1 = ?k + 1"
    using gen_run [OF s(1), of "CHR ''(''"] s(2,3,7) pos [of ?k] by (auto simp: writes_def)
  have "gen_ready fuel s1" using s1 s(4-7) c1 by (simp add: gen_ready_def)
  then obtain x s2 w where s2: "gen_rand_expr rnd fuel s1 = Inr (x, s2)" "generated rnd s1 w x s2" using IH by blast
  let ?k2 = "gcnt s2"
  have k2: "?k + 2 \<le> ?k2" "?k2 \<le> ?k + 1 + max_calls (?k + 1)" "int (length w) \<le> 7 * (?k2 - ?k - 1)"
    "written s2 = written s0 @ ''('' @ w" "buf_ok s2" "w \<noteq> []" using s2(2) s1(3,4) by (auto simp: generated_def)
  have le: "?k2 + max_calls ?k2 \<le> ?k + max_calls ?k" using calls_twice [OF s(5,4) k2(1,2)] .
  obtain s3 where s3: "gen CHR '')'' s2 = Inr ((), s3)" "buf_ok s3" "written s3 = written s2 @ '')''" "gcnt s3 = ?k2"
    using gen_run [OF k2(5), of "CHR '')''"] k2(3,4) s(7) le pos [of ?k2] by (auto simp: writes_def)
  obtain c s4 where s4: "gen_rand_op rnd s3 = Inr (c, s4)" "c \<in> gen_ops" "buf_ok s4" "written s4 = written s3 @ [c]" "gcnt s4 = ?k2"
    using gen_rand_op_run [OF s3(2), of rnd] k2(3,4) s3(3,4) s(7) le pos [of ?k2] by auto
  obtain s5 where s5: "gen CHR ''('' s4 = Inr ((), s5)" "buf_ok s5" "written s5 = written s4 @ ''(''" "gcnt s5 = ?k2"
    using gen_run [OF s4(3), of "CHR ''(''"] k2(3,4) s3(3) s4(4,5) s(7) le pos [of ?k2] by (auto simp: writes_def)
  have "gen_ready fuel s5" using s5 s(4-7) s4(4) s3(3) k2 le by (simp add: gen_ready_def)
  then obtain y s6 w2 where s6: "gen_rand_expr rnd fuel s5 = Inr (y, s6)" "generated rnd s5 w2 y s6" using IH by blast
  let ?k6 = "gcnt s6" and ?pre = "written s0 @ ''('' @ w @ '')'' @ [c]"
  have k6: "?k2 < ?k6" "?k6 \<le> ?k2 + max_calls ?k2" "int (length w2) \<le> 7 * (?k6 - ?k2)" "written s6 = ?pre @ ''('' @ w2" "buf_ok s6"
    using s6(2) s5(3,4) s4(4) s3(3) k2(4) by (auto simp: generated_def)
  obtain s7 where s7: "gen CHR '')'' s6 = Inr ((), s7)" "buf_ok s7" "written s7 = ?pre @ ''('' @ w2 @ '')''" "gcnt s7 = ?k6"
    using gen_run [OF k6(5), of "CHR '')''"] k6 k2(3) s(7) le by (auto simp: writes_def)
  have st: "unat (position s4) = length ?pre" using length_written [OF s4(3)] s4(4) s3(3) k2(4) by simp
  let ?w = "if c = CHR ''/'' \<and> y = 0 then ''1'' else ''('' @ w2 @ '')''"
  obtain s8 where s8: "gen_result c (position s4) x y s7 = Inr (apply_op (TK_CHR c) x y, s8)" "buf_ok s8" "gcnt s8 = ?k6"
    "written s8 = ?pre @ ?w"
    using gen_result_run [OF s7(2,3) st _ _ _ s4(2), of x y] s7(3,4) k6(1-3) k2(3) s(7) le by auto
  have "\<exists>e. denotes e (''('' @ w @ '')'' @ [c] @ ?w) (apply_op (TK_CHR c) x y)" if "no_zeros rnd"
  proof -
    from that s2(2) s6(2) obtain a b where "denotes a w x" "denotes b w2 y" by (auto simp: generated_def)
    moreover have "apply_op (TK_CHR CHR ''/'') x 1 = apply_op (TK_CHR CHR ''/'') x 0" by (simp add: apply_op_def)
    ultimately show ?thesis
      using denotes_bin [OF \<open>denotes a w x\<close> denotes_one _ s4(2)] denotes_bin [OF \<open>denotes a w x\<close> denotes_par [OF \<open>denotes b w2 y\<close>] _ s4(2)] by auto
  qed
  then have "generated rnd s0 (''('' @ w @ '')'' @ [c] @ ?w) (apply_op (TK_CHR c) x y) s8"
    using s8(2-4) k2(1,3) k6(1-3) le by (auto simp: generated_def)
  then show ?thesis using s1(1) s2(1) s3(1) s4(1) s5(1) s6(1) s7(1) s8(1)
    by (auto simp: thenM_def bindM_def getsM_def)
qed

lemma gen_rand_expr_generated:
  "gen_ready fuel s \<Longrightarrow> \<exists>v s' w. gen_rand_expr rnd fuel s = Inr (v, s') \<and> generated rnd s w v s'"
proof (induction fuel arbitrary: s)
  case (Suc fuel)
  let ?k = "gcnt s" and ?s0 = "s\<lparr>gcnt := gcnt s + 1\<rparr>" and ?s1 = "s\<lparr>gcnt := gcnt s + 1, draws := draws s + 1\<rparr>"
  have pos: "1 \<le> max_calls j" for j by (simp add: max_calls_def)
  have r: "buf_ok s" "0 \<le> ?k" "100 - ?k \<le> int fuel + 1" "int (length (written s)) + 7 * max_calls ?k < int BUF_SIZE"
    using Suc.prems by (simp_all add: gen_ready_def)
  have b: "buf_ok ?s0" "buf_ok ?s1" "written ?s0 = written s" "written ?s1 = written s"
    using r(1) by (simp_all add: buf_ok_def written_def)
  have l: "length (written s) + 7 \<le> BUF_SIZE" using r(4) pos [of ?k] by simp
  have num: "\<exists>v s' w. gen_num rnd t = Inr (v, s') \<and> generated rnd s w v s'"
    if "buf_ok t" "written t = written s" "gcnt t = ?k + 1" for t
    by (rule gen_num_generated [OF that(1) _ that(2) [symmetric] that(3)]) (use l that(2) in simp)
  show ?case
  proof (cases "?k + 1 < 100")
    case False
    have "gen_rand_expr rnd (Suc fuel) s = gen_num rnd ?s0"
      using False by (simp add: thenM_def bindM_def modifyM_def)
    then show ?thesis using num [OF b(1,3)] by simp
  next
    case True
    have nested: "\<exists>v s' w. gen_rand_expr rnd fuel ?s1 = Inr (v, s') \<and> generated rnd s w v s'"
    proof -
      have "max_calls ?k = max_calls (?k + 1) + 2" using True by (simp add: max_calls_def max_def)
      moreover have "gen_ready fuel ?s1" using True r b calculation by (simp add: gen_ready_def)
      ultimately show ?thesis using Suc.IH [of ?s1] b by (fastforce simp: generated_def)
    qed
    have run: "gen_rand_expr rnd (Suc fuel) s = (let k = rnd (draws s) mod 3 in
        if k = 0 then gen_num rnd else if k = 1 then gen_rand_expr rnd fuel
        else thenM (gen CHR ''('') (bindM (gen_rand_expr rnd fuel) (\<lambda>ret3. thenM (gen CHR '')'')
           (bindM (gen_rand_op rnd) (\<lambda>opc. bindM (getsM position) (\<lambda>start_pos.
             thenM (gen CHR ''('') (bindM (gen_rand_expr rnd fuel) (\<lambda>ret4. thenM (gen CHR '')'')
               (gen_result opc start_pos ret3 ret4))))))))) ?s1"
      using True by (simp add: thenM_def bindM_def modifyM_def choose_num_def rand_next_def retM_def Let_def)
    show ?thesis unfolding run Let_def
      using num [OF b(2,4)] nested gen_binary_generated [OF Suc.IH b(2,4)] r True by simp
  qed
qed (simp add: gen_ready_def)

section \<open>The debugger on generated text\<close>

lemma denotes_expr:
  fixes t :: "'r nemu"
  assumes "denotes e w v" "length w \<le> NR_TOKEN"
  shows "expr c w ok t = Inr ((v, ok), t)"
proof -
  have g: "wf_ex e" "arith e" "tree_val e = v" "lexes w (toks e)" "length (toks e) \<le> length w"
    using assms(1) by (simp_all add: denotes_def)
  then have "make_token_from (w @ []) [] = make_token_from [] ([] @ toks e)"
    using assms(2) unfolding lexes_def by (simp add: stops_def)
  then have "make_token w = Inr (True, toks e)" by (simp add: make_token_def)
  moreover have "eval c (toks e) 0 (int (length (toks e)) - 1) = (retM v :: ('r, u32) M)"
    unfolding arith_sem [OF g(2), of c, unfolded g(3), symmetric]
    by (rule eval_tree [OF g(1)]) (auto simp: spans_def intro: exI [of _ "[]"])
  ultimately show ?thesis by (simp add: expr_def)
qed

lemma gen_start_ready: "length (gbuf s) = BUF_SIZE \<Longrightarrow> gen_ready 100 (s\<lparr>position := 0, gcnt := 0\<rparr>)"
  by (simp add: gen_ready_def buf_ok_def written_def max_calls_def BUF_SIZE_def)

lemma gen_start_run:
  assumes "length (gbuf s) = BUF_SIZE"
  shows "\<exists>v s' w. gen_rand_expr rnd 100 (s\<lparr>position := 0, gcnt := 0\<rparr>) = Inr (v, s') \<and> buf_ok s' \<and> written s' = w
    \<and> gcnt s' \<le> 199 \<and> length w \<le> 1393 \<and> (no_zeros rnd \<longrightarrow> (\<exists>e. denotes e w v))"
proof -
  let ?s = "s\<lparr>position := 0, gcnt := 0\<rparr>"
  obtain v s' w where "gen_rand_expr rnd 100 ?s = Inr (v, s')" "generated rnd ?s w v s'"
    using gen_rand_expr_generated [OF gen_start_ready [OF assms]] by blast
  moreover have "written ?s = []" "max_calls 0 = 199" by (simp_all add: written_def max_calls_def)
  ultimately show ?thesis by (auto simp: generated_def)
qed

lemma takeWhile_terminated:
  "takeWhile (\<lambda>ch. ch \<noteq> NUL) (xs @ NUL # ys) = takeWhile (\<lambda>ch. ch \<noteq> NUL) xs"
  by (induction xs) auto

lemma c_text_update: "n < length b \<Longrightarrow> c_text (b[n := NUL]) = c_text (take n b)"
  by (simp add: c_text_def upd_conv_take_nth_drop takeWhile_terminated)

lemma length_c_text: "length (c_text b) \<le> length b"
  unfolding c_text_def by (rule length_takeWhile_le)

lemma c_text_all: "NUL \<notin> set b \<Longrightarrow> c_text b = b"
  unfolding c_text_def by (auto intro!: takeWhile_eq_all_conv [THEN iffD2])

lemma length_code_format: "length (code_format e) = length e + 92"
  by (simp add: code_format_def)

lemma gen_round_run:
  assumes "length (gbuf s) = BUF_SIZE"
  shows "\<exists>v s1 w s'. gen_rand_expr rnd 100 (s\<lparr>position := 0, gcnt := 0\<rparr>) = Inr (v, s1) \<and> length w \<le> 1393
    \<and> gen_round rnd gcc run s = Inr (if gcc (code_format w)
        then Some (dec_nat (unat (run (code_format w))) @ '' '' @ w @ [CHR 0x0A]) else None, s')
    \<and> length (gbuf s') = BUF_SIZE \<and> (no_zeros rnd \<longrightarrow> (\<exists>e. denotes e w v))"
proof -
  let ?s = "s\<lparr>position := 0, gcnt := 0\<rparr>"
  obtain v s1 where s1: "gen_rand_expr rnd 100 ?s = Inr (v, s1)" "buf_ok s1" "length (written s1) \<le> 1393"
    "no_zeros rnd \<longrightarrow> (\<exists>e. denotes e (written s1) v)" using gen_start_run [OF assms, of rnd] by blast
  let ?w = "c_text (written s1)" and ?s2 = "s1\<lparr>gbuf := (gbuf s1)[unat (position s1) := NUL]\<rparr>"
  have b: "unat (position s1) < length (gbuf s1)" "length (gbuf s1) = BUF_SIZE"
    using s1(2,3) length_written [OF s1(2)] by (simp_all add: buf_ok_def BUF_SIZE_def)
  then have w: "c_text (gbuf ?s2) = ?w" by (simp add: c_text_update written_def)
  have l: "length ?w \<le> 1393" using length_c_text [of "written s1"] s1(3) by simp
  have "gen_round rnd gcc run s = Inr (if gcc (code_format ?w)
        then Some (dec_nat (unat (run (code_format ?w))) @ '' '' @ ?w @ [CHR 0x0A]) else None, ?s2)"
    using s1(1) b w l by (simp add: gen_round_def thenM_def bindM_def modifyM_def buf_set_def Let_def length_code_format CODE_SIZE_def)
  moreover have "no_zeros rnd \<Longrightarrow> \<exists>e. denotes e ?w v" using s1(4) c_text_all [of "written s1"] by (auto simp: denotes_def)
  ultimately show ?thesis using s1(1) l b(2) by fastforce
qed

lemma gen_main_run:
  "length (gbuf s) = BUF_SIZE \<Longrightarrow> \<exists>ls s'. gen_main rnd gcc run n s = Inr (ls, s') \<and> length ls \<le> n"
proof (induction n arbitrary: s)
  case (Suc n)
  obtain l s1 where s1: "gen_round rnd gcc run s = Inr (l, s1)" "length (gbuf s1) = BUF_SIZE"
    using gen_round_run [OF Suc.prems, of rnd gcc run] by blast
  with Suc.IH [OF s1(2)] show ?case by (auto simp: bindM_def retM_def split: option.splits)
qed (simp add: retM_def)

text \<open>A literal zero has no digits: its text is the suffix alone, which the debugger does not read.\<close>

lemma zero_literal: "expr c (dec_text 0 @ ''u'') ok t = Inr ((0, False), t)"
proof -
  have "first_rule rules ''u'' = None" by code_simp
  then show ?thesis by (simp add: expr_def make_token_def dec_text_0 retM_def)
qed

end
