(* ===== verification/Difftest.thy ===== *)
theory Difftest
  imports Riscv_Spec Text_Format
begin

text \<open>
  Differential testing on the side of the emulator, \<open>src/cpu/difftest/dut.c\<close>. The reference design
  is a shared object; its entry points are the record \<open>ref_ops\<close> over its own state \<open>'r\<close>. The locale
  \<open>reference\<close> states what the comparison needs of them.
\<close>

section \<open>The reference design\<close>

text \<open>
  \<open>ref_regcpy_dut\<close> copies the registers into the caller's structure, whose old content is the first
  argument; a design that stops the process returns an error.
\<close>

record 'r ref_ops =
  ref_difftest_memcpy :: "u32 \<Rightarrow> u8 list \<Rightarrow> 'r \<Rightarrow> 'r result"
  ref_regcpy_ref :: "CPU_state \<Rightarrow> 'r \<Rightarrow> 'r result"
  ref_regcpy_dut :: "CPU_state \<Rightarrow> 'r \<Rightarrow> CPU_state result"
  ref_difftest_exec :: "u64 \<Rightarrow> 'r \<Rightarrow> 'r result"
  ref_difftest_init :: "int \<Rightarrow> 'r \<Rightarrow> 'r result"

definition set_ref :: "'r \<Rightarrow> ('r, unit) M" where
  "set_ref r = modifyM (\<lambda>s. s\<lparr>dt := (dt s)\<lparr>ref_st := r\<rparr>\<rparr>)"

definition on_ref :: "('r \<Rightarrow> 'r result) \<Rightarrow> ('r, unit) M" where
  "on_ref f = bindM (getsM (\<lambda>s. ref_st (dt s))) (\<lambda>r. bindM (liftM (f r)) set_ref)"

section \<open>Register display\<close>

definition isa_reg_display :: "CPU_state \<Rightarrow> string result" where
  "isa_reg_display cp =
     (if 32 \<le> length (gpr cp)
      then Inr (concat (map (\<lambda>i. pad_right 3 (regs ! i) @ '':  '' @ fmt_02x (unat (gpr cp ! i))
             @ (if i mod 4 = 3 then [CHR 0x0A] else [CHR 0x09])) [0..<32]))
      else Inl Out_of_bounds)"

section \<open>The comparison\<close>

definition difftest_skip_dut :: "'r ref_ops \<Rightarrow> nat \<Rightarrow> int \<Rightarrow> ('r, unit) M" where
  "difftest_skip_dut ro nr_ref nr_dut =
     thenM (modifyM (\<lambda>s. s\<lparr>dt := (dt s)\<lparr>skip_dut_nr_inst := skip_dut_nr_inst (dt s) + nr_dut\<rparr>\<rparr>))
       (((\<lambda>m. thenM (on_ref (ref_difftest_exec ro 1)) m) ^^ nr_ref) (retM ()))"

definition checkregs :: "CPU_state \<Rightarrow> u32 \<Rightarrow> ('r, unit) M" where
  "checkregs ref_r pc0 = bindM (getsM cpu) (\<lambda>cp.
     bindM (liftM (isa_difftest_checkregs cp ref_r pc0)) (\<lambda>ok.
       whenM (\<not> ok)
         (thenM (modifyM (\<lambda>s. s\<lparr>nemu_state := (nemu_state s)\<lparr>state := NEMU_ABORT, halt_pc := pc0\<rparr>\<rparr>))
           (bindM (liftM (isa_reg_display cp)) (\<lambda>_. retM ())))))"

definition set_skip_dut :: "int \<Rightarrow> ('r, unit) M" where
  "set_skip_dut n = modifyM (\<lambda>s. s\<lparr>dt := (dt s)\<lparr>skip_dut_nr_inst := n\<rparr>\<rparr>)"

text \<open>\<open>junk\<close> is the content of the uninitialised local \<open>ref_r\<close>.\<close>

definition difftest_step :: "'r ref_ops \<Rightarrow> CPU_state \<Rightarrow> u32 \<Rightarrow> u32 \<Rightarrow> ('r, unit) M" where
  "difftest_step ro junk pc0 npc = bindM (getsM dt) (\<lambda>d.
     if skip_dut_nr_inst d > 0 then
       bindM (liftM (ref_regcpy_dut ro junk (ref_st d))) (\<lambda>ref_r.
         if pc ref_r = npc then thenM (set_skip_dut 0) (checkregs ref_r npc)
         else thenM (set_skip_dut (skip_dut_nr_inst d - 1))
           (if skip_dut_nr_inst d - 1 = 0 then failM (Panic ''can not catch up with ref.pc'')
            else retM ()))
     else if is_skip_ref d then
       thenM (bindM (getsM cpu) (\<lambda>cp. on_ref (ref_regcpy_ref ro cp)))
         (modifyM (\<lambda>s. s\<lparr>dt := (dt s)\<lparr>is_skip_ref := False\<rparr>\<rparr>))
     else
       thenM (on_ref (ref_difftest_exec ro 1))
         (bindM (getsM (\<lambda>s. ref_st (dt s))) (\<lambda>r.
          bindM (liftM (ref_regcpy_dut ro junk r)) (\<lambda>ref_r. checkregs ref_r pc0))))"

text \<open>
  \<open>init_difftest\<close>: \<open>so\<close> is what \<open>dlopen\<close> and the \<open>dlsym\<close> calls found, \<open>None\<close> when a file name is
  missing or a symbol is not there. The image is copied from the host array of guest memory.
\<close>

definition init_difftest :: "config \<Rightarrow> 'r ref_ops option \<Rightarrow> int \<Rightarrow> int \<Rightarrow> ('r, unit) M" where
  "init_difftest c so img_size port =
     (if CONFIG_DIFFTEST c then
        (case so of None \<Rightarrow> failM Assert_fail
         | Some ro \<Rightarrow>
             thenM (on_ref (ref_difftest_init ro port))
             (bindM (liftM (guest_to_host c 0x80000000)) (\<lambda>p.
               if ptr_ok c p img_size \<and> 0 \<le> img_size then
                 thenM (bindM (getsM mem) (\<lambda>m.
                          on_ref (ref_difftest_memcpy ro 0x80000000 (load m p (nat img_size)))))
                   (bindM (getsM cpu) (\<lambda>cp. on_ref (ref_regcpy_ref ro cp)))
               else failM Out_of_bounds)))
      else retM ())"

section \<open>What the comparison decides\<close>

lemma check_gprs_iff:
  "n \<le> 32 \<Longrightarrow> length g = 32 \<Longrightarrow> length h = 32 \<Longrightarrow>
   check_gprs n g h = Inr (\<forall>i. 32 - n \<le> i \<and> i < 32 \<longrightarrow> g ! i = h ! i)"
proof (induction n)
  case (Suc n)
  have split: "31 - n \<le> i \<longleftrightarrow> i = 31 - n \<or> 32 - n \<le> i" for i
    using Suc.prems(1) by arith
  from Suc show ?case by (auto simp: Let_def split)
qed auto

lemma checkregs_decides:
  assumes "length (gpr cp) = 32" and "length (gpr r) = 32"
  shows "isa_difftest_checkregs cp r p = Inr (gpr cp = gpr r \<and> pc cp = pc r)"
  using assms by (simp add: isa_difftest_checkregs_def check_gprs_iff list_eq_iff_nth_eq)

text \<open>
  A reference design the comparison can use: \<open>view\<close> is its processor state, of which the program counter and the first
  \<open>regs_n\<close> registers are copied in and out, each into a structure that keeps the rest of its content.
\<close>

definition overwrite_regs :: "nat \<Rightarrow> CPU_state \<Rightarrow> CPU_state \<Rightarrow> CPU_state" where
  "overwrite_regs n from to = to\<lparr>gpr := take n (gpr from) @ drop n (gpr to), pc := pc from\<rparr>"

locale reference =
  fixes ro :: "'r ref_ops" and regs_n :: nat and view :: "'r \<Rightarrow> CPU_state"
  assumes copy_in: "regs_n \<le> length (gpr (view r)) \<Longrightarrow> regs_n \<le> length (gpr cp) \<Longrightarrow>
      \<exists>r'. ref_regcpy_ref ro cp r = Inr r' \<and> view r' = overwrite_regs regs_n cp (view r)"
    and copy_out: "regs_n \<le> length (gpr (view r)) \<Longrightarrow> regs_n \<le> length (gpr junk) \<Longrightarrow>
      ref_regcpy_dut ro junk r = Inr (overwrite_regs regs_n (view r) junk)"
begin

text \<open>An instruction marked to be skipped is not compared; the reference takes over what is copied.\<close>

lemma skip_copies:
  assumes "regs_n \<le> length (gpr (view (ref_st (dt s))))" and "regs_n \<le> length (gpr (cpu s))"
    and "skip_dut_nr_inst (dt s) \<le> 0" and "is_skip_ref (dt s)"
  shows "\<exists>s'. difftest_step ro junk p n s = Inr ((), s') \<and> nemu_state s' = nemu_state s \<and> cpu s' = cpu s
    \<and> \<not> is_skip_ref (dt s') \<and> view (ref_st (dt s')) = overwrite_regs regs_n (cpu s) (view (ref_st (dt s)))"
proof -
  from copy_in [OF assms(1,2)] obtain r' where
    "ref_regcpy_ref ro (cpu s) (ref_st (dt s)) = Inr r'" "view r' = overwrite_regs regs_n (cpu s) (view (ref_st (dt s)))" by blast
  with assms show ?thesis by (auto simp: difftest_step_def on_ref_def set_ref_def)
qed

text \<open>The next comparison, against a reference that did nothing in between, sees the emulator's own lower registers.\<close>

lemma skip_then_read:
  assumes "regs_n \<le> length (gpr r)" "regs_n \<le> length (gpr cp)" "regs_n \<le> length (gpr junk)" "view r' = overwrite_regs regs_n cp r"
  shows "ref_regcpy_dut ro junk r' = Inr (overwrite_regs regs_n cp junk)"
  using copy_out [of r' junk] assms by (simp add: overwrite_regs_def)

end

text \<open>Without pending skips a step runs the reference once and stops the run exactly when they differ.\<close>

lemma difftest_step_compare:
  assumes "skip_dut_nr_inst (dt s) \<le> 0" and "\<not> is_skip_ref (dt s)"
    and "ref_difftest_exec ro 1 (ref_st (dt s)) = Inr r" and "ref_regcpy_dut ro junk r = Inr x"
    and "length (gpr (cpu s)) = 32" and "length (gpr x) = 32"
  shows "\<exists>s'. difftest_step ro junk p n s = Inr ((), s') \<and> cpu s' = cpu s \<and> mem s' = mem s \<and> ref_st (dt s') = r
    \<and> nemu_state s' = (if gpr (cpu s) = gpr x \<and> pc (cpu s) = pc x then nemu_state s
        else (nemu_state s)\<lparr>state := NEMU_ABORT, halt_pc := p\<rparr>)"
  using assms
  by (auto simp: difftest_step_def on_ref_def set_ref_def checkregs_def checkregs_decides isa_reg_display_def)

lemma difftest_skip_keeps:
  "keeps (\<lambda>s. cpu s = k) (difftest_step ro junk p n)"
  unfolding difftest_step_def on_ref_def set_ref_def checkregs_def set_skip_dut_def
  by (intro keeps_intros) simp_all

lemma keeps_difftest_length [keeps_intros]:
  "keeps (\<lambda>s. length (gpr (cpu s)) = k) (difftest_step ro junk p n)"
  unfolding difftest_step_def on_ref_def set_ref_def checkregs_def set_skip_dut_def
  by (intro keeps_intros) simp_all

end
