(* ===== verification/Cpu_Exec.thy ===== *)
theory Cpu_Exec
  imports Difftest Sdb_Expr
begin

text \<open>
  The execution loop, \<open>src/cpu/cpu-exec.c\<close>: one instruction with its trace line, the differential
  test and the watchpoints after it, the loop over \<open>n\<close> instructions, and \<open>cpu_exec\<close> with its run
  states. What the sources only link against is the record \<open>external\<close>: the reference design, the
  uninitialised local of \<open>difftest_step\<close>, and the disassembler.
\<close>

record 'r external =
  ref :: "'r ref_ops"
  uninit_ref_r :: CPU_state
  disassemble :: "u32 \<Rightarrow> u32 \<Rightarrow> nat \<Rightarrow> string"

section \<open>One instruction\<close>

text \<open>The text built in \<open>logbuf\<close>: address, bytes from the most significant one, disassembly.\<close>

definition inst_byte :: "u32 \<Rightarrow> nat \<Rightarrow> nat" where
  "inst_byte w i = unat (take_bit 8 (drop_bit (8 * i) w))"

definition itrace_line :: "'r external \<Rightarrow> Decode \<Rightarrow> string" where
  "itrace_line ex s =
     (let ilen = unat (snpc s - d_pc s);
          head = fmt_word (d_pc s) @ '':'' @ [CHR 0x09]
            @ concat (map (\<lambda>i. '' '' @ fmt_02x (inst_byte (isa_inst s) i)) (rev [0..<ilen]))
            @ [CHR 0x09] @ replicate ((4 - ilen) * 3 + 1) (CHR '' '')
      in head @ disassemble ex (d_pc s) (isa_inst s) (128 - length head))"

definition push_itrace :: "string \<Rightarrow> ('r, unit) M" where
  "push_itrace str1 = bindM (getsM itr) (\<lambda>t. bindM (liftM (itrace_push str1 t)) (\<lambda>t'.
     modifyM (\<lambda>s. s\<lparr>itr := t'\<rparr>)))"

definition set_pc :: "u32 \<Rightarrow> ('r, unit) M" where
  "set_pc v = modifyM (\<lambda>s. s\<lparr>cpu := (cpu s)\<lparr>pc := v\<rparr>\<rparr>)"

definition exec_once :: "config \<Rightarrow> 'r external \<Rightarrow> u32 \<Rightarrow> ('r, Decode) M" where
  "exec_once c ex pc0 =
     bindM (isa_exec_once c \<lparr>d_pc = pc0, snpc = pc0, dnpc = pc0, isa_inst = 0\<rparr>) (\<lambda>s.
       thenM (set_pc (dnpc s))
       (thenM (whenM (CONFIG_ITRACE c) (push_itrace (itrace_line ex s)))
       (thenM (whenM (CONFIG_PC_TRACE c)
                 (modifyM (\<lambda>t. t\<lparr>pc_trace_file := pc_trace_push (d_pc s) (pc_trace_file t)\<rparr>)))
       (retM s))))"

section \<open>Watchpoints\<close>

definition set_last_val :: "nat \<Rightarrow> u32 \<Rightarrow> 'r nemu \<Rightarrow> 'r nemu" where
  "set_last_val i v s = s\<lparr>wps := (wps s)\<lparr>wp_pool := (wp_pool (wps s))[i := (wp_pool (wps s) ! i)\<lparr>last_val := v\<rparr>]\<rparr>\<rparr>"

definition check_wp :: "config \<Rightarrow> nat \<Rightarrow> ('r, unit) M" where
  "check_wp c i = bindM (getsM (\<lambda>s. wp_pool (wps s) ! i)) (\<lambda>w.
     bindM (expr c (addr_expr w) False) (\<lambda>(current_val, _).
       whenM (current_val \<noteq> last_val w)
         (modifyM (\<lambda>s. (set_last_val i current_val s)\<lparr>nemu_state := (nemu_state s)\<lparr>state := NEMU_STOP\<rparr>\<rparr>))))"

text \<open>
  The \<open>while\<close> loop over the list of watchpoints. The list has at most 32 nodes, so a run that uses
  up the bound below goes round in a cycle.
\<close>

fun wp_loop :: "config \<Rightarrow> nat \<Rightarrow> nat option \<Rightarrow> ('r, unit) M" where
  "wp_loop c fuel None = retM ()"
| "wp_loop c 0 (Some i) = failM Diverges"
| "wp_loop c (Suc fuel) (Some i) = bindM (getsM (\<lambda>s. length (wp_pool (wps s)))) (\<lambda>n.
     if i < n then thenM (check_wp c i)
       (bindM (getsM (\<lambda>s. wp_next (wp_pool (wps s) ! i))) (\<lambda>nx. wp_loop c fuel nx))
     else failM Out_of_bounds)"

definition trace_and_difftest :: "config \<Rightarrow> 'r external \<Rightarrow> Decode \<Rightarrow> u32 \<Rightarrow> ('r, unit) M" where
  "trace_and_difftest c ex this npc =
     thenM (whenM (CONFIG_DIFFTEST c) (difftest_step (ref ex) (uninit_ref_r ex) (d_pc this) npc))
       (whenM (CONFIG_WATCHPOINT c) (bindM (getsM (\<lambda>s. find_head_wp (wps s))) (wp_loop c NR_WP)))"

section \<open>The loop\<close>

definition count_inst :: "('r, unit) M" where
  "count_inst = modifyM (\<lambda>s. s\<lparr>g_nr_guest_inst := g_nr_guest_inst s + 1\<rparr>)"

text \<open>The body of the loop; it returns whether the loop goes on.\<close>

definition execute_body :: "config \<Rightarrow> 'r external \<Rightarrow> ('r, bool) M" where
  "execute_body c ex =
     bindM (getsM (\<lambda>s. pc (cpu s))) (\<lambda>pc0.
     bindM (exec_once c ex pc0) (\<lambda>d.
       thenM count_inst
       (bindM (getsM (\<lambda>s. pc (cpu s))) (\<lambda>npc.
        thenM (trace_and_difftest c ex d npc)
        (bindM (getsM (\<lambda>s. state (nemu_state s))) (\<lambda>st.
           if st \<noteq> NEMU_RUNNING then retM False
           else thenM (whenM (CONFIG_DEVICE c) (device_update c)) (retM True)))))))"

fun execute :: "config \<Rightarrow> 'r external \<Rightarrow> nat \<Rightarrow> ('r, unit) M" where
  "execute c ex 0 = retM ()"
| "execute c ex (Suc n) = bindM (execute_body c ex) (\<lambda>go. if go then execute c ex n else retM ())"

definition MAX_INST_TO_PRINT :: u64 where "MAX_INST_TO_PRINT = 10"

definition set_state :: "nemu_st \<Rightarrow> ('r, unit) M" where
  "set_state st = modifyM (\<lambda>s. s\<lparr>nemu_state := (nemu_state s)\<lparr>state := st\<rparr>\<rparr>)"

definition ended :: "nemu_st \<Rightarrow> bool" where
  "ended st \<longleftrightarrow> st = NEMU_END \<or> st = NEMU_ABORT \<or> st = NEMU_QUIT"

text \<open>
  The frequency that \<open>statistic\<close> logs: \<open>None\<close> when no time was measured. The product wraps at 64 bits.
\<close>

definition statistic :: "u64 \<Rightarrow> u64 \<Rightarrow> u64 option" where
  "statistic nr timer = (if timer > 0 then Some (nr * 1000000 div timer) else None)"

definition cpu_exec :: "config \<Rightarrow> 'r external \<Rightarrow> u64 \<Rightarrow> ('r, unit) M" where
  "cpu_exec c ex n =
     thenM (modifyM (\<lambda>s. s\<lparr>g_print_step := (n < MAX_INST_TO_PRINT)\<rparr>))
     (bindM (getsM (\<lambda>s. state (nemu_state s))) (\<lambda>st.
       if ended st then retM ()
       else
         thenM (set_state NEMU_RUNNING)
         (bindM get_time (\<lambda>timer_start.
          thenM (execute c ex (unat n))
          (bindM get_time (\<lambda>timer_end.
           thenM (modifyM (\<lambda>s. s\<lparr>g_timer := g_timer s + (timer_end - timer_start)\<rparr>))
           (bindM (getsM (\<lambda>s. state (nemu_state s))) (\<lambda>st'.
             if st' = NEMU_RUNNING then set_state NEMU_STOP else retM ()))))))))"

section \<open>Who may change the registers\<close>

lemma keeps_cpu_imp: "(\<And>k. keeps (\<lambda>s. cpu s = k) m) \<Longrightarrow> keeps (\<lambda>s. Q (cpu s)) m"
  unfolding keeps_def by metis

lemma keeps_cpu_access [keeps_intros]:
  "keeps (\<lambda>s. cpu s = k) (vaddr_read c a n)" "keeps (\<lambda>s. cpu s = k) (vaddr_write c a n v)"
  unfolding vaddr_read_def vaddr_write_def
  by (rule keeps_core_imp [where Q = "\<lambda>x. x = k"], rule keeps_core_paddr_read)
    (rule keeps_core_imp [where Q = "\<lambda>x. x = k"], rule keeps_core_paddr_write)

lemma keeps_reg_operand [keeps_intros]: "keeps P (reg_operand n)"
  unfolding reg_operand_def by (intro keeps_intros keeps_option)

lemma keeps_single_token [keeps_intros]: "keeps P (single_token t)"
  unfolding single_token_def by (intro keeps_intros)

lemma keeps_binary [keeps_intros]: "keeps (\<lambda>s. cpu s = k) (binary c t x y)"
  unfolding binary_def by (intro keeps_intros)

lemma keeps_sum:
  "(\<And>e. x = Inl e \<Longrightarrow> keeps P (f e)) \<Longrightarrow> (\<And>y. x = Inr y \<Longrightarrow> keeps P (g y)) \<Longrightarrow>
   keeps P (case x of Inl e \<Rightarrow> f e | Inr y \<Rightarrow> g y)"
  by (cases x) auto

lemma keeps_eval [keeps_intros]: "keeps (\<lambda>s. cpu s = k) (eval c ts p q)"
proof (induction c ts p q rule: eval.induct)
  case (1 c ts p q)
  show ?case
    by (subst eval.simps, unfold Let_def) (intro keeps_intros keeps_sum; (rule 1)?; simp)
qed

lemma keeps_expr [keeps_intros]: "keeps (\<lambda>s. cpu s = k) (expr c e b)"
  unfolding expr_def by (intro keeps_intros keeps_prod)

lemma keeps_check_wp [keeps_intros]: "keeps (\<lambda>s. cpu s = k) (check_wp c i)"
  unfolding check_wp_def set_last_val_def by (intro keeps_intros keeps_prod) simp

lemma keeps_wp_loop [keeps_intros]: "keeps (\<lambda>s. cpu s = k) (wp_loop c fuel i)"
proof (induction c fuel i rule: wp_loop.induct)
  case (3 c fuel i)
  then show ?case by (simp only: wp_loop.simps) (intro keeps_intros, simp)
qed (simp_all only: wp_loop.simps keeps_retM keeps_failM)

lemma keeps_trace_and_difftest [keeps_intros]: "keeps (\<lambda>s. cpu s = k) (trace_and_difftest c ex d n)"
  unfolding trace_and_difftest_def by (intro keeps_intros difftest_skip_keeps)

lemma keeps_cpu_get_time [keeps_intros]: "keeps (\<lambda>s. cpu s = k) get_time"
  by (rule keepsI) (auto simp: get_time_def Let_def split: prod.splits)

lemma keeps_cpu_modify_dev [keeps_intros]: "keeps (\<lambda>s. cpu s = k) (modify_dev f)"
  unfolding modify_dev_def by (intro keeps_intros) simp

lemma keeps_cpu_vga [keeps_intros]: "keeps (\<lambda>s. cpu s = k) (vga_update_screen c)"
proof -
  have "keeps (same_core s0) (vga_update_screen c)" for s0 :: "'a nemu"
    unfolding vga_update_screen_def update_screen_def reg32_def set_reg32_def
    by (intro keeps_intros keeps_core_modify) (simp add: same_core_def)
  then show ?thesis by (rule keeps_core_imp [where Q = "\<lambda>x. x = k"])
qed

lemma keeps_cpu_send_key [keeps_intros]: "keeps (\<lambda>s. cpu s = k) (send_keyM b d)"
  by (rule keepsI) (auto simp: send_keyM_def split: sum.splits)

lemma keeps_cpu_event [keeps_intros]: "keeps (\<lambda>s. cpu s = k) (handle_event c e)"
proof (cases e)
  case SDL_QUIT
  show ?thesis unfolding SDL_QUIT handle_event.simps by (intro keeps_intros) simp
qed (simp_all only: handle_event.simps keeps_whenM keeps_retM keeps_cpu_send_key)

lemma keeps_cpu_events [keeps_intros]: "keeps (\<lambda>s. cpu s = k) (handle_events c es)"
proof (induction es)
  case (Cons e es)
  then show ?case by (simp only: handle_events.simps) (intro keeps_intros)
qed (simp only: handle_events.simps keeps_retM)

lemma keeps_cpu_device_update [keeps_intros]: "keeps (\<lambda>s. cpu s = k) (device_update c)"
  unfolding device_update_def by (intro keeps_intros)

lemma keeps_regs_ok_cpu: "(\<And>k. keeps (\<lambda>s. cpu s = k) m) \<Longrightarrow> keeps (regs_ok c) m"
  using keeps_cpu_imp [of m "\<lambda>x. length (gpr x) = RISCV_GPR_NUM c \<and> gpr x ! 0 = 0"]
  by (simp add: regs_ok_def [abs_def])

lemma isa_exec_once_regs:
  "regs_ok c s \<Longrightarrow> isa_exec_once c d s = Inr (d', s') \<Longrightarrow> regs_ok c s'"
proof -
  assume ok: "regs_ok c s" and run: "isa_exec_once c d s = Inr (d', s')"
  from run obtain i p s1 where "inst_fetch c (snpc d) 4 s = Inr ((i, p), s1)"
    and x: "decode_exec c (d\<lparr>isa_inst := i, snpc := p\<rparr>) s1 = Inr (d', s')"
    by (auto simp: isa_exec_once_def comp_elims)
  then have "same_core s s1"
    by (auto simp: inst_fetch_def vaddr_ifetch_def comp_elims dest: paddr_read_core)
  with ok have "regs_ok c s1" by (rule regs_ok_core [rotated])
  then have "length (gpr (cpu s1)) = RISCV_GPR_NUM c" by (simp add: regs_ok_def)
  then show "regs_ok c s'" using x by (rule decode_exec_regs)
qed

lemma keeps_exec_once: "keeps (regs_ok c) (exec_once c ex p)"
  unfolding exec_once_def push_itrace_def set_pc_def
  by (intro keeps_intros keepsI [of "regs_ok c" "isa_exec_once _ _"])
    (auto simp: regs_ok_def dest: isa_exec_once_regs [unfolded regs_ok_def, OF conjI])

lemma keeps_execute_body [keeps_intros]: "keeps (regs_ok c) (execute_body c ex)"
  unfolding execute_body_def count_inst_def
  by (intro keeps_bindM keeps_thenM keeps_getsM keeps_exec_once keeps_if keeps_retM keeps_whenM
      keeps_regs_ok_cpu keeps_trace_and_difftest keeps_cpu_device_update keeps_modifyM)
    (simp add: regs_ok_def)

lemma keeps_execute [keeps_intros]: "keeps (regs_ok c) (execute c ex n)"
proof (induction n)
  case (Suc n)
  then show ?case by (simp only: execute.simps) (intro keeps_intros)
qed (simp only: execute.simps keeps_retM)

lemma keeps_cpu_exec: "keeps (regs_ok c) (cpu_exec c ex n)"
  unfolding cpu_exec_def set_state_def
  by (intro keeps_intros keeps_regs_ok_cpu [of get_time]) (simp_all add: regs_ok_def)

section \<open>The run states\<close>

lemma cpu_exec_ended_state:
  "ended (state (nemu_state s)) \<Longrightarrow>
   cpu_exec c ex n s = Inr ((), s\<lparr>g_print_step := (n < MAX_INST_TO_PRINT)\<rparr>)"
  by (simp add: cpu_exec_def)

lemma cpu_exec_stops:
  assumes "cpu_exec c ex n s = Inr (x, s')"
  shows "state (nemu_state s') \<noteq> NEMU_RUNNING"
proof (cases "ended (state (nemu_state s))")
  case True
  with assms show ?thesis by (auto simp: cpu_exec_ended_state ended_def)
next
  case False
  with assms obtain t d where
    "(if state (nemu_state t) = NEMU_RUNNING then set_state NEMU_STOP else retM ()) (t\<lparr>g_timer := d\<rparr>) = Inr (x, s')"
    by (auto simp: cpu_exec_def comp_elims)
  then show ?thesis
    by (cases "state (nemu_state t) = NEMU_RUNNING") (auto simp: set_state_def)
qed

section \<open>Composition of runs\<close>

lemma execute_body_goes_on:
  "\<not> CONFIG_DEVICE c \<Longrightarrow> execute_body c ex s = Inr (go, s') \<Longrightarrow> go \<longleftrightarrow> state (nemu_state s') = NEMU_RUNNING"
  by (auto simp: execute_body_def comp_elims split: if_splits)

text \<open>Without devices, running \<open>m + n\<close> instructions is running \<open>m\<close> and, if still running, \<open>n\<close> more.\<close>

lemma execute_split:
  assumes "\<not> CONFIG_DEVICE c" and "state (nemu_state s) = NEMU_RUNNING"
  shows "execute c ex (m + n) s = bindM (execute c ex m) (\<lambda>_.
    bindM (getsM (\<lambda>t. state (nemu_state t))) (\<lambda>st. if st = NEMU_RUNNING then execute c ex n else retM ())) s"
  using assms(2)
proof (induction m arbitrary: s)
  case 0
  then show ?case by simp
next
  case (Suc m)
  show ?case
  proof (cases "execute_body c ex s")
    case (Inr y)
    then obtain go s' where y: "execute_body c ex s = Inr (go, s')" by (cases y) auto
    with execute_body_goes_on [OF assms(1) y] Suc.IH [of s'] show ?thesis
      by (cases go) (simp_all add: bindM_assoc)
  qed (simp add: bindM_assoc)
qed

section \<open>Counting instructions\<close>

text \<open>An instruction changes neither the instruction counter nor the watchpoints.\<close>

definition book :: "'r nemu \<Rightarrow> u64 \<times> wp_state" where
  "book s = (g_nr_guest_inst s, wps s)"

lemma keeps_book_core: "(\<And>s0. keeps (same_core s0) m) \<Longrightarrow> keeps (\<lambda>s. book s = k) m"
  unfolding keeps_def same_core_def book_def by (metis (no_types, lifting))

lemma keeps_book_paddr [keeps_intros]:
  "keeps (\<lambda>s. book s = k) (paddr_read c a n)" "keeps (\<lambda>s. book s = k) (paddr_write c a n v)"
  by (rule keeps_book_core, rule keeps_core_paddr_read) (rule keeps_book_core, rule keeps_core_paddr_write)

lemma keeps_book_prims [keeps_intros]:
  "keeps (\<lambda>s. book s = k) (set_R c i v)" "keeps (\<lambda>s. book s = k) (set_csr j v)"
  "keeps (\<lambda>s. book s = k) (set_nemu_state c st p r)" "keeps (\<lambda>s. book s = k) (set_pc p)"
  unfolding set_R_def set_csr_def set_nemu_state_def set_pc_def difftest_skip_ref_def
  by (intro keeps_intros; simp add: book_def)+

lemma keeps_book_exec_body [keeps_intros]: "keeps (\<lambda>s. book s = k) (exec_body c n p d)"
  by (cases n; simp only: exec_body.simps set_rd_def load_rd_def store_src2_def branch_if_def vaddr_read_def
      vaddr_write_def NEMUTRAP_def INV_def invalid_inst_def inst_fetch_def vaddr_ifetch_def isa_raise_intr_def;
      intro keeps_intros keeps_prod)

lemma keeps_book_run_instpats [keeps_intros]: "keeps (\<lambda>s. book s = k) (run_instpats c ps d)"
proof (induction c ps d rule: run_instpats.induct)
  case (2 c pat name type ps s)
  then show ?case by (simp only: run_instpats.simps) (intro keeps_intros, simp)
qed (simp only: run_instpats.simps keeps_retM)

lemma keeps_book_isa_exec_once [keeps_intros]: "keeps (\<lambda>s. book s = k) (isa_exec_once c d)"
  unfolding isa_exec_once_def decode_exec_def inst_fetch_def vaddr_ifetch_def
  by (intro keeps_intros keeps_prod)

lemma keeps_book_exec_once [keeps_intros]: "keeps (\<lambda>s. book s = k) (exec_once c ex p)"
  unfolding exec_once_def push_itrace_def
  by (intro keeps_intros; simp add: book_def)

section \<open>The loop implements the architecture\<close>

text \<open>
  The architecture's machine: fetch the word at the program counter, execute it as specified, go to
  the next address; stop after \<open>n\<close> instructions or when the run state says so.
\<close>

definition arch_step :: "config \<Rightarrow> ('r, unit) M" where
  "arch_step c = (\<lambda>s. bindM (paddr_read c (pc (cpu s)) 4) (\<lambda>w.
     bindM (spec_exec c \<lparr>d_pc = pc (cpu s), snpc = pc (cpu s) + 4, dnpc = pc (cpu s), isa_inst = w\<rparr>) set_pc) s)"

fun arch_run :: "config \<Rightarrow> nat \<Rightarrow> ('r, unit) M" where
  "arch_run c 0 = retM ()"
| "arch_run c (Suc n) = thenM (arch_step c) (thenM count_inst
     (bindM (getsM (\<lambda>s. state (nemu_state s))) (\<lambda>st. if st = NEMU_RUNNING then arch_run c n else retM ())))"

text \<open>The configuration and state in which the loop does nothing besides executing instructions.\<close>

definition plain_run :: "config \<Rightarrow> 'r nemu \<Rightarrow> bool" where
  "plain_run c s \<longleftrightarrow> \<not> CONFIG_RVE c \<and> \<not> CONFIG_ITRACE c \<and> \<not> CONFIG_PC_TRACE c \<and> \<not> CONFIG_DIFFTEST c
     \<and> \<not> CONFIG_DEVICE c \<and> (CONFIG_WATCHPOINT c \<longrightarrow> wp_head (wps s) = None)"

lemma exec_once_arch:
  assumes "plain_run c s" and ok: "regs_ok c s"
  shows "bindM (exec_once c ex (pc (cpu s))) (\<lambda>d. f) s = thenM (arch_step c) f s"
proof (cases "paddr_read c (pc (cpu s)) 4 s")
  case (Inr y)
  then obtain w s1 where y: "paddr_read c (pc (cpu s)) 4 s = Inr (w, s1)" by (cases y) auto
  have core: "same_core s s1" using paddr_read_core [OF y] .
  with ok have ok1: "regs_ok c s1" by (rule regs_ok_core [rotated])
  have f: "fields_ok c w" using assms(1) by (simp add: plain_run_def fields_ok_full)
  let ?d = "\<lparr>d_pc = pc (cpu s), snpc = pc (cpu s) + 4, dnpc = pc (cpu s), isa_inst = w\<rparr>"
  have "isa_exec_once c \<lparr>d_pc = pc (cpu s), snpc = pc (cpu s), dnpc = pc (cpu s), isa_inst = 0\<rparr> s
      = decode_exec c ?d s1"
    using y by (simp add: isa_exec_once_def inst_fetch_def vaddr_ifetch_def)
  also have "\<dots> = bindM (spec_exec c ?d) (\<lambda>npc. retM (?d\<lparr>dnpc := npc\<rparr>)) s1"
    using decode_exec_spec [OF ok1, of ?d] f by simp
  finally have run: "isa_exec_once c \<lparr>d_pc = pc (cpu s), snpc = pc (cpu s), dnpc = pc (cpu s), isa_inst = 0\<rparr> s
      = \<dots>" .
  show ?thesis
  proof (cases "spec_exec c ?d s1")
    case (Inl e)
    with run y show ?thesis by (simp add: exec_once_def arch_step_def thenM_def)
  next
    case (Inr z)
    then obtain npc s2 where "spec_exec c ?d s1 = Inr (npc, s2)" by (cases z) auto
    with run y assms(1) show ?thesis
      by (simp add: exec_once_def arch_step_def thenM_def set_pc_def plain_run_def)
  qed
qed (simp add: exec_once_def isa_exec_once_def inst_fetch_def vaddr_ifetch_def arch_step_def thenM_def bindM_assoc)

lemma arch_step_plain:
  assumes "plain_run c s" and ok: "regs_ok c s" and run: "arch_step c s = Inr (u, s')"
  shows "regs_ok c s' \<and> book s' = book s"
proof -
  have "bindM (exec_once c undefined (pc (cpu s))) (\<lambda>d. retM ()) s = Inr ((), s')"
    using exec_once_arch [OF assms(1,2), of undefined "retM ()"] run by simp
  then obtain d where d: "exec_once c undefined (pc (cpu s)) s = Inr (d, s')"
    by (auto simp: comp_elims)
  show ?thesis
    using keepsD [OF keeps_exec_once ok d] keepsD [OF keeps_book_exec_once refl d] by simp
qed

lemma trace_plain: "plain_run c s \<Longrightarrow> trace_and_difftest c ex d n s = Inr ((), s)"
  by (simp add: trace_and_difftest_def plain_run_def find_head_wp_def)

lemma plain_run_book: "plain_run c s \<Longrightarrow> snd (book s') = snd (book s) \<Longrightarrow> plain_run c s'"
  by (simp add: plain_run_def book_def)

lemma execute_arch: "plain_run c s \<Longrightarrow> regs_ok c s \<Longrightarrow> execute c ex n s = arch_run c n s"
proof (induction n arbitrary: s)
  case (Suc n)
  let ?rest = "\<lambda>k. thenM count_inst (bindM (getsM (\<lambda>s. state (nemu_state s))) k)"
  show ?case
  proof (cases "arch_step c s")
    case (Inl e)
    then have "bindM (exec_once c ex (pc (cpu s))) (\<lambda>d. retM ()) s = Inl e"
      using exec_once_arch [OF Suc.prems, of ex "retM ()"] by simp
    then have "exec_once c ex (pc (cpu s)) s = Inl e"
      by (auto simp: bindM_def split: sum.splits)
    with Inl show ?thesis by (simp add: execute_body_def)
  next
    case (Inr y)
    then obtain s1 where y: "arch_step c s = Inr ((), s1)" by (cases y) auto
    then have "bindM (exec_once c ex (pc (cpu s))) (\<lambda>d. retM ()) s = Inr ((), s1)"
      using exec_once_arch [OF Suc.prems, of ex "retM ()"] by simp
    then obtain d where d: "exec_once c ex (pc (cpu s)) s = Inr (d, s1)"
      by (auto simp: comp_elims)
    let ?s2 = "s1\<lparr>g_nr_guest_inst := g_nr_guest_inst s1 + 1\<rparr>"
    have s1: "regs_ok c s1" "book s1 = book s" using arch_step_plain [OF Suc.prems y] by auto
    then have "plain_run c ?s2" "regs_ok c ?s2"
      using Suc.prems by (auto simp: plain_run_def book_def regs_ok_def)
    then show ?thesis
      using y d Suc.IH [of ?s2] trace_plain [of c ?s2 ex d] Suc.prems(1)
      by (simp add: execute_body_def count_inst_def plain_run_def)
  qed
qed simp

text \<open>The instruction counter tells how many instructions ran, at most \<open>n\<close>.\<close>

lemma execute_count:
  assumes "plain_run c s" and "regs_ok c s" and "execute c ex n s = Inr (u, s')"
  shows "\<exists>k \<le> n. g_nr_guest_inst s' = g_nr_guest_inst s + of_nat k
    \<and> (state (nemu_state s') = NEMU_RUNNING \<longrightarrow> k = n)"
proof -
  have "arch_run c n s = Inr (u, s')" using assms execute_arch by metis
  then show ?thesis using assms(1,2)
  proof (induction n arbitrary: s)
    case (Suc n)
    then obtain s1 where y: "arch_step c s = Inr ((), s1)"
      by (auto simp: comp_elims)
    let ?s2 = "s1\<lparr>g_nr_guest_inst := g_nr_guest_inst s1 + 1\<rparr>"
    have s1: "regs_ok c s1" "book s1 = book s" using arch_step_plain [OF Suc.prems(2,3) y] by auto
    then have p2: "plain_run c ?s2" "regs_ok c ?s2"
      using Suc.prems by (auto simp: plain_run_def book_def regs_ok_def)
    have g: "g_nr_guest_inst ?s2 = g_nr_guest_inst s + 1" using s1(2) by (simp add: book_def)
    show ?case
    proof (cases "state (nemu_state s1) = NEMU_RUNNING")
      case True
      with Suc.prems(1) y have "arch_run c n ?s2 = Inr (u, s')" by (simp add: count_inst_def)
      from Suc.IH [OF this p2] g obtain k where "k \<le> n" "g_nr_guest_inst s' = g_nr_guest_inst s + 1 + of_nat k"
        "state (nemu_state s') = NEMU_RUNNING \<longrightarrow> k = n" by auto
      then show ?thesis by (intro exI [of _ "Suc k"]) (simp add: add.assoc)
    next
      case False
      with Suc.prems(1) y have "s' = ?s2" by (simp add: count_inst_def)
      with False g show ?thesis by (intro exI [of _ 1]) simp
    qed
  qed auto
qed

section \<open>The watchpoint loop\<close>

text \<open>The links and the length of the pool, which evaluating expressions and noting values leave alone.\<close>

definition links :: "'r nemu \<Rightarrow> nat option list" where
  "links s = map wp_next (wp_pool (wps s))"

lemma keeps_links_core: "(\<And>s0. keeps (same_core s0) m) \<Longrightarrow> keeps (\<lambda>s. wps s = k) m"
  unfolding keeps_def same_core_def by (metis (no_types, lifting))

lemma keeps_wps_read [keeps_intros]: "keeps (\<lambda>s. wps s = k) (vaddr_read c a n)"
  unfolding vaddr_read_def by (rule keeps_links_core, rule keeps_core_paddr_read)

lemma keeps_wps_binary [keeps_intros]: "keeps (\<lambda>s. wps s = k) (binary c t x y)"
  unfolding binary_def by (intro keeps_intros)

lemma keeps_wps_eval [keeps_intros]: "keeps (\<lambda>s. wps s = k) (eval c ts p q)"
proof (induction c ts p q rule: eval.induct)
  case (1 c ts p q)
  show ?case
    by (subst eval.simps, unfold Let_def) (intro keeps_intros keeps_sum; (rule 1)?; simp)
qed

lemma keeps_wps_expr [keeps_intros]: "keeps (\<lambda>s. wps s = k) (expr c e b)"
  unfolding expr_def by (intro keeps_intros keeps_prod)

lemma links_set_last_val: "links (set_last_val i v s) = links s"
proof (rule nth_equalityI)
  fix j
  assume "j < length (links (set_last_val i v s))"
  then show "links (set_last_val i v s) ! j = links s ! j"
    by (cases "j = i") (auto simp: links_def set_last_val_def)
qed (simp add: links_def set_last_val_def)

lemma check_wp_links:
  assumes "check_wp c i s = Inr (u, s')"
  shows "links s' = links s"
proof -
  from assms obtain v b s1 where e: "expr c (addr_expr (wp_pool (wps s) ! i)) False s = Inr ((v, b), s1)"
    and "s' = s1 \<or> s' = (set_last_val i v s1)\<lparr>nemu_state := (nemu_state s1)\<lparr>state := NEMU_STOP\<rparr>\<rparr>"
    by (auto simp: check_wp_def comp_elims split: if_splits)
  moreover have "wps s1 = wps s" using keepsD [OF keeps_wps_expr refl e] .
  ultimately show ?thesis
    using links_set_last_val [of i v s1] by (auto simp: links_def)
qed

fun check_all :: "config \<Rightarrow> nat list \<Rightarrow> ('r, unit) M" where
  "check_all c [] = retM ()"
| "check_all c (i # is) = thenM (check_wp c i) (check_all c is)"

text \<open>On a proper list the loop checks each watchpoint once, in the order of the list, and ends.\<close>

lemma chain_links: "chain pool p xs \<Longrightarrow> map wp_next pool' = map wp_next pool \<Longrightarrow> chain pool' p xs"
proof (induction xs arbitrary: p)
  case (Cons x xs)
  then have len: "length pool' = length pool" by (metis length_map)
  with Cons.prems have "x < length pool" "x < length pool'" by auto
  then have "wp_next (pool' ! x) = wp_next (pool ! x)"
    using Cons.prems(2) by (metis nth_map)
  with Cons len show ?case by auto
qed simp

lemma wp_loop_chain:
  "chain (wp_pool (wps s)) p xs \<Longrightarrow> length xs \<le> fuel \<Longrightarrow> wp_loop c fuel p s = check_all c xs s"
proof (induction xs arbitrary: p fuel s)
  case (Cons x xs)
  from Cons.prems obtain f where f: "fuel = Suc f" by (cases fuel) auto
  from Cons.prems have p: "p = Some x" "x < length (wp_pool (wps s))" by auto
  show ?case
  proof (cases "check_wp c x s")
    case (Inr y)
    then obtain s1 where y: "check_wp c x s = Inr ((), s1)" by (cases y) auto
    from check_wp_links [OF y] have l: "map wp_next (wp_pool (wps s1)) = map wp_next (wp_pool (wps s))"
      by (simp add: links_def)
    from chain_links [OF Cons.prems(1) l] have "chain (wp_pool (wps s1)) (wp_next (wp_pool (wps s1) ! x)) xs"
      by simp
    with Cons y f p show ?thesis by simp
  qed (simp add: f p)
qed simp

lemma wp_loop_used:
  assumes "pool_view (wps s) used free"
  shows "wp_loop c NR_WP (find_head_wp (wps s)) s = check_all c used s"
proof (rule wp_loop_chain)
  have "distinct used" "set used \<subseteq> {..<NR_WP}" using assms by (auto simp: pool_view_def)
  then show "length used \<le> NR_WP" by (metis card_lessThan card_mono distinct_card finite_lessThan)
  show "chain (wp_pool (wps s)) (find_head_wp (wps s)) used"
    using assms by (simp add: pool_view_def find_head_wp_def)
qed

text \<open>A watchpoint whose value changed stops the run, whatever the run state was before.\<close>

lemma check_wp_changed:
  assumes "expr c (addr_expr (wp_pool (wps s) ! i)) False s = Inr ((v, b), s1)"
    and "v \<noteq> last_val (wp_pool (wps s) ! i)"
  shows "check_wp c i s =
    Inr ((), (set_last_val i v s1)\<lparr>nemu_state := (nemu_state s1)\<lparr>state := NEMU_STOP\<rparr>\<rparr>)"
  using assms by (simp add: check_wp_def)

text \<open>
  A hit stops the machine whatever its state was: an \<open>ABORT\<close> or \<open>END\<close> set by the instruction just executed,
  or by the comparison with the reference, is overwritten.
\<close>

lemma watchpoint_hit_overwrites_state:
  assumes "expr c (addr_expr (wp_pool (wps s) ! i)) False s = Inr ((v, b), s1)"
    and "v \<noteq> last_val (wp_pool (wps s) ! i)"
  shows "\<exists>s'. check_wp c i s = Inr ((), s') \<and> state (nemu_state s') = NEMU_STOP"
  using check_wp_changed [OF assms] by auto

end
