(* ===== verification/Sdb.thy ===== *)
theory Sdb
  imports Cpu_Exec
begin

text \<open>
  The simple debugger, \<open>src/monitor/sdb/sdb.c\<close>: its commands and the loop that reads command lines.
  A command returns its status and the text it prints. Lines come from \<open>readline\<close>; the loop takes
  them as a list that ends where \<open>readline\<close> returns \<open>NULL\<close>.
\<close>

section \<open>Strings\<close>

text \<open>
  \<open>strtok(s, " ")\<close>: the token, and the text behind the zero byte that ends it, \<open>None\<close> when the token
  reaches the end of the string.
\<close>

definition strtok :: "string \<Rightarrow> (string \<times> string option) option" where
  "strtok s = (let t = dropWhile (\<lambda>c. c = CHR '' '') s in
     if t = [] then None
     else let w = takeWhile (\<lambda>c. c \<noteq> CHR '' '') t; r = dropWhile (\<lambda>c. c \<noteq> CHR '' '') t
       in Some (w, if r = [] then None else Some (tl r)))"

abbreviation nl :: string where "nl \<equiv> [CHR 0x0A]"
abbreviation tab :: string where "tab \<equiv> [CHR 0x09]"

section \<open>Commands\<close>

definition cmd_c :: "config \<Rightarrow> 'r external \<Rightarrow> string option \<Rightarrow> ('r, int \<times> string) M" where
  "cmd_c c ex args = thenM (cpu_exec c ex (-1)) (retM (0, []))"

definition cmd_q :: "string option \<Rightarrow> ('r, int \<times> string) M" where
  "cmd_q args = thenM (set_state NEMU_QUIT) (retM (-1, []))"

definition cmd_si :: "config \<Rightarrow> 'r external \<Rightarrow> string option \<Rightarrow> ('r, int \<times> string) M" where
  "cmd_si c ex args =
     (let n = (case args of None \<Rightarrow> 1 | Some a \<Rightarrow> strtol a)
      in thenM (cpu_exec c ex (word_of_int n)) (retM (0, [])))"

fun wp_lines :: "wp_state \<Rightarrow> nat \<Rightarrow> nat option \<Rightarrow> string result" where
  "wp_lines w fuel None = Inr []"
| "wp_lines w 0 (Some i) = Inl Diverges"
| "wp_lines w (Suc fuel) (Some i) =
     (if i < length (wp_pool w) then
        let p = wp_pool w ! i in
        bindE (wp_lines w fuel (wp_next p)) (\<lambda>rest.
          Inr (pad_right 4 (fmt_d (cnt p)) @ '' '' @ pad_right 20 (addr_expr p) @ '' ''
               @ pad_right 10 (hex_nat (unat (last_val p))) @ nl @ rest))
      else Inl Out_of_bounds)"

text \<open>\<open>strcmp(args, ...)\<close> on the null pointer is invalid.\<close>

definition cmd_info :: "string option \<Rightarrow> ('r, int \<times> string) M" where
  "cmd_info args = (case args of None \<Rightarrow> failM Out_of_bounds
   | Some a \<Rightarrow>
       if a = ''r'' then bindM (getsM cpu) (\<lambda>cp. bindM (liftM (isa_reg_display cp)) (\<lambda>t. retM (0, t)))
       else if a = ''w'' then bindM (getsM wps) (\<lambda>w.
         bindM (liftM (wp_lines w NR_WP (find_head_wp w))) (\<lambda>t.
           retM (0, (if find_head_wp w \<noteq> None
             then pad_right 4 ''NO'' @ '' '' @ pad_right 20 ''Info'' @ '' '' @ pad_right 10 ''Val'' @ nl
             else ''No Watchpoint!'' @ nl) @ t)))
       else retM (0, []))"

definition byte_of :: "u32 \<Rightarrow> nat \<Rightarrow> nat" where
  "byte_of w sh = unat (drop_bit sh w AND 0xff)"

text \<open>The loop of \<open>cmd_x\<close>: four bytes per line, each read anew.\<close>

fun scan_mem :: "config \<Rightarrow> nat \<Rightarrow> u32 \<Rightarrow> ('r, string) M" where
  "scan_mem c 0 addr = retM []"
| "scan_mem c (Suc n) addr =
     (if addr \<ge> PMEM_LEFT c \<and> addr \<le> PMEM_RIGHT c then
        bindM (vaddr_read c addr 4) (\<lambda>w3. bindM (vaddr_read c addr 4) (\<lambda>w2.
        bindM (vaddr_read c addr 4) (\<lambda>w1. bindM (vaddr_read c addr 4) (\<lambda>w0.
        bindM (scan_mem c n (addr + 4)) (\<lambda>rest.
          retM (''0x'' @ fmt_X 8 (unat addr) @ '':'' @ tab @ fmt_X 2 (byte_of w3 24) @ tab
            @ fmt_X 2 (byte_of w2 16) @ tab @ fmt_X 2 (byte_of w1 8) @ tab @ fmt_X 2 (byte_of w0 0)
            @ tab @ nl @ rest))))))
      else failM (Panic ''out of bound''))"

definition cmd_x :: "config \<Rightarrow> string option \<Rightarrow> ('r, int \<times> string) M" where
  "cmd_x c args = (case args of None \<Rightarrow> retM (0, [])
   | Some a \<Rightarrow>
      (case strtok a of None \<Rightarrow> failM Out_of_bounds
       | Some (first_para, None) \<Rightarrow> failM Out_of_bounds
       | Some (first_para, Some second_para) \<Rightarrow>
           bindM (expr c second_para False) (\<lambda>(addr, _).
             bindM (scan_mem c (nat (strtol first_para)) addr) (\<lambda>t. retM (0, t)))))"

definition cmd_p :: "config \<Rightarrow> string option \<Rightarrow> ('r, int \<times> string) M" where
  "cmd_p c args = (case args of None \<Rightarrow> retM (0, [])
   | Some a \<Rightarrow> bindM (expr c a False) (\<lambda>(v, _). retM (0, fmt_word v @ nl)))"

definition set_wp :: "nat \<Rightarrow> (WP \<Rightarrow> WP) \<Rightarrow> ('r, unit) M" where
  "set_wp i f = modifyM (\<lambda>s. s\<lparr>wps := (wps s)\<lparr>wp_pool := (wp_pool (wps s))[i := f (wp_pool (wps s) ! i)]\<rparr>\<rparr>)"

definition INT_MAX :: int where
  "INT_MAX = 2147483647"

text \<open>The number of a new watchpoint: \<open>wp->next->cnt + 1\<close> in \<open>int\<close>.\<close>

definition wp_number :: "wp_state \<Rightarrow> nat \<Rightarrow> int result" where
  "wp_number w i = (case wp_next (wp_pool w ! i) of None \<Rightarrow> Inr 1
     | Some j \<Rightarrow> if cnt (wp_pool w ! j) < INT_MAX then Inr (cnt (wp_pool w ! j) + 1) else Inl Int_overflow)"

definition cmd_w :: "config \<Rightarrow> string option \<Rightarrow> ('r, int \<times> string) M" where
  "cmd_w c args = (case args of None \<Rightarrow> retM (0, [])
   | Some a \<Rightarrow>
       bindM (getsM wps) (\<lambda>w0. bindM (liftM (new_wp w0)) (\<lambda>(i, w1).
         thenM (modifyM (\<lambda>s. s\<lparr>wps := w1\<rparr>))
         (thenM (set_wp i (\<lambda>w. w\<lparr>addr_expr := take 127 a\<rparr>))
         (bindM (expr c a False) (\<lambda>(v, _).
          thenM (set_wp i (\<lambda>w. w\<lparr>last_val := v\<rparr>))
          (bindM (getsM wps) (\<lambda>w. bindM (liftM (wp_number w i)) (\<lambda>no.
           thenM (set_wp i (\<lambda>w. w\<lparr>cnt := no\<rparr>))
             (retM (0, ''Hardware watchpoint '' @ fmt_d no @ '': '' @ a @ nl)))))))))))"

text \<open>The search loop of \<open>cmd_d\<close> for the watchpoint with a number.\<close>

fun find_cnt :: "WP list \<Rightarrow> int \<Rightarrow> nat \<Rightarrow> nat option \<Rightarrow> nat option result" where
  "find_cnt pool num fuel None = Inr None"
| "find_cnt pool num 0 (Some i) = Inl Diverges"
| "find_cnt pool num (Suc fuel) (Some i) =
     (if i < length pool then
        if cnt (pool ! i) = num then Inr (Some i) else find_cnt pool num fuel (wp_next (pool ! i))
      else Inl Out_of_bounds)"

definition int32 :: "int \<Rightarrow> int" where
  "int32 n = signed_take_bit 31 n"

definition cmd_d :: "string option \<Rightarrow> ('r, int \<times> string) M" where
  "cmd_d args = (case args of None \<Rightarrow> retM (0, [])
   | Some a \<Rightarrow>
      (let num = int32 (strtol a) in
       bindM (getsM wps) (\<lambda>w. case find_head_wp w of
           None \<Rightarrow> retM (0, ''No such watchpoint'' @ nl)
         | Some h \<Rightarrow>
             if num > cnt (wp_pool w ! h) then retM (0, ''No such watchpoint'' @ nl)
             else bindM (liftM (find_cnt (wp_pool w) num NR_WP (Some h))) (\<lambda>r. case r of
                 None \<Rightarrow> retM (0, [])
               | Some i \<Rightarrow>
                   (case free_wp i w of None \<Rightarrow> failM Diverges
                    | Some w' \<Rightarrow> thenM (modifyM (\<lambda>s. s\<lparr>wps := w'\<rparr>))
                        (retM (0, ''Delet watchpoint: '' @ fmt_d num @ nl)))))))"

section \<open>The command table\<close>

definition cmd_table :: "(string \<times> string) list" where
  "cmd_table = [
     (''help'', ''Display information about all supported commands''),
     (''c'', ''Continue the execution of the program''),
     (''q'', ''Exit NEMU''),
     (''si'', ''single step execute''),
     (''info'', ''print infomation''),
     (''x'', ''scan memory''),
     (''p'', ''expr''),
     (''w'', ''add a watch point''),
     (''d'', ''delet a watch point'')]"

definition cmd_line :: "string \<times> string \<Rightarrow> string" where
  "cmd_line e = fst e @ '' - '' @ snd e @ nl"

text \<open>\<open>strtok(NULL, " ")\<close> continues behind the command word, that is in \<open>args\<close>.\<close>

definition cmd_help :: "string option \<Rightarrow> ('r, int \<times> string) M" where
  "cmd_help args = (case (case args of None \<Rightarrow> None | Some a \<Rightarrow> strtok a) of
     None \<Rightarrow> retM (0, concat (map cmd_line cmd_table))
   | Some (arg, _) \<Rightarrow>
       (case find (\<lambda>e. fst e = arg) cmd_table of
          Some e \<Rightarrow> retM (0, cmd_line e)
        | None \<Rightarrow> retM (0, ''Unknown command '' @ [CHR 0x27] @ arg @ [CHR 0x27] @ nl)))"

definition run_cmd :: "config \<Rightarrow> 'r external \<Rightarrow> string \<Rightarrow> string option \<Rightarrow> ('r, int \<times> string) M" where
  "run_cmd c ex cmd args =
     (if cmd = ''help'' then cmd_help args
      else if cmd = ''c'' then cmd_c c ex args
      else if cmd = ''q'' then cmd_q args
      else if cmd = ''si'' then cmd_si c ex args
      else if cmd = ''info'' then cmd_info args
      else if cmd = ''x'' then cmd_x c args
      else if cmd = ''p'' then cmd_p c args
      else if cmd = ''w'' then cmd_w c args
      else if cmd = ''d'' then cmd_d args
      else retM (0, ''Unknown command '' @ [CHR 0x27] @ cmd @ [CHR 0x27] @ nl))"

section \<open>The main loop\<close>

text \<open>
  One line: the command word, its arguments (\<open>NULL\<close> when nothing follows the blank) and the status.
\<close>

definition sdb_line :: "config \<Rightarrow> 'r external \<Rightarrow> string \<Rightarrow> ('r, int \<times> string) M" where
  "sdb_line c ex str = (case strtok str of None \<Rightarrow> retM (0, [])
   | Some (cmd, rest) \<Rightarrow>
       (let args = (case rest of None \<Rightarrow> None | Some r \<Rightarrow> if r = [] then None else Some r)
        in thenM (whenM (CONFIG_DEVICE c) sdl_clear_event_queue) (run_cmd c ex cmd args)))"

fun sdb_loop :: "config \<Rightarrow> 'r external \<Rightarrow> string list \<Rightarrow> ('r, string) M" where
  "sdb_loop c ex [] = retM []"
| "sdb_loop c ex (l # ls) = bindM (sdb_line c ex l) (\<lambda>(st, out).
     if st < 0 then retM out else bindM (sdb_loop c ex ls) (\<lambda>rest. retM (out @ rest)))"

definition sdb_mainloop :: "config \<Rightarrow> 'r external \<Rightarrow> bool \<Rightarrow> string list \<Rightarrow> ('r, string) M" where
  "sdb_mainloop c ex is_batch_mode ls =
     (if is_batch_mode then bindM (cmd_c c ex None) (\<lambda>(_, out). retM out) else sdb_loop c ex ls)"

definition init_sdb :: "('r, unit) M" where
  "init_sdb = modifyM (\<lambda>s. s\<lparr>wps := init_wp_pool (wps s)\<rparr>)"

definition engine_start :: "config \<Rightarrow> 'r external \<Rightarrow> bool \<Rightarrow> string list \<Rightarrow> ('r, string) M" where
  "engine_start c ex batch ls = sdb_mainloop c ex batch ls"

section \<open>Watchpoint numbers\<close>

text \<open>
  The debugger shows watchpoints by the number \<open>cnt\<close>. Along the list the numbers fall strictly, so a
  number names at most one watchpoint.
\<close>

definition nums :: "wp_state \<Rightarrow> nat list \<Rightarrow> int list" where
  "nums w used = map (\<lambda>i. cnt (wp_pool w ! i)) used"

definition wp_inv :: "wp_state \<Rightarrow> nat list \<Rightarrow> nat list \<Rightarrow> bool" where
  "wp_inv w used free \<longleftrightarrow> pool_view w used free \<and> sorted_wrt (>) (nums w used)
     \<and> (\<forall>n \<in> set (nums w used). 1 \<le> n \<and> n \<le> INT_MAX)"

lemma cnt_set_next: "map cnt (set_next i p pool) = map cnt pool"
proof (rule nth_equalityI)
  fix j
  assume "j < length (map cnt (set_next i p pool))"
  then show "map cnt (set_next i p pool) ! j = map cnt pool ! j"
    by (cases "j = i") (auto simp: set_next_def)
qed (simp add: set_next_def)

lemma cnt_new_wp: "new_wp w = Inr (i, w') \<Longrightarrow> map cnt (wp_pool w') = map cnt (wp_pool w)"
  by (auto simp: new_wp_def Let_def cnt_set_next split: option.splits)

lemma cnt_free_wp: "free_wp i w = Some w' \<Longrightarrow> map cnt (wp_pool w') = map cnt (wp_pool w)"
  by (auto simp: free_wp_def push_free_def cnt_set_next split: option.splits if_splits)

lemma nums_cong:
  assumes "map cnt (wp_pool w') = map cnt (wp_pool w)" and "\<forall>i \<in> set used. i < length (wp_pool w)"
  shows "nums w' used = nums w used"
proof -
  have "cnt (wp_pool w' ! i) = cnt (wp_pool w ! i)" if "i \<in> set used" for i
    using that assms by (metis length_map nth_map)
  then show ?thesis by (simp add: nums_def)
qed

lemma pool_view_bound: "pool_view w used free \<Longrightarrow> i \<in> set (used @ free) \<Longrightarrow> i < length (wp_pool w)"
  by (auto simp: pool_view_def)

lemma find_cnt_chain:
  "chain pool p xs \<Longrightarrow> length xs \<le> fuel \<Longrightarrow>
   find_cnt pool num fuel p = Inr (find (\<lambda>i. cnt (pool ! i) = num) xs)"
proof (induction xs arbitrary: p fuel)
  case (Cons x xs)
  then obtain f where "fuel = Suc f" by (cases fuel) auto
  with Cons show ?case by auto
qed simp

lemma used_le: "pool_view w used free \<Longrightarrow> length used \<le> NR_WP"
  by (metis wp.view_length le_add1)

lemma sorted_gt_distinct: "sorted_wrt (>) xs \<Longrightarrow> distinct xs" for xs :: "int list"
  by (induction xs) auto

lemma nums_unique:
  "wp_inv w used free \<Longrightarrow> i \<in> set used \<Longrightarrow> j \<in> set used \<Longrightarrow>
   cnt (wp_pool w ! i) = cnt (wp_pool w ! j) \<Longrightarrow> i = j"
  using sorted_gt_distinct [of "nums w used"]
  by (auto simp: wp_inv_def nums_def distinct_map inj_on_def)

lemma find_num:
  assumes "wp_inv w used free" and "i \<in> set used"
  shows "find (\<lambda>j. cnt (wp_pool w ! j) = cnt (wp_pool w ! i)) used = Some i"
proof (cases "find (\<lambda>j. cnt (wp_pool w ! j) = cnt (wp_pool w ! i)) used")
  case None
  with assms(2) show ?thesis by (auto simp: find_None_iff)
next
  case (Some j)
  then have "j \<in> set used" "cnt (wp_pool w ! j) = cnt (wp_pool w ! i)" by (auto simp: find_Some_iff)
  with Some show ?thesis using nums_unique [OF assms(1), of j i] assms(2) by simp
qed

lemma head_number:
  assumes "wp_inv w used free" and "i \<in> set used" and "wp_head w = Some h"
  shows "cnt (wp_pool w ! i) \<le> cnt (wp_pool w ! h)"
proof -
  obtain us where "used = h # us"
    using assms chain_Some [of "wp_pool w" h used] by (auto simp: wp_inv_def pool_view_def)
  with assms show ?thesis by (auto simp: wp_inv_def nums_def)
qed

lemma nums_remove:
  assumes "wp_inv w used free" and "i \<in> set used"
  shows "nums w (remove1 i used) = filter (\<lambda>n. n \<noteq> cnt (wp_pool w ! i)) (nums w used)"
proof -
  have "distinct used" using assms(1) by (auto simp: wp_inv_def pool_view_def)
  then have "remove1 i used = filter (\<lambda>j. i \<noteq> j) used"
    by (simp add: distinct_remove1_removeAll removeAll_filter_not_eq)
  moreover have "filter (\<lambda>j. i \<noteq> j) used = filter (\<lambda>j. cnt (wp_pool w ! j) \<noteq> cnt (wp_pool w ! i)) used"
    by (rule filter_cong) (use nums_unique [OF assms(1) assms(2)] in \<open>auto dest: sym\<close>)
  ultimately show ?thesis by (simp add: nums_def filter_map o_def)
qed

text \<open>Deleting a number takes exactly that watchpoint out of the list.\<close>

lemma cmd_d_absent:
  assumes inv: "wp_inv (wps s) used free" and "int32 (strtol a) \<notin> set (nums (wps s) used)"
  shows "\<exists>out. cmd_d (Some a) s = Inr ((0, out), s)"
proof -
  have v: "pool_view (wps s) used free" using inv by (simp add: wp_inv_def)
  then have "chain (wp_pool (wps s)) (wp_head (wps s)) used" by (simp add: pool_view_def)
  note fc = find_cnt_chain [OF this used_le [OF v], of "int32 (strtol a)"]
  have "find (\<lambda>i. cnt (wp_pool (wps s) ! i) = int32 (strtol a)) used = None"
    using assms(2) unfolding nums_def find_None_iff set_map by (metis (mono_tags) image_eqI)
  with fc show ?thesis
    by (cases "wp_head (wps s)") (auto simp: cmd_d_def Let_def find_head_wp_def)
qed

lemma cmd_d_present:
  assumes inv: "wp_inv (wps s) used free" and i: "i \<in> set used" "cnt (wp_pool (wps s) ! i) = int32 (strtol a)"
  shows "\<exists>out w'. cmd_d (Some a) s = Inr ((0, out), s\<lparr>wps := w'\<rparr>) \<and> free_wp i (wps s) = Some w'
    \<and> wp_inv w' (remove1 i used) (i # free)"
proof -
  have v: "pool_view (wps s) used free" using inv by (simp add: wp_inv_def)
  then have ch: "chain (wp_pool (wps s)) (wp_head (wps s)) used" by (simp add: pool_view_def)
  obtain h where h: "wp_head (wps s) = Some h" using i(1) ch by (cases used) auto
  have fc: "find_cnt (wp_pool (wps s)) (int32 (strtol a)) NR_WP (Some h) = Inr (Some i)"
    using find_cnt_chain [OF ch used_le [OF v], of "int32 (strtol a)"] find_num [OF inv i(1)] i(2) h by simp
  have le: "int32 (strtol a) \<le> cnt (wp_pool (wps s) ! h)"
    using head_number [OF inv i(1) h] i(2) by simp
  from free_wp_view [OF v i(1)] obtain w' where w': "free_wp i (wps s) = Some w'"
    "pool_view w' (remove1 i used) (i # free)" by blast
  have "nums w' (remove1 i used) = nums (wps s) (remove1 i used)"
    using nums_cong [OF cnt_free_wp [OF w'(1)], of "remove1 i used"] pool_view_bound [OF v]
    by (auto dest: notin_set_remove1 set_remove1_subset [THEN subsetD])
  also have "\<dots> = filter (\<lambda>n. n \<noteq> cnt (wp_pool (wps s) ! i)) (nums (wps s) used)"
    by (rule nums_remove [OF inv i(1)])
  finally have "wp_inv w' (remove1 i used) (i # free)"
    using inv w'(2) by (simp add: wp_inv_def sorted_wrt_filter)
  moreover have "\<exists>out. cmd_d (Some a) s = Inr ((0, out), s\<lparr>wps := w'\<rparr>)"
    using fc le h w'(1) by (auto simp: cmd_d_def Let_def find_head_wp_def)
  ultimately show ?thesis using w'(1) by blast
qed

text \<open>Adding a watchpoint gives it the next number.\<close>

lemma wps_after_expr: "expr c e b s = Inr (x, s') \<Longrightarrow> wps s' = wps s"
  using keepsD [OF keeps_wps_expr refl] .

lemma pool_view_update:
  assumes "pool_view w used free" and "wp_next x = wp_next (wp_pool w ! i)" and "NO x = NO (wp_pool w ! i)"
  shows "pool_view (w\<lparr>wp_pool := (wp_pool w)[i := x]\<rparr>) used free"
proof -
  have "map wp_next ((wp_pool w)[i := x]) = map wp_next (wp_pool w)"
    using assms(2) by (cases "i < length (wp_pool w)") (simp_all add: map_update list_update_same_conv list_update_beyond)
  moreover have "NO ((wp_pool w)[i := x] ! j) = NO (wp_pool w ! j)" if "j < NR_WP" for j
    using assms(3) that by (cases "i = j"; cases "i < length (wp_pool w)") (auto simp: list_update_beyond)
  ultimately show ?thesis
    using assms(1) chain_links [of "wp_pool w" _ _ "(wp_pool w)[i := x]"] by (auto simp: pool_view_def)
qed

definition new_node :: "wp_state \<Rightarrow> nat \<Rightarrow> string \<Rightarrow> u32 \<Rightarrow> int \<Rightarrow> WP" where
  "new_node w f a v no = (wp_pool w ! f)\<lparr>addr_expr := take 127 a, last_val := v, cnt := no\<rparr>"

lemma cmd_w_wps:
  assumes "cmd_w c (Some a) s = Inr ((st, out), s')" and "new_wp (wps s) = Inr (f, w1)"
    and "f < length (wp_pool w1)" and "wp_next (wp_pool w1 ! f) \<noteq> Some f"
  shows "\<exists>v no. wps s' = w1\<lparr>wp_pool := (wp_pool w1)[f := new_node w1 f a v no]\<rparr> \<and> wp_number w1 f = Inr no"
proof -
  let ?w2 = "w1\<lparr>wp_pool := (wp_pool w1)[f := (wp_pool w1 ! f)\<lparr>addr_expr := take 127 a\<rparr>]\<rparr>"
  from assms(1,2) obtain v b s1 no where e: "expr c a False (s\<lparr>wps := ?w2\<rparr>) = Inr ((v, b), s1)"
    and n: "wp_number ((wps s1)\<lparr>wp_pool := (wp_pool (wps s1))[f := (wp_pool (wps s1) ! f)\<lparr>last_val := v\<rparr>]\<rparr>) f = Inr no"
    and s': "s' = s1\<lparr>wps := (wps s1)\<lparr>wp_pool := ((wp_pool (wps s1))[f := (wp_pool (wps s1) ! f)\<lparr>last_val := v\<rparr>])
        [f := ((wp_pool (wps s1))[f := (wp_pool (wps s1) ! f)\<lparr>last_val := v\<rparr>] ! f)\<lparr>cnt := no\<rparr>]\<rparr>\<rparr>"
    by (auto simp: cmd_w_def set_wp_def comp_elims)
  have w2: "wps s1 = ?w2" using wps_after_expr [OF e] by simp
  have "wp_number (?w2\<lparr>wp_pool := (wp_pool ?w2)[f := (wp_pool ?w2 ! f)\<lparr>last_val := v\<rparr>]\<rparr>) f = wp_number w1 f"
    using assms(3,4) by (auto simp: wp_number_def split: option.splits)
  then show ?thesis
    using s' n assms(3) unfolding w2 by (intro exI [of _ v] exI [of _ no]) (simp add: new_node_def)
qed

lemma new_wp_links:
  assumes "pool_view w used (f # free)" and "new_wp w = Inr (f, w1)"
  shows "f < length (wp_pool w1)" "wp_next (wp_pool w1 ! f) = wp_head w" "wp_head w \<noteq> Some f"
proof -
  have "f < length (wp_pool w)" "f \<notin> set used" using assms(1) by (auto simp: pool_view_def)
  moreover have "w1 = w\<lparr>wp_pool := set_next f (wp_head w) (wp_pool w), wp_head := Some f,
      free_list := wp_next (wp_pool w ! f)\<rparr>"
    using assms by (auto simp: new_wp_def Let_def pool_view_def)
  moreover have "wp_head w = Some f \<Longrightarrow> f \<in> set used"
    using assms(1) chain_Some [of "wp_pool w" f used] by (auto simp: pool_view_def)
  ultimately show "f < length (wp_pool w1)" "wp_next (wp_pool w1 ! f) = wp_head w" "wp_head w \<noteq> Some f"
    by (auto simp: set_next_def)
qed

lemma cmd_w_adds:
  assumes inv: "wp_inv (wps s) used (f # free)" and run: "cmd_w c (Some a) s = Inr ((st, out), s')"
  shows "wp_inv (wps s') (f # used) free \<and> addr_expr (wp_pool (wps s') ! f) = take 127 a
    \<and> nums (wps s') (f # used) = (case nums (wps s) used of [] \<Rightarrow> 1 | n # _ \<Rightarrow> n + 1) # nums (wps s) used"
proof -
  have v: "pool_view (wps s) used (f # free)" using inv by (simp add: wp_inv_def)
  from new_wp_view [OF v] obtain w1 where w1: "new_wp (wps s) = Inr (f, w1)" "pool_view w1 (f # used) free" by blast
  note l = new_wp_links [OF v w1(1)]
  from cmd_w_wps [OF run w1(1)] l obtain x no where x: "wps s' = w1\<lparr>wp_pool := (wp_pool w1)[f := new_node w1 f a x no]\<rparr>"
    and no: "wp_number w1 f = Inr no" by auto
  have old: "nums (wps s') used = nums (wps s) used"
  proof -
    have "f \<notin> set used" using v by (auto simp: pool_view_def)
    then have "wp_pool (wps s') ! j = wp_pool w1 ! j" if "j \<in> set used" for j
      using that unfolding x by (metis nth_list_update_neq wp_state.select_convs(1) wp_state.surjective
          wp_state.update_convs(1))
    then have "nums (wps s') used = nums w1 used" by (simp add: nums_def)
    also have "\<dots> = nums (wps s) used"
      using nums_cong [OF cnt_new_wp [OF w1(1)], of used] pool_view_bound [OF v] by simp
    finally show ?thesis .
  qed
  have cnt1: "cnt (wp_pool w1 ! j) = cnt (wp_pool (wps s) ! j)" if "j \<in> set used" for j
    using nums_cong [OF cnt_new_wp [OF w1(1)], of "[j]"] pool_view_bound [OF v] that by (simp add: nums_def)
  have number: "no = (case nums (wps s) used of [] \<Rightarrow> 1 | n # _ \<Rightarrow> n + 1) \<and> no \<le> INT_MAX"
  proof (cases used)
    case Nil
    with v l no show ?thesis by (simp add: wp_number_def nums_def pool_view_def INT_MAX_def)
  next
    case (Cons h us)
    with v l cnt1 [of h] no show ?thesis by (auto simp: wp_number_def nums_def pool_view_def split: if_splits)
  qed
  then have new: "nums (wps s') (f # used) = (case nums (wps s) used of [] \<Rightarrow> 1 | n # _ \<Rightarrow> n + 1) # nums (wps s) used"
    using old l(1) by (simp add: nums_def x new_node_def)
  have "pool_view (wps s') (f # used) free"
    unfolding x by (rule pool_view_update [OF w1(2)]) (simp_all add: new_node_def)
  moreover have "sorted_wrt (>) (nums (wps s') (f # used)) \<and> (\<forall>n \<in> set (nums (wps s') (f # used)). 1 \<le> n \<and> n \<le> INT_MAX)"
    using inv number unfolding new by (cases "nums (wps s) used") (auto simp: wp_inv_def)
  ultimately show ?thesis using new l(1) by (simp add: wp_inv_def x new_node_def)
qed

section \<open>Leaving the debugger\<close>

lemma sdb_loop_quit:
  "sdb_loop c ex (''q'' # ls) s =
     Inr ([], (if CONFIG_DEVICE c then s\<lparr>dev := (dev s)\<lparr>sdl_queue := []\<rparr>\<rparr> else s)
       \<lparr>nemu_state := (nemu_state s)\<lparr>state := NEMU_QUIT\<rparr>\<rparr>)"
  by (simp add: sdb_line_def strtok_def run_cmd_def cmd_q_def set_state_def sdl_clear_event_queue_def
      modify_dev_def)

lemma quit_status: "\<not> is_exit_status_bad ((nemu_state s)\<lparr>state := NEMU_QUIT\<rparr>)"
  by (simp add: is_exit_status_bad_def)

text \<open>At \<open>q\<close> the loop ends, the rest is not executed and the exit status is good.\<close>

lemma sdb_quit_is_good:
  "\<exists>s'. sdb_loop c ex (''q'' # ls) s = Inr ([], s') \<and> cpu s' = cpu s \<and> mem s' = mem s
    \<and> \<not> is_exit_status_bad (nemu_state s')"
  unfolding sdb_loop_quit by (auto simp: is_exit_status_bad_def)

end
