(* ===== verification/Monitor.thy ===== *)
theory Monitor
  imports Sdb
begin

text \<open>
  Start-up and shutdown: \<open>src/monitor/monitor.c\<close>, \<open>init_mem\<close> of \<open>src/memory/paddr.c\<close>, \<open>init_rand\<close> of
  \<open>src/utils/timer.c\<close>, \<open>main\<close> of \<open>src/nemu-main.c\<close>, and the emulator used as a reference design,
  \<open>src/cpu/difftest/ref.c\<close>. Files are given by their content, \<open>None\<close> when they cannot be opened;
  \<open>getopt_long\<close> is given by the sequence of its results.
\<close>

section \<open>Initialisation\<close>

text \<open>\<open>rnd\<close> is the byte \<open>memset\<close> uses with \<open>CONFIG_MEM_RANDOM\<close>; without it memory keeps its zeros.\<close>

definition init_mem :: "config \<Rightarrow> u8 option \<Rightarrow> ('r, unit) M" where
  "init_mem c rnd = (case rnd of None \<Rightarrow> retM ()
   | Some b \<Rightarrow> modifyM (\<lambda>s. s\<lparr>mem := (mem s)(PMEM := (\<lambda>a. if 0 \<le> a \<and> a < uint (CONFIG_MSIZE c)
       then b else mem s PMEM a))\<rparr>))"

definition init_rand :: "('r, u64) M" where
  "init_rand = (\<lambda>s. let (t, k) = get_time_internal (clk s) in Inr (t, s\<lparr>clk := k\<rparr>))"

record args =
  batch_mode :: bool
  log_file :: "string option"
  diff_so_file :: "string option"
  img_file :: "string option"
  difftest_port :: int
  ftrace_elf_file :: "string option"

definition args_init :: args where
  "args_init = \<lparr>batch_mode = False, log_file = None, diff_so_file = None, img_file = None,
     difftest_port = 1234, ftrace_elf_file = None\<rparr>"

text \<open>
  What \<open>getopt_long\<close> returns: an option with its argument, an operand (the value 1), or anything
  that leads to the usage text. \<open>sscanf\<close> with \<open>%d\<close> leaves the port unchanged when no number is there.
\<close>

datatype opt = Opt_b | Opt_p "int option" | Opt_l string | Opt_d string | Opt_f string | Operand string
  | Opt_other

datatype parsed = Parsed args | Exit_usage

fun parse_args :: "opt list \<Rightarrow> args \<Rightarrow> parsed" where
  "parse_args [] a = Parsed a"
| "parse_args (Opt_b # os) a = parse_args os (a\<lparr>batch_mode := True\<rparr>)"
| "parse_args (Opt_p n # os) a =
     parse_args os (case n of None \<Rightarrow> a | Some p \<Rightarrow> a\<lparr>difftest_port := p\<rparr>)"
| "parse_args (Opt_l f # os) a = parse_args os (a\<lparr>log_file := Some f\<rparr>)"
| "parse_args (Opt_d f # os) a = parse_args os (a\<lparr>diff_so_file := Some f\<rparr>)"
| "parse_args (Opt_f f # os) a = parse_args os (a\<lparr>ftrace_elf_file := Some f\<rparr>)"
| "parse_args (Operand f # os) a = Parsed (a\<lparr>img_file := Some f\<rparr>)"
| "parse_args (Opt_other # os) a = Exit_usage"

text \<open>
  \<open>fread(p, size, 1, fp)\<close> of a whole file: the item count is 1 unless the file is empty.
\<close>

definition fread_image :: "config \<Rightarrow> hptr \<Rightarrow> u8 list \<Rightarrow> ('r, int) M" where
  "fread_image c p bs =
     (if bs = [] then failM Assert_fail
      else thenM (memcpy_host c p bs) (retM (int (length bs))))"

definition load_img :: "config \<Rightarrow> (string \<Rightarrow> u8 list option) \<Rightarrow> string option \<Rightarrow> ('r, int) M" where
  "load_img c fs img_name =
     (if CONFIG_PC_TRACE c then
        (case fs ''/home/gao-zhouhao/ysyx-workbench/am-kernels/benchmarks/microbench/build/microbench-riscv32e-npc.bin'' of
           None \<Rightarrow> failM (Panic ''Can not open'')
         | Some bs \<Rightarrow> thenM (modifyM (\<lambda>s. s\<lparr>pc_trace_file := []\<rparr>)) (fread_image c (PSRAM, 0) bs))
      else if CONFIG_BRANCH_TRACE c then
        (case fs ''/home/gao-zhouhao/ysyx-workbench/am-kernels/benchmarks/microbench/build/microbench-riscv32e-ysyxsoc.bin'' of
           None \<Rightarrow> failM (Panic ''Can not open'')
         | Some bs \<Rightarrow> bindM (liftM (guest_to_host c (CONFIG_FLASH_BASE c))) (\<lambda>p. fread_image c p bs))
      else (case img_name of
          None \<Rightarrow> retM 4096
        | Some f \<Rightarrow> (case fs f of None \<Rightarrow> failM (Panic ''Can not open'')
            | Some bs \<Rightarrow> bindM (liftM (guest_to_host c (RESET_VECTOR c))) (\<lambda>p. fread_image c p bs))))"

definition init_csrs :: "('r, unit) M" where
  "init_csrs = thenM (set_csr 0x300 0x1800) (thenM (set_csr 0xf11 0x79737978) (set_csr 0xf12 0x017F4E2E))"

text \<open>
  The world outside: file contents, the shared object of a file name, the key table and disk image of
  the devices, the random byte.
\<close>

record 'r world =
  files :: "string \<Rightarrow> u8 list option"
  shared_objects :: "string \<Rightarrow> 'r ref_ops option"
  sdl_scancodes :: "string \<Rightarrow> u8"
  sdcard_image :: "u8 list option"
  mem_random :: "u8 option"

definition init_monitor :: "config \<Rightarrow> 'r world \<Rightarrow> args \<Rightarrow> ('r, unit) M" where
  "init_monitor c w a =
     thenM init_csrs
     (thenM init_rand
     (thenM (init_mem c (mem_random w))
     (thenM (whenM (CONFIG_DEVICE c) (init_device c (sdl_scancodes w) (sdcard_image w)))
     (thenM (init_isa c)
     (bindM (load_img c (files w) (img_file a)) (\<lambda>img_size.
      thenM (init_difftest c (case diff_so_file a of None \<Rightarrow> None | Some f \<Rightarrow> shared_objects w f) img_size
               (difftest_port a))
        init_sdb))))))"

text \<open>\<open>main\<close>: the usage text exits with status 0, otherwise the status tells whether the run was good.\<close>

definition nemu_main :: "config \<Rightarrow> 'r external \<Rightarrow> 'r world \<Rightarrow> opt list \<Rightarrow> string list \<Rightarrow> ('r, bool) M" where
  "nemu_main c ex w os ls = (case parse_args os args_init of
     Exit_usage \<Rightarrow> retM False
   | Parsed a \<Rightarrow> thenM (init_monitor c w a)
       (thenM (engine_start c ex (batch_mode a) ls) (getsM (\<lambda>s. is_exit_status_bad (nemu_state s)))))"

section \<open>The emulator as a reference design\<close>

definition difftest_memcpy :: "config \<Rightarrow> u32 \<Rightarrow> u8 list \<Rightarrow> bool \<Rightarrow> ('r, unit) M" where
  "difftest_memcpy c addr buf to_ref =
     (if to_ref then bindM (liftM (guest_to_host c addr)) (\<lambda>p. memcpy_host c p buf) else failM Assert_fail)"

text \<open>Sixteen registers and the program counter are copied.\<close>

definition copy_regs :: "CPU_state \<Rightarrow> CPU_state \<Rightarrow> CPU_state result" where
  "copy_regs from to = (if 16 \<le> length (gpr from) \<and> 16 \<le> length (gpr to)
     then Inr (to\<lparr>gpr := take 16 (gpr from) @ drop 16 (gpr to), pc := pc from\<rparr>) else Inl Out_of_bounds)"

definition difftest_regcpy_ref :: "CPU_state \<Rightarrow> ('r, unit) M" where
  "difftest_regcpy_ref ctx = bindM (getsM cpu) (\<lambda>cp. bindM (liftM (copy_regs ctx cp)) (\<lambda>cp'.
     modifyM (\<lambda>s. s\<lparr>cpu := cp'\<rparr>)))"

definition difftest_regcpy_dut :: "CPU_state \<Rightarrow> 'r nemu \<Rightarrow> CPU_state result" where
  "difftest_regcpy_dut ctx s = copy_regs (cpu s) ctx"

definition difftest_exec :: "config \<Rightarrow> 'r external \<Rightarrow> u64 \<Rightarrow> ('r, unit) M" where
  "difftest_exec c ex n = cpu_exec c ex n"

definition difftest_init :: "config \<Rightarrow> u8 option \<Rightarrow> ('r, unit) M" where
  "difftest_init c rnd = thenM (init_mem c rnd) (thenM (init_isa c)
     (thenM (set_csr 0xF11 0x79737978) (set_csr 0xF12 0x017F4E2E)))"

definition exec_st :: "('r, unit) M \<Rightarrow> 'r nemu \<Rightarrow> 'r nemu result" where
  "exec_st m s = map_sum id snd (m s)"

definition nemu_ref :: "config \<Rightarrow> 'r external \<Rightarrow> u8 option \<Rightarrow> 'r nemu ref_ops" where
  "nemu_ref c ex rnd = \<lparr>
     ref_difftest_memcpy = (\<lambda>a buf. exec_st (difftest_memcpy c a buf True)),
     ref_regcpy_ref = (\<lambda>ctx. exec_st (difftest_regcpy_ref ctx)),
     ref_regcpy_dut = difftest_regcpy_dut,
     ref_difftest_exec = (\<lambda>n. exec_st (difftest_exec c ex n)),
     ref_difftest_init = (\<lambda>port. exec_st (difftest_init c rnd))\<rparr>"

lemma copy_regs_gpr:
  "copy_regs f t = Inr x \<Longrightarrow> length (gpr x) = length (gpr t) \<and> pc x = pc f
     \<and> (\<forall>i < 16. gpr x ! i = gpr f ! i) \<and> (\<forall>i < length (gpr t). 16 \<le> i \<longrightarrow> gpr x ! i = gpr t ! i)"
  by (auto simp: copy_regs_def nth_append split: if_splits)

text \<open>
  The registers above \<open>x15\<close> are outside the protocol: what the comparison sees of them is the former content
  of the buffer, while \<open>isa_difftest_checkregs\<close> compares all 32.
\<close>

lemma regcpy_leaves_upper_registers:
  assumes "difftest_regcpy_dut junk r = Inr x" and "16 \<le> i" and "i < length (gpr junk)"
  shows "gpr x ! i = gpr junk ! i"
  using copy_regs_gpr [of "cpu r" junk x] assms by (simp add: difftest_regcpy_dut_def)

interpretation nemu_reference: reference "nemu_ref c ex rnd" 16 cpu
  by unfold_locales (auto simp: nemu_ref_def exec_st_def difftest_regcpy_ref_def difftest_regcpy_dut_def copy_regs_def overwrite_regs_def)

text \<open>A skip brings the reference to the emulator's registers exactly when the upper ones agree already.\<close>

lemma overwrite_half: "gpr (overwrite_regs n cp r) = gpr cp \<longleftrightarrow> drop n (gpr r) = drop n (gpr cp)"
  unfolding overwrite_regs_def by simp (metis append_take_drop_id same_append_eq)

end
