(* ===== verification/Boot.thy ===== *)
theory Boot
  imports Monitor
begin

text \<open>
  The built-in image: after reset the emulator runs the four instructions of \<open>img\<close> and stops with a
  good trap. The run is computed from the refinement of the loop to the architecture.
\<close>

lemma load_store_within:
  "fst p = fst q \<Longrightarrow> snd p \<le> snd q \<Longrightarrow> snd q + int n \<le> snd p + int (length bs) \<Longrightarrow>
   load (store m p bs) q n = take n (drop (nat (snd q - snd p)) bs)"
proof (rule nth_equalityI)
  fix i
  assume a: "fst p = fst q" "snd p \<le> snd q" "snd q + int n \<le> snd p + int (length bs)"
    and "i < length (load (store m p bs) q n)"
  then have "i < n" by simp
  moreover have "nat (snd q + int i - snd p) = nat (snd q - snd p) + i" using a(2) by linarith
  ultimately show "load (store m p bs) q n ! i = take n (drop (nat (snd q - snd p)) bs) ! i"
    using a by (simp add: load_nth store_def)
qed auto

definition img_bytes :: "u8 list" where
  "img_bytes = concat (map (to_bytes 4) img)"

lemma img_words:
  "length img_bytes = 20"
  "of_bytes (take 4 (drop 0 img_bytes)) = (0x297 :: u32)"
  "of_bytes (take 4 (drop 4 img_bytes)) = (0x28823 :: u32)"
  "of_bytes (take 4 (drop 8 img_bytes)) = (0x102c503 :: u32)"
  "of_bytes (take 4 (drop 12 img_bytes)) = (0x100073 :: u32)"
  by code_simp+

lemma img_decodes:
  "spec_decode 0x297 = Auipc" "spec_decode 0x28823 = Store 1" "spec_decode 0x102c503 = Load 1 False"
  "spec_decode 0x100073 = Ebreak"
  by code_simp+

lemma img_fields:
  "unat (rd_field 0x297) = 5" "spec_immU 0x297 = 0"
  "unat (rs1_field 0x28823) = 5" "unat (rs2_field 0x28823) = 0" "spec_immS 0x28823 = 16"
  "unat (rd_field 0x102c503) = 10" "unat (rs1_field 0x102c503) = 5" "spec_immI 0x102c503 = 16"
  by code_simp+

lemma default_ram:
  "ram_ptr kconfig_default 0x80000000 = Some (PMEM, 0)" "ram_ptr kconfig_default 0x80000004 = Some (PMEM, 4)"
  "ram_ptr kconfig_default 0x80000008 = Some (PMEM, 8)" "ram_ptr kconfig_default 0x8000000c = Some (PMEM, 12)"
  "ram_ptr kconfig_default 0x80000010 = Some (PMEM, 16)"
  by (simp_all add: ram_ptr_def kconfig_default_def soc_memory_def in_pmem_def pmem_guest_to_host_def)

lemma default_ptr_ok: "0 \<le> k \<Longrightarrow> k + n \<le> 0x2000000 \<Longrightarrow> ptr_ok kconfig_default (PMEM, k) n"
  by (simp add: ptr_ok_def kconfig_default_def)

lemma default_read:
  "ram_ptr kconfig_default a = Some (PMEM, k) \<Longrightarrow> 0 \<le> k \<Longrightarrow> k \<le> 16 \<Longrightarrow> n = 1 \<or> n = 4 \<Longrightarrow>
   paddr_read kconfig_default a n s = Inr (of_bytes (load (mem s) (PMEM, k) (nat n)), s)"
  by (auto simp: paddr_read_ram host_readM_apply host_read_def default_ptr_ok)

lemma default_write:
  "ram_ptr kconfig_default a = Some (PMEM, k) \<Longrightarrow> 0 \<le> k \<Longrightarrow> k \<le> 16 \<Longrightarrow>
   paddr_write kconfig_default a 1 v s = Inr ((), s\<lparr>mem := store (mem s) (PMEM, k) [ucast v]\<rparr>)"
  by (simp add: paddr_write_ram writable_ptr_def host_writeM_apply host_write_def default_ptr_ok)

definition boot_mem :: "hmem \<Rightarrow> hmem" where
  "boot_mem m = store m (PMEM, 0) img_bytes"

lemma fetch_boot:
  "k \<in> {0, 4, 8, 12} \<Longrightarrow> load (boot_mem m) (PMEM, k) 4 = take 4 (drop (nat k) img_bytes)"
  by (auto simp: boot_mem_def load_store_within img_words(1))

lemma fetch_boot_after:
  "k \<in> {0, 4, 8, 12} \<Longrightarrow> load (store (boot_mem m) (PMEM, 16) [x]) (PMEM, k) 4 = take 4 (drop (nat k) img_bytes)"
  using fetch_boot [of k m] by (auto simp: load_store_disjoint ptr_disjoint_def)

lemma init_isa_default:
  assumes "length (gpr (cpu s)) = 32"
  shows "init_isa kconfig_default s = Inr ((), s\<lparr>mem := boot_mem (mem s),
    cpu := (cpu s)\<lparr>pc := 0x80000000, gpr := (gpr (cpu s))[0 := 0]\<rparr>\<rparr>)"
proof -
  have "gpr (cpu s) \<noteq> []" using assms by auto
  then show ?thesis using img_words(1)
  by (simp add: init_isa_def guest_to_host_def soc_memory_def RESET_VECTOR_def trace_target_def PMEM_LEFT_def
      pmem_guest_to_host_def memcpy_host_def ptr_ok_def restart_def boot_mem_def img_bytes_def kconfig_default_def)
qed

section \<open>The four instructions\<close>

lemma arch_step_at:
  assumes "ram_ptr kconfig_default (pc (cpu s)) = Some (PMEM, k)" and "0 \<le> k" and "k \<le> 16"
    and "of_bytes (load (mem s) (PMEM, k) 4) = w"
  shows "arch_step kconfig_default s =
    bindM (spec_exec kconfig_default \<lparr>d_pc = pc (cpu s), snpc = pc (cpu s) + 4, dnpc = pc (cpu s), isa_inst = w\<rparr>)
      set_pc s"
  using assms by (simp add: arch_step_def default_read)

definition at :: "u32 \<Rightarrow> u32 list \<Rightarrow> hmem \<Rightarrow> 'r nemu \<Rightarrow> 'r nemu" where
  "at p g m s = s\<lparr>cpu := (cpu s)\<lparr>gpr := g, pc := p\<rparr>, mem := m\<rparr>"

lemma at_fields [simp]:
  "cpu (at p g m s) = (cpu s)\<lparr>gpr := g, pc := p\<rparr>" "mem (at p g m s) = m"
  "nemu_state (at p g m s) = nemu_state s" "dt (at p g m s) = dt s"
  by (simp_all add: at_def)

lemma at_updates:
  "(at p g m s)\<lparr>clk := k\<rparr> = at p g m (s\<lparr>clk := k\<rparr>)"
  "(at p g m s)\<lparr>g_print_step := b\<rparr> = at p g m (s\<lparr>g_print_step := b\<rparr>)"
  "(at p g m s)\<lparr>nemu_state := x\<rparr> = at p g m (s\<lparr>nemu_state := x\<rparr>)"
  "s\<lparr>mem := m, cpu := (cpu s)\<lparr>pc := p, gpr := g\<rparr>\<rparr> = at p g m s"
  "(at p g m s)\<lparr>g_nr_guest_inst := n\<rparr> = at p g m (s\<lparr>g_nr_guest_inst := n\<rparr>)"
  by (cases s, cases "cpu s", simp add: at_def)+

lemma set_pc_at: "set_pc q (at p g m s) = Inr ((), at q g m s)"
  by (simp add: set_pc_def at_def)

lemma set_xreg_at: "i \<noteq> 0 \<Longrightarrow> set_xreg i v (at p g m s) = at p (g[i := v]) m s"
  by (simp add: set_xreg_def at_def)

lemma mem_update_at: "(at p g m s)\<lparr>mem := m'\<rparr> = at p g m' s"
  by (simp add: at_def)

lemma step_auipc:
  "arch_step kconfig_default (at 0x80000000 g (boot_mem m) s)
    = Inr ((), at 0x80000004 (g[5 := 0x80000000]) (boot_mem m) s)"
  using arch_step_at [of "at 0x80000000 g (boot_mem m) s" 0 "0x297"] img_words(2)
  by (simp add: default_ram fetch_boot spec_exec_def img_decodes img_fields Let_def set_xreg_at set_pc_at)

lemma step_sb:
  assumes "g ! 5 = 0x80000000" and "g ! 0 = 0"
  shows "arch_step kconfig_default (at 0x80000004 g (boot_mem m) s)
    = Inr ((), at 0x80000008 g (store (boot_mem m) (PMEM, 16) [0]) s)"
  using arch_step_at [of "at 0x80000004 g (boot_mem m) s" 4 "0x28823"] img_words(3) assms
  by (simp add: default_ram fetch_boot spec_exec_def img_decodes img_fields Let_def xreg_def default_write
      mem_update_at set_pc_at)

lemma step_lbu:
  assumes "g ! 5 = 0x80000000"
  shows "arch_step kconfig_default (at 0x80000008 g (store (boot_mem m) (PMEM, 16) [0]) s)
    = Inr ((), at 0x8000000c (g[10 := 0]) (store (boot_mem m) (PMEM, 16) [0]) s)"
  using arch_step_at [of "at 0x80000008 g (store (boot_mem m) (PMEM, 16) [0]) s" 8 "0x102c503"] img_words(4) assms
  by (simp add: default_ram fetch_boot_after spec_exec_def img_decodes img_fields Let_def xreg_def default_read
      load_ext_def set_xreg_at set_pc_at)

lemma step_ebreak:
  assumes "g ! 10 = 0"
  shows "\<exists>t. arch_step kconfig_default (at 0x8000000c g (store (boot_mem m) (PMEM, 16) [0]) s) = Inr ((), t)
    \<and> nemu_state t = \<lparr>state = NEMU_END, halt_pc = 0x8000000c, halt_ret = 0\<rparr>
    \<and> g_nr_guest_inst t = g_nr_guest_inst s \<and> gpr (cpu t) = g"
  using arch_step_at [of "at 0x8000000c g (store (boot_mem m) (PMEM, 16) [0]) s" 12 "0x100073"] img_words(5) assms
  by (simp add: default_ram fetch_boot_after spec_exec_def img_decodes Let_def xreg_def set_pc_def at_def)

definition counted :: "'r nemu \<Rightarrow> 'r nemu" where
  "counted s = s\<lparr>g_nr_guest_inst := g_nr_guest_inst s + 1\<rparr>"

lemma counted_fields [simp]:
  "nemu_state (counted s) = nemu_state s" "g_nr_guest_inst (counted s) = g_nr_guest_inst s + 1"
  by (simp_all add: counted_def)

lemma arch_run_next:
  "arch_step c s = Inr ((), at p g m t) \<Longrightarrow> state (nemu_state t) = NEMU_RUNNING \<Longrightarrow>
   arch_run c (Suc n) s = arch_run c n (at p g m (counted t))"
  by (simp add: count_inst_def counted_def at_updates(5), simp add: at_def)

lemma arch_run_end:
  "arch_step c s = Inr ((), t) \<Longrightarrow> state (nemu_state t) \<noteq> NEMU_RUNNING \<Longrightarrow>
   arch_run c (Suc n) s = Inr ((), counted t)"
  by (simp add: count_inst_def counted_def)

lemma arch_run_image:
  assumes "length g = 32" and "g ! 0 = 0" and run: "state (nemu_state s) = NEMU_RUNNING"
  shows "\<exists>t. arch_run kconfig_default (Suc (Suc (Suc (Suc n)))) (at 0x80000000 g (boot_mem m) s) = Inr ((), t)
    \<and> nemu_state t = \<lparr>state = NEMU_END, halt_pc = 0x8000000c, halt_ret = 0\<rparr>
    \<and> g_nr_guest_inst t = g_nr_guest_inst s + 4"
proof -
  let ?g = "g[5 := 0x80000000]" and ?h = "g[5 := 0x80000000, 10 := 0]"
  let ?s3 = "counted (counted (counted s))"
  have r: "?g ! 5 = 0x80000000" "?g ! 0 = 0" "?h ! 10 = 0" using assms by auto
  from step_ebreak [OF r(3), of m ?s3] obtain t where
    t: "arch_step kconfig_default (at 0x8000000c ?h (store (boot_mem m) (PMEM, 16) [0]) ?s3) = Inr ((), t)"
    "nemu_state t = \<lparr>state = NEMU_END, halt_pc = 0x8000000c, halt_ret = 0\<rparr>"
    "g_nr_guest_inst t = g_nr_guest_inst ?s3" by auto
  have "arch_run kconfig_default (Suc (Suc (Suc (Suc n)))) (at 0x80000000 g (boot_mem m) s)
      = arch_run kconfig_default (Suc (Suc (Suc n))) (at 0x80000004 ?g (boot_mem m) (counted s))"
    by (rule arch_run_next [OF step_auipc run])
  also have "\<dots> = arch_run kconfig_default (Suc (Suc n))
      (at 0x80000008 ?g (store (boot_mem m) (PMEM, 16) [0]) (counted (counted s)))"
    by (rule arch_run_next [OF step_sb [OF r(1,2)]]) (simp add: run)
  also have "\<dots> = arch_run kconfig_default (Suc n) (at 0x8000000c ?h (store (boot_mem m) (PMEM, 16) [0]) ?s3)"
    by (rule arch_run_next [OF step_lbu [OF r(1)]]) (simp add: run)
  also have "\<dots> = Inr ((), counted t)"
    by (rule arch_run_end [OF t(1)]) (simp add: t(2))
  finally show ?thesis using t(2,3) by auto
qed

lemma plain_default: "wp_head (wps s) = None \<Longrightarrow> plain_run kconfig_default s"
  by (simp add: plain_run_def kconfig_default_def)

lemma get_time_frame:
  "\<exists>t k. get_time s = Inr (t, s\<lparr>clk := k\<rparr>)"
  by (auto simp: get_time_def Let_def split: prod.splits)

lemma at_least_four: "4 \<le> x \<Longrightarrow> \<exists>n. x = Suc (Suc (Suc (Suc n)))" for x :: nat
  by presburger

lemma boot_cpu_exec:
  assumes len: "length (gpr (cpu s)) = 32" and wp: "wp_head (wps s) = None"
    and st: "state (nemu_state s) = NEMU_STOP"
  shows "\<exists>s'. thenM (init_isa kconfig_default) (cpu_exec kconfig_default ex (-1)) s = Inr ((), s')
    \<and> nemu_state s' = \<lparr>state = NEMU_END, halt_pc = 0x8000000c, halt_ret = 0\<rparr>
    \<and> g_nr_guest_inst s' = g_nr_guest_inst s + 4"
proof -
  let ?g = "(gpr (cpu s))[0 := 0]" 
  have ok: "length ?g = 32" "?g ! 0 = 0" using len by auto
  have "4 \<le> unat (-1 :: u64)" by (simp add: unsigned_minus_1_eq_mask mask_eq_exp_minus_1)
  then obtain n where big: "unat (-1 :: u64) = Suc (Suc (Suc (Suc n)))"
    by (blast dest: at_least_four)
  let ?s0 = "s\<lparr>g_print_step := False, nemu_state := (nemu_state s)\<lparr>state := NEMU_RUNNING\<rparr>\<rparr>"
  let ?b = "\<lambda>s. at 0x80000000 ?g (boot_mem (mem s)) s"
  from get_time_frame [of "?b ?s0"] obtain t1 k1 where k1: "get_time (?b ?s0) = Inr (t1, ?b (?s0\<lparr>clk := k1\<rparr>))"
    by (auto simp: at_updates)
  from arch_run_image [OF ok, of "?s0\<lparr>clk := k1\<rparr>" n "mem s", folded big] obtain t where
    t: "arch_run kconfig_default (unat (-1 :: u64)) (?b (?s0\<lparr>clk := k1\<rparr>)) = Inr ((), t)"
    "nemu_state t = \<lparr>state = NEMU_END, halt_pc = 0x8000000c, halt_ret = 0\<rparr>"
    "g_nr_guest_inst t = g_nr_guest_inst s + 4"
    by auto
  have "regs_ok kconfig_default (?b (?s0\<lparr>clk := k1\<rparr>))"
    using ok by (simp add: regs_ok_def RISCV_GPR_NUM_def kconfig_default_def)
  moreover have "plain_run kconfig_default (?b (?s0\<lparr>clk := k1\<rparr>))"
    using wp by (intro plain_default) (simp add: at_def)
  ultimately have ex: "execute kconfig_default ex (unat (-1 :: u64)) (?b (?s0\<lparr>clk := k1\<rparr>)) = Inr ((), t)"
    using t(1) execute_arch by metis
  from get_time_frame [of t] obtain t2 k2 where k2: "get_time t = Inr (t2, t\<lparr>clk := k2\<rparr>)" by blast
  have "init_isa kconfig_default s = Inr ((), at 0x80000000 ?g (boot_mem (mem s)) s)"
    using init_isa_default [OF len] by (simp only: at_updates(4))
  then show ?thesis
    using k1 ex k2 t(2,3) st
    by (simp add: cpu_exec_def set_state_def ended_def MAX_INST_TO_PRINT_def at_updates(2,3))
qed

end
