(* ===== verification/Minirv_Base.thy ===== *)
theory Minirv_Base
  imports Prelude
begin

text \<open>
  The target of the minirv tool chain (\<open>abstract-machine/tools/minirv\<close>): a machine with the eight base
  instructions add, addi, lui, lw, lbu, sw, sb and jalr, over 32 registers and a byte memory, and the
  lookup tables the macros of \<open>inst-replace.h\<close> read: the small ones of its \<open>.rodata\<close> section and
  \<open>lut.bin\<close>, which \<open>gen-lut.c\<close> writes. The macros keep temporaries in seven words below the stack
  pointer, the slots; code that only touches slots is reasoned about as if they were registers.
\<close>

section \<open>Bytes of words\<close>

definition word4 :: "u8 \<Rightarrow> u8 \<Rightarrow> u8 \<Rightarrow> u8 \<Rightarrow> u32" where
  "word4 a b c d = of_bytes [a, b, c, d]"

definition byte_of :: "u32 \<Rightarrow> nat \<Rightarrow> u8" where
  "byte_of w k = ucast (drop_bit (8 * k) w)"

definition set_byte :: "nat \<Rightarrow> u8 \<Rightarrow> u32 \<Rightarrow> u32" where
  "set_byte k b w = (let at = \<lambda>j. if j = k then b else byte_of w j in word4 (at 0) (at 1) (at 2) (at 3))"

definition ldw :: "(u32 \<Rightarrow> u8) \<Rightarrow> u32 \<Rightarrow> u32" where
  "ldw m a = word4 (m a) (m (a + 1)) (m (a + 2)) (m (a + 3))"

definition stw :: "u32 \<Rightarrow> u32 \<Rightarrow> (u32 \<Rightarrow> u8) \<Rightarrow> u32 \<Rightarrow> u8" where
  "stw a v m = m(a := byte_of v 0, a + 1 := byte_of v 1, a + 2 := byte_of v 2, a + 3 := byte_of v 3)"

lemma bytes_of_word: "word4 (byte_of w 0) (byte_of w (Suc 0)) (byte_of w 2) (byte_of w 3) = w"
proof -
  have "[byte_of w 0, byte_of w (Suc 0), byte_of w 2, byte_of w 3] = to_bytes 4 w"
    by (simp add: byte_of_def numeral_eq_Suc drop_bit_drop_bit)
  then show ?thesis unfolding word4_def by (simp only:) (simp add: of_bytes_to_bytes_full)
qed

lemma byte_of_word4 [simp]:
  "byte_of (word4 a b c d) 0 = a" "byte_of (word4 a b c d) (Suc 0) = b"
  "byte_of (word4 a b c d) 2 = c" "byte_of (word4 a b c d) 3 = d"
  by (rule bit_word_eqI, auto simp: byte_of_def word4_def bit_simps dest: bit_imp_le_length)+

lemma less_4_cases: "k < 4 \<Longrightarrow> k = 0 \<or> k = Suc 0 \<or> k = 2 \<or> k = (3::nat)"
  by linarith

lemma word_by_bytes:
  assumes "byte_of v 0 = byte_of w 0" "byte_of v (Suc 0) = byte_of w (Suc 0)" "byte_of v 2 = byte_of w 2"
    "byte_of v 3 = byte_of w 3"
  shows "v = w"
  using bytes_of_word [of v] bytes_of_word [of w] unfolding assms by (rule trans [OF sym])

lemma byte_of_set_byte [simp]:
  "k < 4 \<Longrightarrow> j < 4 \<Longrightarrow> byte_of (set_byte k b w) j = (if j = k then b else byte_of w j)"
  by (auto simp: set_byte_def Let_def dest!: less_4_cases)

lemma byte_of_0 [simp]: "byte_of 0 k = 0"
  by (simp add: byte_of_def)

lemma byte_of_ucast [simp]:
  "byte_of (ucast (b :: u8)) 0 = b" "0 < k \<Longrightarrow> byte_of (ucast (b :: u8)) k = 0"
  by (rule bit_word_eqI, auto simp: byte_of_def bit_simps dest: bit_imp_le_length)+

lemma byte_of_bitwise:
  "byte_of (v AND w) k = byte_of v k AND byte_of w k" "byte_of (v OR w) k = byte_of v k OR byte_of w k"
  "byte_of (v XOR w) k = byte_of v k XOR byte_of w k"
  by (simp_all add: byte_of_def unsigned_and_eq unsigned_or_eq unsigned_xor_eq)

lemma byte_of_not: "k < 4 \<Longrightarrow> byte_of (NOT w) k = NOT (byte_of w k)"
  by (rule bit_word_eqI) (auto simp: byte_of_def bit_simps)

section \<open>The machine\<close>

type_synonym xregs = "nat \<Rightarrow> u32"
type_synonym bmem = "u32 \<Rightarrow> u8"

record mini =
  mreg :: xregs
  mmem :: bmem
  mpc :: u32

abbreviation (input) "x_0 \<equiv> 0 :: nat"
abbreviation (input) "x_ra \<equiv> 1 :: nat"
abbreviation (input) "x_sp \<equiv> 2 :: nat"
abbreviation (input) "x_gp \<equiv> 3 :: nat"
abbreviation (input) "x_tp \<equiv> 4 :: nat"
abbreviation (input) "x_s0 \<equiv> 8 :: nat"
abbreviation (input) "x_s1 \<equiv> 9 :: nat"

text \<open>The base instructions. Immediates are given as the values they stand for.\<close>

datatype base =
    M_add nat nat nat
  | M_addi nat nat u32
  | M_lui nat u32
  | M_lw nat u32 nat
  | M_lbu nat u32 nat
  | M_sw nat u32 nat
  | M_sb nat u32 nat
  | M_jalr nat u32 nat

definition wr :: "nat \<Rightarrow> u32 \<Rightarrow> xregs \<Rightarrow> xregs" where
  "wr d v r = (if d = 0 then r else r(d := v))"

fun step :: "base \<Rightarrow> xregs \<times> bmem \<Rightarrow> xregs \<times> bmem" where
  "step (M_add d a b) (r, m) = (wr d (r a + r b) r, m)"
| "step (M_addi d a i) (r, m) = (wr d (r a + i) r, m)"
| "step (M_lui d i) (r, m) = (wr d i r, m)"
| "step (M_lw d off a) (r, m) = (wr d (ldw m (r a + off)) r, m)"
| "step (M_lbu d off a) (r, m) = (wr d (ucast (m (r a + off))) r, m)"
| "step (M_sw b off a) (r, m) = (r, stw (r a + off) (r b) m)"
| "step (M_sb b off a) (r, m) = (r, m(r a + off := byte_of (r b) 0))"
| "step (M_jalr d off a) (r, m) = (r, m)"

fun is_jump :: "base \<Rightarrow> bool" where
  "is_jump (M_jalr d off a) \<longleftrightarrow> True"
| "is_jump _ \<longleftrightarrow> False"

fun mexec :: "base \<Rightarrow> mini \<Rightarrow> mini" where
  "mexec (M_jalr d off a) s =
     s\<lparr>mreg := wr d (mpc s + 4) (mreg s), mpc := (mreg s a + off) AND NOT 1\<rparr>"
| "mexec i s = (let (r, m) = step i (mreg s, mmem s) in \<lparr>mreg = r, mmem = m, mpc = mpc s + 4\<rparr>)"

text \<open>Straight-line code runs to its end or to the first jump.\<close>

fun mrun :: "base list \<Rightarrow> mini \<Rightarrow> mini" where
  "mrun [] s = s"
| "mrun (i # is) s = (if is_jump i then mexec i s else mrun is (mexec i s))"

definition straight :: "base list \<Rightarrow> bool" where
  "straight is \<longleftrightarrow> list_all (\<lambda>i. \<not> is_jump i) is"

definition eff :: "base list \<Rightarrow> xregs \<times> bmem \<Rightarrow> xregs \<times> bmem" where
  "eff = fold step"

lemma straight_simps [simp]:
  "straight []" "straight (i # is) \<longleftrightarrow> \<not> is_jump i \<and> straight is"
  "straight (is @ js) \<longleftrightarrow> straight is \<and> straight js"
  by (simp_all add: straight_def)

lemma eff_simps [simp]: "eff [] s = s" "eff (i # is) s = eff is (step i s)" "eff (is @ js) s = eff js (eff is s)"
  by (simp_all add: eff_def)

lemma mexec_step:
  "\<not> is_jump i \<Longrightarrow> mexec i s = (let (r, m) = step i (mreg s, mmem s) in \<lparr>mreg = r, mmem = m, mpc = mpc s + 4\<rparr>)"
  by (cases i) simp_all

lemma mrun_straight:
  "straight is \<Longrightarrow> eff is (mreg s, mmem s) = (r, m) \<Longrightarrow>
   mrun (is @ js) s = mrun js \<lparr>mreg = r, mmem = m, mpc = mpc s + 4 * of_nat (length is)\<rparr>"
proof (induction "is" arbitrary: s)
  case Nil
  then have "s = \<lparr>mreg = r, mmem = m, mpc = mpc s\<rparr>" by simp
  then show ?case by simp
next
  case (Cons i "is")
  obtain r1 m1 where s: "step i (mreg s, mmem s) = (r1, m1)" by fastforce
  with Cons show ?case by (simp add: mexec_step algebra_simps)
qed

lemma wr_simps [simp]: "wr d v r 0 = r 0" "d \<noteq> a \<Longrightarrow> wr d v r a = r a" "d \<noteq> 0 \<Longrightarrow> wr d v r d = v"
  by (auto simp: wr_def)

section \<open>Stack slots\<close>

definition SP_VAR_BYTE :: "nat \<Rightarrow> nat \<Rightarrow> u32" where
  "SP_VAR_BYTE n boffset = - (4 * of_nat n) + of_nat boffset"

definition SP_VAR :: "nat \<Rightarrow> u32" where
  "SP_VAR n = SP_VAR_BYTE n 0"

abbreviation (input) "VAR_A \<equiv> 4 :: nat"
abbreviation (input) "VAR_B \<equiv> 5 :: nat"
abbreviation (input) "VAR_C \<equiv> 6 :: nat"
abbreviation (input) "VAR_D \<equiv> 7 :: nat"

definition is_slot :: "nat \<Rightarrow> bool" where
  "is_slot n \<longleftrightarrow> 0 < n \<and> n < 8"

definition scratch :: "u32 \<Rightarrow> u32 set" where
  "scratch v = {a. unat (a - (v - 28)) < 28}"

definition get_slot :: "u32 \<Rightarrow> nat \<Rightarrow> bmem \<Rightarrow> u32" where
  "get_slot v n m = ldw m (v + SP_VAR n)"

definition put_slot :: "u32 \<Rightarrow> nat \<Rightarrow> u32 \<Rightarrow> bmem \<Rightarrow> bmem" where
  "put_slot v n x m = stw (v + SP_VAR n) x m"

lemma is_slot_numerals [simp]:
  "is_slot (Suc 0)" "is_slot 2" "is_slot 3" "is_slot 4" "is_slot 5" "is_slot 6" "is_slot 7"
  by (simp_all add: is_slot_def)

lemma slot_offset: "v + SP_VAR n + 1 = v + SP_VAR_BYTE n 1" "v + SP_VAR n + 2 = v + SP_VAR_BYTE n 2"
  "v + SP_VAR n + 3 = v + SP_VAR_BYTE n 3" "v + SP_VAR n = v + SP_VAR_BYTE n 0"
  by (simp_all add: SP_VAR_def SP_VAR_BYTE_def)

lemma SP_VAR_BYTE_inject:
  assumes "is_slot n" "is_slot k" "b < 4" "c < 4"
  shows "SP_VAR_BYTE n b = SP_VAR_BYTE k c \<longleftrightarrow> n = k \<and> b = c"
proof -
  have "SP_VAR_BYTE n b = SP_VAR_BYTE k c \<longleftrightarrow> of_nat (b + 4 * k) = (of_nat (c + 4 * n) :: u32)"
    unfolding SP_VAR_BYTE_def by (simp add: algebra_simps)
  also have "\<dots> \<longleftrightarrow> b + 4 * k = c + 4 * n"
  proof
    assume e: "of_nat (b + 4 * k) = (of_nat (c + 4 * n) :: u32)"
    have "b + 4 * k < 2 ^ 32" "c + 4 * n < 2 ^ 32" using assms by (simp_all add: is_slot_def)
    then show "b + 4 * k = c + 4 * n" using arg_cong [OF e, of unat] by (simp only: unat_of_small)
  qed (simp only:)
  also have "\<dots> \<longleftrightarrow> n = k \<and> b = c" using assms by (auto simp: is_slot_def) presburger
  finally show ?thesis .
qed

lemma put_slot_bytes:
  "put_slot v n x m = m(v + SP_VAR_BYTE n 0 := byte_of x 0, v + SP_VAR_BYTE n 1 := byte_of x 1,
     v + SP_VAR_BYTE n 2 := byte_of x 2, v + SP_VAR_BYTE n 3 := byte_of x 3)"
  unfolding put_slot_def stw_def slot_offset(1-3) unfolding slot_offset ..

lemma get_slot_bytes:
  "get_slot v n m = word4 (m (v + SP_VAR_BYTE n 0)) (m (v + SP_VAR_BYTE n 1)) (m (v + SP_VAR_BYTE n 2))
     (m (v + SP_VAR_BYTE n 3))"
  unfolding get_slot_def ldw_def slot_offset(1-3) unfolding slot_offset ..

lemma get_put_slot [simp]:
  "is_slot n \<Longrightarrow> is_slot k \<Longrightarrow> get_slot v n (put_slot v k x m) = (if n = k then x else get_slot v n m)"
  unfolding get_slot_bytes put_slot_bytes
  by (simp add: SP_VAR_BYTE_inject bytes_of_word [unfolded One_nat_def])

lemma put_put_slot [simp]: "put_slot v n x (put_slot v n y m) = put_slot v n x m"
  unfolding put_slot_bytes by (rule ext) simp

lemma put_slot_swap:
  "is_slot n \<Longrightarrow> is_slot k \<Longrightarrow> n < k \<Longrightarrow> put_slot v n x (put_slot v k y m) = put_slot v k y (put_slot v n x m)"
  unfolding put_slot_bytes by (rule ext) (simp add: SP_VAR_BYTE_inject)

lemma load_slot_byte: "b < 4 \<Longrightarrow> m (v + SP_VAR_BYTE n b) = byte_of (get_slot v n m) b"
  unfolding get_slot_bytes by (auto dest!: less_4_cases)

lemma store_slot_byte:
  "b < 4 \<Longrightarrow> is_slot n \<Longrightarrow> m(v + SP_VAR_BYTE n b := x) = put_slot v n (set_byte b x (get_slot v n m)) m"
  unfolding get_slot_bytes put_slot_bytes
  by (rule ext) (auto simp: SP_VAR_BYTE_inject dest!: less_4_cases)

lemma slot_in_scratch:
  assumes "is_slot n" "b < 4"
  shows "v + SP_VAR_BYTE n b \<in> scratch v"
proof -
  have "v + SP_VAR_BYTE n b - (v - 28) = of_nat (28 + b - 4 * n)"
    using assms by (simp add: SP_VAR_BYTE_def of_nat_diff is_slot_def)
  moreover have "28 + b - 4 * n < 28" using assms unfolding is_slot_def by linarith
  ultimately show ?thesis by (simp add: scratch_def unat_of_small)
qed

lemma put_slot_outside [simp]: "is_slot n \<Longrightarrow> a \<notin> scratch v \<Longrightarrow> put_slot v n x m a = m a"
  unfolding put_slot_bytes using slot_in_scratch [of n _ v] by auto

text \<open>The base instructions on slots.\<close>

lemma step_slots:
  "is_slot n \<Longrightarrow> step (M_sw b (SP_VAR n) x_sp) (r, m) = (r, put_slot (r x_sp) n (r b) m)"
  "is_slot n \<Longrightarrow> step (M_lw d (SP_VAR n) x_sp) (r, m) = (wr d (get_slot (r x_sp) n m) r, m)"
  "is_slot n \<Longrightarrow> k < 4 \<Longrightarrow> step (M_sb b (SP_VAR_BYTE n k) x_sp) (r, m)
     = (r, put_slot (r x_sp) n (set_byte k (byte_of (r b) 0) (get_slot (r x_sp) n m)) m)"
  "is_slot n \<Longrightarrow> k < 4 \<Longrightarrow>
     step (M_lbu d (SP_VAR_BYTE n k) x_sp) (r, m) = (wr d (ucast (byte_of (get_slot (r x_sp) n m) k)) r, m)"
  by (simp_all add: put_slot_def get_slot_def [symmetric] store_slot_byte load_slot_byte)

section \<open>Lookup tables\<close>

text \<open>\<open>gen-lut.c\<close>: \<open>row * col\<close> entries, each written as the low \<open>entry_size\<close> bytes of an unsigned.\<close>

definition gen_table :: "nat \<Rightarrow> nat \<Rightarrow> nat \<Rightarrow> (nat \<Rightarrow> nat \<Rightarrow> u32) \<Rightarrow> u8 list" where
  "gen_table row col entry_size expr =
     concat (map (\<lambda>j. concat (map (\<lambda>i. to_bytes entry_size (expr j i)) [0..<col])) [0..<row])"

definition lut_bin :: "u8 list" where
  "lut_bin = gen_table 256 256 1 (\<lambda>j i. of_nat j AND of_nat i)
     @ gen_table 256 256 1 (\<lambda>j i. of_nat j OR of_nat i)
     @ gen_table 256 256 1 (\<lambda>j i. of_nat j XOR of_nat i)
     @ gen_table 32 256 4 (\<lambda>j i. push_bit j (of_nat i))
     @ gen_table 32 256 4 (\<lambda>j i. drop_bit j (push_bit 24 (of_nat i)))
     @ gen_table 32 256 4 (\<lambda>j i. signed_drop_bit j (push_bit 24 (of_nat i)))"

text \<open>Where the linker puts the tables and the scratch array of \<open>inst-replace.h\<close>.\<close>

record luts =
  same_result_table :: u32
  check_8bit_0_table :: u32
  slt1_table :: u32
  sltu1_table :: u32
  or1_table :: u32
  logic_shift_table :: u32
  check_same_array :: u32

definition and8_table :: "luts \<Rightarrow> u32" where
  "and8_table L = logic_shift_table L"

definition or8_table :: "luts \<Rightarrow> u32" where
  "or8_table L = and8_table L + 256 * 256"

definition xor8_table :: "luts \<Rightarrow> u32" where
  "xor8_table L = or8_table L + 256 * 256"

definition sll8_table :: "luts \<Rightarrow> u32" where
  "sll8_table L = xor8_table L + 256 * 256"

definition srl8_table :: "luts \<Rightarrow> u32" where
  "srl8_table L = sll8_table L + 32 * 256 * 4"

definition sra8_table :: "luts \<Rightarrow> u32" where
  "sra8_table L = srl8_table L + 32 * 256 * 4"

definition rodata :: "luts \<Rightarrow> (u32 \<times> u8 list) list" where
  "rodata L =
     [(same_result_table L, [1, 0, 0, 0, 0, 0, 0, 0]),
      (check_8bit_0_table L, 0 # replicate 255 1),
      (slt1_table L, [0, 1, 0, 0, 1, 1, 0, 1]),
      (sltu1_table L, [0, 1, 1, 1, 0, 0, 0, 1]),
      (or1_table L, [0, 1, 1, 1]),
      (logic_shift_table L, lut_bin)]"

definition span :: "u32 \<Rightarrow> nat \<Rightarrow> u32 set" where
  "span a n = {a + of_nat i |i. i < n}"

definition rom_addrs :: "luts \<Rightarrow> u32 set" where
  "rom_addrs L = (\<Union>(a, bs) \<in> set (rodata L). span a (length bs))"

definition array_addrs :: "luts \<Rightarrow> u32 set" where
  "array_addrs L = span (check_same_array L) 256"

definition holds :: "bmem \<Rightarrow> u32 \<Rightarrow> u8 list \<Rightarrow> bool" where
  "holds m a bs \<longleftrightarrow> (\<forall>n < length bs. m (a + of_nat n) = bs ! n)"

definition tables :: "luts \<Rightarrow> bmem \<Rightarrow> bool" where
  "tables L m \<longleftrightarrow> (\<forall>(a, bs) \<in> set (rodata L). holds m a bs)"

text \<open>The stack has room for the slots: they do not run into the tables or the scratch array.\<close>

definition clear :: "luts \<Rightarrow> u32 \<Rightarrow> bool" where
  "clear L v \<longleftrightarrow> rom_addrs L \<inter> scratch v = {} \<and> array_addrs L \<inter> scratch v = {}
     \<and> rom_addrs L \<inter> array_addrs L = {}"

definition env :: "luts \<Rightarrow> u32 \<Rightarrow> bmem \<Rightarrow> bool" where
  "env L v m \<longleftrightarrow> clear L v \<and> tables L m"

lemma tables_cong: "(\<And>a. a \<in> rom_addrs L \<Longrightarrow> m' a = m a) \<Longrightarrow> tables L m' = tables L m"
  unfolding tables_def holds_def rom_addrs_def span_def by fastforce

lemma env_cong: "(\<And>a. a \<in> rom_addrs L \<Longrightarrow> m' a = m a) \<Longrightarrow> env L v m' = env L v m"
  using tables_cong [of L m' m] by (simp add: env_def)

lemma env_put_slot [simp]: "is_slot n \<Longrightarrow> env L v (put_slot v n x m) = env L v m"
proof (cases "clear L v")
  case True
  moreover assume "is_slot n"
  ultimately have "tables L (put_slot v n x m) = tables L m"
    by (intro tables_cong put_slot_outside) (auto simp: clear_def)
  then show ?thesis by (simp add: env_def)
qed (simp add: env_def)

lemma env_array [simp]: "env L v m \<Longrightarrow> a \<in> array_addrs L \<Longrightarrow> env L v (m(a := x))"
  by (subst env_cong [where m = m]) (auto simp: env_def clear_def)

lemma table_at: "env L v m \<Longrightarrow> (a, bs) \<in> set (rodata L) \<Longrightarrow> n < length bs \<Longrightarrow> m (a + of_nat n) = bs ! n"
  by (auto simp: env_def tables_def holds_def)

subsection \<open>The entries\<close>

lemma length_concat_uniform: "(\<And>x. x \<in> set xss \<Longrightarrow> length x = c) \<Longrightarrow> length (concat xss) = length xss * c"
  by (induction xss) auto

lemma nth_concat_uniform:
  "(\<And>x. x \<in> set xss \<Longrightarrow> length x = c) \<Longrightarrow> j < length xss \<Longrightarrow> i < c \<Longrightarrow> concat xss ! (j * c + i) = xss ! j ! i"
proof (induction xss arbitrary: j)
  case (Cons x xss)
  then show ?case by (cases j) (auto simp: nth_append)
qed simp

lemma length_gen_table [simp]: "length (gen_table row col sz f) = row * (col * sz)"
proof -
  have row: "length (concat (map (\<lambda>i. to_bytes sz (f j i)) [0..<col])) = col * sz" for j
    by (subst length_concat_uniform [where c = sz]) auto
  show ?thesis unfolding gen_table_def by (subst length_concat_uniform [where c = "col * sz"]) (auto simp: row)
qed

lemma nth_gen_table:
  assumes "j < row" "i < col" "k < sz"
  shows "gen_table row col sz f ! (j * (col * sz) + (i * sz + k)) = to_bytes sz (f j i) ! k"
proof -
  have row: "length (concat (map (\<lambda>i. to_bytes sz (f j i)) [0..<col])) = col * sz" for j
    by (subst length_concat_uniform [where c = sz]) auto
  have "i * sz + k < col * sz"
    using assms mult_le_mono1 [of "Suc i" col sz] by simp
  then show ?thesis unfolding gen_table_def using assms
    by (subst nth_concat_uniform [where c = "col * sz"])
      (auto simp: row, subst nth_concat_uniform [where c = sz], auto)
qed

lemma ucast_of_nat_u8 [simp]: "ucast (of_nat n :: u32) = (of_nat n :: u8)"
  by (rule bit_word_eqI) (auto simp: bit_simps)

lemma lut_bin_nth:
  assumes "i < 256" "k < 4"
  shows "j < 256 \<Longrightarrow> lut_bin ! (256 * j + i) = of_nat j AND of_nat i"
    "j < 256 \<Longrightarrow> lut_bin ! (65536 + (256 * j + i)) = of_nat j OR of_nat i"
    "j < 256 \<Longrightarrow> lut_bin ! (131072 + (256 * j + i)) = of_nat j XOR of_nat i"
    "j < 32 \<Longrightarrow> lut_bin ! (196608 + (1024 * j + (4 * i + k))) = byte_of (push_bit j (of_nat i)) k"
    "j < 32 \<Longrightarrow> lut_bin ! (229376 + (1024 * j + (4 * i + k))) = byte_of (drop_bit j (push_bit 24 (of_nat i))) k"
    "j < 32 \<Longrightarrow>
       lut_bin ! (262144 + (1024 * j + (4 * i + k))) = byte_of (signed_drop_bit j (push_bit 24 (of_nat i))) k"
  using nth_gen_table [of j 256 i 256 0 1] nth_gen_table [of j 32 i 256 k 4] assms
  by (simp_all add: lut_bin_def nth_append to_bytes_nth byte_of_def mult.commute unsigned_and_eq
      unsigned_or_eq unsigned_xor_eq del: to_bytes.simps)

lemma length_lut_bin: "length lut_bin = 294912"
  by (simp add: lut_bin_def)

lemma lut_at:
  assumes "env L v m" "unat w < 294912"
  shows "m (logic_shift_table L + w) = lut_bin ! unat w"
  using table_at [OF assms(1), of "logic_shift_table L" lut_bin "unat w"] assms(2)
  by (simp add: rodata_def length_lut_bin)

lemma unat_plus_small: "unat a + unat b < 2 ^ 32 \<Longrightarrow> unat (a + b) = unat a + unat b" for a b :: u32
  by (simp add: unat_word_ariths)

lemma u8_bound: "unat (b :: u8) < 256"
  using unsigned_less [of b, where ?'a = nat] by simp

lemma lut_logic:
  assumes e: "env L v m" and w: "unat w = 256 * unat a + unat b"
  shows "m (and8_table L + w) = a AND b" "m (or8_table L + w) = a OR b" "m (xor8_table L + w) = a XOR b"
proof -
  have b: "unat w < 65536" using w u8_bound [of a] u8_bound [of b] by linarith
  then have "unat (65536 + w) = 65536 + unat w" "unat (131072 + w) = 131072 + unat w"
    using unat_plus_small [of 65536 w] unat_plus_small [of 131072 w] by simp_all
  with b lut_at [OF e, of w] lut_at [OF e, of "65536 + w"] lut_at [OF e, of "131072 + w"]
    lut_bin_nth(1-3) [of "unat b" 0 "unat a"] u8_bound [of a] u8_bound [of b]
  show "m (and8_table L + w) = a AND b" "m (or8_table L + w) = a OR b" "m (xor8_table L + w) = a XOR b"
    by (simp_all add: and8_table_def or8_table_def xor8_table_def w add_ac)
qed

lemma word4_bytes: "w = word4 (byte_of w 0) (byte_of w 1) (byte_of w 2) (byte_of w 3)"
  using bytes_of_word [of w] by simp

lemma ldw_lut:
  fixes b :: u8
  assumes e: "env L v m" and w: "unat w = c + (1024 * j + (4 * unat b + 0))" and c: "c \<le> 262144" "j < 32"
    and f: "\<And>k. k < 4 \<Longrightarrow> lut_bin ! (c + (1024 * j + (4 * unat b + k))) = byte_of x k"
  shows "ldw m (logic_shift_table L + w) = x"
proof -
  have "m (logic_shift_table L + w + of_nat k) = byte_of x k" if k: "k < 4" for k
  proof -
    have "unat w + 4 \<le> 294912" using w c u8_bound [of b] by linarith
    with k have "unat (w + of_nat k) = unat w + k" "unat w + k < 294912"
      using unat_plus_small [of w "of_nat k"] by (simp_all add: unat_of_small)
    then show ?thesis using lut_at [OF e, of "w + of_nat k"] f [OF k] by (simp add: w add.assoc)
  qed
  from this [of 0] this [of 1] this [of 2] this [of 3] show ?thesis
    unfolding ldw_def by (simp add: bytes_of_word)
qed

lemma lut_shift:
  fixes b :: u8
  assumes e: "env L v m" and w: "unat w = 1024 * j + 4 * unat b" and j: "j < 32"
  shows "ldw m (sll8_table L + w) = push_bit j (ucast b)"
    "ldw m (srl8_table L + w) = drop_bit j (push_bit 24 (ucast b))"
    "ldw m (sra8_table L + w) = signed_drop_bit j (push_bit 24 (ucast b))"
proof -
  have b: "unat w < 32768" using w u8_bound [of b] j by linarith
  then have u: "unat (196608 + w) = 196608 + unat w" "unat (229376 + w) = 229376 + unat w"
    "unat (262144 + w) = 262144 + unat w"
    using unat_plus_small [of 196608 w] unat_plus_small [of 229376 w] unat_plus_small [of 262144 w] by simp_all
  have t: "sll8_table L + w = logic_shift_table L + (196608 + w)" "srl8_table L + w = logic_shift_table L + (229376 + w)"
    "sra8_table L + w = logic_shift_table L + (262144 + w)"
    by (simp_all add: sra8_table_def srl8_table_def sll8_table_def xor8_table_def or8_table_def and8_table_def)
  note entries = lut_bin_nth(4-6) [OF u8_bound [of b], of _ j]
  show "ldw m (sll8_table L + w) = push_bit j (ucast b)" unfolding t
    by (rule ldw_lut [OF e, where j = j and b = b and c = 196608]) (use u w j entries in simp_all)
  show "ldw m (srl8_table L + w) = drop_bit j (push_bit 24 (ucast b))" unfolding t
    by (rule ldw_lut [OF e, where j = j and b = b and c = 229376]) (use u w j entries in simp_all)
  show "ldw m (sra8_table L + w) = signed_drop_bit j (push_bit 24 (ucast b))" unfolding t
    by (rule ldw_lut [OF e, where j = j and b = b and c = 262144]) (use u w j entries in simp_all)
qed

lemma env_holds:
  assumes e: "env L v m"
  shows "holds m (same_result_table L) [1, 0, 0, 0, 0, 0, 0, 0]"
    "holds m (check_8bit_0_table L) (0 # replicate 255 1)"
    "holds m (slt1_table L) [0, 1, 0, 0, 1, 1, 0, 1]" "holds m (sltu1_table L) [0, 1, 1, 1, 0, 0, 0, 1]"
    "holds m (or1_table L) [0, 1, 1, 1]"
  using e by (simp_all add: env_def tables_def rodata_def)

lemma holds_nth: "holds m a bs \<Longrightarrow> n < length bs \<Longrightarrow> m (a + of_nat n) = bs ! n"
  by (simp add: holds_def)

lemma rodata_entries: 
  assumes e: "env L v m"
  shows "k \<le> 4 \<Longrightarrow> m (same_result_table L + of_nat k) = of_bool (k = 0)"
    "k \<le> 2 \<Longrightarrow> m (or1_table L + of_nat k) = of_bool (k \<noteq> 0)"
  using holds_nth [OF env_holds(1) [OF e], of k] holds_nth [OF env_holds(5) [OF e], of k]
  by (auto simp: nth_Cons' numeral_eq_Suc le_Suc_eq)

lemma sign_table_entries:
  assumes e: "env L v m"
  shows "m (slt1_table L + (4 * of_bool a + 2 * of_bool b + of_bool c))
      = of_bool (((a \<noteq> b) \<and> (a \<noteq> c)) \<noteq> c)"
    "m (sltu1_table L + (4 * of_bool a + 2 * of_bool b + of_bool c))
      = of_bool ((((a \<noteq> b) \<and> (a \<noteq> c)) \<noteq> c) \<noteq> (a \<noteq> b))"
  using holds_nth [OF env_holds(3) [OF e], of "4 * of_bool a + 2 * of_bool b + of_bool c"]
    holds_nth [OF env_holds(4) [OF e], of "4 * of_bool a + 2 * of_bool b + of_bool c"]
  by (cases a; cases b; cases c; simp)+

lemma check_8bit_0_entry:
  assumes e: "env L v m"
  shows "m (check_8bit_0_table L + ucast (b :: u8)) = of_bool (b \<noteq> 0)"
  using holds_nth [OF env_holds(2) [OF e], of "unat b"] u8_bound [of b]
  by (auto simp: nth_Cons' unat_eq_0)

subsection \<open>Tables in sequence\<close>

text \<open>
  A linker that puts the sections one after the other, below the stack, sets the tables up as the macros
  expect. \<open>laid_out\<close> checks such a placement, \<open>rom_image\<close> is the memory it gives.
\<close>

fun laid_out :: "nat \<Rightarrow> (u32 \<times> u8 list) list \<Rightarrow> bool" where
  "laid_out n [] \<longleftrightarrow> n \<le> 2 ^ 32"
| "laid_out n ((a, bs) # ts) \<longleftrightarrow> n \<le> unat a \<and> laid_out (unat a + length bs) ts"

fun rom_image :: "(u32 \<times> u8 list) list \<Rightarrow> bmem" where
  "rom_image [] x = 0"
| "rom_image ((a, bs) # ts) x = (if unat (x - a) < length bs then bs ! unat (x - a) else rom_image ts x)"

lemma laid_out_bounds:
  "laid_out n ts \<Longrightarrow> n \<le> 2 ^ 32 \<and> ((a, bs) \<in> set ts \<longrightarrow> n \<le> unat a \<and> unat a + length bs \<le> 2 ^ 32)"
proof (induction n ts rule: laid_out.induct)
  case (2 n a' bs' ts)
  then show ?case using u32_bound [of a'] by auto
qed simp

lemma span_bounds: "x \<in> span a n \<Longrightarrow> unat a + n \<le> 2 ^ 32 \<Longrightarrow> unat a \<le> unat x \<and> unat x < unat a + n"
proof -
  assume "x \<in> span a n" "unat a + n \<le> 2 ^ 32"
  then obtain i where i: "x = a + of_nat i" "i < n" by (auto simp: span_def)
  with \<open>unat a + n \<le> 2 ^ 32\<close> have "unat x = unat a + i"
    using unat_plus_small [of a "of_nat i"] unat_of_small [of i] by simp
  with i show ?thesis by simp
qed

lemma scratch_bounds: "x \<in> scratch v \<Longrightarrow> 28 \<le> unat v \<Longrightarrow> unat v \<le> unat x + 28"
proof -
  assume "x \<in> scratch v" "28 \<le> unat v"
  moreover have "unat (v - 28) = unat v - 28" if "28 \<le> unat v" using that by (simp add: unat_sub word_le_nat_alt)
  moreover have "unat x = unat (x - (v - 28)) + unat (v - 28)" if "unat (x - (v - 28)) < 28" "28 \<le> unat v"
    using that unat_plus_small [of "x - (v - 28)" "v - 28"] u32_bound [of v] calculation(3) by simp
  ultimately show ?thesis by (simp add: scratch_def)
qed

lemma laid_out_holds:
  "laid_out n ts \<Longrightarrow> (a, bs) \<in> set ts \<Longrightarrow> holds (rom_image ts) a bs"
proof (induction n ts rule: laid_out.induct)
  case (2 n a' bs' ts)
  show ?case
  proof (cases "(a, bs) \<in> set ts")
    case True
    with 2 have b: "unat a' + length bs' \<le> unat a" "unat a + length bs \<le> 2 ^ 32"
      using laid_out_bounds [of "unat a' + length bs'" ts a bs] by auto
    have "\<not> unat (a + of_nat k - a') < length bs'" if "k < length bs" for k
    proof -
      have u: "unat (a + of_nat k) = unat a + k"
        using that b unat_plus_small [of a "of_nat k"] unat_of_small [of k] by simp
      then have "unat (a + of_nat k - a') = unat a + k - unat a'"
        using b by (subst unat_sub) (simp_all add: word_le_nat_alt)
      with b show ?thesis by simp
    qed
    then show ?thesis using 2 True by (auto simp: holds_def)
  next
    case False
    with 2 have "a = a'" "bs = bs'" "length bs \<le> 2 ^ 32"
      using laid_out_bounds [of n "(a', bs') # ts" a' bs'] by auto
    then show ?thesis by (auto simp: holds_def unat_of_small)
  qed
qed simp

lemma laid_out_append:
  "laid_out n (ts @ us) \<Longrightarrow> (a, bs) \<in> set ts \<Longrightarrow> (b, cs) \<in> set us \<Longrightarrow> unat a + length bs \<le> unat b"
proof (induction n ts rule: laid_out.induct)
  case (2 n a' bs' ts)
  then show ?case using laid_out_bounds [of "unat a' + length bs'" "ts @ us" b cs] by auto
qed simp

lemma laid_out_env:
  assumes l: "laid_out n (us @ rodata L @ [(check_same_array L, replicate 256 0)])"
    and v: "unat (check_same_array L) + 256 + 28 \<le> unat v"
  shows "env L v (rom_image (us @ rodata L @ [(check_same_array L, replicate 256 0)]))"
proof -
  let ?ts = "us @ rodata L @ [(check_same_array L, replicate 256 0)]"
  have c: "unat (check_same_array L) + 256 \<le> 2 ^ 32" using v u32_bound [of v] by simp
  have arr: "unat (check_same_array L) \<le> unat x \<and> unat x + 28 < unat v" if "x \<in> array_addrs L" for x
    using that span_bounds [of x "check_same_array L" 256] v c by (auto simp: array_addrs_def)
  have rom: "unat x < unat (check_same_array L)" if "x \<in> rom_addrs L" for x
  proof -
    from that obtain a bs where ab: "(a, bs) \<in> set (rodata L)" "x \<in> span a (length bs)" by (auto simp: rom_addrs_def)
    have "unat a + length bs \<le> unat (check_same_array L)"
      using laid_out_append [of n "us @ rodata L" "[(check_same_array L, replicate 256 0)]" a bs] l ab(1) by simp
    with span_bounds [OF ab(2)] c show ?thesis by linarith
  qed
  have "clear L v" unfolding clear_def using arr rom scratch_bounds [of _ v] v by fastforce
  moreover have "tables L (rom_image ?ts)" unfolding tables_def using laid_out_holds [OF l] by auto
  ultimately show ?thesis by (simp add: env_def)
qed

end
