(* ===== verification/Minirv_Alu.thy ===== *)
theory Minirv_Alu
  imports Minirv_Base
begin

text \<open>
  The arithmetic macros of \<open>inst-replace.h\<close>. Each macro is the list of base instructions it expands to.
  \<open>computes\<close> says what such code does: it leaves a value in the destination register, may spoil gp, tp and
  the words below the stack pointer, and changes nothing else. Subtraction, comparisons, bitwise operations,
  equality tests and shifts are shown to compute what their names promise, for all operands.
\<close>

section \<open>Addresses and temporaries\<close>

definition hi :: "u32 \<Rightarrow> u32" where
  "hi a = push_bit 12 (drop_bit 12 (a + 0x800))"

definition lo :: "u32 \<Rightarrow> u32" where
  "lo a = signed_take_bit 11 a"

lemma hi_lo [simp]: "hi a + lo a = a"
proof -
  have "signed_take_bit 11 a = take_bit 12 (a + 0x800) - 0x800"
  proof -
    have "signed_take_bit 11 a = word_of_int (signed_take_bit 11 (uint a))"
      by (rule bit_word_eqI) (auto simp: bit_simps min_def)
    also have "\<dots> = word_of_int (take_bit 12 (uint a + 0x800) - 0x800)"
      by (simp add: signed_take_bit_eq_take_bit_shift)
    also have "\<dots> = take_bit 12 (a + 0x800) - 0x800" 
      by transfer (simp add: take_bit_eq_mod mod_add_left_eq [of "_ mod 4294967296", symmetric] mod_mod_cancel mod_simps)
    finally show ?thesis .
  qed
  moreover have "push_bit 12 (drop_bit 12 (a + 0x800)) = a + 0x800 - take_bit 12 (a + 0x800)"
    using bits_ident [of 12 "a + 0x800"] by (simp add: eq_diff_eq)
  ultimately show ?thesis by (simp add: hi_def lo_def)
qed

definition la_m :: "nat \<Rightarrow> u32 \<Rightarrow> base list" where
  "la_m r addr = [M_lui r (hi addr), M_addi r r (lo addr)]"

definition PUSH :: "nat \<Rightarrow> nat \<Rightarrow> base" where
  "PUSH r n = M_sw r (SP_VAR n) x_sp"

definition POP :: "nat \<Rightarrow> nat \<Rightarrow> base" where
  "POP r n = M_lw r (SP_VAR n) x_sp"

definition mv :: "nat \<Rightarrow> nat \<Rightarrow> base" where
  "mv d a = M_addi d a 0"

definition not_m :: "luts \<Rightarrow> nat \<Rightarrow> nat \<Rightarrow> base list" where
  "not_m L d a = [PUSH x_gp 3, M_sw a (SP_VAR VAR_C) x_sp] @ la_m x_tp (xor8_table L + 0xff00) @ 
   [M_lbu x_gp (SP_VAR_BYTE VAR_C 3) x_sp, M_add x_gp x_gp x_tp, M_lbu x_gp 0 x_gp, M_sb x_gp (SP_VAR_BYTE VAR_D 3) x_sp,
    M_lbu x_gp (SP_VAR_BYTE VAR_C 2) x_sp, M_add x_gp x_gp x_tp, M_lbu x_gp 0 x_gp, M_sb x_gp (SP_VAR_BYTE VAR_D 2) x_sp,
    M_lbu x_gp (SP_VAR_BYTE VAR_C 1) x_sp, M_add x_gp x_gp x_tp, M_lbu x_gp 0 x_gp, M_sb x_gp (SP_VAR_BYTE VAR_D 1) x_sp,
    M_lbu x_gp (SP_VAR_BYTE VAR_C 0) x_sp, M_add x_gp x_gp x_tp, M_lbu x_gp 0 x_gp, M_sb x_gp (SP_VAR_BYTE VAR_D 0) x_sp,
    POP x_gp 3, M_lw d (SP_VAR VAR_D) x_sp]"

definition getbyte_m :: "nat \<Rightarrow> nat \<Rightarrow> nat \<Rightarrow> base list" where
  "getbyte_m d a b = [M_sw a (SP_VAR VAR_C) x_sp, M_lbu d (SP_VAR_BYTE VAR_C b) x_sp]"

definition sub_m :: "luts \<Rightarrow> nat \<Rightarrow> nat \<Rightarrow> nat \<Rightarrow> base list" where
  "sub_m L d a b = not_m L x_tp b @ [M_add d a x_tp, M_addi d d 1]"

lemma wr_upd [simp]: "d \<noteq> 0 \<Longrightarrow> wr d v r = r(d := v)"
  by (simp add: wr_def)

lemma step_load: "step (M_lbu d 0 a) (r, m) = (wr d (ucast (m (r a))) r, m)"
  "step (M_lw d 0 a) (r, m) = (wr d (ldw m (r a)) r, m)"
  by simp_all

lemmas steps = step_slots step.simps(1-3) step_load
declare step.simps [simp del]

lemma eff_la: "d \<noteq> 0 \<Longrightarrow> eff (la_m d x) (r, m) = (r(d := x), m)"
  by (simp add: la_m_def steps)

lemma eff_getbyte: "b < 4 \<Longrightarrow> eff (getbyte_m d a b) (r, m) = (wr d (ucast (byte_of (r a) b)) r, put_slot (r x_sp) 6 (r a) m)"
  by (simp add: getbyte_m_def steps)

lemma unat_ucast_u8 [simp]: "unat (ucast (b :: u8) :: u32) = unat b"
  using u8_bound [of b] by (simp add: unsigned_ucast_eq take_bit_nat_eq_self)

lemma lut_not: "env L v m \<Longrightarrow> m (ucast b + (xor8_table L + 0xff00)) = NOT b"
proof -
  assume e: "env L v m"
  have "unat (0xff00 + ucast b :: u32) = 256 * unat (255 :: u8) + unat b"
    using unat_plus_small [of "0xff00" "ucast b"] u8_bound [of b] by simp
  moreover have "255 XOR b = NOT b"
    by (rule bit_word_eqI) (auto simp: bit_simps bit_numeral_rec less_Suc_eq numeral_eq_Suc)
  ultimately show ?thesis using lut_logic(3) [OF e, of "0xff00 + ucast b" 255 b] by (simp only: add_ac)
qed

lemma not_bytes:
  "set_byte 0 (NOT (byte_of w 0)) (set_byte (Suc 0) (NOT (byte_of w (Suc 0)))
     (set_byte 2 (NOT (byte_of w 2)) (set_byte 3 (NOT (byte_of w 3)) x))) = NOT w"
  by (rule word_by_bytes) (simp_all add: byte_of_not)

lemma eff_not: 
  assumes "env L (r x_sp) m" "d \<noteq> 0"
  shows "eff (not_m L d a) (r, m) = (r(x_tp := xor8_table L + 0xff00, d := NOT (r a)),
    put_slot (r x_sp) 7 (NOT (r a)) (put_slot (r x_sp) 6 (r a) (put_slot (r x_sp) 3 (r x_gp) m)))"
  using assms unfolding not_m_def PUSH_def POP_def append_Cons append_Nil eff_simps
  by (simp add: steps eff_la lut_not [of L "r 2"] not_bytes) (rule ext, simp)

lemma eff_sub:
  assumes "env L (r x_sp) m" "d \<noteq> 0" "a \<noteq> x_tp"
  shows "eff (sub_m L d a b) (r, m) = (r(x_tp := NOT (r b), d := r a - r b),
    put_slot (r x_sp) 7 (NOT (r b)) (put_slot (r x_sp) 6 (r b) (put_slot (r x_sp) 3 (r x_gp) m)))"
  using assms by (simp add: sub_m_def eff_not steps not_eq_complement)

definition sh_m :: "nat \<Rightarrow> u32 \<Rightarrow> nat \<Rightarrow> base list" where
  "sh_m b off a = [M_sb b off a] @ getbyte_m x_tp b 1 @ [M_sb x_tp (1 + off) a]"

lemma int_mod_diff: "0 \<le> x \<Longrightarrow> x < n \<Longrightarrow> 0 \<le> y \<Longrightarrow> y < n \<Longrightarrow> (x - y) mod n = (if y \<le> x then x - y else x - y + n)" for x y n :: int
  using mod_pos_pos_trivial [of "x - y" n] mod_pos_pos_trivial [of "x - y + n" n] by auto

lemma u32_uint: "0 \<le> uint x" "uint x < 4294967296" for x :: u32
  using uint_bounded [of x] by simp_all

lemma bit_31_uint: "bit x 31 \<longleftrightarrow> 2147483648 \<le> uint x" for x :: u32
proof -
  have "uint x div 2 ^ 31 = (if 2147483648 \<le> uint x then 1 else 0)"
    using u32_uint [of x] by (auto intro: int_div_pos_eq [where r = "uint x - 2147483648"] div_pos_pos_trivial)
  then show ?thesis using bit_uint_iff [of x 31] by (auto simp: bit_iff_odd [of "uint x"] split: if_splits)
qed

lemma sint_uint_31: "sint x = uint x - (if 2147483648 \<le> uint x then 4294967296 else 0)" for x :: u32
proof -
  have "sint x = (uint x + 2147483648) mod 4294967296 - 2147483648"
    by (simp add: sint_uint signed_take_bit_eq_take_bit_shift take_bit_eq_mod)
  then show ?thesis using u32_uint [of x] int_mod_diff [of "uint x" 4294967296 2147483648]
     minus_mod_self2 [of "uint x + 2147483648" 4294967296] by auto
qed

lemma uint_diff: "uint (a - b) = (if uint b \<le> uint a then uint a - uint b else uint a - uint b + 4294967296)" for a b :: u32
  using u32_uint [of a] u32_uint [of b] by (simp add: uint_word_ariths int_mod_diff)

lemma sign_bits_int:
  fixes x y d :: int
  assumes "0 \<le> x" "x < 4294967296" "0 \<le> y" "y < 4294967296"
    and d: "d = (if y \<le> x then x - y else x - y + 4294967296)"
  defines "p \<equiv> \<lambda>z. 2147483648 \<le> z"
  shows "((p x \<noteq> p y) \<and> (p x \<noteq> p d)) \<noteq> p d \<longleftrightarrow>
      x - (if p x then 4294967296 else 0) < y - (if p y then 4294967296 else 0)"
    and "((((p x \<noteq> p y) \<and> (p x \<noteq> p d)) \<noteq> p d) \<noteq> (p x \<noteq> p y)) \<longleftrightarrow> x < y"
  using assms by (cases "p x"; cases "p y"; cases "y \<le> x"; simp)+

lemma slt_bits:
  "((bit a 31 \<noteq> bit b 31) \<and> (bit a 31 \<noteq> bit (a - b) 31)) \<noteq> bit (a - b) 31 \<longleftrightarrow> sint a < sint b"
  "((((bit a 31 \<noteq> bit b 31) \<and> (bit a 31 \<noteq> bit (a - b) 31)) \<noteq> bit (a - b) 31) \<noteq> (bit a 31 \<noteq> bit b 31))
     \<longleftrightarrow> a < b" for a b :: u32
  unfolding sint_uint_31 bit_31_uint word_less_def
  by (rule sign_bits_int [OF u32_uint u32_uint uint_diff])+

function slli_m :: "nat \<Rightarrow> nat \<Rightarrow> nat \<Rightarrow> base list" where
  "slli_m d a i =
     (if i = 0 then if d \<noteq> a then [mv d a] else []
      else if 24 \<le> i then
        [M_sw x_0 (SP_VAR VAR_A) x_sp, M_sb a (SP_VAR_BYTE VAR_A 3) x_sp, M_lw d (SP_VAR VAR_A) x_sp]
        @ slli_m d d (i - 24)
      else if 16 \<le> i then
        [M_sw x_0 (SP_VAR VAR_A) x_sp] @ sh_m a (SP_VAR_BYTE VAR_A 2) x_sp @ [M_lw d (SP_VAR VAR_A) x_sp]
        @ slli_m d d (i - 16)
      else M_add d a a # replicate (i - 1) (M_add d d d))"
  by auto
termination by (relation "measure (\<lambda>(d, a, i). i)") auto
declare slli_m.simps [simp del]

definition msb_m :: "nat \<Rightarrow> nat \<Rightarrow> base list" where
  "msb_m d a = getbyte_m d a 3 @ slli_m d d 1 @ getbyte_m d d 1"

definition slt_template :: "luts \<Rightarrow> u32 \<Rightarrow> nat \<Rightarrow> nat \<Rightarrow> nat \<Rightarrow> base list" where
  "slt_template L lut d a b =
     [PUSH x_s0 1, PUSH x_s1 2, M_sw b (SP_VAR VAR_A) x_sp, mv x_s0 a, M_lw x_s1 (SP_VAR VAR_A) x_sp]
     @ msb_m x_gp x_s0 @ slli_m x_gp x_gp 1 @ msb_m x_tp x_s1 @ [M_add x_gp x_gp x_tp] @ slli_m x_gp x_gp 1
     @ sub_m L x_tp x_s0 x_s1 @ msb_m x_tp x_tp @ [M_add x_gp x_gp x_tp]
     @ la_m x_tp lut @ [M_add x_tp x_tp x_gp, POP x_s1 2, POP x_s0 1, M_lbu d 0 x_tp]"

lemma push_bit_double: "push_bit k (x + x) = push_bit (Suc k) x" for x :: u32
  by (simp add: push_bit_eq_mult algebra_simps)

lemma eff_doubles:
  "d \<noteq> 0 \<Longrightarrow> eff (replicate k (M_add d d d)) (r, m) = (r(d := push_bit k (r d)), m)"
  by (induction k arbitrary: r) (simp_all add: steps push_bit_double mult.commute)

lemma eff_slli_small:
  assumes "0 < i" "i < 16" "d \<noteq> 0"
  shows "eff (slli_m d a i) (r, m) = (r(d := push_bit i (r a)), m)"
proof -
  have "eff (slli_m d a i) (r, m) = (r(d := push_bit (i - 1) (r a + r a)), m)"
    using assms by (simp add: slli_m.simps [of d a i] steps eff_doubles)
  moreover have "push_bit (i - 1) (r a + r a) = push_bit i (r a)"
    using assms push_bit_double [of "i - 1" "r a"] by simp
  ultimately show ?thesis by simp
qed

lemma top_bit_31: "(ucast (byte_of (push_bit 1 (ucast (byte_of w 3))) 1) :: u32) = of_bool (bit w 31)"
  unfolding byte_of_def
  by (rule bit_word_eqI, unfold bit_unsigned_iff bit_drop_bit_eq bit_push_bit_iff)
    (auto simp: bit_simps)

lemma eff_msb:
  assumes "d \<noteq> 0" "d \<noteq> x_sp"
  shows "eff (msb_m d a) (r, m) =
    (r(d := of_bool (bit (r a) 31)), put_slot (r x_sp) 6 (push_bit 1 (ucast (byte_of (r a) 3))) m)"
  using assms top_bit_31 [of "r a"] by (simp add: msb_m_def eff_getbyte eff_slli_small)

definition dead :: "luts \<Rightarrow> u32 \<Rightarrow> u32 set" where
  "dead L v = scratch v \<union> array_addrs L"

definition computes :: "luts \<Rightarrow> base list \<Rightarrow> xregs \<times> bmem \<Rightarrow> nat \<Rightarrow> u32 \<Rightarrow> bool" where
  "computes L code s d x \<longleftrightarrow> (case eff code s of (r', m') \<Rightarrow>
     r' d = x \<and> (\<forall>q. q \<notin> {d, x_gp, x_tp} \<longrightarrow> r' q = fst s q)
     \<and> (\<forall>a. a \<notin> dead L (fst s x_sp) \<longrightarrow> m' a = snd s a))"

lemma not_dead [simp]: "a \<notin> dead L v \<Longrightarrow> a \<notin> scratch v"
  by (simp add: dead_def)


lemma sign_table_numerals:
  assumes e: "env L v m"
  shows "m (slt1_table L) = 0" "m (slt1_table L + 1) = 1" "m (slt1_table L + 2) = 0" "m (slt1_table L + 3) = 0"
    "m (slt1_table L + 4) = 1" "m (slt1_table L + 5) = 1" "m (slt1_table L + 6) = 0" "m (slt1_table L + 7) = 1"
    "m (sltu1_table L) = 0" "m (sltu1_table L + 1) = 1" "m (sltu1_table L + 2) = 1" "m (sltu1_table L + 3) = 1"
    "m (sltu1_table L + 4) = 0" "m (sltu1_table L + 5) = 0" "m (sltu1_table L + 6) = 0" "m (sltu1_table L + 7) = 1"
  using sign_table_entries [OF e, of True True True] sign_table_entries [OF e, of True True False]
    sign_table_entries [OF e, of True False True] sign_table_entries [OF e, of True False False]
    sign_table_entries [OF e, of False True True] sign_table_entries [OF e, of False True False]
    sign_table_entries [OF e, of False False True] sign_table_entries [OF e, of False False False]
  by simp_all

lemma computes_slt:
  assumes "env L (r x_sp) m" "d \<noteq> 0" "r 0 = 0"
  shows "computes L (slt_template L (slt1_table L) d a b) (r, m) d (of_bool (sint (r a) < sint (r b)))"
    "computes L (slt_template L (sltu1_table L) d a b) (r, m) d (of_bool (r a < r b))"
  unfolding slt_template_def PUSH_def POP_def computes_def slt_bits [symmetric]
  using assms by (simp_all only: append_Cons append_Nil eff_simps)
   (simp_all add: steps mv_def eff_msb eff_sub eff_la eff_slli_small sign_table_numerals [of L "r 2"])

definition logic8_byte_internal :: "nat \<Rightarrow> nat \<Rightarrow> base list" where
  "logic8_byte_internal lut_reg boffset =
     [M_lbu x_tp (SP_VAR_BYTE VAR_A boffset) x_sp, M_sb x_tp (SP_VAR_BYTE VAR_D 1) x_sp,
      M_lbu x_tp (SP_VAR_BYTE VAR_B boffset) x_sp, M_sb x_tp (SP_VAR_BYTE VAR_D 0) x_sp,
      M_lw x_tp (SP_VAR VAR_D) x_sp, M_add x_tp lut_reg x_tp, M_lbu x_tp 0 x_tp,
      M_sb x_tp (SP_VAR_BYTE VAR_C boffset) x_sp]"

definition logic_m :: "u32 \<Rightarrow> nat \<Rightarrow> nat \<Rightarrow> nat \<Rightarrow> base list option" where
  "logic_m lut d a b =
     (if d = x_0 then Some []
      else if d = x_sp \<or> a = x_sp \<or> b = x_sp then None
      else if d = x_gp \<or> a = x_gp \<or> b = x_gp then None
      else if d = x_tp \<or> a = x_tp then None
      else Some ([M_sw a (SP_VAR VAR_A) x_sp, M_sw b (SP_VAR VAR_B) x_sp] @ la_m d lut
        @ [M_sw x_0 (SP_VAR VAR_D) x_sp] @ logic8_byte_internal d 3 @ logic8_byte_internal d 2
        @ logic8_byte_internal d 1 @ logic8_byte_internal d 0 @ [M_lw d (SP_VAR VAR_C) x_sp]))"

definition idx :: "u8 \<Rightarrow> u8 \<Rightarrow> u32" where
  "idx j i = word4 i j 0 0"

lemma idx_set_byte:
  "set_byte (Suc 0) j 0 = idx j 0" "set_byte 0 i (idx j k) = idx j i" "set_byte (Suc 0) j (idx k i) = idx j i"
  by (rule word_by_bytes; simp add: idx_def)+

lemma unat_idx: "unat (idx j i) = 256 * unat j + unat i"
proof -
  have "idx j i = push_bit 8 (ucast j) OR ucast i" by (simp add: idx_def word4_def or.commute)
  also have "\<dots> = push_bit 8 (ucast j) + ucast i"
    by (rule disjunctive_add_eq_or [symmetric]) (rule bit_word_eqI, auto simp: bit_simps dest: bit_imp_le_length)
  also have "\<dots> = of_nat (256 * unat j + unat i)" by (simp add: push_bit_eq_mult)
  finally show ?thesis using u8_bound [of i] u8_bound [of j] by (simp add: unat_of_small del: of_nat_add of_nat_mult)
qed

lemmas lut_idx = lut_logic [OF _ unat_idx]

lemma word_from_bytes:
  "byte_of w 0 = a \<Longrightarrow> byte_of w (Suc 0) = b \<Longrightarrow> byte_of w 2 = c \<Longrightarrow> byte_of w 3 = d \<Longrightarrow>
   set_byte 0 a (set_byte (Suc 0) b (set_byte 2 c (set_byte 3 d x))) = w"
  by (rule word_by_bytes) simp_all

lemma computes_logic:
  assumes "env L (r x_sp) m" "r 0 = 0" "logic_m lut d a b = Some code" "d \<noteq> 0"
  shows "lut = and8_table L \<Longrightarrow> computes L code (r, m) d (r a AND r b)"
    "lut = or8_table L \<Longrightarrow> computes L code (r, m) d (r a OR r b)"
    "lut = xor8_table L \<Longrightarrow> computes L code (r, m) d (r a XOR r b)"
  using assms(1,2,4) assms(3) [symmetric]
  by (simp_all add: logic_m_def computes_def logic8_byte_internal_def steps eff_la idx_set_byte lut_idx [of L "r 2"]
     split: if_splits)
   (rule word_from_bytes; simp add: byte_of_bitwise)+

definition check_8bit_same :: "nat \<Rightarrow> nat \<Rightarrow> nat \<Rightarrow> base list" where
  "check_8bit_same tab d boffset =
     [M_lbu d (SP_VAR_BYTE VAR_A boffset) x_sp, M_add x_tp tab d, M_addi d x_0 1, M_sb d 0 x_tp,
      M_lbu d (SP_VAR_BYTE VAR_B boffset) x_sp, M_add d tab d, M_sb x_0 0 d, M_lbu d 0 x_tp]"

definition seq_m :: "luts \<Rightarrow> nat \<Rightarrow> nat \<Rightarrow> nat \<Rightarrow> base list" where
  "seq_m L d a b =
     [M_sw a (SP_VAR VAR_A) x_sp, M_sw b (SP_VAR VAR_B) x_sp, PUSH x_s0 1, PUSH x_s1 2]
     @ la_m x_s0 (check_same_array L)
     @ check_8bit_same x_s0 x_gp 0
     @ check_8bit_same x_s0 x_s1 1 @ [M_add x_gp x_gp x_s1]
     @ check_8bit_same x_s0 x_s1 2 @ [M_add x_gp x_gp x_s1]
     @ check_8bit_same x_s0 x_s1 3 @ [M_add x_gp x_gp x_s1]
     @ la_m x_tp (same_result_table L) @ [M_add x_tp x_tp x_gp, M_lbu d 0 x_tp, POP x_s1 2, POP x_s0 1]"

definition check_8bit_0 :: "nat \<Rightarrow> nat \<Rightarrow> nat \<Rightarrow> base list" where
  "check_8bit_0 tab d boffset =
     [M_lbu d (SP_VAR_BYTE VAR_A boffset) x_sp, M_add d tab d, M_lbu d 0 d]"

definition seqz_m :: "luts \<Rightarrow> nat \<Rightarrow> nat \<Rightarrow> base list" where
  "seqz_m L d a =
     [M_sw a (SP_VAR VAR_A) x_sp, PUSH x_s0 1] @ la_m x_s0 (check_8bit_0_table L)
     @ check_8bit_0 x_s0 x_gp 0
     @ check_8bit_0 x_s0 x_tp 1 @ [M_add x_gp x_gp x_tp]
     @ check_8bit_0 x_s0 x_tp 2 @ [M_add x_gp x_gp x_tp]
     @ check_8bit_0 x_s0 x_tp 3 @ [M_add x_gp x_gp x_tp]
     @ la_m x_tp (same_result_table L) @ [M_add x_tp x_tp x_gp, M_lbu d 0 x_tp, POP x_s0 1]"

lemma zero_by_bytes:
  "w = 0 \<longleftrightarrow> byte_of w 0 = 0 \<and> byte_of w (Suc 0) = 0 \<and> byte_of w 2 = 0 \<and> byte_of w 3 = 0"
  using word_by_bytes [of w 0] by auto

lemma equal_by_bytes:
  "v = w \<longleftrightarrow> byte_of v 0 = byte_of w 0 \<and> byte_of v (Suc 0) = byte_of w (Suc 0) \<and> byte_of v 2 = byte_of w 2
     \<and> byte_of v 3 = byte_of w 3"
  using word_by_bytes [of v w] by blast

lemma same_result_numerals:
  assumes "env L v m"
  shows "m (same_result_table L) = 1" "m (same_result_table L + 1) = 0" "m (same_result_table L + 2) = 0"
    "m (same_result_table L + 3) = 0" "m (same_result_table L + 4) = 0"
  using rodata_entries(1) [OF assms, of 0] rodata_entries(1) [OF assms, of 1] rodata_entries(1) [OF assms, of 2]
    rodata_entries(1) [OF assms, of 3] rodata_entries(1) [OF assms, of 4] by simp_all

lemma computes_seqz:
  assumes "env L (r x_sp) m" "r 0 = 0" "d \<noteq> 0" "d \<noteq> x_sp" "d \<noteq> x_s0"
  shows "computes L (seqz_m L d a) (r, m) d (of_bool (r a = 0))"
  unfolding zero_by_bytes [of "r a"]
  using assms
  by (simp add: seqz_m_def computes_def check_8bit_0_def PUSH_def POP_def steps eff_la check_8bit_0_entry [of L "r 2"] same_result_numerals [of L "r 2"])

lemma seqz_s0:
  assumes "env L (r x_sp) m" "r 0 = 0"
  shows "fst (eff (seqz_m L x_s0 a) (r, m)) x_s0 = r x_s0"
  using assms
  by (simp add: seqz_m_def check_8bit_0_def PUSH_def POP_def steps eff_la)

definition array_store :: "luts \<Rightarrow> u8 \<Rightarrow> u8 \<Rightarrow> bmem \<Rightarrow> bmem" where
  "array_store L b x m = m(check_same_array L + ucast b := x)"

lemma array_addr: "check_same_array L + ucast (b :: u8) \<in> array_addrs L"
  unfolding array_addrs_def span_def using u8_bound [of b] by (auto intro!: exI [of _ "unat b"])

lemma array_store_env [simp]: "env L v m \<Longrightarrow> env L v (array_store L b x m)"
  by (simp add: array_store_def array_addr)

lemma array_store_slot [simp]:
  assumes "env L v m" "is_slot n"
  shows "get_slot v n (array_store L b x m) = get_slot v n m"
proof -
  have "v + SP_VAR_BYTE n k \<noteq> check_same_array L + ucast b" if "k < 4" for k
    using slot_in_scratch [OF assms(2) that, of v] array_addr [of L b] assms(1) by (auto simp: env_def clear_def)
  then show ?thesis unfolding array_store_def get_slot_bytes by simp
qed

lemma array_store_outside [simp]: "a \<notin> dead L v \<Longrightarrow> array_store L b x m a = m a"
  using array_addr [of L b] by (auto simp: array_store_def dead_def)

lemma step_store: "step (M_sb b 0 a) (r, m) = (r, m(r a := byte_of (r b) 0))"
  by (simp add: step.simps)

lemma array_store_at [simp]:
  "array_store L b x m (check_same_array L + ucast c) = (if b = c then x else m (check_same_array L + ucast c))"
proof -
  have "(ucast b :: u32) = ucast c \<longleftrightarrow> b = c" by (metis unat_ucast_u8 unsigned_word_eqI)
  then show ?thesis by (auto simp: array_store_def)
qed

lemma byte_of_1 [simp]: "byte_of 1 0 = 1"
  by (simp add: byte_of_def)

lemma eff_check_same:
  assumes "r 0 = 0" "r x_s0 = check_same_array L" "d \<noteq> 0" "d \<noteq> x_sp" "d \<noteq> x_tp" "d \<noteq> x_s0" "k < 4"
    "env L (r x_sp) m"
  defines "a \<equiv> byte_of (get_slot (r x_sp) 4 m) k" and "b \<equiv> byte_of (get_slot (r x_sp) 5 m) k"
  shows "eff (check_8bit_same x_s0 d k) (r, m) =
    (r(x_tp := check_same_array L + ucast a, d := of_bool (a \<noteq> b)), array_store L b 0 (array_store L a 1 m))"
  using assms by (simp add: check_8bit_same_def steps step_store array_store_def [symmetric])

lemma computes_seq:
  assumes "env L (r x_sp) m" "r 0 = 0" "d \<noteq> 0" "d \<noteq> x_sp" "d \<noteq> x_s0" "d \<noteq> x_s1"
  shows "computes L (seq_m L d a b) (r, m) d (of_bool (r a = r b))"
  unfolding equal_by_bytes [of "r a" "r b"]
  using assms
  by (simp add: seq_m_def computes_def PUSH_def POP_def steps eff_la eff_check_same [of _ L] same_result_numerals [of L "r 2"])

definition getshamt :: "luts \<Rightarrow> nat \<Rightarrow> nat \<Rightarrow> base list" where
  "getshamt L d a = [M_sb a (SP_VAR_BYTE VAR_B 0) x_sp, M_lbu d (SP_VAR_BYTE VAR_B 0) x_sp]
     @ la_m x_tp (and8_table L + push_bit 8 0x1f) @ [M_add d d x_tp, M_lbu d 0 d]"

definition get_shift_byte_in_tp :: "nat \<Rightarrow> nat \<Rightarrow> base list" where
  "get_shift_byte_in_tp base boffset =
     [M_lbu x_tp (SP_VAR_BYTE VAR_A boffset) x_sp] @ slli_m x_tp x_tp 2 @ [M_add x_tp base x_tp, M_lw x_tp 0 x_tp]"

definition sll_m :: "luts \<Rightarrow> nat \<Rightarrow> nat \<Rightarrow> nat \<Rightarrow> base list" where
  "sll_m L d a b =
     [PUSH x_s0 1, M_sw a (SP_VAR VAR_A) x_sp] @ getshamt L x_s0 b
     @ [M_sw x_0 (SP_VAR VAR_B) x_sp, M_sb x_s0 (SP_VAR_BYTE VAR_B 1) x_sp, M_lw x_s0 (SP_VAR VAR_B) x_sp]
     @ slli_m x_s0 x_s0 2 @ la_m x_tp (sll8_table L) @ [M_add x_s0 x_s0 x_tp, M_sw x_0 (SP_VAR VAR_B) x_sp]
     @ get_shift_byte_in_tp x_s0 3
     @ [M_sb x_tp (SP_VAR_BYTE VAR_B 3) x_sp, M_lw x_gp (SP_VAR VAR_B) x_sp]
     @ get_shift_byte_in_tp x_s0 2
     @ sh_m x_tp (SP_VAR_BYTE VAR_B 2) x_sp @ [M_lw x_tp (SP_VAR VAR_B) x_sp, M_add x_gp x_gp x_tp]
     @ get_shift_byte_in_tp x_s0 1
     @ slli_m x_tp x_tp 8 @ [M_add x_gp x_gp x_tp]
     @ get_shift_byte_in_tp x_s0 0
     @ [POP x_s0 1, M_add d x_gp x_tp]"

definition shamt_of :: "u32 \<Rightarrow> u8" where
  "shamt_of w = 0x1f AND byte_of w 0"

lemma unat_shamt: "unat (shamt_of w) = unat w mod 32"
proof -
  have "shamt_of w = take_bit 5 (ucast w)"
    by (simp add: shamt_of_def byte_of_def take_bit_eq_mask mask_eq_exp_minus_1 and.commute)
  then have "unat (shamt_of w) = take_bit 5 (take_bit 8 (unat w))"
    by (simp only: unsigned_take_bit_eq unsigned_ucast_eq) simp
  then show ?thesis by (simp add: take_bit_eq_mod mod_mod_cancel)
qed

lemma eff_getshamt:
  assumes "env L (r x_sp) m" "d \<noteq> 0" "d \<noteq> x_sp" "d \<noteq> x_tp"
  shows "eff (getshamt L d a) (r, m) = (r(x_tp := and8_table L + 0x1f00, d := ucast (shamt_of (r a))),
     put_slot (r x_sp) 5 (set_byte 0 (byte_of (r a) 0) (get_slot (r x_sp) 5 m)) m)"
proof -
  have t: "m' (ucast b + (and8_table L + 0x1f00)) = 0x1f AND b" if "env L (r x_sp) m'" for m' b
  proof -
    have "unat (0x1f00 + ucast b :: u32) = 256 * unat (0x1f :: u8) + unat b"
      using unat_plus_small [of "0x1f00" "ucast b"] u8_bound [of b] by simp
    then show ?thesis using lut_logic(1) [OF that, of "0x1f00 + ucast b" "0x1f" b] by (simp only: add_ac)
  qed
  show ?thesis using assms by (simp add: getshamt_def steps eff_la t shamt_of_def)
qed

lemma eff_get_shift_byte:
  assumes "k < 4" "base \<noteq> x_tp"
  shows "eff (get_shift_byte_in_tp base k) (r, m) =
     (r(x_tp := ldw m (r base + push_bit 2 (ucast (byte_of (get_slot (r x_sp) 4 m) k)))), m)"
  using assms by (simp add: get_shift_byte_in_tp_def steps eff_slli_small)

lemma unat_shift_index:
  assumes "unat c = 1024 * j" "j < 32"
  shows "unat (c + push_bit 2 (ucast (b :: u8)) :: u32) = 1024 * j + 4 * unat b"
proof -
  have "push_bit 2 (ucast b :: u32) = of_nat (4 * unat b)" by (simp add: push_bit_eq_mult)
  then have "unat (push_bit 2 (ucast b :: u32)) = 4 * unat b"
    using u8_bound [of b] by (simp add: unat_of_small del: of_nat_mult)
  then show ?thesis using assms u8_bound [of b] unat_plus_small [of c "push_bit 2 (ucast b)"] by simp
qed

lemma lut_shift_base:
  assumes e: "env L v m" and c: "unat c = 1024 * j" "j < 32"
  shows "ldw m (sll8_table L + c + push_bit 2 (ucast b)) = push_bit j (ucast (b :: u8))"
    "ldw m (srl8_table L + c + push_bit 2 (ucast b)) = drop_bit j (push_bit 24 (ucast b))"
    "ldw m (sra8_table L + c + push_bit 2 (ucast b)) = signed_drop_bit j (push_bit 24 (ucast b))"
  using lut_shift [OF e unat_shift_index [OF c] c(2)] by (simp_all add: add.assoc)

lemma unat_shift_row: "unat s < 32 \<Longrightarrow> unat (push_bit 2 (idx s 0)) = 1024 * unat s"
proof -
  assume "unat s < 32"
  moreover have "push_bit 2 (idx s 0) = of_nat (4 * unat (idx s 0))" by (simp add: push_bit_eq_mult)
  ultimately show ?thesis by (simp add: unat_idx unat_of_small del: of_nat_mult)
qed

lemma shift_bytes_up:
  "set_byte 3 (byte_of y 0) 0 = push_bit 24 y"
  "set_byte 3 (byte_of y (Suc 0)) (set_byte 2 (byte_of y 0) (push_bit (24 + k) z)) = push_bit 16 y"
  by (rule word_by_bytes; simp; rule bit_word_eqI, auto simp: byte_of_def bit_simps)+

lemma word_sum_bytes:
  "push_bit 24 (ucast (byte_of w 3)) + push_bit 16 (ucast (byte_of w 2)) + push_bit 8 (ucast (byte_of w (Suc 0)))
     + ucast (byte_of w 0) = w" (is "?s = w")
proof -
  have "?s = push_bit 24 (ucast (byte_of w 3)) OR push_bit 16 (ucast (byte_of w 2))
      OR push_bit 8 (ucast (byte_of w (Suc 0))) OR ucast (byte_of w 0)" (is "_ = ?o")
    by (subst disjunctive_add_eq_or; (subst disjunctive_add_eq_or; (subst disjunctive_add_eq_or)?)?)
      (rule bit_word_eqI, auto simp: byte_of_def bit_simps)+
  also have "?o = w"
  proof (rule bit_word_eqI)
    fix n :: nat
    consider "n < 8" | "8 \<le> n" "n < 16" | "16 \<le> n" "n < 24" | "24 \<le> n" "n < 32" | "32 \<le> n" by linarith
    then show "bit ?o n = bit w n" if "n < LENGTH(32)" using that by cases (auto simp: byte_of_def bit_simps)
  qed
  finally show ?thesis .
qed

lemma SP_VAR_BYTE_Suc: "1 + SP_VAR_BYTE n 2 = SP_VAR_BYTE n 3"
  by (simp add: SP_VAR_BYTE_def)

lemma computes_sll:
  assumes "env L (r x_sp) m" "r 0 = 0" "d \<noteq> 0"
  shows "computes L (sll_m L d a b) (r, m) d (push_bit (unat (r b) mod 32) (r a))"
proof -
  have j: "unat (shamt_of (r b)) < 32" by (simp add: unat_shamt)
  have t: "ldw m' (push_bit 2 (idx (shamt_of (r b)) 0) + sll8_table L + push_bit 2 (ucast x))
      = push_bit (unat (r b) mod 32) (ucast x)" if "env L (r x_sp) m'" for m' and x :: u8
    using lut_shift_base(1) [OF that unat_shift_row [OF j] j] by (simp add: unat_shamt add.commute)
  have "push_bit (24 + j) (ucast (byte_of w 3)) + push_bit (16 + j) (ucast (byte_of w 2))
      + push_bit (8 + j) (ucast (byte_of w (Suc 0))) + push_bit j (ucast (byte_of w 0)) = push_bit j w" for j w
    using arg_cong [OF word_sum_bytes [of w], of "push_bit j"] by (simp add: push_bit_add add.commute)
  then show ?thesis using assms
    by (simp add: sll_m_def computes_def PUSH_def POP_def steps eff_la eff_getshamt eff_slli_small
      eff_get_shift_byte sh_m_def eff_getbyte SP_VAR_BYTE_Suc idx_set_byte t shift_bytes_up)
qed

definition shift_right_template :: "luts \<Rightarrow> nat \<Rightarrow> nat \<Rightarrow> nat \<Rightarrow> bool \<Rightarrow> bool \<Rightarrow> base list" where
  "shift_right_template L d a b is_arith is_rs2_imm =
     (if is_rs2_imm \<and> b = 24 then
        if is_arith then
          [M_sw a (SP_VAR VAR_A) x_sp] @ la_m x_tp (sra8_table L + push_bit 10 (of_nat b))
          @ [M_lbu d (SP_VAR_BYTE VAR_A 3) x_sp] @ slli_m d d 2 @ [M_add x_tp x_tp d, M_lw d 0 x_tp]
        else getbyte_m d a 3
      else
        [PUSH x_s0 1, M_sw a (SP_VAR VAR_A) x_sp]
        @ (if \<not> is_rs2_imm then
             getshamt L x_s0 b
             @ [M_sw x_0 (SP_VAR VAR_B) x_sp, M_sb x_s0 (SP_VAR_BYTE VAR_B 1) x_sp, M_lw x_s0 (SP_VAR VAR_B) x_sp]
             @ slli_m x_s0 x_s0 2 @ la_m x_tp (srl8_table L) @ [M_add x_s0 x_s0 x_tp]
           else la_m x_s0 (srl8_table L + push_bit 10 (of_nat b)))
        @ get_shift_byte_in_tp x_s0 2 @ [M_sw x_tp (SP_VAR VAR_B) x_sp]
        @ get_shift_byte_in_tp x_s0 1 @ [M_sw x_tp (SP_VAR VAR_C) x_sp]
        @ get_shift_byte_in_tp x_s0 0 @ [M_sw x_tp (SP_VAR VAR_D) x_sp]
        @ [M_lbu x_gp (SP_VAR_BYTE VAR_B 1) x_sp, M_lbu x_tp (SP_VAR_BYTE VAR_C 2) x_sp, M_add x_gp x_gp x_tp,
           M_lbu x_tp (SP_VAR_BYTE VAR_D 3) x_sp, M_add x_gp x_gp x_tp, M_sw x_gp (SP_VAR VAR_D) x_sp,
           M_lbu x_gp (SP_VAR_BYTE VAR_B 2) x_sp, M_lbu x_tp (SP_VAR_BYTE VAR_C 3) x_sp, M_add x_gp x_gp x_tp,
           M_sb x_gp (SP_VAR_BYTE VAR_D 1) x_sp,
           M_lbu x_gp (SP_VAR_BYTE VAR_B 3) x_sp, M_sb x_gp (SP_VAR_BYTE VAR_D 2) x_sp,
           M_lw x_gp (SP_VAR VAR_D) x_sp]
        @ (if is_arith then la_m x_tp (sra8_table L - srl8_table L) @ [M_add x_s0 x_s0 x_tp] else [])
        @ get_shift_byte_in_tp x_s0 3 @ [POP x_s0 1, M_add d x_gp x_tp])"

text \<open>The three table entries of the lower bytes, combined byte by byte.\<close>

definition low_bytes :: "nat \<Rightarrow> u32 \<Rightarrow> u32" where
  "low_bytes j w = (let y = \<lambda>k. drop_bit j (push_bit 24 (ucast (byte_of w k) :: u32)) in
     set_byte 2 (byte_of (y 2) 3)
       (set_byte (Suc 0) (byte_of (ucast (byte_of (y 2) 2) + ucast (byte_of (y (Suc 0)) 3)) 0)
         (ucast (byte_of (y 2) (Suc 0)) + ucast (byte_of (y (Suc 0)) 2) + ucast (byte_of (y 0) 3))))"

lemma bit_byte_shift:
  "k < 4 \<Longrightarrow> i < 4 \<Longrightarrow> bit (byte_of (drop_bit j (push_bit 24 (ucast (byte_of w k) :: u32))) i) n \<longleftrightarrow>
     n < 8 \<and> 24 \<le> j + 8 * i + n \<and> j + 8 * i + n < 32 \<and> bit w (j + 8 * i + n + 8 * k - 24)"
  by (auto simp: byte_of_def bit_simps add.commute add.left_commute)

lemma bit_set_byte:
  "k < 4 \<Longrightarrow> bit (set_byte k b w) n \<longleftrightarrow> (if 8 * k \<le> n \<and> n < 8 * k + 8 then bit b (n - 8 * k) else bit w n)"
proof -
  assume k: "k < 4"
  have "bit v n \<longleftrightarrow> bit (byte_of v (n div 8)) (n mod 8)" for v
    by (simp add: byte_of_def bit_simps)
  moreover have "n div 8 = k \<longleftrightarrow> 8 * k \<le> n \<and> n < 8 * k + 8"
    using div_mult_mod_eq [of n 8] mod_less_divisor [of 8 n] by linarith
  moreover have "n mod 8 = n - 8 * (n div 8)" by (simp add: minus_mult_div_eq_mod)
  moreover have "\<not> bit (set_byte k b w) n" "\<not> bit w n" if "32 \<le> n"
    using that by (auto dest: bit_imp_le_length)
  ultimately show ?thesis using k by (cases "n < 32") auto
qed

lemma bit_sum3:
  fixes a b c :: u8
  assumes "a AND b = 0" "a AND c = 0" "b AND c = 0"
  shows "(ucast a + ucast b + ucast c :: u32) = ucast (a OR b OR c)"
proof -
  have "(ucast a :: u32) AND ucast b = 0" "(ucast a OR ucast b :: u32) AND ucast c = 0"
    using assms by (simp_all add: unsigned_and_eq [symmetric] unsigned_or_eq [symmetric] bit.conj_disj_distrib2)
  then show ?thesis by (simp add: disjunctive_add_eq_or unsigned_or_eq or.assoc)
qed

lemma bit_low_bytes: "bit (low_bytes j w) n \<longleftrightarrow> n + j < 24 \<and> bit w (n + j)"
proof -
  define y where "y k i = byte_of (drop_bit j (push_bit 24 (ucast (byte_of w k) :: u32))) i" for k i
  have y: "bit (y k i) l \<longleftrightarrow> l < 8 \<and> 24 \<le> j + 8 * i + l \<and> j + 8 * i + l < 32 \<and> bit w (j + l + (8 * i + 8 * k - 24))"
    if "k < 4" "i < 4" "3 \<le> i + k" for k i l
  proof -
    have "j + 8 * i + l + 8 * k - 24 = j + l + (8 * i + 8 * k - 24)" using that by simp
    then show ?thesis using that bit_byte_shift by (simp add: y_def)
  qed
  have d: "y 2 (Suc 0) AND y (Suc 0) 2 = 0" "y 2 (Suc 0) AND y 0 3 = 0" "y (Suc 0) 2 AND y 0 3 = 0"
    "y 2 2 AND y (Suc 0) 3 = 0"
    by (rule bit_word_eqI, simp add: bit_and_iff y)+
  have "(ucast (y 2 2) + ucast (y (Suc 0) 3) :: u32) = ucast (y 2 2 OR y (Suc 0) 3)"
    using bit_sum3 [of "y 2 2" "y (Suc 0) 3" 0] d by simp
  then have eq: "low_bytes j w = set_byte 2 (y 2 3) (set_byte (Suc 0) (y 2 2 OR y (Suc 0) 3)
      (ucast (y 2 (Suc 0) OR y (Suc 0) 2 OR y 0 3)))"
    using bit_sum3 [OF d(1-3)] by (simp add: low_bytes_def Let_def y_def)
  consider "n < 8" | "8 \<le> n" "n < 16" | "16 \<le> n" "n < 24" | "24 \<le> n" by linarith
  then show ?thesis unfolding eq add.commute [of n j]
    by cases (auto simp: bit_set_byte y bit_or_iff bit_unsigned_iff)
qed

lemma bit_sra: "bit (signed_drop_bit j x) n \<longleftrightarrow> n < 32 \<and> bit x (if n + j < 32 then n + j else 31)" for x :: u32
proof -
  have l: "LENGTH(32) = 32" "LENGTH(32) - 1 = 31" by simp_all
  show ?thesis unfolding bit_signed_drop_bit_iff l
    by (cases "n < 32") (auto simp: add.commute le_diff_conv not_le dest: bit_imp_le_length)
qed

lemma bit_top_byte: "bit (push_bit 24 (ucast (byte_of w 3)) :: u32) n \<longleftrightarrow> 24 \<le> n \<and> bit w n"
  by (auto simp: byte_of_def bit_simps dest: bit_imp_le_length)

lemma shift_right_sums:
  "low_bytes j w + drop_bit j (push_bit 24 (ucast (byte_of w 3))) = drop_bit j w" (is "_ + ?l = _")
  "low_bytes j w + signed_drop_bit j (push_bit 24 (ucast (byte_of w 3))) = signed_drop_bit j w" (is "_ + ?a = _")
proof -
  have "low_bytes j w + ?l = low_bytes j w OR ?l"
    by (rule disjunctive_add_eq_or) (rule bit_word_eqI, auto simp: bit_and_iff bit_low_bytes bit_drop_bit_eq bit_top_byte)
  also have "\<dots> = drop_bit j w"
    by (rule bit_word_eqI) (auto simp: bit_or_iff bit_low_bytes bit_drop_bit_eq bit_top_byte add.commute)
  finally show "low_bytes j w + ?l = drop_bit j w" .
  have "low_bytes j w + ?a = low_bytes j w OR ?a"
    by (rule disjunctive_add_eq_or) (rule bit_word_eqI, auto simp: bit_and_iff bit_low_bytes bit_sra bit_top_byte)
  also have "\<dots> = signed_drop_bit j w"
    by (rule bit_word_eqI) (auto simp: bit_or_iff bit_low_bytes bit_sra bit_top_byte add.commute)
  finally show "low_bytes j w + ?a = signed_drop_bit j w" .
qed

lemma fast_srl: "ucast (byte_of w 3) = drop_bit 24 w"
  by (rule bit_word_eqI) (auto simp: byte_of_def bit_simps dest: bit_imp_le_length)

lemma fast_sra: "signed_drop_bit 24 (push_bit 24 (ucast (byte_of w 3))) = signed_drop_bit 24 w" for w :: u32
  by (rule bit_word_eqI) (auto simp: bit_sra bit_top_byte)

lemma shamt_row: "i < 32 \<Longrightarrow> unat (push_bit 10 (of_nat i :: u32)) = 1024 * i"
proof -
  assume "i < 32"
  moreover have "push_bit 10 (of_nat i :: u32) = of_nat (1024 * i)" by (simp add: push_bit_eq_mult)
  ultimately show ?thesis by (simp add: unat_of_small del: of_nat_mult)
qed

lemma computes_shift_right:
  assumes e: "env L (r x_sp) m" and "r 0 = 0" "d \<noteq> 0" "d \<noteq> x_sp" "d \<noteq> x_tp" and "imm \<Longrightarrow> b < 32"
    and j: "j = (if imm then b else unat (r b) mod 32)"
  shows "computes L (shift_right_template L d a b arith imm) (r, m) d
    (if arith then signed_drop_bit j (r a) else drop_bit j (r a))"
proof -
  define c where "c = (if imm then push_bit 10 (of_nat b) else push_bit 2 (idx (shamt_of (r b)) 0))"
  have c: "unat c = 1024 * j" "j < 32"
    using assms(6) j unat_shift_row [of "shamt_of (r b)"] by (auto simp: c_def shamt_row unat_shamt)
  have t: "ldw m' (srl8_table L + c + push_bit 2 (ucast x)) = drop_bit j (push_bit 24 (ucast x))"
    "ldw m' (c + sra8_table L + push_bit 2 (ucast x)) = signed_drop_bit j (push_bit 24 (ucast x))"
    "ldw m' (sra8_table L + c + push_bit 2 (ucast x)) = signed_drop_bit j (push_bit 24 (ucast x))"
    if "env L (r x_sp) m'" for m' and x :: u8
    using lut_shift_base [OF that c] by (simp_all add: algebra_simps)
  note sums = shift_right_sums [unfolded low_bytes_def Let_def]
  note exec = shift_right_template_def computes_def PUSH_def POP_def steps eff_la eff_slli_small
    eff_get_shift_byte eff_getbyte eff_getshamt idx_set_byte
  show ?thesis
  proof (cases imm; cases "b = 24")
    assume "imm" "b = 24"
    moreover have "ldw m' (sra8_table L + 24576 + push_bit 2 (ucast (byte_of (r a) 3))) = signed_drop_bit 24 (r a)"
      if "env L (r x_sp) m'" for m'
      using t(3) [OF that, of "byte_of (r a) 3"] calculation j fast_sra by (simp add: c_def)
    ultimately show ?thesis using assms(1-5) j by (simp add: exec fast_srl [symmetric])
  next
    assume i: "imm" "b \<noteq> 24"
    then have "c = push_bit 10 (of_nat b)" by (simp add: c_def)
    note t' = t [unfolded this]
    show ?thesis using i assms(1-5) by (simp add: exec t' sums)
  qed (use assms(1-5) t in \<open>simp_all add: exec c_def add.commute [of "srl8_table L"] sums\<close>)
qed

end
