(* ===== verification/Minirv_Flow.thy ===== *)
theory Minirv_Flow
  imports Minirv_Alu
begin

text \<open>
  The macros of \<open>inst-replace.h\<close> for immediate shifts, byte and half-word accesses, branches and jumps. A branch
  stores its two possible continuations in adjacent slots and loads one of them, selected by the condition;
  \<open>lands\<close> says where the program counter goes and that no register but gp and tp changes.
\<close>

section \<open>Shifts by a constant, byte and half-word accesses\<close>

lemma computesI:
  "eff code (r, m) = (r', m') \<Longrightarrow> r' d = x \<Longrightarrow> (\<And>q. q \<noteq> d \<Longrightarrow> q \<noteq> x_gp \<Longrightarrow> q \<noteq> x_tp \<Longrightarrow> r' q = r q) \<Longrightarrow>
   (\<And>a. a \<notin> dead L (r x_sp) \<Longrightarrow> m' a = m a) \<Longrightarrow> computes L code (r, m) d x"
  by (simp add: computes_def)

lemma set_byte_top: "set_byte 3 b 0 = push_bit 24 (ucast b)"
  by (rule word_by_bytes; simp; rule bit_word_eqI, auto simp: byte_of_def bit_simps)

lemma set_byte_top_half: "set_byte 3 (byte_of y (Suc 0)) (set_byte 2 (byte_of y 0) 0) = push_bit 16 y"
  using shift_bytes_up(2) [of y 0 0] by simp

lemma eff_slli_tail:
  "i < 16 \<Longrightarrow> d \<noteq> 0 \<Longrightarrow> eff (slli_m d d i) (r, m) = (r(d := push_bit i (r d)), m)"
  by (cases "i = 0") (simp_all add: eff_slli_small slli_m.simps [of d d 0])

lemma computes_slli:
  assumes "r 0 = 0" "d \<noteq> 0" "d \<noteq> x_sp" "i < 32"
  shows "computes L (slli_m d a i) (r, m) d (push_bit i (r a))"
proof -
  consider "i = 0" | "0 < i" "i < 16" | "16 \<le> i" "i < 24" | "24 \<le> i" by linarith
  then show ?thesis
  proof cases
    case 1
    then show ?thesis using assms by (simp add: slli_m.simps [of d a 0] computes_def mv_def steps)
  next
    case 2
    then show ?thesis using assms by (simp add: eff_slli_small computes_def)
  next
    case 3
    then have "push_bit (i - 16) (push_bit 16 (r a)) = push_bit i (r a)" by (simp add: push_bit_push_bit)
    with 3 show ?thesis using assms
      by (simp add: slli_m.simps [of d a i] sh_m_def eff_getbyte steps eff_slli_tail SP_VAR_BYTE_Suc
          set_byte_top_half computes_def)
  next
    case 4
    then have "push_bit (i - 24) (push_bit 24 (r a)) = push_bit i (r a)" by (simp add: push_bit_push_bit)
    with 4 show ?thesis using assms
      by (simp add: slli_m.simps [of d a i] steps eff_slli_tail shift_bytes_up(1) computes_def)
  qed
qed

definition lb_m :: "luts \<Rightarrow> nat \<Rightarrow> u32 \<Rightarrow> nat \<Rightarrow> base list" where
  "lb_m L d off a =
     [M_sw x_0 (SP_VAR VAR_A) x_sp, M_lbu d off a, M_sb d (SP_VAR_BYTE VAR_A 3) x_sp, M_lw d (SP_VAR VAR_A) x_sp]
     @ shift_right_template L d d 24 True True"

definition lhu_m :: "nat \<Rightarrow> u32 \<Rightarrow> nat \<Rightarrow> base list" where
  "lhu_m d off a =
     [M_sw x_0 (SP_VAR VAR_A) x_sp, M_lbu x_tp (1 + off) a, M_sb x_tp (SP_VAR_BYTE VAR_A 1) x_sp,
      M_lw x_tp (SP_VAR VAR_A) x_sp, M_lbu d (0 + off) a, M_add d d x_tp]"

definition lh_m :: "luts \<Rightarrow> nat \<Rightarrow> u32 \<Rightarrow> nat \<Rightarrow> base list" where
  "lh_m L d off a =
     [M_sw x_0 (SP_VAR VAR_A) x_sp, M_lbu x_gp (1 + off) a, M_sb x_gp (SP_VAR_BYTE VAR_A 3) x_sp,
      M_lw x_gp (SP_VAR VAR_A) x_sp]
     @ shift_right_template L x_gp x_gp 16 True True @ [M_lbu d (0 + off) a, M_add d d x_gp]"

definition ldh :: "bmem \<Rightarrow> u32 \<Rightarrow> u16" where
  "ldh m a = of_bytes [m a, m (a + 1)]"

lemma step_lbu_mini: "step (M_lbu d off a) (r, m) = (wr d (ucast (m (r a + off))) r, m)"
  by (simp add: step.simps)

lemma last_bit: "7 \<le> n \<Longrightarrow> n < 8 \<Longrightarrow> n = (7 :: nat)" "15 \<le> n \<Longrightarrow> n < 16 \<Longrightarrow> n = (15 :: nat)"
  by simp_all

lemma sra_byte: "signed_drop_bit 24 (push_bit 24 (ucast b)) = (scast b :: u32)" for b :: u8
  by (rule bit_word_eqI) (auto simp: bit_sra bit_push_bit_iff bit_signed_iff bit_unsigned_iff min_def dest: last_bit)

lemma uhalf_sum: "ucast b0 + idx b1 0 = (ucast (of_bytes [b0, b1] :: u16) :: u32)" for b0 b1 :: u8
proof -
  have "ucast b0 + idx b1 0 = ucast b0 OR idx b1 0"
    by (rule disjunctive_add_eq_or) (rule bit_word_eqI, auto simp: idx_def word4_def bit_simps dest: bit_imp_le_length)
  also have "\<dots> = ucast (of_bytes [b0, b1] :: u16)"
    by (rule bit_word_eqI) (auto simp: idx_def word4_def bit_simps dest: bit_imp_le_length)
  finally show ?thesis .
qed

lemma shalf_sum:
  "ucast b0 + signed_drop_bit 16 (push_bit 24 (ucast b1)) = (scast (of_bytes [b0, b1] :: u16) :: u32)" for b0 b1 :: u8
proof -
  have "ucast b0 + signed_drop_bit 16 (push_bit 24 (ucast b1)) = ucast b0 OR signed_drop_bit 16 (push_bit 24 (ucast b1) :: u32)"
    by (rule disjunctive_add_eq_or)
      (rule bit_word_eqI, auto simp: bit_and_iff bit_unsigned_iff bit_sra bit_push_bit_iff dest: bit_imp_le_length)
  also have "\<dots> = scast (of_bytes [b0, b1] :: u16)"
    by (rule bit_word_eqI)
      (auto simp: bit_or_iff bit_unsigned_iff bit_sra bit_push_bit_iff bit_signed_iff min_def dest: last_bit bit_imp_le_length)
  finally show ?thesis .
qed

lemma computes_lhu:
  assumes "r 0 = 0" "d \<noteq> 0" "d \<noteq> x_sp" "d \<noteq> x_tp" "a \<noteq> x_tp"
    "r a + off \<notin> dead L (r x_sp)" "r a + off + 1 \<notin> dead L (r x_sp)"
  shows "computes L (lhu_m d off a) (r, m) d (ucast (ldh m (r a + off)))"
  using assms uhalf_sum by (simp add: lhu_m_def computes_def steps step_lbu_mini idx_set_byte ldh_def add_ac del: of_bytes.simps)

lemma computes_lb:
  assumes "env L (r x_sp) m" "r 0 = 0" "d \<noteq> 0" "d \<noteq> x_sp" "d \<noteq> x_tp" "r a + off \<notin> dead L (r x_sp)"
  shows "computes L (lb_m L d off a) (r, m) d (scast (m (r a + off)))"
proof -
  define r1 where "r1 = r(d := push_bit 24 (ucast (m (r a + off))))"
  define m1 where "m1 = put_slot (r x_sp) 4 (push_bit 24 (ucast (m (r a + off)))) m"
  have e: "eff (lb_m L d off a) (r, m) = eff (shift_right_template L d d 24 True True) (r1, m1)"
    using assms by (simp add: lb_m_def steps step_lbu_mini set_byte_top r1_def m1_def)
  have "computes L (shift_right_template L d d 24 True True) (r1, m1) d (scast (m (r a + off)))"
    using computes_shift_right [of L r1 m1 d True 24 24 d True] assms by (simp add: r1_def m1_def sra_byte)
  then show ?thesis using assms unfolding computes_def e
    by (auto simp: r1_def m1_def split: prod.splits)
qed

lemma computes_lh:
  assumes "env L (r x_sp) m" "r 0 = 0" "d \<noteq> 0" "d \<noteq> x_sp" "d \<noteq> x_gp" "a \<noteq> x_gp" "a \<noteq> x_tp"
    "r a + off \<notin> dead L (r x_sp)" "r a + off + 1 \<notin> dead L (r x_sp)"
  shows "computes L (lh_m L d off a) (r, m) d (scast (ldh m (r a + off)))"
proof -
  define x :: u32 where "x = push_bit 24 (ucast (m (r a + off + 1)))"
  define r1 where "r1 = r(x_gp := x)"
  define m1 where "m1 = put_slot (r x_sp) 4 x m"
  obtain r2 m2 where s: "eff (shift_right_template L x_gp x_gp 16 True True) (r1, m1) = (r2, m2)" by fastforce
  have e: "eff (lh_m L d off a) (r, m) = (r2(d := ucast (m2 (r2 a + off)) + r2 x_gp), m2)"
    using assms s by (simp add: lh_m_def steps step_lbu_mini set_byte_top r1_def m1_def x_def add_ac)
  have "computes L (shift_right_template L x_gp x_gp 16 True True) (r1, m1) x_gp (signed_drop_bit 16 x)"
    using computes_shift_right [of L r1 m1 x_gp True 16 16 x_gp True] assms by (simp add: r1_def m1_def)
  with s have g: "r2 x_gp = signed_drop_bit 16 x" "q \<noteq> x_gp \<Longrightarrow> q \<noteq> x_tp \<Longrightarrow> r2 q = r q"
    "b \<notin> dead L (r x_sp) \<Longrightarrow> m2 b = m b" for q b
    by (simp_all add: computes_def r1_def m1_def)
  show ?thesis
    by (rule computesI [OF e]) (use assms g shalf_sum in \<open>simp_all add: x_def ldh_def add_ac del: of_bytes.simps\<close>)
qed

text \<open>A half-word store writes its two bytes and nothing else outside the temporaries.\<close>

lemma eff_sh:
  assumes "eff (sh_m b off a) (r, m) = (r', m')" "b \<noteq> x_tp" "a \<noteq> x_tp" "r a + off \<notin> dead L (r x_sp)" "r a + off + 1 \<notin> dead L (r x_sp)"
  shows "q \<noteq> x_tp \<Longrightarrow> r' q = r q"
    "x \<notin> dead L (r x_sp) \<Longrightarrow> m' x = (m(r a + off := byte_of (r b) 0, r a + off + 1 := byte_of (r b) 1)) x"
  using assms by (auto simp: sh_m_def eff_getbyte step.simps add_ac)

definition branch_resolve :: "u32 \<Rightarrow> bool \<Rightarrow> u32 \<Rightarrow> base list" where
  "branch_resolve target is_tp_high_sel_target non_taken =
     slli_m x_tp x_tp 2 @ [M_add x_tp x_sp x_tp]
     @ (if is_tp_high_sel_target then
          la_m x_gp target @ [M_sw x_gp (SP_VAR VAR_A) x_sp] @ la_m x_gp non_taken @ [M_sw x_gp (SP_VAR VAR_B) x_sp]
        else
          la_m x_gp non_taken @ [M_sw x_gp (SP_VAR VAR_A) x_sp] @ la_m x_gp target @ [M_sw x_gp (SP_VAR VAR_B) x_sp])
     @ [M_lw x_tp (- (of_nat VAR_B * 4)) x_tp, M_jalr x_0 0 x_tp]"

definition slt_m :: "luts \<Rightarrow> nat \<Rightarrow> nat \<Rightarrow> nat \<Rightarrow> base list" where
  "slt_m L d a b = slt_template L (slt1_table L) d a b"

definition sltu_m :: "luts \<Rightarrow> nat \<Rightarrow> nat \<Rightarrow> nat \<Rightarrow> base list" where
  "sltu_m L d a b = slt_template L (sltu1_table L) d a b"

function beq_m :: "luts \<Rightarrow> nat \<Rightarrow> nat \<Rightarrow> u32 \<Rightarrow> u32 \<Rightarrow> base list" where
  "beq_m L a b target non_taken =
     (if b = x_0 then seqz_m L x_tp a @ branch_resolve target True non_taken
      else if a = x_0 then beq_m L b a target non_taken
      else seq_m L x_tp a b @ branch_resolve target True non_taken)"
  by auto
termination by (relation "measure (\<lambda>(L, a, b, t, n). b)") auto

function bne_m :: "luts \<Rightarrow> nat \<Rightarrow> nat \<Rightarrow> u32 \<Rightarrow> u32 \<Rightarrow> base list" where
  "bne_m L a b target non_taken =
     (if b = x_0 then seqz_m L x_tp a @ branch_resolve target False non_taken
      else if a = x_0 then bne_m L b a target non_taken
      else seq_m L x_tp a b @ branch_resolve target False non_taken)"
  by auto
termination by (relation "measure (\<lambda>(L, a, b, t, n). b)") auto

declare beq_m.simps [simp del] bne_m.simps [simp del]

definition not_positive :: "luts \<Rightarrow> nat \<Rightarrow> base list" where
  "not_positive L b = msb_m x_gp b @ [M_addi x_tp b (- 1)] @ msb_m x_tp x_tp @ [M_add x_gp x_gp x_tp]
     @ la_m x_tp (or1_table L) @ [M_add x_tp x_gp x_tp, M_lbu x_tp 0 x_tp]"

definition blt_m :: "luts \<Rightarrow> nat \<Rightarrow> nat \<Rightarrow> u32 \<Rightarrow> u32 \<Rightarrow> base list" where
  "blt_m L a b target non_taken =
     (if b = x_0 then msb_m x_tp a @ branch_resolve target True non_taken
      else if a = x_0 then not_positive L b @ branch_resolve target False non_taken
      else slt_m L x_tp a b @ branch_resolve target True non_taken)"

definition bltu_m :: "luts \<Rightarrow> nat \<Rightarrow> nat \<Rightarrow> u32 \<Rightarrow> u32 \<Rightarrow> base list" where
  "bltu_m L a b target non_taken = sltu_m L x_tp a b @ branch_resolve target True non_taken"

definition bge_m :: "luts \<Rightarrow> nat \<Rightarrow> nat \<Rightarrow> u32 \<Rightarrow> u32 \<Rightarrow> base list" where
  "bge_m L a b target non_taken =
     (if a = x_0 then not_positive L b @ branch_resolve target True non_taken
      else slt_m L x_tp a b @ branch_resolve target False non_taken)"

definition bgeu_m :: "luts \<Rightarrow> nat \<Rightarrow> nat \<Rightarrow> u32 \<Rightarrow> u32 \<Rightarrow> base list" where
  "bgeu_m L a b target non_taken = sltu_m L x_tp a b @ branch_resolve target False non_taken"

definition call_template :: "nat \<Rightarrow> u32 \<Rightarrow> base list" where
  "call_template d addr = la_m d addr @ [M_jalr d 0 d]"

definition j_m :: "u32 \<Rightarrow> base list" where
  "j_m addr = la_m x_tp addr @ [M_jalr x_0 0 x_tp]"

definition jal_m :: "nat \<Rightarrow> u32 \<Rightarrow> base list" where
  "jal_m d addr = (if d = x_0 then j_m addr else call_template d addr)"

definition call_m :: "u32 \<Rightarrow> base list" where
  "call_m addr = call_template x_ra addr"

definition tail_m :: "u32 \<Rightarrow> base list" where
  "tail_m addr = la_m x_tp addr @ [M_jalr x_0 0 x_tp] @ call_template x_ra addr"

lemma straight_replicate [simp]: "\<not> is_jump i \<Longrightarrow> straight (replicate n i)"
  by (induction n) simp_all

lemma straight_slli: "straight (slli_m d a i)"
proof (induction d a i rule: slli_m.induct)
  case (1 d a i)
  then show ?case
    by (subst slli_m.simps) (simp add: mv_def sh_m_def getbyte_m_def)
qed

lemmas macro_defs = la_m_def PUSH_def POP_def mv_def not_m_def getbyte_m_def sub_m_def sh_m_def msb_m_def
  slt_template_def slt_m_def sltu_m_def logic8_byte_internal_def check_8bit_same_def seq_m_def check_8bit_0_def seqz_m_def getshamt_def
  get_shift_byte_in_tp_def sll_m_def shift_right_template_def lb_m_def lhu_m_def lh_m_def not_positive_def

lemma straight_macros:
  "straight (la_m d x)" "straight (not_m L d a)" "straight (sub_m L d a b)" "straight (msb_m d a)" "straight (slt_m L d a b)" "straight (sltu_m L d a b)"
  "straight (seq_m L d a b)" "straight (seqz_m L d a)" "straight (sll_m L d a b)"
  "straight (shift_right_template L d a b p q)" "straight (lb_m L d x a)" "straight (lhu_m d x a)"
  "straight (lh_m L d x a)" "straight (sh_m b x a)" "straight (not_positive L b)"
  by (simp_all add: macro_defs straight_slli)

lemma straight_logic: "logic_m lut d a b = Some code \<Longrightarrow> straight code"
  by (auto simp: logic_m_def macro_defs split: if_splits)

definition lands :: "luts \<Rightarrow> base list \<Rightarrow> mini \<Rightarrow> u32 \<Rightarrow> bool" where
  "lands L code s p \<longleftrightarrow> (let t = mrun code s in mpc t = p \<and> (\<forall>q. q \<notin> {x_gp, x_tp} \<longrightarrow> mreg t q = mreg s q)
     \<and> (\<forall>a. a \<notin> dead L (mreg s x_sp) \<longrightarrow> mmem t a = mmem s a))"

lemma even_target: "even p \<Longrightarrow> p AND NOT 1 = p" for p :: u32
  by (rule bit_word_eqI) (auto simp: bit_simps bit_0 intro: gr0I)

lemma slot_select: "ldw m (v - 16) = get_slot v 4 m" "ldw m (v - 20) = get_slot v 5 m"
  "get_slot (v + 4) 5 m = get_slot v 4 m"
  by (simp_all add: get_slot_def SP_VAR_def SP_VAR_BYTE_def)

lemma branch_lands:
  assumes c: "computes L cond (mreg s, mmem s) x_tp (of_bool b)" and st: "straight cond"
    and e: "even target" "even non_taken"
  shows "lands L (cond @ branch_resolve target sel non_taken) s (if b = sel then target else non_taken)"
proof -
  let ?t = "if b = sel then target else non_taken" and ?x = "if sel then target else non_taken"
    and ?y = "if sel then non_taken else target"
  obtain r m where rm: "eff cond (mreg s, mmem s) = (r, m)" by fastforce
  with c have g: "r x_tp = of_bool b" "q \<noteq> x_gp \<Longrightarrow> q \<noteq> x_tp \<Longrightarrow> r q = mreg s q"
    "a \<notin> dead L (mreg s x_sp) \<Longrightarrow> m a = mmem s a" for q a
    by (simp_all add: computes_def)
  define pre where "pre = butlast (branch_resolve target sel non_taken)"
  have br: "branch_resolve target sel non_taken = pre @ [M_jalr x_0 0 x_tp]"
    by (simp add: pre_def branch_resolve_def butlast_append)
  have "straight pre" by (simp add: pre_def branch_resolve_def butlast_append straight_slli straight_macros(1))
  moreover have "eff pre (r, m) = (r(x_gp := ?y, x_tp := ?t), put_slot (r x_sp) 5 ?y (put_slot (r x_sp) 4 ?x m))"
    using g(1) by (cases sel) (simp_all add: pre_def branch_resolve_def butlast_append eff_slli_small eff_la steps
        step.simps(4) slot_select fun_upd_twist)
  ultimately have "eff (cond @ pre) (mreg s, mmem s) = (r(x_gp := ?y, x_tp := ?t), put_slot (r x_sp) 5 ?y (put_slot (r x_sp) 4 ?x m))"
    "straight (cond @ pre)" using rm st by simp_all
  from mrun_straight [OF this(2,1), of "[M_jalr x_0 0 x_tp]"] have
    "mrun (cond @ branch_resolve target sel non_taken) s = \<lparr>mreg = r(x_gp := ?y, x_tp := ?t),
       mmem = put_slot (r x_sp) 5 ?y (put_slot (r x_sp) 4 ?x m), mpc = ?t AND NOT 1\<rparr>"
    by (simp add: br wr_def)
  then show ?thesis using e even_target g(2) [of x_sp] g(3) by (auto simp: lands_def g(2))
qed

lemma computes_msb: "d \<noteq> 0 \<Longrightarrow> d \<noteq> x_sp \<Longrightarrow> computes L (msb_m d a) (r, m) d (of_bool (bit (r a) 31))"
  by (simp add: computes_def eff_msb)

lemma or1_numerals:
  assumes "env L v m"
  shows "m (or1_table L) = 0" "m (1 + or1_table L) = 1" "m (2 + or1_table L) = 1"
  using rodata_entries(2) [OF assms, of 0] rodata_entries(2) [OF assms, of 1] rodata_entries(2) [OF assms, of 2]
  by (simp_all add: add.commute)

lemma not_positive_bits: "bit w 31 \<or> bit (w - 1) 31 \<longleftrightarrow> \<not> 0 < sint w" for w :: u32
proof -
  have "0 < sint w \<longleftrightarrow> 0 < uint w \<and> \<not> 2147483648 \<le> uint w"
    using u32_uint [of w] by (simp add: sint_uint_31)
  moreover have "uint (w - 1) = (if 1 \<le> uint w then uint w - 1 else 4294967295)"
  proof -
    have "\<not> 1 \<le> uint w \<Longrightarrow> uint w = 0" using u32_uint(1) [of w] by linarith
    then show ?thesis using uint_diff [of w 1] by auto
  qed
  ultimately show ?thesis using u32_uint [of w] by (auto simp: bit_31_uint)
qed

lemma computes_not_positive:
  assumes "env L (r x_sp) m" "b \<noteq> x_gp"
  shows "computes L (not_positive L b) (r, m) x_tp (of_bool (\<not> 0 < sint (r b)))"
  unfolding not_positive_bits [symmetric] using assms
  by (simp add: not_positive_def computes_def eff_msb steps eff_la or1_numerals [of L "r 2"])

lemmas branch_conds = computes_slt [folded slt_m_def sltu_m_def] computes_seq computes_seqz computes_msb computes_not_positive

lemma bit_31_sint: "bit w 31 \<longleftrightarrow> sint w < 0" for w :: u32
  using u32_uint [of w] by (simp add: bit_31_uint sint_uint_31)

text \<open>The branch macros go to the target exactly when their condition holds.\<close>

lemma branch_macros_land:
  assumes e: "env L (mreg s x_sp) (mmem s)" and z: "mreg s 0 = 0" and ev: "even target" "even nt"
    and ops: "a \<noteq> x_gp" "b \<noteq> x_gp"
  defines "x \<equiv> mreg s a" and "y \<equiv> mreg s b"
  shows "lands L (beq_m L a b target nt) s (if x = y then target else nt)"
    "lands L (bne_m L a b target nt) s (if x \<noteq> y then target else nt)"
    "lands L (blt_m L a b target nt) s (if sint x < sint y then target else nt)"
    "lands L (bge_m L a b target nt) s (if \<not> sint x < sint y then target else nt)"
    "lands L (bltu_m L a b target nt) s (if x < y then target else nt)"
    "lands L (bgeu_m L a b target nt) s (if \<not> x < y then target else nt)"
proof -
  note br = branch_lands [OF _ _ ev] and st = straight_macros
  have eq: "lands L (seqz_m L x_tp c @ branch_resolve target sel nt) s (if (mreg s c = 0) = sel then target else nt)"
    "lands L (seq_m L x_tp c d @ branch_resolve target sel nt) s (if (mreg s c = mreg s d) = sel then target else nt)"
    for c d sel using e z by (intro br computes_seqz computes_seq st; simp)+
  have lt: "lands L (slt_m L x_tp a b @ branch_resolve target sel nt) s (if (sint x < sint y) = sel then target else nt)"
    "lands L (sltu_m L x_tp a b @ branch_resolve target sel nt) s (if (x < y) = sel then target else nt)"
    "lands L (not_positive L b @ branch_resolve target sel nt) s (if (\<not> 0 < sint y) = sel then target else nt)"
    "lands L (msb_m x_tp a @ branch_resolve target sel nt) s (if bit x 31 = sel then target else nt)"
    for sel unfolding x_def y_def using e z ops by (intro br branch_conds st; simp)+
  show "lands L (beq_m L a b target nt) s (if x = y then target else nt)"
    using eq(1) [of a True] eq(1) [of b True] eq(2) [of a b True] z
    by (auto simp: beq_m.simps [of L a b] beq_m.simps [of L b 0] x_def y_def split: if_splits)
  show "lands L (bne_m L a b target nt) s (if x \<noteq> y then target else nt)"
    using eq(1) [of a False] eq(1) [of b False] eq(2) [of a b False] z
    by (auto simp: bne_m.simps [of L a b] bne_m.simps [of L b 0] x_def y_def split: if_splits)
  show "lands L (blt_m L a b target nt) s (if sint x < sint y then target else nt)"
    using lt(1) [of True] lt(3) [of False] lt(4) [of True] z
    by (auto simp: blt_m_def x_def y_def bit_31_sint split: if_splits)
  show "lands L (bge_m L a b target nt) s (if \<not> sint x < sint y then target else nt)"
    using lt(1) [of False] lt(3) [of True] z by (auto simp: bge_m_def x_def y_def split: if_splits)
  show "lands L (bltu_m L a b target nt) s (if x < y then target else nt)"
    "lands L (bgeu_m L a b target nt) s (if \<not> x < y then target else nt)"
    using lt(2) [of True] lt(2) [of False] by (simp_all add: bltu_m_def bgeu_m_def)
qed

end
