(* ===== verification/Minirv.thy ===== *)
theory Minirv
  imports Minirv_Flow Riscv_Spec
begin

text \<open>
  The instruction set that \<open>inst-replace.h\<close> offers to the compiler: every instruction and pseudo-instruction
  it redefines, what it does according to the specification of the guest, and its expansion. The main theorems
  say that an expansion implements its instruction, and that a block of assembled code implements the block.
\<close>

section \<open>Instructions\<close>

datatype zbranch = BEQZ | BNEZ | BLEZ | BGEZ | BLTZ | BGTZ
datatype pbranch = BGT | BLE | BGTU | BLEU

datatype rv =
    RV_op alu nat nat nat
  | RV_opi alu nat nat u32
  | RV_lui nat u32
  | RV_lb nat u32 nat
  | RV_lh nat u32 nat
  | RV_lw nat u32 nat
  | RV_lbu nat u32 nat
  | RV_lhu nat u32 nat
  | RV_sb nat u32 nat
  | RV_sh nat u32 nat
  | RV_sw nat u32 nat
  | RV_branch cmp nat nat u32
  | RV_zbranch zbranch nat u32
  | RV_pbranch pbranch nat nat u32
  | RV_jal nat u32
  | RV_jalr nat u32 nat
  | RV_la nat u32
  | RV_not nat nat
  | RV_neg nat nat
  | RV_seqz nat nat
  | RV_snez nat nat
  | RV_sltz nat nat
  | RV_sgtz nat nat
  | RV_sgt nat nat nat
  | RV_sgtu nat nat nat
  | RV_j u32
  | RV_call u32
  | RV_tail u32

definition set_x :: "nat \<Rightarrow> u32 \<Rightarrow> u32 \<Rightarrow> mini \<Rightarrow> mini" where
  "set_x d v p s = s\<lparr>mreg := wr d v (mreg s), mpc := p\<rparr>"

definition set_m :: "bmem \<Rightarrow> u32 \<Rightarrow> mini \<Rightarrow> mini" where
  "set_m m p s = s\<lparr>mmem := m, mpc := p\<rparr>"

fun zcond :: "zbranch \<Rightarrow> u32 \<Rightarrow> bool" where
  "zcond BEQZ x \<longleftrightarrow> x = 0"
| "zcond BNEZ x \<longleftrightarrow> x \<noteq> 0"
| "zcond BLEZ x \<longleftrightarrow> sint x \<le> 0"
| "zcond BGEZ x \<longleftrightarrow> 0 \<le> sint x"
| "zcond BLTZ x \<longleftrightarrow> sint x < 0"
| "zcond BGTZ x \<longleftrightarrow> 0 < sint x"

fun pcond :: "pbranch \<Rightarrow> u32 \<Rightarrow> u32 \<Rightarrow> bool" where
  "pcond BGT x y \<longleftrightarrow> sint y < sint x"
| "pcond BLE x y \<longleftrightarrow> sint x \<le> sint y"
| "pcond BGTU x y \<longleftrightarrow> uint y < uint x"
| "pcond BLEU x y \<longleftrightarrow> uint x \<le> uint y"

text \<open>What an assembly instruction does; \<open>nxt\<close> is the address of the instruction after it.\<close>

fun rv_exec :: "u32 \<Rightarrow> rv \<Rightarrow> mini \<Rightarrow> mini" where
  "rv_exec nxt (RV_op f d a b) s = set_x d (alu_spec f (mreg s a) (mreg s b)) nxt s"
| "rv_exec nxt (RV_opi f d a i) s = set_x d (alu_spec f (mreg s a) i) nxt s"
| "rv_exec nxt (RV_lui d i) s = set_x d i nxt s"
| "rv_exec nxt (RV_lb d off a) s = set_x d (scast (mmem s (mreg s a + off))) nxt s"
| "rv_exec nxt (RV_lh d off a) s = set_x d (scast (ldh (mmem s) (mreg s a + off))) nxt s"
| "rv_exec nxt (RV_lw d off a) s = set_x d (ldw (mmem s) (mreg s a + off)) nxt s"
| "rv_exec nxt (RV_lbu d off a) s = set_x d (ucast (mmem s (mreg s a + off))) nxt s"
| "rv_exec nxt (RV_lhu d off a) s = set_x d (ucast (ldh (mmem s) (mreg s a + off))) nxt s"
| "rv_exec nxt (RV_sb b off a) s = set_m ((mmem s)(mreg s a + off := byte_of (mreg s b) 0)) nxt s"
| "rv_exec nxt (RV_sh b off a) s = set_m ((mmem s)(mreg s a + off := byte_of (mreg s b) 0,
     mreg s a + off + 1 := byte_of (mreg s b) 1)) nxt s"
| "rv_exec nxt (RV_sw b off a) s = set_m (stw (mreg s a + off) (mreg s b) (mmem s)) nxt s"
| "rv_exec nxt (RV_branch c a b t) s = s\<lparr>mpc := if cmp_spec c (mreg s a) (mreg s b) then t else nxt\<rparr>"
| "rv_exec nxt (RV_zbranch c a t) s = s\<lparr>mpc := if zcond c (mreg s a) then t else nxt\<rparr>"
| "rv_exec nxt (RV_pbranch c a b t) s = s\<lparr>mpc := if pcond c (mreg s a) (mreg s b) then t else nxt\<rparr>"
| "rv_exec nxt (RV_jal d t) s = set_x d nxt t s"
| "rv_exec nxt (RV_jalr d off a) s = set_x d nxt ((mreg s a + off) AND NOT 1) s"
| "rv_exec nxt (RV_la d x) s = set_x d x nxt s"
| "rv_exec nxt (RV_not d a) s = set_x d (NOT (mreg s a)) nxt s"
| "rv_exec nxt (RV_neg d a) s = set_x d (- mreg s a) nxt s"
| "rv_exec nxt (RV_seqz d a) s = set_x d (of_bool (mreg s a = 0)) nxt s"
| "rv_exec nxt (RV_snez d a) s = set_x d (of_bool (mreg s a \<noteq> 0)) nxt s"
| "rv_exec nxt (RV_sltz d a) s = set_x d (of_bool (sint (mreg s a) < 0)) nxt s"
| "rv_exec nxt (RV_sgtz d a) s = set_x d (of_bool (0 < sint (mreg s a))) nxt s"
| "rv_exec nxt (RV_sgt d a b) s = set_x d (of_bool (sint (mreg s b) < sint (mreg s a))) nxt s"
| "rv_exec nxt (RV_sgtu d a b) s = set_x d (of_bool (mreg s b < mreg s a)) nxt s"
| "rv_exec nxt (RV_j t) s = s\<lparr>mpc := t\<rparr>"
| "rv_exec nxt (RV_call t) s = set_x x_ra nxt t s"
| "rv_exec nxt (RV_tail t) s = s\<lparr>mpc := t\<rparr>"

section \<open>Expansion\<close>

fun alu_m :: "luts \<Rightarrow> alu \<Rightarrow> nat \<Rightarrow> nat \<Rightarrow> nat \<Rightarrow> base list option" where
  "alu_m L ADD d a b = Some [M_add d a b]"
| "alu_m L SUB d a b = Some (sub_m L d a b)"
| "alu_m L SLL d a b = Some (sll_m L d a b)"
| "alu_m L SLT d a b = Some (slt_m L d a b)"
| "alu_m L SLTU d a b = Some (sltu_m L d a b)"
| "alu_m L XORR d a b = logic_m (xor8_table L) d a b"
| "alu_m L SRL d a b = Some (shift_right_template L d a b False False)"
| "alu_m L SRA d a b = Some (shift_right_template L d a b True False)"
| "alu_m L ORR d a b = logic_m (or8_table L) d a b"
| "alu_m L ANDD d a b = logic_m (and8_table L) d a b"
| "alu_m L f d a b = None"

definition def_itype :: "(nat \<Rightarrow> nat \<Rightarrow> nat \<Rightarrow> base list option) \<Rightarrow> nat \<Rightarrow> nat \<Rightarrow> u32 \<Rightarrow> base list option" where
  "def_itype rtype_name d a i = map_option (\<lambda>c. M_addi x_tp x_0 i # c) (rtype_name d a x_tp)"

fun alui_m :: "luts \<Rightarrow> alu \<Rightarrow> nat \<Rightarrow> nat \<Rightarrow> u32 \<Rightarrow> base list option" where
  "alui_m L ADD d a i = Some [M_addi d a i]"
| "alui_m L SLL d a i = Some (slli_m d a (unat i))"
| "alui_m L SLT d a i = def_itype (alu_m L SLT) d a i"
| "alui_m L SLTU d a i = def_itype (alu_m L SLTU) d a i"
| "alui_m L XORR d a i = def_itype (alu_m L XORR) d a i"
| "alui_m L SRL d a i = Some (shift_right_template L d a (unat i) False True)"
| "alui_m L SRA d a i = Some (shift_right_template L d a (unat i) True True)"
| "alui_m L ORR d a i = def_itype (alu_m L ORR) d a i"
| "alui_m L ANDD d a i = def_itype (alu_m L ANDD) d a i"
| "alui_m L f d a i = None"

fun branch_m :: "luts \<Rightarrow> cmp \<Rightarrow> nat \<Rightarrow> nat \<Rightarrow> u32 \<Rightarrow> u32 \<Rightarrow> base list" where
  "branch_m L CMP_EQ a b t n = beq_m L a b t n"
| "branch_m L CMP_NE a b t n = bne_m L a b t n"
| "branch_m L CMP_LT a b t n = blt_m L a b t n"
| "branch_m L CMP_GE a b t n = bge_m L a b t n"
| "branch_m L CMP_LTU a b t n = bltu_m L a b t n"
| "branch_m L CMP_GEU a b t n = bgeu_m L a b t n"

fun zbranch_m :: "luts \<Rightarrow> zbranch \<Rightarrow> nat \<Rightarrow> u32 \<Rightarrow> u32 \<Rightarrow> base list" where
  "zbranch_m L BEQZ a t n = beq_m L a x_0 t n"
| "zbranch_m L BNEZ a t n = bne_m L a x_0 t n"
| "zbranch_m L BLEZ a t n = bge_m L x_0 a t n"
| "zbranch_m L BGEZ a t n = bge_m L a x_0 t n"
| "zbranch_m L BLTZ a t n = blt_m L a x_0 t n"
| "zbranch_m L BGTZ a t n = blt_m L x_0 a t n"

fun pbranch_m :: "luts \<Rightarrow> pbranch \<Rightarrow> nat \<Rightarrow> nat \<Rightarrow> u32 \<Rightarrow> u32 \<Rightarrow> base list" where
  "pbranch_m L BGT a b t n = blt_m L b a t n"
| "pbranch_m L BLE a b t n = bge_m L b a t n"
| "pbranch_m L BGTU a b t n = bltu_m L b a t n"
| "pbranch_m L BLEU a b t n = bgeu_m L b a t n"

definition neg_m :: "luts \<Rightarrow> nat \<Rightarrow> nat \<Rightarrow> base list" where
  "neg_m L d a = sub_m L d x_0 a"

definition snez_m :: "luts \<Rightarrow> nat \<Rightarrow> nat \<Rightarrow> base list" where
  "snez_m L d a = sltu_m L d x_0 a"

definition sltz_m :: "nat \<Rightarrow> nat \<Rightarrow> base list" where
  "sltz_m d a = msb_m d a"

definition sgt_m :: "luts \<Rightarrow> nat \<Rightarrow> nat \<Rightarrow> nat \<Rightarrow> base list" where
  "sgt_m L d a b = slt_m L d b a"

definition sgtu_m :: "luts \<Rightarrow> nat \<Rightarrow> nat \<Rightarrow> nat \<Rightarrow> base list" where
  "sgtu_m L d a b = sltu_m L d b a"

definition sgtz_m :: "luts \<Rightarrow> nat \<Rightarrow> nat \<Rightarrow> base list" where
  "sgtz_m L d a = slt_m L d x_0 a"

fun expand :: "luts \<Rightarrow> u32 \<Rightarrow> rv \<Rightarrow> base list option" where
  "expand L nxt (RV_op f d a b) = alu_m L f d a b"
| "expand L nxt (RV_opi f d a i) = alui_m L f d a i"
| "expand L nxt (RV_lui d i) = Some [M_lui d i]"
| "expand L nxt (RV_lb d off a) = Some (lb_m L d off a)"
| "expand L nxt (RV_lh d off a) = Some (lh_m L d off a)"
| "expand L nxt (RV_lw d off a) = Some [M_lw d off a]"
| "expand L nxt (RV_lbu d off a) = Some [M_lbu d off a]"
| "expand L nxt (RV_lhu d off a) = Some (lhu_m d off a)"
| "expand L nxt (RV_sb b off a) = Some [M_sb b off a]"
| "expand L nxt (RV_sh b off a) = Some (sh_m b off a)"
| "expand L nxt (RV_sw b off a) = Some [M_sw b off a]"
| "expand L nxt (RV_branch c a b t) = Some (branch_m L c a b t nxt)"
| "expand L nxt (RV_zbranch c a t) = Some (zbranch_m L c a t nxt)"
| "expand L nxt (RV_pbranch c a b t) = Some (pbranch_m L c a b t nxt)"
| "expand L nxt (RV_jal d t) = Some (jal_m d t)"
| "expand L nxt (RV_jalr d off a) = Some [M_jalr d off a]"
| "expand L nxt (RV_la d x) = Some (la_m d x)"
| "expand L nxt (RV_not d a) = Some (not_m L d a)"
| "expand L nxt (RV_neg d a) = Some (neg_m L d a)"
| "expand L nxt (RV_seqz d a) = Some (seqz_m L d a)"
| "expand L nxt (RV_snez d a) = Some (snez_m L d a)"
| "expand L nxt (RV_sltz d a) = Some (sltz_m d a)"
| "expand L nxt (RV_sgtz d a) = Some (sgtz_m L d a)"
| "expand L nxt (RV_sgt d a b) = Some (sgt_m L d a b)"
| "expand L nxt (RV_sgtu d a b) = Some (sgtu_m L d a b)"
| "expand L nxt (RV_j t) = Some (j_m t)"
| "expand L nxt (RV_call t) = Some (call_m t)"
| "expand L nxt (RV_tail t) = Some (tail_m t)"

section \<open>The operands the macros accept\<close>

text \<open>
  The compiler leaves gp and tp alone; the temporaries of a macro live below sp, so sp is not its result, and neither is
  the zero register.
\<close>

definition src_ok :: "nat \<Rightarrow> bool" where
  "src_ok q \<longleftrightarrow> q \<noteq> x_gp \<and> q \<noteq> x_tp"

definition dest_ok :: "nat \<Rightarrow> bool" where
  "dest_ok q \<longleftrightarrow> q \<noteq> x_0 \<and> q \<noteq> x_sp \<and> src_ok q"

fun ops_ok :: "rv \<Rightarrow> bool" where
  "ops_ok (RV_op f d a b) \<longleftrightarrow> src_ok a \<and> src_ok b \<and> (if f = ADD then src_ok d
     else if f = SUB then src_ok d \<and> d \<noteq> x_0 else dest_ok d)"
| "ops_ok (RV_opi f d a i) \<longleftrightarrow> src_ok a \<and> (if f = ADD then src_ok d else dest_ok d)
     \<and> (f = SLL \<or> f = SRL \<or> f = SRA \<longrightarrow> unat i < 32)"
| "ops_ok (RV_lb d off a) \<longleftrightarrow> src_ok a \<and> dest_ok d"
| "ops_ok (RV_lh d off a) \<longleftrightarrow> src_ok a \<and> dest_ok d"
| "ops_ok (RV_lhu d off a) \<longleftrightarrow> src_ok a \<and> dest_ok d"
| "ops_ok (RV_lw d off a) \<longleftrightarrow> src_ok a \<and> src_ok d"
| "ops_ok (RV_lbu d off a) \<longleftrightarrow> src_ok a \<and> src_ok d"
| "ops_ok (RV_lui d i) \<longleftrightarrow> src_ok d"
| "ops_ok (RV_la d i) \<longleftrightarrow> src_ok d \<and> d \<noteq> x_0"
| "ops_ok (RV_sb b off a) \<longleftrightarrow> src_ok a \<and> src_ok b"
| "ops_ok (RV_sh b off a) \<longleftrightarrow> src_ok a \<and> src_ok b"
| "ops_ok (RV_sw b off a) \<longleftrightarrow> src_ok a \<and> src_ok b"
| "ops_ok (RV_branch c a b t) \<longleftrightarrow> src_ok a \<and> src_ok b \<and> even t"
| "ops_ok (RV_zbranch c a t) \<longleftrightarrow> src_ok a \<and> even t"
| "ops_ok (RV_pbranch c a b t) \<longleftrightarrow> src_ok a \<and> src_ok b \<and> even t"
| "ops_ok (RV_jal d t) \<longleftrightarrow> src_ok d \<and> even t"
| "ops_ok (RV_jalr d off a) \<longleftrightarrow> src_ok d \<and> src_ok a"
| "ops_ok (RV_not d a) \<longleftrightarrow> dest_ok d \<and> src_ok a"
| "ops_ok (RV_neg d a) \<longleftrightarrow> dest_ok d \<and> src_ok a"
| "ops_ok (RV_seqz d a) \<longleftrightarrow> dest_ok d \<and> src_ok a"
| "ops_ok (RV_snez d a) \<longleftrightarrow> dest_ok d \<and> src_ok a"
| "ops_ok (RV_sltz d a) \<longleftrightarrow> dest_ok d \<and> src_ok a"
| "ops_ok (RV_sgtz d a) \<longleftrightarrow> dest_ok d \<and> src_ok a"
| "ops_ok (RV_sgt d a b) \<longleftrightarrow> dest_ok d \<and> src_ok a \<and> src_ok b"
| "ops_ok (RV_sgtu d a b) \<longleftrightarrow> dest_ok d \<and> src_ok a \<and> src_ok b"
| "ops_ok (RV_j t) \<longleftrightarrow> even t"
| "ops_ok (RV_call t) \<longleftrightarrow> even t"
| "ops_ok (RV_tail t) \<longleftrightarrow> even t"

text \<open>The one instruction among these that its macro does not implement: \<open>seqz s0, rs1\<close>.\<close>

fun seqz_to_s0 :: "rv \<Rightarrow> bool" where
  "seqz_to_s0 (RV_seqz d a) \<longleftrightarrow> d = x_s0"
| "seqz_to_s0 i \<longleftrightarrow> False"

text \<open>Byte and half-word accesses the macros split stay clear of the temporaries.\<close>

fun access_ok :: "luts \<Rightarrow> mini \<Rightarrow> rv \<Rightarrow> bool" where
  "access_ok L s (RV_lb d off a) \<longleftrightarrow> mreg s a + off \<notin> dead L (mreg s x_sp)"
| "access_ok L s (RV_lh d off a) \<longleftrightarrow>
     mreg s a + off \<notin> dead L (mreg s x_sp) \<and> mreg s a + off + 1 \<notin> dead L (mreg s x_sp)"
| "access_ok L s (RV_lhu d off a) \<longleftrightarrow>
     mreg s a + off \<notin> dead L (mreg s x_sp) \<and> mreg s a + off + 1 \<notin> dead L (mreg s x_sp)"
| "access_ok L s (RV_sh b off a) \<longleftrightarrow>
     mreg s a + off \<notin> dead L (mreg s x_sp) \<and> mreg s a + off + 1 \<notin> dead L (mreg s x_sp)"
| "access_ok L s i \<longleftrightarrow> True"

definition agree :: "luts \<Rightarrow> u32 \<Rightarrow> mini \<Rightarrow> mini \<Rightarrow> bool" where
  "agree L v s t \<longleftrightarrow> (\<forall>q. src_ok q \<longrightarrow> mreg s q = mreg t q) \<and> (\<forall>a. a \<notin> dead L v \<longrightarrow> mmem s a = mmem t a)
     \<and> mpc s = mpc t"

lemma straight_agree:
  assumes c: "computes L code (mreg s, mmem s) d x" and st: "straight code" and d: "d \<noteq> 0"
    and n: "nxt = mpc s + 4 * of_nat (length code)"
  shows "agree L (mreg s x_sp) (mrun code s) (set_x d x nxt s)"
proof -
  obtain r m where rm: "eff code (mreg s, mmem s) = (r, m)" by fastforce
  have "mrun code s = \<lparr>mreg = r, mmem = m, mpc = nxt\<rparr>" using mrun_straight [OF st rm, of "[]"] n by simp
  then show ?thesis using c rm d by (simp add: agree_def set_x_def computes_def src_ok_def)
qed

lemma lands_agree: "lands L code s p \<Longrightarrow> agree L (mreg s x_sp) (mrun code s) (s\<lparr>mpc := p\<rparr>)"
  by (simp add: lands_def agree_def src_ok_def Let_def)

lemma computes_sub:
  "env L (r x_sp) m \<Longrightarrow> d \<noteq> 0 \<Longrightarrow> a \<noteq> x_tp \<Longrightarrow> computes L (sub_m L d a b) (r, m) d (r a - r b)"
  by (simp add: computes_def eff_sub)

lemma computes_not:
  "env L (r x_sp) m \<Longrightarrow> d \<noteq> 0 \<Longrightarrow> computes L (not_m L d a) (r, m) d (NOT (r a))"
  by (simp add: computes_def eff_not)

lemma computes_li:
  "computes L code (r(x_tp := i), m) d x \<Longrightarrow> r 0 = 0 \<Longrightarrow> computes L (M_addi x_tp x_0 i # code) (r, m) d x"
  by (auto simp: computes_def steps split: prod.splits)

lemma computes_alu:
  assumes e: "env L (r x_sp) m" "r 0 = 0" and c: "alu_m L f d a b = Some code"
    and o: "d \<noteq> 0" "d \<noteq> x_tp" "a \<noteq> x_tp" "f = SUB \<or> f = ADD \<or> d \<noteq> x_sp"
  shows "computes L code (r, m) d (alu_spec f (r a) (r b))" "straight code"
proof -
  have "computes L code (r, m) d (alu_spec f (r a) (r b)) \<and> straight code"
  proof (cases f)
    case ADD
    then show ?thesis using o c by (auto simp: computes_def steps)
  next
    case SUB
    then show ?thesis using computes_sub [of L r m d a b] e o c
      by (auto simp: alu_sub [symmetric] straight_macros simp del: alu_spec.simps)
  next
    case SLL
    then show ?thesis using computes_sll [of L r m d a b] e o c
      by (auto simp: alu_sll [OF refl, symmetric] straight_macros simp del: alu_spec.simps)
  next
    case SLT
    then show ?thesis using computes_slt(1) [of L r m d a b] e o c
      by (auto simp: slt_m_def [symmetric] straight_macros)
  next
    case SLTU
    then show ?thesis using computes_slt(2) [of L r m d a b] e o c
      by (auto simp: sltu_m_def [symmetric] word_less_def straight_macros)
  next
    case XORR
    then show ?thesis using computes_logic(3) [of L r m "xor8_table L" d a b code] e o c straight_logic
      by (auto simp: alu_bitwise [symmetric] simp del: alu_spec.simps)
  next
    case ORR
    then show ?thesis using computes_logic(2) [of L r m "or8_table L" d a b code] e o c straight_logic
      by (auto simp: alu_bitwise [symmetric] simp del: alu_spec.simps)
  next
    case ANDD
    then show ?thesis using computes_logic(1) [of L r m "and8_table L" d a b code] e o c straight_logic
      by (auto simp: alu_bitwise [symmetric] simp del: alu_spec.simps)
  next
    case SRL
    then show ?thesis using computes_shift_right [of L r m d False b _ a False] e o c
      by (auto simp: alu_srl [OF refl, symmetric] straight_macros simp del: alu_spec.simps)
  next
    case SRA
    then show ?thesis using computes_shift_right [of L r m d False b _ a True] e o c
      by (auto simp: alu_sra [OF refl, symmetric] straight_macros simp del: alu_spec.simps)
  qed (use c in simp_all)
  then show "computes L code (r, m) d (alu_spec f (r a) (r b))" "straight code" by blast+
qed

lemma computes_alui:
  assumes e: "env L (r x_sp) m" "r 0 = 0" and c: "alui_m L f d a i = Some code"
    and o: "d \<noteq> 0" "d \<noteq> x_tp" "a \<noteq> x_tp" "f = ADD \<or> d \<noteq> x_sp"
    and sh: "f = SLL \<or> f = SRL \<or> f = SRA \<longrightarrow> unat i < 32"
  shows "computes L code (r, m) d (alu_spec f (r a) i)" "straight code"
proof -
  have li: "computes L code (r, m) d (alu_spec f (r a) i) \<and> straight code"
    if d: "def_itype (alu_m L f) d a i = Some code" "f \<noteq> ADD"
  proof -
    from d obtain code' where c': "alu_m L f d a x_tp = Some code'" "code = M_addi x_tp x_0 i # code'"
      by (auto simp: def_itype_def)
    then have "computes L code' (r(x_tp := i), m) d (alu_spec f (r a) i)" "straight code'"
      using computes_alu [of L "r(x_tp := i)" m f d a x_tp code'] e o d(2) by auto
    then show ?thesis using c'(2) e(2) computes_li [of L code' r i m d] by simp
  qed
  have "computes L code (r, m) d (alu_spec f (r a) i) \<and> straight code"
  proof (cases f)
    case ADD
    then show ?thesis using o c by (auto simp: computes_def steps)
  next
    case SLL
    then show ?thesis using computes_slli [of r d "unat i" L a m] e o c sh
      by (auto simp: alu_sll [OF refl, symmetric] straight_slli simp del: alu_spec.simps)
  next
    case SRL
    then show ?thesis using computes_shift_right [of L r m d True "unat i" _ a False] e o c sh
      by (auto simp: alu_srl [OF refl, symmetric] straight_macros simp del: alu_spec.simps)
  next
    case SRA
    then show ?thesis using computes_shift_right [of L r m d True "unat i" _ a True] e o c sh
      by (auto simp: alu_sra [OF refl, symmetric] straight_macros simp del: alu_spec.simps)
  qed (use c li in simp_all)
  then show "computes L code (r, m) d (alu_spec f (r a) i)" "straight code" by blast+
qed

lemma length_la: "length (la_m d x) = 2"
  by (simp add: la_m_def)

lemma jump_agree:
  assumes "even t"
  shows "agree L v (mrun (j_m t @ code) s) (s\<lparr>mpc := t\<rparr>)"
    "d \<noteq> 0 \<Longrightarrow> nxt = mpc s + 12 \<Longrightarrow> agree L v (mrun (call_template d t) s) (set_x d nxt t s)"
proof -
  have "mrun (la_m x_tp t @ M_jalr x_0 0 x_tp # code) s
      = s\<lparr>mreg := (mreg s)(x_tp := t), mpc := t AND NOT 1\<rparr>"
    using mrun_straight [of "la_m x_tp t" s "(mreg s)(x_tp := t)" "mmem s" "M_jalr x_0 0 x_tp # code"]
    by (simp add: straight_macros eff_la wr_def)
  then show "agree L v (mrun (j_m t @ code) s) (s\<lparr>mpc := t\<rparr>)"
    using even_target [OF assms] by (simp add: j_m_def agree_def src_ok_def)
  assume d: "d \<noteq> 0" "nxt = mpc s + 12"
  have "mrun (call_template d t) s = s\<lparr>mreg := (mreg s)(d := mpc s + 12), mpc := t AND NOT 1\<rparr>"
    using d mrun_straight [of "la_m d t" s "(mreg s)(d := t)" "mmem s" "[M_jalr d 0 d]"]
    by (cases s) (simp add: call_template_def straight_macros eff_la length_la add.commute)
  then show "agree L v (mrun (call_template d t) s) (set_x d nxt t s)"
    using even_target [OF assms] d by (simp add: agree_def set_x_def)
qed

lemma branch_agree:
  assumes e: "env L (mreg s x_sp) (mmem s)" and z: "mreg s 0 = 0" and n: "even nxt"
    and o: "src_ok a" "src_ok b" "even t"
  shows "agree L (mreg s x_sp) (mrun (branch_m L c a b t nxt) s)
      (s\<lparr>mpc := if cmp_spec c (mreg s a) (mreg s b) then t else nxt\<rparr>)"
    "agree L (mreg s x_sp) (mrun (zbranch_m L zb a t nxt) s) (s\<lparr>mpc := if zcond zb (mreg s a) then t else nxt\<rparr>)"
    "agree L (mreg s x_sp) (mrun (pbranch_m L pb a b t nxt) s)
      (s\<lparr>mpc := if pcond pb (mreg s a) (mreg s b) then t else nxt\<rparr>)"
proof -
  have ab: "a \<noteq> x_gp" "b \<noteq> x_gp" "(0 :: nat) \<noteq> x_gp" using o by (simp_all add: src_ok_def)
  note l = branch_macros_land [OF e z o(3) n, THEN lands_agree]
  show "agree L (mreg s x_sp) (mrun (branch_m L c a b t nxt) s)
      (s\<lparr>mpc := if cmp_spec c (mreg s a) (mreg s b) then t else nxt\<rparr>)"
    using l [OF ab(1,2)] by (cases c) (simp_all add: word_less_def word_uint_eq_iff)
  show "agree L (mreg s x_sp) (mrun (zbranch_m L zb a t nxt) s) (s\<lparr>mpc := if zcond zb (mreg s a) then t else nxt\<rparr>)"
    using l [OF ab(1,3)] l [OF ab(3,1)] z by (cases zb) (simp_all add: not_less)
  show "agree L (mreg s x_sp) (mrun (pbranch_m L pb a b t nxt) s)
      (s\<lparr>mpc := if pcond pb (mreg s a) (mreg s b) then t else nxt\<rparr>)"
    using l [OF ab(2,1)] by (cases pb) (simp_all add: not_less word_less_def)
qed

text \<open>Code implements an instruction if running it has the effect of the instruction on what the program can see.\<close>

definition implements :: "luts \<Rightarrow> mini \<Rightarrow> base list \<Rightarrow> rv \<Rightarrow> bool" where
  "implements L s code i \<longleftrightarrow>
     agree L (mreg s x_sp) (mrun code s) (rv_exec (mpc s + 4 * of_nat (length code)) i s)"

lemma implementsI:
  "computes L code (mreg s, mmem s) d x \<Longrightarrow> straight code \<Longrightarrow> d \<noteq> 0 \<Longrightarrow>
   rv_exec (mpc s + 4 * of_nat (length code)) i s = set_x d x (mpc s + 4 * of_nat (length code)) s \<Longrightarrow>
   implements L s code i"
  unfolding implements_def by (simp only:) (rule straight_agree [OF _ _ _ refl])

lemma alu_implements:
  assumes "env L (mreg s x_sp) (mmem s)" "mreg s 0 = 0"
  shows "alu_m L f d a b = Some code \<Longrightarrow> ops_ok (RV_op f d a b) \<Longrightarrow> implements L s code (RV_op f d a b)"
    "alui_m L f d a i = Some code \<Longrightarrow> ops_ok (RV_opi f d a i) \<Longrightarrow> implements L s code (RV_opi f d a i)"
proof -
  assume x: "alu_m L f d a b = Some code" and o: "ops_ok (RV_op f d a b)"
  show "implements L s code (RV_op f d a b)"
  proof (cases "d = 0")
    case True
    then show ?thesis using o x
      by (auto simp: implements_def src_ok_def dest_ok_def agree_def set_x_def steps split: if_splits)
  next
    case False
    then show ?thesis using computes_alu [of L "mreg s" "mmem s" f d a b code] o x assms
      by (intro implementsI [of _ _ _ d]) (auto simp: src_ok_def dest_ok_def split: if_splits)
  qed
next
  assume x: "alui_m L f d a i = Some code" and o: "ops_ok (RV_opi f d a i)"
  show "implements L s code (RV_opi f d a i)"
  proof (cases "d = 0")
    case True
    then show ?thesis using o x
      by (auto simp: implements_def src_ok_def dest_ok_def agree_def set_x_def steps split: if_splits)
  next
    case False
    then show ?thesis using computes_alui [of L "mreg s" "mmem s" f d a i code] o x assms
      by (intro implementsI [of _ _ _ d]) (auto simp: src_ok_def dest_ok_def split: if_splits)
  qed
qed

lemma load_implements:
  assumes e: "env L (mreg s x_sp) (mmem s)" "mreg s 0 = 0" and o: "src_ok a" "dest_ok d"
    and p: "mreg s a + off \<notin> dead L (mreg s x_sp)"
  shows "implements L s (lb_m L d off a) (RV_lb d off a)"
    "mreg s a + off + 1 \<notin> dead L (mreg s x_sp) \<Longrightarrow> implements L s (lh_m L d off a) (RV_lh d off a)"
    "mreg s a + off + 1 \<notin> dead L (mreg s x_sp) \<Longrightarrow> implements L s (lhu_m d off a) (RV_lhu d off a)"
  using assms unfolding src_ok_def dest_ok_def
  by (auto intro: implementsI [OF computes_lb straight_macros(11)] implementsI [OF computes_lh straight_macros(13)]
      implementsI [OF computes_lhu straight_macros(12)])

lemma sh_implements:
  assumes o: "src_ok a" "src_ok b"
    and p: "mreg s a + off \<notin> dead L (mreg s x_sp)" "mreg s a + off + 1 \<notin> dead L (mreg s x_sp)"
  shows "implements L s (sh_m b off a) (RV_sh b off a)"
proof -
  obtain r m where rm: "eff (sh_m b off a) (mreg s, mmem s) = (r, m)" by fastforce
  have "mrun (sh_m b off a) s = \<lparr>mreg = r, mmem = m, mpc = mpc s + 4 * of_nat (length (sh_m b off a))\<rparr>"
    using mrun_straight [OF straight_macros(14) rm, of "[]"] by simp
  moreover have "q \<noteq> x_tp \<Longrightarrow> r q = mreg s q" "x \<notin> dead L (mreg s x_sp) \<Longrightarrow> m x = ((mmem s)
    (mreg s a + off := byte_of (mreg s b) 0, mreg s a + off + 1 := byte_of (mreg s b) 1)) x" for q x
    using eff_sh [OF rm, of L] assms by (simp_all add: src_ok_def)
  ultimately show ?thesis by (simp add: implements_def src_ok_def agree_def set_m_def del: fun_upd_apply)
qed

lemma pseudo_implements:
  assumes e: "env L (mreg s x_sp) (mmem s)" "mreg s 0 = 0" and o: "src_ok a" "src_ok b" "dest_ok d"
  shows "implements L s (not_m L d a) (RV_not d a)" "implements L s (neg_m L d a) (RV_neg d a)"
    "d \<noteq> x_s0 \<Longrightarrow> implements L s (seqz_m L d a) (RV_seqz d a)"
    "implements L s (snez_m L d a) (RV_snez d a)" "implements L s (sltz_m d a) (RV_sltz d a)"
    "implements L s (sgtz_m L d a) (RV_sgtz d a)" "implements L s (sgt_m L d a b) (RV_sgt d a b)"
    "implements L s (sgtu_m L d a b) (RV_sgtu d a b)"
  unfolding neg_m_def snez_m_def sltz_m_def sgtz_m_def sgt_m_def sgtu_m_def
proof -
  note lt = computes_slt [folded slt_m_def sltu_m_def] and ok = src_ok_def dest_ok_def
  show "implements L s (not_m L d a) (RV_not d a)"
    by (rule implementsI [OF computes_not straight_macros(2)]) (use e o in \<open>simp_all add: ok\<close>)
  show "implements L s (sub_m L d x_0 a) (RV_neg d a)"
    by (rule implementsI [OF computes_sub straight_macros(3)]) (use e o in \<open>simp_all add: ok\<close>)
  show "implements L s (seqz_m L d a) (RV_seqz d a)" if "d \<noteq> x_s0"
    by (rule implementsI [OF computes_seqz straight_macros(8)]) (use e o that in \<open>simp_all add: ok\<close>)
  show "implements L s (sltu_m L d x_0 a) (RV_snez d a)"
    by (rule implementsI [OF lt(2) straight_macros(6)]) (use e o in \<open>simp_all add: ok word_gt_0\<close>)
  show "implements L s (msb_m d a) (RV_sltz d a)"
    by (rule implementsI [OF computes_msb straight_macros(4)]) (use e o in \<open>simp_all add: ok bit_31_sint\<close>)
  show "implements L s (slt_m L d x_0 a) (RV_sgtz d a)"
    by (rule implementsI [OF lt(1) straight_macros(5)]) (use e o in \<open>simp_all add: ok\<close>)
  show "implements L s (slt_m L d b a) (RV_sgt d a b)"
    by (rule implementsI [OF lt(1) straight_macros(5)]) (use e o in \<open>simp_all add: ok\<close>)
  show "implements L s (sltu_m L d b a) (RV_sgtu d a b)"
    by (rule implementsI [OF lt(2) straight_macros(6)]) (use e o in \<open>simp_all add: ok\<close>)
qed

lemma jump_implements:
  assumes "even t"
  shows "implements L s (jal_m d t) (RV_jal d t)" "implements L s (j_m t) (RV_j t)"
    "implements L s (call_m t) (RV_call t)" "implements L s (tail_m t) (RV_tail t)"
  using jump_agree(1) [OF assms, of L _ "[]" s] jump_agree(1) [OF assms, of L _ "call_template x_ra t" s]
    jump_agree(2) [OF assms, of d _ s L] jump_agree(2) [OF assms, of x_ra _ s L]
  by (auto simp: implements_def jal_m_def call_m_def tail_m_def j_m_def call_template_def length_la set_x_def wr_def)

lemma base_implements:
  "implements L s [M_lui d i] (RV_lui d i)" "implements L s [M_lw d off a] (RV_lw d off a)"
  "implements L s [M_lbu d off a] (RV_lbu d off a)" "implements L s [M_sb b off a] (RV_sb b off a)"
  "implements L s [M_sw b off a] (RV_sw b off a)" "implements L s [M_jalr d off a] (RV_jalr d off a)"
  by (simp_all add: implements_def agree_def set_x_def set_m_def step.simps)

lemma expand_implements:
  assumes x: "expand L nxt i = Some code" and o: "ops_ok i" "\<not> seqz_to_s0 i" and acc: "access_ok L s i"
    and e: "env L (mreg s x_sp) (mmem s)" "mreg s 0 = 0"
    and n: "nxt = mpc s + 4 * of_nat (length code)" "even nxt"
  shows "implements L s code i"
proof (cases i)
  case (RV_branch c a b t)
  then show ?thesis using x o n branch_agree(1) [OF e n(2), of a b t c]
    by (auto simp: implements_def split del: if_split)
next
  case (RV_zbranch c a t)
  then show ?thesis using x o n branch_agree(2) [OF e n(2), of a a t c]
    by (auto simp: implements_def split del: if_split)
next
  case (RV_pbranch c a b t)
  then show ?thesis using x o n branch_agree(3) [OF e n(2), of a b t c]
    by (auto simp: implements_def split del: if_split)
next
  case (RV_la d p)
  then show ?thesis using x o
    by (auto simp: src_ok_def computes_def eff_la straight_macros intro!: implementsI [of _ _ _ d])
next
  case (RV_op f d a b)
  then show ?thesis using x o alu_implements(1) [OF e] by simp
next
  case (RV_opi f d a j)
  then show ?thesis using x o alu_implements(2) [OF e] by simp
qed (use x o acc e in \<open>auto intro: base_implements load_implements sh_implements pseudo_implements jump_implements\<close>)

text \<open>The expansion of an instruction does what the instruction does.\<close>

theorem expand_correct:
  assumes "expand L nxt i = Some code" "ops_ok i" "\<not> seqz_to_s0 i" "access_ok L s i" "env L (mreg s x_sp) (mmem s)" "mreg s 0 = 0"
    and "nxt = mpc s + 4 * of_nat (length code)" "even nxt"
  shows "agree L (mreg s x_sp) (mrun code s) (rv_exec nxt i s)"
  using expand_implements [OF assms] assms(7) by (simp add: implements_def)

lemma seqz_keeps_s0:
  assumes "env L (mreg s x_sp) (mmem s)" "mreg s 0 = 0"
  shows "mreg (mrun (seqz_m L x_s0 a) s) x_s0 = mreg s x_s0"
proof -
  obtain r m where rm: "eff (seqz_m L x_s0 a) (mreg s, mmem s) = (r, m)" by fastforce
  have "straight (seqz_m L x_s0 a)" by (simp add: straight_macros)
  then have "mreg (mrun (seqz_m L x_s0 a) s) = r" using mrun_straight [OF _ rm, of "[]"] by simp
  then show ?thesis using seqz_s0 [OF assms, of a] rm by simp
qed

section \<open>Blocks of instructions\<close>

fun in_block :: "rv \<Rightarrow> bool" where
  "in_block (RV_op f d a b) \<longleftrightarrow> d \<noteq> x_sp"
| "in_block (RV_opi f d a i) \<longleftrightarrow> d \<noteq> x_sp"
| "in_block (RV_lui d i) \<longleftrightarrow> d \<noteq> x_sp"
| "in_block (RV_lw d off a) \<longleftrightarrow> d \<noteq> x_sp"
| "in_block (RV_lbu d off a) \<longleftrightarrow> d \<noteq> x_sp"
| "in_block (RV_la d p) \<longleftrightarrow> d \<noteq> x_sp"
| "in_block (RV_branch c a b t) \<longleftrightarrow> False"
| "in_block (RV_zbranch c a t) \<longleftrightarrow> False"
| "in_block (RV_pbranch c a b t) \<longleftrightarrow> False"
| "in_block (RV_jal d t) \<longleftrightarrow> False"
| "in_block (RV_jalr d off a) \<longleftrightarrow> False"
| "in_block (RV_j t) \<longleftrightarrow> False"
| "in_block (RV_call t) \<longleftrightarrow> False"
| "in_block (RV_tail t) \<longleftrightarrow> False"
| "in_block i \<longleftrightarrow> True"

definition touched :: "mini \<Rightarrow> nat \<Rightarrow> u32 \<Rightarrow> nat \<Rightarrow> u32 set" where
  "touched s a off n = (\<lambda>k. mreg s a + off + of_nat k) ` {..<n}"

fun loads_at :: "mini \<Rightarrow> rv \<Rightarrow> u32 set" where
  "loads_at s (RV_lb d off a) = touched s a off 1"
| "loads_at s (RV_lbu d off a) = touched s a off 1"
| "loads_at s (RV_lh d off a) = touched s a off 2"
| "loads_at s (RV_lhu d off a) = touched s a off 2"
| "loads_at s (RV_lw d off a) = touched s a off 4"
| "loads_at s i = {}"

fun stores_at :: "mini \<Rightarrow> rv \<Rightarrow> u32 set" where
  "stores_at s (RV_sb b off a) = touched s a off 1"
| "stores_at s (RV_sh b off a) = touched s a off 2"
| "stores_at s (RV_sw b off a) = touched s a off 4"
| "stores_at s i = {}"

text \<open>The program does not look at the temporaries and does not overwrite the tables.\<close>

definition safe :: "luts \<Rightarrow> mini \<Rightarrow> rv \<Rightarrow> bool" where
  "safe L s i \<longleftrightarrow> (loads_at s i \<union> stores_at s i) \<inter> dead L (mreg s x_sp) = {} \<and> stores_at s i \<inter> rom_addrs L = {}"

fun assemble :: "luts \<Rightarrow> rv list \<Rightarrow> base list option" where
  "assemble L [] = Some []"
| "assemble L (i # is) = (case expand L 0 i of None \<Rightarrow> None
     | Some c \<Rightarrow> map_option (\<lambda>cs. c @ cs) (assemble L is))"

fun rv_run :: "rv list \<Rightarrow> mini \<Rightarrow> mini" where
  "rv_run [] s = s"
| "rv_run (i # is) s = rv_run is (rv_exec (mpc s + 4) i s)"

fun safe_run :: "luts \<Rightarrow> rv list \<Rightarrow> mini \<Rightarrow> bool" where
  "safe_run L [] s \<longleftrightarrow> True"
| "safe_run L (i # is) s \<longleftrightarrow> ops_ok i \<and> \<not> seqz_to_s0 i \<and> in_block i \<and> safe L s i \<and> safe_run L is (rv_exec (mpc s + 4) i s)"

definition sim :: "luts \<Rightarrow> u32 \<Rightarrow> mini \<Rightarrow> mini \<Rightarrow> bool" where
  "sim L v s t \<longleftrightarrow> mreg s x_sp = v \<and> (\<forall>q. src_ok q \<longrightarrow> mreg s q = mreg t q)
     \<and> (\<forall>a. a \<notin> dead L v \<longrightarrow> mmem s a = mmem t a)"

lemma agree_sim: "agree L v s t \<Longrightarrow> sim L v t u \<Longrightarrow> sim L v s u"
  by (auto simp: agree_def sim_def src_ok_def)

lemma sim_step:
  assumes s: "sim L v s t" and ok: "ops_ok i" "in_block i" "safe L t i"
  shows "sim L v (rv_exec n i s) (rv_exec k i t)"
proof -
  have r: "mreg s q = mreg t q" if "src_ok q" for q using s that by (simp add: sim_def)
  have m: "mmem s a = mmem t a" if "a \<in> loads_at t i" for a 
    using s ok(3) that r [of x_sp] by (auto simp: sim_def safe_def src_ok_def)
  have w: "sim L v (set_x d x n s) (set_x d x k t)" if "d \<noteq> x_sp" for d x
    using s that by (auto simp: sim_def set_x_def wr_def)
  have st: "sim L v (set_m (m1 (mmem s)) n s) (set_m (m1 (mmem t)) k t)"
    if "\<And>a. mmem s a = mmem t a \<Longrightarrow> m1 (mmem s) a = m1 (mmem t) a" for m1
    using s that by (auto simp: sim_def set_m_def)
  show ?thesis using ok m r
    by (cases i) (auto simp: touched_def dest_ok_def ldh_def ldw_def stw_def numeral_eq_Suc lessThan_Suc
      intro!: w st split: if_splits)
qed

lemma expand_in_block: "in_block i \<Longrightarrow> expand L n i = expand L 0 i"
  by (cases i) auto

lemma straight_expand: "expand L n i = Some c \<Longrightarrow> in_block i \<Longrightarrow> straight c"
proof -
  have "straight c" if "alu_m L f d a b = Some c" for f d a b c
    using that straight_logic by (cases f) (auto simp: straight_macros)
  moreover from this have "straight c" if "alui_m L f d a j = Some c" for f d a j c
    using that straight_logic by (cases f) (auto simp: straight_macros straight_slli def_itype_def)
  moreover assume "expand L n i = Some c" "in_block i"
  ultimately show ?thesis
    by (cases i) (auto simp: straight_macros neg_m_def snez_m_def sltz_m_def sgtz_m_def sgt_m_def sgtu_m_def)
qed

lemma rv_exec_block:
  "in_block i \<Longrightarrow> ops_ok i \<Longrightarrow> mreg (rv_exec n i s) 0 = mreg s 0 \<and> mreg (rv_exec n i s) x_sp = mreg s x_sp
     \<and> mpc (rv_exec n i s) = n"
  by (cases i) (auto simp: set_x_def set_m_def wr_def dest_ok_def split: if_splits)

lemma rv_exec_stores: "in_block i \<Longrightarrow> a \<notin> stores_at s i \<Longrightarrow> mmem (rv_exec n i s) a = mmem s a"
  by (cases i) (auto simp: set_x_def set_m_def touched_def stw_def numeral_eq_Suc lessThan_Suc)

lemma safe_access: "safe L s i \<Longrightarrow> access_ok L s i"
  by (cases i) (auto simp: safe_def touched_def numeral_eq_Suc lessThan_Suc)

lemma rom_alive: "env L v m \<Longrightarrow> a \<in> rom_addrs L \<Longrightarrow> a \<notin> dead L v"
  by (auto simp: env_def clear_def dead_def)

lemma safe_sim: "sim L v s t \<Longrightarrow> ops_ok i \<Longrightarrow> safe L s i = safe L t i"
  by (cases i) (auto simp: safe_def sim_def touched_def src_ok_def)

theorem assemble_correct:
  assumes "assemble L is = Some code" "safe_run L is t" "sim L v s t" "env L v (mmem s)" "mreg s 0 = 0" "even (mpc s)"
  shows "sim L v (mrun code s) (rv_run is t)"
  using assms
proof (induction "is" arbitrary: code s t)
  case Nil
  then show ?case by simp
next
  case (Cons i "is")
  then obtain c cs where c: "expand L 0 i = Some c" "assemble L is = Some cs" "code = c @ cs"
    by (auto split: option.splits)
  define n where "n = mpc s + 4 * of_nat (length c)"
  from Cons.prems have ok: "ops_ok i" "in_block i" "safe L t i" "safe_run L is (rv_exec (mpc t + 4) i t)"
    and z: "\<not> seqz_to_s0 i" and v: "mreg s x_sp = v" by (simp_all add: sim_def)
  have x: "expand L n i = Some c" using c(1) expand_in_block [OF ok(2), of L n] by simp
  have safe: "safe L s i" using ok(3) safe_sim [OF Cons.prems(3) ok(1)] by simp
  have a: "agree L v (mrun c s) (rv_exec n i s)"
    using expand_correct [OF x ok(1) z safe_access [OF safe]] Cons.prems(4-6) unfolding v by (simp add: n_def)
  let ?s = "mrun c s"
  have sim: "sim L v ?s (rv_exec (mpc t + 4) i t)"
    by (rule agree_sim [OF a sim_step [OF Cons.prems(3) ok(1-3)]])
  have "mmem ?s a = mmem s a" if "a \<in> rom_addrs L" for a
    using a safe that rom_alive [OF Cons.prems(4) that] rv_exec_stores [OF ok(2), of a s n]
    by (auto simp: agree_def safe_def)
  then have "env L v (mmem ?s)" using Cons.prems(4) env_cong [of L "mmem ?s" "mmem s" v] by blast
  moreover have "mreg ?s 0 = 0" "even (mpc ?s)"
    using a rv_exec_block [OF ok(2,1), of n s] Cons.prems by (auto simp: agree_def src_ok_def n_def)
  ultimately have "sim L v (mrun cs ?s) (rv_run is (rv_exec (mpc t + 4) i t))"
    by (rule Cons.IH [OF c(2) ok(4) sim])
  moreover have "mrun code s = mrun cs ?s"
    using mrun_straight [OF straight_expand [OF c(1) ok(2)], of s _ _ cs]
      mrun_straight [OF straight_expand [OF c(1) ok(2)], of s _ _ "[]"] c(3) by (cases "eff c (mreg s, mmem s)") auto
  ultimately show ?case by simp
qed

section \<open>Encodability\<close>

text \<open>
  The operands a base instruction has room for: five bits for a register, twelve for a signed immediate, and
  lui supplies the upper twenty bits.
\<close>

definition imm12 :: "u32 \<Rightarrow> bool" where
  "imm12 x \<longleftrightarrow> - 2048 \<le> sint x \<and> sint x < 2048"

fun encodable :: "base \<Rightarrow> bool" where
  "encodable (M_add d a b) \<longleftrightarrow> d < 32 \<and> a < 32 \<and> b < 32"
| "encodable (M_addi d a i) \<longleftrightarrow> d < 32 \<and> a < 32 \<and> imm12 i"
| "encodable (M_lui d i) \<longleftrightarrow> d < 32 \<and> take_bit 12 i = 0"
| "encodable (M_lw d off a) \<longleftrightarrow> d < 32 \<and> a < 32 \<and> imm12 off"
| "encodable (M_lbu d off a) \<longleftrightarrow> d < 32 \<and> a < 32 \<and> imm12 off"
| "encodable (M_sw b off a) \<longleftrightarrow> b < 32 \<and> a < 32 \<and> imm12 off"
| "encodable (M_sb b off a) \<longleftrightarrow> b < 32 \<and> a < 32 \<and> imm12 off"
| "encodable (M_jalr d off a) \<longleftrightarrow> d < 32 \<and> a < 32 \<and> imm12 off"

fun well_formed :: "rv \<Rightarrow> bool" where
  "well_formed (RV_op f d a b) \<longleftrightarrow> d < 32 \<and> a < 32 \<and> b < 32"
| "well_formed (RV_opi f d a i) \<longleftrightarrow> d < 32 \<and> a < 32 \<and> imm12 i"
| "well_formed (RV_lui d i) \<longleftrightarrow> d < 32 \<and> take_bit 12 i = 0"
| "well_formed (RV_lb d off a) \<longleftrightarrow> d < 32 \<and> a < 32 \<and> imm12 off"
| "well_formed (RV_lh d off a) \<longleftrightarrow> d < 32 \<and> a < 32 \<and> imm12 off"
| "well_formed (RV_lw d off a) \<longleftrightarrow> d < 32 \<and> a < 32 \<and> imm12 off"
| "well_formed (RV_lbu d off a) \<longleftrightarrow> d < 32 \<and> a < 32 \<and> imm12 off"
| "well_formed (RV_lhu d off a) \<longleftrightarrow> d < 32 \<and> a < 32 \<and> imm12 off"
| "well_formed (RV_sb b off a) \<longleftrightarrow> b < 32 \<and> a < 32 \<and> imm12 off"
| "well_formed (RV_sh b off a) \<longleftrightarrow> b < 32 \<and> a < 32 \<and> imm12 off"
| "well_formed (RV_sw b off a) \<longleftrightarrow> b < 32 \<and> a < 32 \<and> imm12 off"
| "well_formed (RV_branch c a b t) \<longleftrightarrow> a < 32 \<and> b < 32"
| "well_formed (RV_zbranch c a t) \<longleftrightarrow> a < 32"
| "well_formed (RV_pbranch c a b t) \<longleftrightarrow> a < 32 \<and> b < 32"
| "well_formed (RV_jal d t) \<longleftrightarrow> d < 32"
| "well_formed (RV_jalr d off a) \<longleftrightarrow> d < 32 \<and> a < 32 \<and> imm12 off"
| "well_formed (RV_la d x) \<longleftrightarrow> d < 32"
| "well_formed (RV_not d a) \<longleftrightarrow> d < 32 \<and> a < 32"
| "well_formed (RV_neg d a) \<longleftrightarrow> d < 32 \<and> a < 32"
| "well_formed (RV_seqz d a) \<longleftrightarrow> d < 32 \<and> a < 32"
| "well_formed (RV_snez d a) \<longleftrightarrow> d < 32 \<and> a < 32"
| "well_formed (RV_sltz d a) \<longleftrightarrow> d < 32 \<and> a < 32"
| "well_formed (RV_sgtz d a) \<longleftrightarrow> d < 32 \<and> a < 32"
| "well_formed (RV_sgt d a b) \<longleftrightarrow> d < 32 \<and> a < 32 \<and> b < 32"
| "well_formed (RV_sgtu d a b) \<longleftrightarrow> d < 32 \<and> a < 32 \<and> b < 32"
| "well_formed (RV_j t) \<longleftrightarrow> True"
| "well_formed (RV_call t) \<longleftrightarrow> True"
| "well_formed (RV_tail t) \<longleftrightarrow> True"

text \<open>A half-word access at the largest offset: its second byte is out of reach of the same base register.\<close>

fun half_at_end :: "rv \<Rightarrow> bool" where
  "half_at_end (RV_lh d off a) \<longleftrightarrow> off = 2047"
| "half_at_end (RV_lhu d off a) \<longleftrightarrow> off = 2047"
| "half_at_end (RV_sh b off a) \<longleftrightarrow> off = 2047"
| "half_at_end i \<longleftrightarrow> False"

lemma imm12_Suc: "imm12 off \<Longrightarrow> imm12 (1 + off) \<longleftrightarrow> off \<noteq> 2047"
proof -
  assume o: "imm12 off"
  then have b: "- 2048 \<le> sint off" "sint off < 2048" by (simp_all add: imm12_def)
  have "1 + off = word_of_int (1 + sint off)" by simp
  then have "sint (1 + off) = signed_take_bit 31 (1 + sint off)" by (simp only: signed_of_int) simp
  then have "sint (1 + off) = 1 + sint off" using b by (simp add: signed_take_bit_int_eq_self)
  moreover have "off = 2047 \<longleftrightarrow> sint off = 2047" using signed_word_eqI [of off 2047] by auto
  ultimately show ?thesis using b by (auto simp: imm12_def)
qed

lemma imm12_const: "imm12 0" "imm12 1" "imm12 (- 1)" "imm12 (- 20)" "\<not> imm12 2048"
  by (simp_all add: imm12_def)

lemma imm12_lo: "imm12 (lo a)"
proof -
  have "sint (lo a) = signed_take_bit 11 (uint a)"
    by (rule bit_eqI) (auto simp: lo_def bit_sint_iff bit_signed_take_bit_iff bit_uint_iff min_def)
  then show ?thesis
    using signed_take_bit_int_greater_eq_minus_exp [of 11 "uint a"] signed_take_bit_int_less_exp [of 11 "uint a"]
    by (simp add: imm12_def)
qed

lemma hi_low_bits: "take_bit 12 (hi a) = 0"
  by (rule bit_word_eqI) (simp add: hi_def bit_take_bit_iff bit_push_bit_iff)

lemma imm12_slot: "is_slot n \<Longrightarrow> b < 4 \<Longrightarrow> imm12 (SP_VAR_BYTE n b)"
proof -
  assume "is_slot n" "b < 4"
  then have "n \<in> {1, 2, 3, 4, 5, 6, 7}" "b \<in> {0, 1, 2, 3}" unfolding is_slot_def by auto
  then show ?thesis by (auto simp: imm12_def SP_VAR_BYTE_def)
qed

lemma imm12_half: "imm12 (1 + SP_VAR_BYTE n 2) \<longleftrightarrow> imm12 (SP_VAR_BYTE n 3)"
  by (simp add: SP_VAR_BYTE_Suc)

lemma list_all_replicate: "P x \<Longrightarrow> list_all P (replicate n x)"
  by (simp add: list_all_iff)

lemma encodable_slli: "d < 32 \<Longrightarrow> a < 32 \<Longrightarrow> list_all encodable (slli_m d a i)"
proof (induction d a i rule: slli_m.induct)
  case (1 d a i)
  then show ?case
    by (subst slli_m.simps)
      (simp add: mv_def sh_m_def getbyte_m_def imm12_const imm12_slot SP_VAR_def SP_VAR_BYTE_Suc list_all_replicate)
qed

lemmas encodable_rules = macro_defs imm12_const imm12_lo hi_low_bits imm12_slot SP_VAR_def SP_VAR_BYTE_Suc encodable_slli

lemma encodable_branches:
  assumes "a < 32" "b < 32"
  shows "list_all encodable (beq_m L a b t n)" "list_all encodable (bne_m L a b t n)"
    "list_all encodable (blt_m L a b t n)" "list_all encodable (bge_m L a b t n)"
    "list_all encodable (bltu_m L a b t n)" "list_all encodable (bgeu_m L a b t n)"
  using assms
  by (simp_all add: beq_m.simps [of L a b] beq_m.simps [of L b 0] bne_m.simps [of L a b] bne_m.simps [of L b 0]
      blt_m_def bge_m_def bltu_m_def bgeu_m_def branch_resolve_def encodable_rules)

lemma encodable_logic: "d < 32 \<Longrightarrow> a < 32 \<Longrightarrow> b < 32 \<Longrightarrow> logic_m lut d a b = Some code \<Longrightarrow> list_all encodable code"
  by (auto simp: logic_m_def encodable_rules split: if_splits)

lemma encodable_alu:
  assumes "d < 32" "a < 32"
  shows "b < 32 \<Longrightarrow> alu_m L f d a b = Some code \<Longrightarrow> list_all encodable code"
    "imm12 i \<Longrightarrow> alui_m L f d a i = Some code \<Longrightarrow> list_all encodable code"
proof -
  show *: "list_all encodable code" if "b < 32" "alu_m L f d a b = Some code" for b code f
    using that assms encodable_logic by (cases f) (auto simp: encodable_rules)
  show "list_all encodable code" if "imm12 i" "alui_m L f d a i = Some code"
    using that assms *[of x_tp] by (cases f) (auto simp: def_itype_def encodable_rules simp del: alu_m.simps)
qed

lemma expand_encodable:
  assumes "expand L nxt i = Some code" "well_formed i"
  shows "list_all encodable code \<longleftrightarrow> \<not> half_at_end i"
proof (cases i)
  case (RV_op f d a b)
  then show ?thesis using assms encodable_alu(1) by auto
next
  case (RV_opi f d a j)
  then show ?thesis using assms encodable_alu(2) by auto
next
  case (RV_branch c a b t)
  then show ?thesis using assms encodable_branches by (cases c) auto
next
  case (RV_zbranch c a t)
  then show ?thesis using assms encodable_branches by (cases c) auto
next
  case (RV_pbranch c a b t)
  then show ?thesis using assms encodable_branches by (cases c) auto
qed (use assms in \<open>auto simp: encodable_rules imm12_Suc jal_m_def j_m_def call_m_def tail_m_def call_template_def neg_m_def
      snez_m_def sltz_m_def sgtz_m_def sgt_m_def sgtu_m_def\<close>)
end
