(* ===== verification/Minirv_Nemu.thy ===== *)
theory Minirv_Nemu
  imports Minirv Cpu_Exec
begin

text \<open>
  minirv programs on the emulator. \<open>emulates\<close> relates a state of NEMU with one RAM to a state of the minirv
  machine; every base instruction keeps the relation when NEMU decodes and executes a word that encodes it, and
  so does the expansion of an instruction, so that NEMU running the expanded code has the effect of the
  instruction.
\<close>

section \<open>The relation\<close>

definition plain_machine :: "config \<Rightarrow> bool" where
  "plain_machine c \<longleftrightarrow> areas_ok c \<and> \<not> soc_memory c \<and> \<not> CONFIG_RVE c"

definition emulates :: "config \<Rightarrow> 'r nemu \<Rightarrow> mini \<Rightarrow> bool" where
  "emulates c n s \<longleftrightarrow> state (nemu_state n) = NEMU_RUNNING \<and> regs_ok c n \<and> (\<forall>q < 32. xreg n q = mreg s q)
     \<and> (\<forall>a. in_pmem c a \<longrightarrow> mem n PMEM (uint a - uint (CONFIG_MBASE c)) = mmem s a)"

definition in_ram :: "config \<Rightarrow> u32 \<Rightarrow> nat \<Rightarrow> bool" where
  "in_ram c a k \<longleftrightarrow> uint (CONFIG_MBASE c) \<le> uint a
     \<and> uint a + int k \<le> uint (CONFIG_MBASE c) + uint (CONFIG_MSIZE c)"

text \<open>The words that encode a base instruction.\<close>

fun encodes :: "u32 \<Rightarrow> base \<Rightarrow> bool" where
  "encodes w (M_add d a b) \<longleftrightarrow> spec_decode w = Op ADD \<and> unat (rd_field w) = d \<and> unat (rs1_field w) = a
     \<and> unat (rs2_field w) = b"
| "encodes w (M_addi d a i) \<longleftrightarrow> spec_decode w = Op_imm ADD \<and> unat (rd_field w) = d \<and> unat (rs1_field w) = a
     \<and> spec_immI w = i"
| "encodes w (M_lui d i) \<longleftrightarrow> spec_decode w = Lui \<and> unat (rd_field w) = d \<and> spec_immU w = i"
| "encodes w (M_lw d off a) \<longleftrightarrow> spec_decode w = Load 4 False \<and> unat (rd_field w) = d \<and> unat (rs1_field w) = a
     \<and> spec_immI w = off"
| "encodes w (M_lbu d off a) \<longleftrightarrow> spec_decode w = Load 1 False \<and> unat (rd_field w) = d \<and> unat (rs1_field w) = a
     \<and> spec_immI w = off"
| "encodes w (M_sw b off a) \<longleftrightarrow> spec_decode w = Store 4 \<and> unat (rs2_field w) = b \<and> unat (rs1_field w) = a
     \<and> spec_immS w = off"
| "encodes w (M_sb b off a) \<longleftrightarrow> spec_decode w = Store 1 \<and> unat (rs2_field w) = b \<and> unat (rs1_field w) = a
     \<and> spec_immS w = off"
| "encodes w (M_jalr d off a) \<longleftrightarrow> spec_decode w = Jalr \<and> unat (rd_field w) = d \<and> unat (rs1_field w) = a
     \<and> spec_immI w = off"

text \<open>What the base machine accesses lies in the emulated RAM.\<close>

fun base_access :: "config \<Rightarrow> mini \<Rightarrow> base \<Rightarrow> bool" where
  "base_access c s (M_lw d off a) \<longleftrightarrow> in_ram c (mreg s a + off) 4"
| "base_access c s (M_lbu d off a) \<longleftrightarrow> in_ram c (mreg s a + off) 1"
| "base_access c s (M_sw b off a) \<longleftrightarrow> in_ram c (mreg s a + off) 4"
| "base_access c s (M_sb b off a) \<longleftrightarrow> in_ram c (mreg s a + off) 1"
| "base_access c s i \<longleftrightarrow> True"

lemma uint_plus_of_nat: "uint a + int j < 2 ^ 32 \<Longrightarrow> uint (a + of_nat j) = uint a + int j" for a :: u32
proof -
  assume b: "uint a + int j < 2 ^ 32"
  have "(2 :: int) ^ LENGTH(32) = 4294967296" by simp
  then have "uint (a + of_nat j) = (uint a + int j) mod 4294967296"
    by (simp add: uint_word_ariths unsigned_of_nat take_bit_eq_mod zmod_int mod_simps)
  then show ?thesis using b uint_ge_0 [of a] by simp
qed

lemma in_ram_byte:
  assumes "plain_machine c" "in_ram c a k" "j < k"
  shows "uint (a + of_nat j) = uint a + int j" "in_pmem c (a + of_nat j)"
proof -
  have "uint a + int j < 2 ^ 32" using assms by (simp add: in_ram_def plain_machine_def areas_ok_def)
  then show u: "uint (a + of_nat j) = uint a + int j" by (rule uint_plus_of_nat)
  show "in_pmem c (a + of_nat j)"
    using assms u by (simp add: in_pmem_iff in_ram_def plain_machine_def areas_ok_def)
qed

lemma ram_ptr_pmem:
  "plain_machine c \<Longrightarrow> in_ram c a k \<Longrightarrow> 0 < k \<Longrightarrow> ram_ptr c a = Some (PMEM, uint a - uint (CONFIG_MBASE c))"
  using in_ram_byte(2) [of c a k 0] by (simp add: ram_ptr_def plain_machine_def pmem_guest_to_host_def)

lemma ram_ptr_ok: "in_ram c a k \<Longrightarrow> ptr_ok c (PMEM, uint a - uint (CONFIG_MBASE c)) (int k)"
  by (simp add: in_ram_def ptr_ok_def)

lemma emulated_load:
  assumes "plain_machine c" "emulates c n s" "in_ram c a k" "access_size (int k)"
  shows "paddr_read c a (int k) n = Inr (of_bytes (map (\<lambda>j. mmem s (a + of_nat j)) [0..<k]), n)"
proof -
  let ?p = "(PMEM, uint a - uint (CONFIG_MBASE c))"
  have "load (mem n) ?p k = map (\<lambda>j. mmem s (a + of_nat j)) [0..<k]"
    unfolding load_def
  proof (rule map_cong [OF refl])
    fix j assume "j \<in> set [0..<k]"
    then have j: "j < k" by simp
    have "mem n PMEM (uint (a + of_nat j) - uint (CONFIG_MBASE c)) = mmem s (a + of_nat j)"
      using assms(2) in_ram_byte(2) [OF assms(1,3) j] by (simp add: emulates_def)
    then show "mem n (fst ?p) (snd ?p + int j) = mmem s (a + of_nat j)"
      unfolding in_ram_byte(1) [OF assms(1,3) j] by (simp add: algebra_simps)
  qed
  then have "host_read c (mem n) ?p (int k) = Inr (of_bytes (map (\<lambda>j. mmem s (a + of_nat j)) [0..<k]))"
    using host_read_ok [OF assms(4) ram_ptr_ok [OF assms(3)], of "mem n"] by simp
  moreover have "0 < k" using assms(4) by (auto simp: access_size_def)
  ultimately show ?thesis
    by (simp add: paddr_read_ram [OF ram_ptr_pmem [OF assms(1,3)]] host_readM_apply)
qed

lemma emulated_store:
  assumes "plain_machine c" "emulates c n s" "in_ram c a k" "access_size (int k)"
    and m: "\<And>x. m x = (if uint a \<le> uint x \<and> uint x < uint a + int k then to_bytes k v ! nat (uint x - uint a) else mmem s x)"
  shows "\<exists>n'. paddr_write c a (int k) v n = Inr ((), n') \<and> emulates c n' (s\<lparr>mmem := m\<rparr>)"
proof -
  let ?p = "(PMEM, uint a - uint (CONFIG_MBASE c))"
  have "0 < k" using assms(4) by (auto simp: access_size_def)
  then have "writable_ptr c a = Some ?p" using ram_ptr_pmem [OF assms(1,3)] by (simp add: writable_ptr_def)
  then have w: "paddr_write c a (int k) v n = Inr ((), n\<lparr>mem := store (mem n) ?p (to_bytes k v)\<rparr>)"
    using host_write_ok [OF assms(4) ram_ptr_ok [OF assms(3)], of "mem n" v] by (simp add: paddr_write_ram host_writeM_apply)
  have "store (mem n) ?p (to_bytes k v) PMEM (uint x - uint (CONFIG_MBASE c)) = m x" if "in_pmem c x" for x
  proof -
    have "mem n PMEM (uint x - uint (CONFIG_MBASE c)) = mmem s x" using assms(2) that by (simp add: emulates_def)
    then show ?thesis by (simp add: store_def m)
  qed
  then show ?thesis using w assms(2) by (simp add: emulates_def regs_ok_def xreg_def)
qed

lemma emulates_set_xreg:
  "plain_machine c \<Longrightarrow> emulates c n s \<Longrightarrow> d < 32 \<Longrightarrow> emulates c (set_xreg d v n) (s\<lparr>mreg := wr d v (mreg s)\<rparr>)"
  unfolding plain_machine_def emulates_def set_xreg_def regs_ok_def xreg_def RISCV_GPR_NUM_def wr_def
  by (auto simp: nth_list_update)


lemma emulated_lw:
  "plain_machine c \<Longrightarrow> emulates c n s \<Longrightarrow> in_ram c a 4 \<Longrightarrow> paddr_read c a 4 n = Inr (ldw (mmem s) a, n)"
  using emulated_load [of c n s a 4] by (simp add: access_size_def ldw_def word4_def upt_rec)

lemma emulated_lbu:
  "plain_machine c \<Longrightarrow> emulates c n s \<Longrightarrow> in_ram c a 1 \<Longrightarrow> paddr_read c a 1 n = Inr (ucast (mmem s a), n)"
  using emulated_load [of c n s a 1] by (simp add: access_size_def)

lemma emulated_sb:
  assumes "plain_machine c" "emulates c n s" "in_ram c a 1"
  shows "\<exists>n'. paddr_write c a 1 v n = Inr ((), n') \<and> emulates c n' (s\<lparr>mmem := (mmem s)(a := byte_of v 0)\<rparr>)"
proof -
  have "((mmem s)(a := byte_of v 0)) x = (if uint a \<le> uint x \<and> uint x < uint a + int 1
      then to_bytes 1 v ! nat (uint x - uint a) else mmem s x)" for x
    by (auto simp: word_uint_eq_iff byte_of_def)
  from emulated_store [OF assms _ this] show ?thesis by (simp add: access_size_def fun_upd_def)
qed

lemma emulated_sw:
  assumes "plain_machine c" "emulates c n s" "in_ram c a 4"
  shows "\<exists>n'. paddr_write c a 4 v n = Inr ((), n') \<and> emulates c n' (s\<lparr>mmem := stw a v (mmem s)\<rparr>)"
proof -
  have u: "uint (a + 1) = uint a + 1" "uint (a + 2) = uint a + 2" "uint (a + 3) = uint a + 3"
    using in_ram_byte(1) [OF assms(1,3), of 1] in_ram_byte(1) [OF assms(1,3), of 2]
      in_ram_byte(1) [OF assms(1,3), of 3] by simp_all
  have "stw a v (mmem s) x = (if uint a \<le> uint x \<and> uint x < uint a + int 4
      then to_bytes 4 v ! nat (uint x - uint a) else mmem s x)" for x
  proof (cases "uint a \<le> uint x \<and> uint x < uint a + int 4")
    case True
    then have "uint x = uint a \<or> uint x = uint a + 1 \<or> uint x = uint a + 2 \<or> uint x = uint a + 3" by auto
    then show ?thesis
      using True by (auto simp: stw_def word_uint_eq_iff u to_bytes_nth byte_of_def)
  next
    case False
    then show ?thesis by (auto simp: stw_def word_uint_eq_iff u)
  qed
  from emulated_store [OF assms _ this] show ?thesis by (simp add: access_size_def)
qed

lemma encodes_spec_exec:
  assumes "plain_machine c" "emulates c n s" "encodes (isa_inst d) i" "base_access c s i"
    and p: "d_pc d = mpc s" "snpc d = mpc s + 4"
  shows "\<exists>n'. spec_exec c d n = Inr (mpc (mexec i s), n') \<and> emulates c n' (mexec i s)"
proof -
  let ?d = "unat (rd_field (isa_inst d))"
  have x: "xreg n (unat (rs1_field (isa_inst d))) = mreg s (unat (rs1_field (isa_inst d)))"
    "xreg n (unat (rs2_field (isa_inst d))) = mreg s (unat (rs2_field (isa_inst d)))"
    using assms(2) field_bound by (simp_all add: emulates_def)
  have w: "emulates c (set_xreg ?d v n) \<lparr>mreg = wr ?d v (mreg s), mmem = mmem s, mpc = q\<rparr>" for v q
    using emulates_set_xreg [OF assms(1,2) field_bound(1)] by (simp add: emulates_def)
  show ?thesis
  proof (cases i)
    case (M_lw q off a)
    then show ?thesis using assms(3,4) emulated_lw [OF assms(1,2)]
      by (auto simp: spec_exec_def p x load_ext_def w step.simps)
  next
    case (M_lbu q off a)
    then show ?thesis using assms(3,4) emulated_lbu [OF assms(1,2)]
      by (auto simp: spec_exec_def p x load_ext_def w step.simps)
  next
    case (M_sw q off a)
    then show ?thesis using assms(3,4) emulated_sw [OF assms(1,2), of "mreg s a + off" "mreg s q"]
      by (auto simp: spec_exec_def p x emulates_def step.simps)
  next
    case (M_sb q off a)
    then show ?thesis using assms(3,4) emulated_sb [OF assms(1,2), of "mreg s a + off" "mreg s q"]
      by (auto simp: spec_exec_def p x emulates_def step.simps)
  next
    case (M_jalr q off a)
    then show ?thesis using assms(3) w [of "mpc s + 4" "(mreg s a + off) AND NOT 1"]
      by (cases s) (auto simp: spec_exec_def p x clear_bit0 [symmetric] simp del: of_int_mult)
  qed (use assms(3) w in \<open>auto simp: spec_exec_def p x step.simps\<close>)
qed

section \<open>Code in memory\<close>

fun code_bytes :: "u32 \<Rightarrow> base list \<Rightarrow> u32 list" where
  "code_bytes p [] = []"
| "code_bytes p (i # is) = [p, p + 1, p + 2, p + 3] @ code_bytes (p + 4) is"

fun code_at :: "config \<Rightarrow> bmem \<Rightarrow> u32 \<Rightarrow> base list \<Rightarrow> bool" where
  "code_at c m p [] \<longleftrightarrow> True"
| "code_at c m p (i # is) \<longleftrightarrow> in_ram c p 4 \<and> encodes (ldw m p) i \<and> code_at c m (p + 4) is"

fun base_stores :: "mini \<Rightarrow> base \<Rightarrow> u32 list" where
  "base_stores s (M_sw b off a) = (let p = mreg s a + off in [p, p + 1, p + 2, p + 3])"
| "base_stores s (M_sb b off a) = [mreg s a + off]"
| "base_stores s i = []"

text \<open>Every access of the code is in RAM and no store hits the code.\<close>

fun accesses_ok :: "config \<Rightarrow> u32 list \<Rightarrow> base list \<Rightarrow> mini \<Rightarrow> bool" where
  "accesses_ok c txt [] s \<longleftrightarrow> True"
| "accesses_ok c txt (i # is) s \<longleftrightarrow> base_access c s i \<and> list_all (\<lambda>x. x \<notin> set txt) (base_stores s i)
     \<and> accesses_ok c txt is (mexec i s)"

lemma code_at_cong: "(\<And>x. x \<in> set (code_bytes p is) \<Longrightarrow> m' x = m x) \<Longrightarrow> code_at c m' p is = code_at c m p is"
proof (induction "is" arbitrary: p)
  case (Cons i "is")
  have "ldw m' p = ldw m p" unfolding ldw_def using Cons.prems by simp
  moreover have "code_at c m' (p + 4) is = code_at c m (p + 4) is" by (rule Cons.IH) (rule Cons.prems, simp)
  ultimately show ?case by simp
qed simp

lemma mexec_mem: "x \<notin> set (base_stores s i) \<Longrightarrow> mmem (mexec i s) x = mmem s x"
  by (cases i) (auto simp: step.simps stw_def Let_def)

lemma mexec_next: "\<not> is_jump i \<Longrightarrow> mpc (mexec i s) = mpc s + 4"
  by (simp add: mexec_step split: prod.splits)

lemma arch_step_emulates:
  assumes "plain_machine c" "emulates c n s" "pc (cpu n) = mpc s" "in_ram c (mpc s) 4"
    and i: "encodes (ldw (mmem s) (mpc s)) i" "base_access c s i"
  shows "\<exists>n'. arch_step c n = Inr ((), n') \<and> emulates c n' (mexec i s) \<and> pc (cpu n') = mpc (mexec i s)"
proof -
  let ?d = "\<lparr>d_pc = mpc s, snpc = mpc s + 4, dnpc = mpc s, isa_inst = ldw (mmem s) (mpc s)\<rparr>"
  obtain n' where n': "spec_exec c ?d n = Inr (mpc (mexec i s), n')" "emulates c n' (mexec i s)"
    using encodes_spec_exec [OF assms(1,2), of ?d i] i by auto
  then have "arch_step c n = Inr ((), n'\<lparr>cpu := (cpu n')\<lparr>pc := mpc (mexec i s)\<rparr>\<rparr>)"
    using emulated_lw [OF assms(1,2,4)] by (simp add: arch_step_def assms(3) set_pc_def)
  then show ?thesis using n'(2) by (simp add: emulates_def regs_ok_def xreg_def)
qed

lemma arch_run_emulates:
  assumes "plain_machine c" "straight is" "emulates c n s" "pc (cpu n) = mpc s"
    "code_at c (mmem s) (mpc s) is" "accesses_ok c txt is s" "set (code_bytes (mpc s) is) \<subseteq> set txt"
  shows "\<exists>n'. arch_run c (length is) n = Inr ((), n') \<and> emulates c n' (mrun is s) \<and> pc (cpu n') = mpc (mrun is s)"
  using assms(2-)
proof (induction "is" arbitrary: n s)
  case (Cons i "is")
  let ?s = "mexec i s"
  have j: "\<not> is_jump i" "straight is" using Cons.prems(1) by simp_all
  obtain n1 where n1: "arch_step c n = Inr ((), n1)" "emulates c n1 ?s" "pc (cpu n1) = mpc ?s"
    using arch_step_emulates [OF assms(1) Cons.prems(2,3)] Cons.prems(4,5) by auto
  let ?n = "n1\<lparr>g_nr_guest_inst := g_nr_guest_inst n1 + 1\<rparr>"
  have "code_at c (mmem ?s) (mpc ?s) is"
    using Cons.prems(4-6) code_at_cong [of "mpc s + 4" "is" "mmem ?s" "mmem s" c] mexec_mem [of _ s i]
    by (auto simp: mexec_next [OF j(1)] list_all_iff)
  moreover have "emulates c ?n ?s" "pc (cpu ?n) = mpc ?s"
    using n1 by (simp_all add: emulates_def regs_ok_def xreg_def)
  ultimately obtain n' where "arch_run c (length is) ?n = Inr ((), n')" "emulates c n' (mrun is ?s)"
    "pc (cpu n') = mpc (mrun is ?s)"
    using Cons.IH [OF j(2), of ?n ?s] Cons.prems(5,6) by (auto simp: mexec_next [OF j(1)])
  moreover have "state (nemu_state n1) = NEMU_RUNNING" using n1(2) by (simp add: emulates_def)
  ultimately show ?case using n1(1) j(1) by (simp add: count_inst_def)
qed auto

lemma execute_emulates:
  assumes "plain_run c n" "plain_machine c" "straight code" "emulates c n s" "pc (cpu n) = mpc s"
    "code_at c (mmem s) (mpc s) code" "accesses_ok c (code_bytes (mpc s) code) code s"
  shows "\<exists>n'. execute c ex (length code) n = Inr ((), n') \<and> emulates c n' (mrun code s)"
proof -
  have "regs_ok c n" using assms(4) by (simp add: emulates_def)
  then show ?thesis
    using arch_run_emulates [OF assms(2-7)] execute_arch [OF assms(1), of ex "length code"] by auto
qed

lemma straight_assemble: "assemble L is = Some code \<Longrightarrow> safe_run L is s \<Longrightarrow> straight code"
  by (induction "is" arbitrary: code s) (auto dest: straight_expand split: option.splits)

lemma emulates_x0: "emulates c n s \<Longrightarrow> mreg s 0 = 0"
  unfolding emulates_def regs_ok_def xreg_def by (metis zero_less_numeral)

text \<open>What the program sees of a state of NEMU.\<close>

definition shows_state :: "config \<Rightarrow> luts \<Rightarrow> u32 \<Rightarrow> 'r nemu \<Rightarrow> mini \<Rightarrow> bool" where
  "shows_state c L v n t \<longleftrightarrow> (\<forall>q < 32. src_ok q \<longrightarrow> xreg n q = mreg t q)
     \<and> (\<forall>a. in_pmem c a \<longrightarrow> a \<notin> dead L v \<longrightarrow> mem n PMEM (uint a - uint (CONFIG_MBASE c)) = mmem t a)"

lemma execute_block:
  assumes "plain_run c n" "plain_machine c" "emulates c n s" "pc (cpu n) = mpc s" "even (mpc s)"
    and a: "assemble L is = Some code" "safe_run L is s" "env L (mreg s x_sp) (mmem s)"
    and m: "code_at c (mmem s) (mpc s) code" "accesses_ok c (code_bytes (mpc s) code) code s"
  shows "\<exists>n'. execute c ex (length code) n = Inr ((), n') \<and> shows_state c L (mreg s x_sp) n' (rv_run is s)"
proof -
  obtain n' where n': "execute c ex (length code) n = Inr ((), n')" "emulates c n' (mrun code s)"
    using execute_emulates [OF assms(1,2) straight_assemble [OF a(1,2)] assms(3,4) m] by blast
  have "sim L (mreg s x_sp) (mrun code s) (rv_run is s)"
    using assemble_correct [OF a(1,2) _ a(3) emulates_x0 [OF assms(3)] assms(5)] by (simp add: sim_def)
  with n' show ?thesis by (auto simp: shows_state_def emulates_def sim_def)
qed

end
