(* ===== verification/Klib_String.thy ===== *)
theory Klib_String
  imports Prelude "HOL-Library.List_Lexorder"
begin

text \<open>
  The string library of the guest, \<open>abstract-machine/klib/src/string.c\<close>, over the guest's own 32-bit
  address space: a memory is a function from addresses to bytes, pointer arithmetic wraps. Plain \<open>char\<close>
  is unsigned in the RISC-V ABI. The loops that look for a terminating NUL are partial functions: without
  one they do not return (\<open>None\<close>). \<open>strncpy\<close> panics.

  The lemmas state the contract of each function on C strings and on byte ranges, that \<open>memmove\<close> copies
  overlapping ranges in both directions, and when \<open>memcpy\<close> may stand for it.
\<close>

type_synonym gmem = "u32 \<Rightarrow> u8"

partial_function (option) strlen_loop :: "gmem \<Rightarrow> u32 \<Rightarrow> u32 \<Rightarrow> u32 option" where
  "strlen_loop m s num = (if m s = 0 then Some num else strlen_loop m (s + 1) (num + 1))"

definition strlen :: "gmem \<Rightarrow> u32 \<Rightarrow> u32 option" where
  "strlen m s = strlen_loop m s 0"

definition copy_byte :: "u32 \<Rightarrow> u32 \<Rightarrow> gmem \<Rightarrow> nat \<Rightarrow> gmem" where
  "copy_byte d s m i = m(d + of_nat i := m (s + of_nat i))"

definition memcpy :: "gmem \<Rightarrow> u32 \<Rightarrow> u32 \<Rightarrow> u32 \<Rightarrow> gmem" where
  "memcpy m out inp n = foldl (copy_byte out inp) m [0..<unat n]"

definition strcpy :: "gmem \<Rightarrow> u32 \<Rightarrow> u32 \<Rightarrow> gmem option" where
  "strcpy m dst src = (case strlen m src of None \<Rightarrow> None | Some n \<Rightarrow> Some (memcpy m dst src (n + 1)))"

definition strncpy :: "gmem \<Rightarrow> u32 \<Rightarrow> u32 \<Rightarrow> u32 \<Rightarrow> gmem result" where
  "strncpy m dst src n = Inl (Panic ''Not implemented'')"

definition strcat :: "gmem \<Rightarrow> u32 \<Rightarrow> u32 \<Rightarrow> gmem option" where
  "strcat m dst src = (case strlen m dst of None \<Rightarrow> None | Some n \<Rightarrow> strcpy m (dst + n) src)"

partial_function (option) strcmp :: "gmem \<Rightarrow> u32 \<Rightarrow> u32 \<Rightarrow> int option" where
  "strcmp m s1 s2 =
     (if m s1 \<noteq> 0 \<and> m s2 \<noteq> 0 then
        if m s1 < m s2 then Some (- 1) else if m s1 > m s2 then Some 1 else strcmp m (s1 + 1) (s2 + 1)
      else if m s1 = m s2 then Some 0
      else Some (if m s1 = 0 then - 1 else 1))"

primrec strncmp_loop :: "nat \<Rightarrow> gmem \<Rightarrow> u32 \<Rightarrow> u32 \<Rightarrow> int" where
  "strncmp_loop 0 m s1 s2 = 0"
| "strncmp_loop (Suc n) m s1 s2 =
     (if m s1 \<noteq> m s2 \<or> m s1 = 0 then uint (m s1) - uint (m s2) else strncmp_loop n m (s1 + 1) (s2 + 1))"

definition strncmp :: "gmem \<Rightarrow> u32 \<Rightarrow> u32 \<Rightarrow> u32 \<Rightarrow> int" where
  "strncmp m s1 s2 n = strncmp_loop (unat n) m s1 s2"

primrec memset_loop :: "nat \<Rightarrow> u8 \<Rightarrow> u32 \<Rightarrow> gmem \<Rightarrow> gmem" where
  "memset_loop 0 b d m = m"
| "memset_loop (Suc n) b d m = memset_loop n b (d + 1) (m(d := b))"

definition memset :: "gmem \<Rightarrow> u32 \<Rightarrow> u32 \<Rightarrow> u32 \<Rightarrow> gmem" where
  "memset m s c n = memset_loop (unat n) (ucast c) s m"

definition memmove :: "gmem \<Rightarrow> u32 \<Rightarrow> u32 \<Rightarrow> u32 \<Rightarrow> gmem" where
  "memmove m dst src n =
     (if dst = src \<or> n = 0 then m
      else if dst < src then foldl (copy_byte dst src) m [0..<unat n]
      else foldl (copy_byte dst src) m (rev [0..<unat n]))"

primrec memcmp_loop :: "nat \<Rightarrow> gmem \<Rightarrow> u32 \<Rightarrow> u32 \<Rightarrow> int" where
  "memcmp_loop 0 m d s = 0"
| "memcmp_loop (Suc n) m d s =
     (if m d < m s then - 1 else if m d > m s then 1 else memcmp_loop n m (d + 1) (s + 1))"

definition memcmp :: "gmem \<Rightarrow> u32 \<Rightarrow> u32 \<Rightarrow> u32 \<Rightarrow> int" where
  "memcmp m s1 s2 n = memcmp_loop (unat n) m s1 s2"

section \<open>Ranges and strings\<close>

text \<open>The bytes of a range, a range that does not wrap around, a NUL-terminated string.\<close>

primrec bytes :: "gmem \<Rightarrow> u32 \<Rightarrow> nat \<Rightarrow> u8 list" where
  "bytes m p 0 = []"
| "bytes m p (Suc n) = m p # bytes m (p + 1) n"

definition fits :: "u32 \<Rightarrow> nat \<Rightarrow> bool" where
  "fits p n \<longleftrightarrow> unat p + n \<le> 2 ^ 32"

fun cstring :: "gmem \<Rightarrow> u32 \<Rightarrow> u8 list \<Rightarrow> bool" where
  "cstring m p [] \<longleftrightarrow> m p = 0"
| "cstring m p (b # bs) \<longleftrightarrow> m p = b \<and> b \<noteq> 0 \<and> cstring m (p + 1) bs"

definition inside :: "u32 \<Rightarrow> nat \<Rightarrow> u32 \<Rightarrow> bool" where
  "inside p n x \<longleftrightarrow> unat p \<le> unat x \<and> unat x < unat p + n"

definition disjoint :: "u32 \<Rightarrow> nat \<Rightarrow> u32 \<Rightarrow> nat \<Rightarrow> bool" where
  "disjoint p n q k \<longleftrightarrow> unat p + n \<le> unat q \<or> unat q + k \<le> unat p"

text \<open>What a copy of \<open>n\<close> bytes should leave behind.\<close>

definition moved :: "gmem \<Rightarrow> u32 \<Rightarrow> u32 \<Rightarrow> nat \<Rightarrow> gmem" where
  "moved m d s n = (\<lambda>x. if inside d n x then m (s + (x - d)) else m x)"

lemma length_bytes [simp]: "length (bytes m p n) = n"
  by (induction n arbitrary: p) auto

lemma nth_bytes: "i < n \<Longrightarrow> bytes m p n ! i = m (p + of_nat i)"
  by (induction n arbitrary: p i) (auto simp: nth_Cons' algebra_simps of_nat_diff split: if_splits)

lemma unat_offset: "fits p n \<Longrightarrow> i < n \<Longrightarrow> unat (p + of_nat i) = unat p + i"
  by (simp add: fits_def unat_word_ariths unsigned_of_nat take_bit_eq_mod)

lemma inside_offset: "fits p n \<Longrightarrow> inside p n x \<longleftrightarrow> (\<exists>i < n. x = p + of_nat i)"
proof
  assume f: "fits p n" and "inside p n x"
  then have "unat x - unat p < n" "p + of_nat (unat x - unat p) = x"
    by (auto simp: inside_def of_nat_diff)
  then show "\<exists>i < n. x = p + of_nat i" by metis
next
  assume "fits p n" and "\<exists>i < n. x = p + of_nat i"
  then show "inside p n x" using unat_offset by (auto simp: inside_def)
qed

lemma cstring_bytes: "cstring m p bs \<longleftrightarrow> bytes m p (length bs) = bs \<and> 0 \<notin> set bs \<and> m (p + of_nat (length bs)) = 0"
  by (induction bs arbitrary: p) (auto simp: algebra_simps)

lemma bytes_moved:
  assumes "fits d n"
  shows "bytes (moved m d s n) d n = bytes m s n"
  using assms by (intro nth_equalityI) (auto simp: nth_bytes moved_def inside_offset)

lemma bytes_cong: "(\<And>i. i < n \<Longrightarrow> m (p + of_nat i) = m' (p + of_nat i)) \<Longrightarrow> bytes m p n = bytes m' p n"
  by (intro nth_equalityI) (auto simp: nth_bytes)

section \<open>Copying\<close>

lemma copy_step:
  assumes "fits d n" "k < n" and "\<not> inside d k (s + of_nat k)"
  shows "copy_byte d s (moved m d s k) k = moved m d s (Suc k)"
proof
  fix x
  have "unat (d + of_nat k) = unat d + k" using assms unat_offset by blast
  then have "x = d + of_nat k \<longleftrightarrow> unat x = unat d + k" by (auto simp: word_unat_eq_iff)
  then show "copy_byte d s (moved m d s k) k x = moved m d s (Suc k) x"
    using assms by (auto simp: copy_byte_def moved_def inside_def)
qed

lemma copy_up:
  assumes "fits d n" "fits s n" and "d \<le> s \<or> disjoint d n s n" and "k \<le> n"
  shows "foldl (copy_byte d s) m [0..<k] = moved m d s k"
  using assms(4)
proof (induction k)
  case 0
  then show ?case by (auto simp: moved_def inside_def fun_eq_iff)
next
  case (Suc k)
  have "unat (s + of_nat k) = unat s + k" using Suc assms unat_offset by simp
  then have "\<not> inside d k (s + of_nat k)" using assms Suc by (auto simp: inside_def disjoint_def word_le_nat_alt)
  with Suc assms show ?case by (simp add: copy_step [of _ n])
qed

text \<open>Downwards: after the indices from \<open>n - 1\<close> to \<open>k\<close>, the part of the range from \<open>k\<close> on is in place.\<close>

definition moved_from :: "gmem \<Rightarrow> u32 \<Rightarrow> u32 \<Rightarrow> nat \<Rightarrow> nat \<Rightarrow> gmem" where
  "moved_from m d s k n = (\<lambda>x. if unat d + k \<le> unat x \<and> unat x < unat d + n then m (s + (x - d)) else m x)"

lemma copy_down_step:
  assumes "fits d n" "fits s n" "k < n" "s < d"
  shows "copy_byte d s (moved_from m d s (Suc k) n) k = moved_from m d s k n"
proof
  fix x
  have "unat (d + of_nat k) = unat d + k" "unat (s + of_nat k) = unat s + k" using assms unat_offset by blast+
  moreover then have "x = d + of_nat k \<longleftrightarrow> unat x = unat d + k" by (auto simp: word_unat_eq_iff)
  ultimately show "copy_byte d s (moved_from m d s (Suc k) n) k x = moved_from m d s k n x"
    using assms by (auto simp: copy_byte_def moved_from_def word_less_nat_alt)
qed

lemma copy_down:
  assumes "fits d n" "fits s n" "s < d" "k \<le> n"
  shows "foldl (copy_byte d s) m (rev [k..<n]) = moved_from m d s k n"
  using assms(4)
proof (induction rule: inc_induct)
  case base
  then show ?case by (auto simp: moved_from_def fun_eq_iff)
next
  case (step k)
  then show ?case using assms by (simp add: upt_conv_Cons copy_down_step)
qed

lemma memcpy_moves:
  assumes "fits d (unat n)" "fits s (unat n)" and "d \<le> s \<or> disjoint d (unat n) s (unat n)"
  shows "memcpy m d s n = moved m d s (unat n)"
  using copy_up [OF assms order_refl] by (simp add: memcpy_def)

theorem memmove_moves:
  assumes "fits d (unat n)" "fits s (unat n)"
  shows "memmove m d s n = moved m d s (unat n)"
proof -
  consider "d = s \<or> n = 0" | "d \<noteq> s" "n \<noteq> 0" "d < s" | "n \<noteq> 0" "s < d" by fastforce
  then show ?thesis
  proof cases
    case 1
    then show ?thesis by (auto simp: memmove_def moved_def inside_def fun_eq_iff)
  next
    case 2
    then show ?thesis using copy_up [OF assms, of "unat n" m] by (simp add: memmove_def less_imp_le)
  next
    case 3
    then have "memmove m d s n = moved_from m d s 0 (unat n)"
      using copy_down [OF assms, of 0 m] by (auto simp: memmove_def)
    then show ?thesis by (auto simp: moved_from_def moved_def inside_def)
  qed
qed

lemma memset_fills:
  assumes "fits d n"
  shows "memset_loop n b d m = (\<lambda>x. if inside d n x then b else m x)"
  using assms
proof (induction n arbitrary: d m)
  case 0
  then show ?case by (auto simp: inside_def fun_eq_iff)
next
  case (Suc n)
  have u: "unat (d + 1) = Suc (unat d)" if "n \<noteq> 0"
    using unat_offset [of d "Suc n" 1] Suc.prems that by simp
  show ?case
  proof (cases "n = 0")
    case True
    then show ?thesis by (auto simp: inside_def word_unat_eq_iff)
  next
    case False
    then have "fits (d + 1) n" using Suc.prems u by (simp add: fits_def)
    from Suc.IH [OF this] False show ?thesis using u by (auto simp: inside_def fun_eq_iff word_unat_eq_iff)
  qed
qed

theorem memset_spec:
  assumes "fits s (unat n)"
  shows "memset m s c n = (\<lambda>x. if inside s (unat n) x then ucast c else m x)"
  using memset_fills [OF assms] by (simp add: memset_def)

section \<open>Strings\<close>

lemma strlen_loop_spec: "cstring m s bs \<Longrightarrow> strlen_loop m s num = Some (num + of_nat (length bs))"
proof (induction bs arbitrary: s num)
  case Nil
  then show ?case by (subst strlen_loop.simps) simp
next
  case (Cons b bs)
  then show ?case by (subst strlen_loop.simps) (auto simp: algebra_simps)
qed

lemma strlen_spec: "cstring m s bs \<Longrightarrow> strlen m s = Some (of_nat (length bs))"
  by (simp add: strlen_def strlen_loop_spec)

lemma inside_prefix: "inside p n x \<Longrightarrow> n \<le> k \<Longrightarrow> inside p k x"
  by (simp add: inside_def)

lemma cstring_moved:
  assumes "fits d (Suc (length bs))" and "cstring m s bs"
  shows "cstring (moved m d s (Suc (length bs))) d bs"
proof -
  let ?m = "moved m d s (Suc (length bs))"
  have "inside d (Suc (length bs)) (d + of_nat i)" if "i \<le> length bs" for i
    unfolding inside_offset [OF assms(1)] using that by (intro exI [of _ i]) simp
  then have at: "?m (d + of_nat i) = m (s + of_nat i)" if "i \<le> length bs" for i using that by (simp add: moved_def)
  then have "bytes ?m d (length bs) = bytes m s (length bs)" by (intro nth_equalityI) (auto simp: nth_bytes)
  with at assms(2) show ?thesis by (simp add: cstring_bytes)
qed

lemma strcpy_spec:
  assumes "cstring m src bs" and "fits dst (Suc (length bs))" "fits src (Suc (length bs))"
    and "dst \<le> src \<or> disjoint dst (Suc (length bs)) src (Suc (length bs))" and "Suc (length bs) < 2 ^ 32"
  shows "strcpy m dst src = Some (moved m dst src (Suc (length bs)))"
proof -
  have "unat (of_nat (length bs) + 1 :: u32) = Suc (length bs)"
    using assms(5) by (simp add: unat_word_ariths unsigned_of_nat take_bit_eq_mod)
  then show ?thesis using assms by (simp add: strcpy_def strlen_spec memcpy_moves)
qed

lemma cstring_append:
  "cstring m p (as @ bs) \<longleftrightarrow> bytes m p (length as) = as \<and> 0 \<notin> set as \<and> cstring m (p + of_nat (length as)) bs"
  by (induction as arbitrary: p) (auto simp: algebra_simps)

theorem strcat_appends:
  assumes "cstring m dst as" and "cstring m src bs"
    and "fits dst (length as + Suc (length bs))" "fits src (Suc (length bs))"
    and "disjoint dst (length as + Suc (length bs)) src (Suc (length bs))"
  shows "\<exists>m'. strcat m dst src = Some m' \<and> cstring m' dst (as @ bs)
    \<and> (\<forall>x. \<not> inside (dst + of_nat (length as)) (Suc (length bs)) x \<longrightarrow> m' x = m x)"
proof -
  let ?d = "dst + of_nat (length as)" and ?k = "Suc (length bs)"
  have d: "unat ?d = unat dst + length as" using unat_offset [OF assms(3)] by simp
  have fit: "fits ?d ?k" "disjoint ?d ?k src ?k" using assms(3,5) d by (auto simp: fits_def disjoint_def)
  have "?k < 2 ^ 32" using assms(3,4,5) by (auto simp: fits_def disjoint_def)
  then have "strcpy m ?d src = Some (moved m ?d src ?k)" using assms fit by (intro strcpy_spec) auto
  then have cat: "strcat m dst src = Some (moved m ?d src ?k)" using strlen_spec [OF assms(1)] by (simp add: strcat_def)
  have "\<not> inside ?d ?k (dst + of_nat i)" if "i < length as" for i
    using unat_offset [OF assms(3), of i] d that by (simp add: inside_def)
  then have "bytes (moved m ?d src ?k) dst (length as) = bytes m dst (length as)"
    by (intro bytes_cong) (simp add: moved_def)
  then have "cstring (moved m ?d src ?k) dst (as @ bs)"
    using assms(1) cstring_moved [OF fit(1) assms(2)] by (simp add: cstring_append cstring_bytes [of m dst])
  with cat show ?thesis by (auto simp: moved_def)
qed

text \<open>Comparison of byte strings in dictionary order.\<close>

definition cmp3 :: "'a :: linorder list \<Rightarrow> 'a list \<Rightarrow> int" where
  "cmp3 as bs = (if as = bs then 0 else if as < bs then - 1 else 1)"

lemma cmp3_simps [simp]:
  "cmp3 [] [] = 0" "cmp3 [] (b # bs) = - 1" "cmp3 (a # as) [] = 1"
  "cmp3 (a # as) (b # bs) = (if a < b then - 1 else if b < a then 1 else cmp3 as bs)"
  by (auto simp: cmp3_def)

theorem strcmp_compares:
  assumes "cstring m s1 as" and "cstring m s2 bs"
  shows "strcmp m s1 s2 = Some (cmp3 as bs)"
  using assms
proof (induction as arbitrary: s1 s2 bs)
  case Nil
  then show ?case by (cases bs; subst strcmp.simps) auto
next
  case (Cons a as)
  then show ?case by (cases bs; subst strcmp.simps) auto
qed

lemma sgn_byte: "sgn (uint (a :: u8) - uint b) = (if a < b then - 1 else if b < a then 1 else 0)"
  "sgn (- uint (a :: u8)) = (if 0 < a then - 1 else 0)" "sgn (uint (a :: u8)) = (if 0 < a then 1 else 0)"
proof -
  have "uint a = 0 \<or> 0 < uint a" using uint_ge_0 [of a] by linarith
  then show "sgn (- uint a) = (if 0 < a then - 1 else 0)" "sgn (uint a) = (if 0 < a then 1 else 0)"
    by (auto simp: word_less_def word_uint_eq_iff)
qed (auto simp: word_less_def sgn_if)

theorem strncmp_compares:
  assumes "cstring m s1 as" and "cstring m s2 bs"
  shows "sgn (strncmp m s1 s2 n) = cmp3 (take (unat n) as) (take (unat n) bs)"
proof -
  have "sgn (strncmp_loop k m s1 s2) = cmp3 (take k as) (take k bs)" for k
    using assms
  proof (induction k arbitrary: s1 s2 as bs)
    case (Suc k)
    then show ?case by (cases as; cases bs) (auto simp: sgn_byte)
  qed simp
  then show ?thesis by (simp add: strncmp_def)
qed

theorem memcmp_compares: "memcmp m s1 s2 n = cmp3 (bytes m s1 (unat n)) (bytes m s2 (unat n))"
proof -
  have "memcmp_loop k m s1 s2 = cmp3 (bytes m s1 k) (bytes m s2 k)" for k
    by (induction k arbitrary: s1 s2) simp_all
  then show ?thesis by (simp add: memcmp_def)
qed

end
