(* ===== verification/Klib_Stdlib.thy ===== *)
theory Klib_Stdlib
  imports Klib_String
begin

text \<open>
  \<open>abstract-machine/klib/src/stdlib.c\<close>: the pseudo-random generator, \<open>abs\<close>, \<open>atoi\<close> and the bump
  allocator, with \<open>unsigned long\<close>, \<open>size_t\<close> and pointers 32 bits wide. \<open>NULL\<close> is address 0. The heap is
  a parameter (\<open>heap\<close> of the platform's \<open>trm.c\<close>); the static variable \<open>addr\<close> of \<open>malloc\<close> is passed along.

  The lemmas show that \<open>rand\<close> stays in its range and repeats for a seed, that \<open>atoi\<close> reads back a decimal
  number, and that the blocks \<open>malloc\<close> hands out are aligned, inside the heap and disjoint as long as no
  request is so large that the address computation wraps.
\<close>

section \<open>Random numbers, absolute value\<close>

definition rand :: "u32 \<Rightarrow> u32 \<times> u32" where
  "rand nxt = (let nxt = nxt * 1103515245 + 12345 in ((nxt div 65536) mod 32768, nxt))"

definition srand :: "u32 \<Rightarrow> u32" where
  "srand seed = seed"

definition abs_int :: "u32 \<Rightarrow> u32" where
  "abs_int x = (if sint x < 0 then - x else x)"

section \<open>atoi\<close>

partial_function (option) skip_spaces :: "gmem \<Rightarrow> u32 \<Rightarrow> u32 option" where
  "skip_spaces m p = (if m p = 32 then skip_spaces m (p + 1) else Some p)"

partial_function (option) atoi_loop :: "gmem \<Rightarrow> u32 \<Rightarrow> u32 \<Rightarrow> u32 option" where
  "atoi_loop m p x =
     (if 48 \<le> m p \<and> m p \<le> 57 then atoi_loop m (p + 1) (x * 10 + ucast (m p) - 48) else Some x)"

definition atoi :: "gmem \<Rightarrow> u32 \<Rightarrow> u32 option" where
  "atoi m nptr = (case skip_spaces m nptr of None \<Rightarrow> None | Some p \<Rightarrow> atoi_loop m p 0)"

section \<open>malloc\<close>

record area =
  area_start :: u32
  area_end :: u32

definition ROUNDUP :: "u32 \<Rightarrow> u32 \<Rightarrow> u32" where
  "ROUNDUP a sz = (a + sz - 1) AND NOT (sz - 1)"

definition malloc :: "area \<Rightarrow> u32 \<Rightarrow> u32 \<Rightarrow> (u32 \<times> u32) result" where
  "malloc heap sz addr =
     (if sz = 0 then Inr (0, addr)
      else let addr = (if addr = 0 then area_start heap else addr);
               p = addr;
               sz = ROUNDUP sz 8;
               addr = addr + sz
        in bindE (assertE (addr \<le> area_end heap)) (\<lambda>_. Inr (p, addr)))"

definition free_klib :: "u32 \<Rightarrow> u32 \<Rightarrow> u32" where
  "free_klib ptr addr = addr"

text \<open>A sequence of requests.\<close>

fun mallocs :: "area \<Rightarrow> u32 list \<Rightarrow> u32 \<Rightarrow> (u32 list \<times> u32) result" where
  "mallocs heap [] addr = Inr ([], addr)"
| "mallocs heap (n # ns) addr =
     bindE (malloc heap n addr) (\<lambda>(p, addr). bindE (mallocs heap ns addr) (\<lambda>(ps, addr). Inr (p # ps, addr)))"

section \<open>Properties\<close>

lemma rand_range: "unat (fst (rand s)) < 32768"
  by (simp add: rand_def unat_mod_distrib Let_def)

lemma abs_int_spec: "sint x \<noteq> - (2 ^ 31) \<Longrightarrow> sint (abs_int x) = \<bar>sint x\<bar>"
proof -
  assume "sint x \<noteq> - (2 ^ 31)"
  moreover have "- (2 ^ 31) \<le> sint x" "sint x < 2 ^ 31" using sint_greater_eq [of x] sint_less [of x] by simp_all
  ultimately have "- (2 ^ 31) < sint x" by simp
  then have "signed_take_bit 31 (- sint x) = - sint x" if "sint x < 0"
    using that by (intro signed_take_bit_int_eq_self) simp_all
  moreover have "sint (- x) = signed_take_bit 31 (- sint x)"
    using signed_of_int [of "- sint x", where ?'b = 32 and ?'a = int] by simp
  ultimately have "sint (- x) = - sint x" if "sint x < 0" using that by simp
  then show ?thesis by (simp add: abs_int_def)
qed

lemma abs_int_min: "abs_int 0x80000000 = 0x80000000"
  by (simp add: abs_int_def)

definition digit_bytes :: "u8 list \<Rightarrow> bool" where
  "digit_bytes ds \<longleftrightarrow> (\<forall>d \<in> set ds. 48 \<le> d \<and> d \<le> 57)"

definition decimal :: "u8 list \<Rightarrow> nat" where
  "decimal ds = foldl (\<lambda>n d. 10 * n + (unat d - 48)) 0 ds"

lemma atoi_loop_spec:
  assumes "digit_bytes ds" and "bytes m p (length ds) = ds" and "\<not> (48 \<le> m (p + of_nat (length ds)) \<and> m (p + of_nat (length ds)) \<le> 57)"
  shows "atoi_loop m p (of_nat n) = Some (of_nat (foldl (\<lambda>n d. 10 * n + (unat d - 48)) n ds))"
  using assms
proof (induction ds arbitrary: p n)
  case Nil
  then show ?case by (subst atoi_loop.simps) auto
next
  case (Cons d ds)
  then have d: "m p = d" "48 \<le> d" "d \<le> 57" by (auto simp: digit_bytes_def)
  then have "48 \<le> unat d" by (simp add: word_le_nat_alt)
  then have "of_nat n * 10 + ucast d - 48 = (of_nat (10 * n + (unat d - 48)) :: u32)"
    by (simp add: of_nat_diff algebra_simps)
  moreover have "atoi_loop m (p + 1) (of_nat (10 * n + (unat d - 48)))
      = Some (of_nat (foldl (\<lambda>n d. 10 * n + (unat d - 48)) (10 * n + (unat d - 48)) ds))"
    using Cons.prems by (intro Cons.IH) (auto simp: digit_bytes_def algebra_simps)
  ultimately have "atoi_loop m (p + 1) (of_nat n * 10 + ucast d - 48)
      = Some (of_nat (foldl (\<lambda>n d. 10 * n + (unat d - 48)) (10 * n + (unat d - 48)) ds))" by (simp only:)
  with d show ?case by (subst atoi_loop.simps) simp
qed

lemma skip_spaces_spec:
  assumes "bytes m p k = replicate k 32" and "m (p + of_nat k) \<noteq> 32"
  shows "skip_spaces m p = Some (p + of_nat k)"
  using assms
proof (induction k arbitrary: p)
  case 0
  then show ?case by (subst skip_spaces.simps) simp
next
  case (Suc k)
  then show ?case by (subst skip_spaces.simps) (simp add: algebra_simps)
qed

theorem atoi_reads_decimal:
  assumes "cstring m p (replicate k 32 @ ds)" and "digit_bytes ds"
  shows "atoi m p = Some (of_nat (decimal ds))"
proof -
  let ?q = "p + of_nat k"
  have s: "bytes m p k = replicate k 32" "cstring m ?q ds" using assms(1) by (auto simp: cstring_append)
  have "m ?q \<noteq> 32" using s(2) assms(2) by (cases ds) (auto simp: digit_bytes_def)
  with s have "skip_spaces m p = Some ?q" by (intro skip_spaces_spec)
  moreover have "atoi_loop m ?q (of_nat 0) = Some (of_nat (decimal ds))"
    using s(2) assms(2) unfolding decimal_def cstring_bytes by (intro atoi_loop_spec) auto
  ultimately show ?thesis by (simp add: atoi_def)
qed

subsection \<open>The allocator\<close>

lemma and_not_seven: "x AND NOT 7 = push_bit 3 (drop_bit 3 (x :: u32))"
proof (rule bit_word_eqI)
  fix n
  assume "n < LENGTH(32)"
  have "bit (7 :: u32) n \<longleftrightarrow> n < 3"
    using bit_mask_iff [of 3 n, where ?'a = u32] \<open>n < LENGTH(32)\<close> by (simp add: mask_eq_exp_minus_1)
  with \<open>n < LENGTH(32)\<close> show "bit (x AND NOT 7) n = bit (push_bit 3 (drop_bit 3 x)) n"
    by (auto simp: bit_simps)
qed

lemma ROUNDUP_8:
  assumes "unat sz + 7 < 2 ^ 32"
  shows "unat (ROUNDUP sz 8) = (unat sz + 7) div 8 * 8"
proof -
  have s: "unat (sz + 7) = unat sz + 7" using assms by (simp add: unat_word_ariths)
  have e: "sz + 8 - 1 = sz + 7" "(8 :: u32) - 1 = 7" by simp_all
  have "unat (ROUNDUP sz 8) = unat (push_bit 3 (drop_bit 3 (sz + 7)))"
    by (simp only: ROUNDUP_def e and_not_seven)
  also have "\<dots> = (unat (sz + 7) div 8 * 8) mod 2 ^ 32"
    by (simp add: push_bit_eq_mult drop_bit_eq_div unat_word_ariths unat_div_distrib)
  also have "\<dots> = unat (sz + 7) div 8 * 8"
    using unsigned_less [of "sz + 7", where ?'a = nat] by (intro mod_less) simp
  finally show ?thesis by (simp only: s)
qed

text \<open>
  Requests that cannot wrap the address computation, and the invariant of the bump pointer: unset, or
  inside the heap and as aligned as the heap's start.
\<close>

definition small_request :: "area \<Rightarrow> u32 \<Rightarrow> bool" where
  "small_request heap sz \<longleftrightarrow> unat (area_end heap) + unat sz + 7 < 2 ^ 32"

definition heap_ok :: "area \<Rightarrow> bool" where
  "heap_ok heap \<longleftrightarrow> area_start heap \<noteq> 0 \<and> area_start heap \<le> area_end heap \<and> unat (area_start heap) mod 8 = 0"

definition brk_of :: "area \<Rightarrow> u32 \<Rightarrow> nat" where
  "brk_of heap addr = unat (if addr = 0 then area_start heap else addr)"

definition addr_ok :: "area \<Rightarrow> u32 \<Rightarrow> bool" where
  "addr_ok heap addr \<longleftrightarrow> unat (area_start heap) \<le> brk_of heap addr \<and> brk_of heap addr \<le> unat (area_end heap) \<and> brk_of heap addr mod 8 = 0"

lemma addr_ok_start: "heap_ok heap \<Longrightarrow> addr_ok heap 0"
  by (simp add: heap_ok_def addr_ok_def brk_of_def word_le_nat_alt)

lemma malloc_spec:
  assumes "heap_ok heap" "addr_ok heap addr" "small_request heap sz" "sz \<noteq> 0"
  shows "malloc heap sz addr =
    (if brk_of heap addr + (unat sz + 7) div 8 * 8 \<le> unat (area_end heap)
     then Inr (of_nat (brk_of heap addr), of_nat (brk_of heap addr + (unat sz + 7) div 8 * 8))
     else Inl Assert_fail)"
proof -
  define a where "a = (if addr = 0 then area_start heap else addr)"
  have r: "unat (ROUNDUP sz 8) = (unat sz + 7) div 8 * 8" using assms(3) by (intro ROUNDUP_8) (simp add: small_request_def)
  have "unat a \<le> unat (area_end heap)" using assms(2) by (simp add: addr_ok_def brk_of_def a_def)
  then have sum: "unat (a + ROUNDUP sz 8) = unat a + (unat sz + 7) div 8 * 8"
    using assms(3) r by (simp add: unat_word_ariths small_request_def)
  have "malloc heap sz addr = (if a + ROUNDUP sz 8 \<le> area_end heap then Inr (a, a + ROUNDUP sz 8) else Inl Assert_fail)"
    using assms(4) by (simp add: malloc_def a_def Let_def)
  moreover have "a + ROUNDUP sz 8 = of_nat (unat a + (unat sz + 7) div 8 * 8)" by (metis of_nat_unat sum ucast_id)
  ultimately show ?thesis using sum by (simp add: word_le_nat_alt brk_of_def flip: a_def)
qed

lemma malloc_step:
  assumes "heap_ok heap" "addr_ok heap addr" "small_request heap sz" "malloc heap sz addr = Inr (p, addr')"
  shows "addr_ok heap addr'" and "brk_of heap addr \<le> brk_of heap addr'"
    and "sz \<noteq> 0 \<Longrightarrow> unat p = brk_of heap addr \<and> brk_of heap addr + unat sz \<le> brk_of heap addr'"
    and "sz = 0 \<Longrightarrow> p = 0 \<and> addr' = addr"
proof -
  let ?b = "brk_of heap addr" and ?k = "(unat sz + 7) div 8 * 8"
  { assume "sz \<noteq> 0"
    then have fit: "?b + ?k \<le> unat (area_end heap)" and p: "p = of_nat ?b" and a: "addr' = of_nat (?b + ?k)"
      using malloc_spec [OF assms(1-3)] assms(4) by (auto split: if_splits)
    have lt: "?b + ?k < 2 ^ 32" using fit unsigned_less [of "area_end heap", where ?'a = nat] by simp
    then have u: "unat p = ?b" "unat addr' = ?b + ?k" unfolding p a using lt by (intro unat_of_small; linarith)+
    moreover have "addr' \<noteq> 0"
    proof
      assume "addr' = 0"
      then have "area_start heap = 0" using u assms(2) by (simp add: addr_ok_def unat_eq_0)
      with assms(1) show False by (simp add: heap_ok_def)
    qed
    moreover have "unat sz \<le> ?k" by simp
    ultimately have "addr_ok heap addr'" "unat p = ?b" "?b + unat sz \<le> brk_of heap addr'"
      using fit assms(2) by (auto simp: addr_ok_def brk_of_def [of heap addr'] mod_add_eq) }
  note nz = this
  have z: "sz = 0 \<Longrightarrow> p = 0 \<and> addr' = addr" using assms(4) by (simp add: malloc_def)
  show "addr_ok heap addr'" "brk_of heap addr \<le> brk_of heap addr'"
    using nz z assms(2) by (cases "sz = 0"; auto)+
  show "sz \<noteq> 0 \<Longrightarrow> unat p = ?b \<and> ?b + unat sz \<le> brk_of heap addr'" using nz by blast
  show "sz = 0 \<Longrightarrow> p = 0 \<and> addr' = addr" by (rule z)
qed


text \<open>
  The blocks of a sequence of requests lie in order from the bump pointer on, each in the heap, aligned and
  at least as long as asked for.
\<close>

theorem mallocs_blocks:
  assumes "heap_ok heap" and "addr_ok heap addr" and "\<forall>n \<in> set ns. small_request heap n \<and> n \<noteq> 0"
    and "mallocs heap ns addr = Inr (ps, addr')"
  shows "length ps = length ns \<and> (\<forall>i < length ns. brk_of heap addr \<le> unat (ps ! i) \<and> unat (ps ! i) mod 8 = 0
      \<and> unat (ps ! i) + unat (ns ! i) \<le> unat (area_end heap))
    \<and> (\<forall>i j. i < j \<longrightarrow> j < length ns \<longrightarrow> unat (ps ! i) + unat (ns ! i) \<le> unat (ps ! j))"
  using assms(2-)
proof (induction ns arbitrary: addr ps)
  case Nil
  then show ?case by simp
next
  case (Cons n ns)
  then obtain p a qs where m: "malloc heap n addr = Inr (p, a)" and ms: "mallocs heap ns a = Inr (qs, addr')"
    and ps: "ps = p # qs" by (auto simp: bindE_eq_Inr split: prod.splits)
  have n: "small_request heap n" "n \<noteq> 0" using Cons.prems by auto
  note st = malloc_step [OF assms(1) Cons.prems(1) n(1) m]
  have IH: "length qs = length ns \<and> (\<forall>i < length ns. brk_of heap a \<le> unat (qs ! i) \<and> unat (qs ! i) mod 8 = 0
      \<and> unat (qs ! i) + unat (ns ! i) \<le> unat (area_end heap))
    \<and> (\<forall>i j. i < j \<longrightarrow> j < length ns \<longrightarrow> unat (qs ! i) + unat (ns ! i) \<le> unat (qs ! j))"
    using Cons.prems(2) by (intro Cons.IH [OF st(1) _ ms]) simp
  have p: "unat p = brk_of heap addr" "brk_of heap addr + unat n \<le> brk_of heap a" using st(3) n by auto
  have "brk_of heap a \<le> unat (area_end heap)" "brk_of heap addr mod 8 = 0"
    using st(1) Cons.prems(1) by (auto simp: addr_ok_def)
  then have hd: "unat p mod 8 = 0" "unat p + unat n \<le> unat (area_end heap)" using p by auto
  show ?case unfolding ps
  proof (intro conjI allI impI)
    show "length (p # qs) = length (n # ns)" using IH by simp
  next
    fix i
    assume "i < length (n # ns)"
    then show "brk_of heap addr \<le> unat ((p # qs) ! i)" "unat ((p # qs) ! i) mod 8 = 0"
      "unat ((p # qs) ! i) + unat ((n # ns) ! i) \<le> unat (area_end heap)"
      using IH hd p by (cases i; fastforce)+
  next
    fix i j
    assume "i < j" "j < length (n # ns)"
    then obtain j' where j: "j = Suc j'" "j' < length ns" by (cases j) auto
    then show "unat ((p # qs) ! i) + unat ((n # ns) ! i) \<le> unat ((p # qs) ! j)"
      using IH p \<open>i < j\<close> by (cases i) fastforce+
  qed
qed

text \<open>A request that wraps the computation is granted: here for almost all of the address space.\<close>

lemma malloc_wraps:
  "malloc \<lparr>area_start = 0x80100000, area_end = 0x88000000\<rparr> 0xF0000000 0 = Inr (0x80100000, 0x70100000)"
  by code_simp

end
