(* ===== verification/Klib_Stdio.thy ===== *)
theory Klib_Stdio
  imports Klib_Stdlib Text_Format
begin

text \<open>
  Formatted output of the guest, \<open>abstract-machine/klib/src/stdio.c\<close>. A format is the characters before
  its NUL; the arguments are the list \<open>va_arg\<close> takes from; the result is what is written to \<open>out\<close> before
  the final NUL, whose length the functions return. A missing argument, one of another type, and a format
  that ends after \<open>%\<close> (the code then reads on behind the NUL) are errors. \<open>width\<close> is a number without
  bound: the \<open>int\<close> of the code overflows for widths no buffer has room for.

  The lemmas compare \<open>%d\<close> and \<open>%x\<close> with the reference conversions of Text\_Format and show that \<open>atoi\<close>
  reads back what \<open>%d\<close> prints.
\<close>

datatype varg = VInt u32 | VStr string

lemma word_div_smaller: "(num :: u32) \<noteq> 0 \<Longrightarrow> 1 < unat k \<Longrightarrow> unat (num div k) < unat num"
  by (simp add: unat_div_distrib unat_gt_0)

function u32_dev_len :: "u32 \<Rightarrow> nat" where
  "u32_dev_len num = (if num = 0 then 0 else Suc (u32_dev_len (num div 10)))"
  by auto
termination by (relation "measure unat") (simp_all add: word_div_smaller del: unat_div_distrib)

function u32_hex_len :: "u32 \<Rightarrow> nat" where
  "u32_hex_len num = (if num = 0 then 0 else Suc (u32_hex_len (num div 16)))"
  by auto
termination by (relation "measure unat") (simp_all add: word_div_smaller del: unat_div_distrib)

declare u32_dev_len.simps [simp del] u32_hex_len.simps [simp del]

text \<open>The digit loops: \<open>temp\<close> is divided \<open>i - 1\<close> times before its last digit is written.\<close>

definition dec_digit_at :: "u32 \<Rightarrow> nat \<Rightarrow> char" where
  "dec_digit_at ud i = (let temp = ((\<lambda>t. t div 10) ^^ (i - 1)) ud in char_of (unat (temp mod 10) + 48))"

definition dec_digits :: "u32 \<Rightarrow> string" where
  "dec_digits ud = map (dec_digit_at ud) (rev [1..<Suc (u32_dev_len ud)])"

definition hex_digit_at :: "u32 \<Rightarrow> nat \<Rightarrow> char" where
  "hex_digit_at x i = (let temp = ((\<lambda>t. t div 16) ^^ (i - 1)) x
     in if temp mod 16 < 10 then char_of (unat (temp mod 16) + 48) else char_of (unat (temp mod 16 - 10) + 97))"

definition hex_digits :: "u32 \<Rightarrow> string" where
  "hex_digits x = map (hex_digit_at x) (rev [1..<Suc (u32_hex_len x)])"

text \<open>\<open>case 'd'\<close> and \<open>case 'x'\<close> of the switch.\<close>

definition format_d :: "char \<Rightarrow> nat \<Rightarrow> u32 \<Rightarrow> string" where
  "format_d padding width d =
     (if d = 0x80000000 then CHR ''-'' # dec_digits (0x7FFFFFFF + 1)
      else if d = 0 then CHR ''0'' # dec_digits 0
      else if sint d < 0 then
        let ud = - d in
        (if padding = CHR '' '' then replicate (width - u32_dev_len ud - 1) (CHR '' '') @ [CHR ''-''] else [])
        @ (if padding = CHR ''0'' then CHR ''-'' # replicate (width - u32_dev_len ud) (CHR ''0'') else [])
        @ dec_digits ud
      else replicate (width - u32_dev_len d) padding @ dec_digits d)"

definition format_x :: "char \<Rightarrow> nat \<Rightarrow> u32 \<Rightarrow> string" where
  "format_x padding width x = replicate (width - u32_hex_len x) padding @ hex_digits x"

text \<open>The switch: the characters written and the arguments left.\<close>

fun conversion :: "char \<Rightarrow> char \<Rightarrow> nat \<Rightarrow> varg list \<Rightarrow> (string \<times> varg list) result" where
  "conversion c padding width ap =
     (if c = CHR ''s'' then
        case ap of VStr s # ap' \<Rightarrow> Inr (s, ap') | _ \<Rightarrow> Inl Out_of_bounds
      else if c = CHR ''c'' then
        case ap of VInt i # ap' \<Rightarrow> Inr ([char_of (unat i)], ap') | _ \<Rightarrow> Inl Out_of_bounds
      else if c = CHR ''d'' then
        case ap of VInt i # ap' \<Rightarrow> Inr (format_d padding width i, ap') | _ \<Rightarrow> Inl Out_of_bounds
      else if c = CHR ''x'' then
        case ap of VInt i # ap' \<Rightarrow> Inr (format_x padding width i, ap') | _ \<Rightarrow> Inl Out_of_bounds
      else Inr ([], ap))"

fun parse_width :: "string \<Rightarrow> nat \<Rightarrow> nat \<times> string" where
  "parse_width [] width = (width, [])"
| "parse_width (c # fmt) width =
     (if CHR ''0'' \<le> c \<and> c \<le> CHR ''9'' then parse_width fmt (width * 10 + (of_char c - 48)) else (width, c # fmt))"

definition parse_spec :: "string \<Rightarrow> char \<times> nat \<times> string" where
  "parse_spec fmt =
     (case fmt of c # fmt' \<Rightarrow> if c = CHR ''0'' then (CHR ''0'', parse_width fmt' 0) else (CHR '' '', parse_width fmt 0)
      | [] \<Rightarrow> (CHR '' '', 0, []))"

lemma parse_width_length: "length (snd (parse_width fmt w)) \<le> length fmt"
  by (induction fmt w rule: parse_width.induct) auto

lemma parse_spec_length: "parse_spec fmt = (p, w, rest) \<Longrightarrow> length rest \<le> length fmt"
  using parse_width_length [of fmt 0] parse_width_length [of "tl fmt" 0]
  by (auto simp: parse_spec_def split: list.splits if_splits)

function vsprintf :: "string \<Rightarrow> varg list \<Rightarrow> string result" where
  "vsprintf [] ap = Inr []"
| "vsprintf (c # fmt) ap =
     (if c \<noteq> CHR ''%'' then bindE (vsprintf fmt ap) (\<lambda>out. Inr (c # out))
      else case parse_spec fmt of (padding, width, rest) \<Rightarrow>
        (case rest of [] \<Rightarrow> Inl Out_of_bounds
         | cv # rest' \<Rightarrow> bindE (conversion cv padding width ap) (\<lambda>(s, ap'). bindE (vsprintf rest' ap') (\<lambda>out. Inr (s @ out)))))"
  by pat_completeness auto
termination
  by (relation "measure (\<lambda>(fmt, ap). length fmt)") (auto dest!: parse_spec_length [OF sym])

text \<open>\<open>sprintf\<close> writes the text and a NUL at \<open>out\<close> and returns the length; \<open>printf\<close> has a buffer of 1024 bytes.\<close>

fun put_bytes :: "gmem \<Rightarrow> u32 \<Rightarrow> u8 list \<Rightarrow> gmem" where
  "put_bytes m p [] = m"
| "put_bytes m p (b # bs) = put_bytes (m(p := b)) (p + 1) bs"

definition sprintf :: "gmem \<Rightarrow> u32 \<Rightarrow> string \<Rightarrow> varg list \<Rightarrow> (nat \<times> gmem) result" where
  "sprintf m out fmt ap = bindE (vsprintf fmt ap) (\<lambda>s. Inr (length s, put_bytes m out (map of_char s @ [0])))"

definition printf :: "string \<Rightarrow> varg list \<Rightarrow> (nat \<times> string) result" where
  "printf fmt ap = bindE (vsprintf fmt ap)
     (\<lambda>out. if length out < 1024 then Inr (length out, takeWhile (\<lambda>c. c \<noteq> CHR 0x00) out) else Inl Out_of_bounds)"

definition snprintf :: "gmem \<Rightarrow> u32 \<Rightarrow> u32 \<Rightarrow> string \<Rightarrow> varg list \<Rightarrow> (nat \<times> gmem) result" where
  "snprintf m out n fmt ap = Inl (Panic ''Not implemented'')"

definition vsnprintf :: "gmem \<Rightarrow> u32 \<Rightarrow> u32 \<Rightarrow> string \<Rightarrow> varg list \<Rightarrow> (nat \<times> gmem) result" where
  "vsnprintf m out n fmt ap = Inl (Panic ''Not implemented'')"

section \<open>Digits\<close>

lemma unat_div_const: "unat ((x :: u32) div 10) = unat x div 10" "unat (x div 16) = unat x div 16"
  by (simp_all add: unat_div_distrib)

lemma char_zero: "char_of (48 :: nat) = CHR ''0''"
  by code_simp

lemma upt_shift: "rev [1..<Suc (Suc k)] = map Suc (rev [1..<Suc k]) @ [1]"
proof -
  have "[1..<Suc (Suc k)] = 1 # map Suc [1..<Suc k]"
    by (subst upt_conv_Cons) (simp, simp only: map_Suc_upt)
  then show ?thesis by (simp only: rev.simps rev_map)
qed

lemma dec_digit_Suc: "0 < i \<Longrightarrow> dec_digit_at ud (Suc i) = dec_digit_at (ud div 10) i"
  by (cases i) (simp_all add: dec_digit_at_def funpow_Suc_right del: funpow.simps)

lemma hex_digit_Suc: "0 < i \<Longrightarrow> hex_digit_at x (Suc i) = hex_digit_at (x div 16) i"
  by (cases i) (simp_all add: hex_digit_at_def funpow_Suc_right del: funpow.simps)

lemma dec_digits_rec:
  "dec_digits ud = (if ud = 0 then [] else dec_digits (ud div 10) @ [char_of (unat ud mod 10 + 48)])"
proof (cases "ud = 0")
  case True
  then show ?thesis by (simp add: dec_digits_def u32_dev_len.simps)
next
  case False
  let ?k = "u32_dev_len (ud div 10)"
  have "dec_digits ud = map (\<lambda>i. dec_digit_at ud (Suc i)) (rev [1..<Suc ?k]) @ [dec_digit_at ud 1]"
    using False unfolding dec_digits_def by (subst u32_dev_len.simps) (simp only: if_False upt_shift map_append map_map comp_def list.map)
  also have "map (\<lambda>i. dec_digit_at ud (Suc i)) (rev [1..<Suc ?k]) = dec_digits (ud div 10)"
    unfolding dec_digits_def by (rule map_cong) (auto simp: dec_digit_Suc)
  also have "dec_digit_at ud 1 = char_of (unat ud mod 10 + 48)" by (simp add: dec_digit_at_def unat_mod_distrib)
  finally show ?thesis using False by simp
qed

lemma hex_digits_rec:
  "hex_digits x = (if x = 0 then [] else hex_digits (x div 16) @ [hex_char (unat x mod 16)])"
proof (cases "x = 0")
  case True
  then show ?thesis by (simp add: hex_digits_def u32_hex_len.simps)
next
  case False
  let ?k = "u32_hex_len (x div 16)"
  have "hex_digits x = map (\<lambda>i. hex_digit_at x (Suc i)) (rev [1..<Suc ?k]) @ [hex_digit_at x 1]"
    using False unfolding hex_digits_def by (subst u32_hex_len.simps) (simp only: if_False upt_shift map_append map_map comp_def list.map)
  also have "map (\<lambda>i. hex_digit_at x (Suc i)) (rev [1..<Suc ?k]) = hex_digits (x div 16)"
    unfolding hex_digits_def by (rule map_cong) (auto simp: hex_digit_Suc)
  also have "hex_digit_at x 1 = hex_char (unat x mod 16)"
  proof -
    have u: "unat (x mod 16) = unat x mod 16" by (simp add: unat_mod_distrib)
    have less: "x mod 16 < 10 \<longleftrightarrow> unat x mod 16 < 10" by (simp add: word_less_nat_alt u)
    have "\<not> unat x mod 16 < 10 \<Longrightarrow> unat (x mod 16 - 10) = unat x mod 16 - 10"
      by (simp add: unat_sub word_le_nat_alt u)
    then show ?thesis by (simp add: hex_digit_at_def hex_char_def u less Let_def)
  qed
  finally show ?thesis using False by simp
qed

lemma dec_digits_dec_nat: "dec_digits ud = (if ud = 0 then [] else dec_nat (unat ud))"
proof (induction ud rule: u32_dev_len.induct)
  case (1 ud)
  have "ud div 10 = 0 \<longleftrightarrow> unat ud < 10" by (simp add: word_unat_eq_iff unat_div_distrib div_eq_0_iff)
  with 1 show ?case
    by (subst dec_digits_rec; subst dec_nat.simps) (auto simp: unat_div_const add.commute)
qed

lemma hex_digits_hex_nat: "hex_digits x = (if x = 0 then [] else hex_nat (unat x))"
proof (induction x rule: u32_hex_len.induct)
  case (1 x)
  have "x div 16 = 0 \<longleftrightarrow> unat x < 16" by (simp add: word_unat_eq_iff unat_div_distrib div_eq_0_iff)
  with 1 show ?case
    by (subst hex_digits_rec; subst hex_nat.simps) (auto simp: unat_div_const)
qed

lemma length_dec_digits: "length (dec_digits ud) = u32_dev_len ud"
  by (simp add: dec_digits_def)

lemma length_hex_digits: "length (hex_digits x) = u32_hex_len x"
  by (simp add: hex_digits_def)

section \<open>Conversions\<close>

lemma sint_magnitude:
  fixes d :: u32
  shows "sint d < 0 \<Longrightarrow> unat (- d) = nat (- sint d)" and "\<not> sint d < 0 \<Longrightarrow> unat d = nat (sint d)"
proof -
  have r: "- (2 ^ 31) \<le> sint d" "sint d < 2 ^ 31" using sint_greater_eq [of d] sint_less [of d] by simp_all
  have u: "0 \<le> k \<Longrightarrow> k < 2 ^ 32 \<Longrightarrow> uint (word_of_int k :: u32) = k" for k
    by (simp add: unsigned_of_int take_bit_int_eq_self)
  { assume "sint d < 0"
    then have "uint (- d) = - sint d" using r u [of "- sint d"] by simp
    then show "unat (- d) = nat (- sint d)" by (simp flip: nat_uint_eq) }
  { assume "\<not> sint d < 0"
    then have "uint d = sint d" using r u [of "sint d"] by simp
    then show "unat d = nat (sint d)" by (simp flip: nat_uint_eq) }
qed

theorem format_d_plain:
  assumes "padding = CHR '' '' \<or> padding = CHR ''0''"
  shows "format_d padding 0 d = fmt_d (sint d)"
proof -
  consider "d = 0x80000000" | "d = 0" | "d \<noteq> 0x80000000" "sint d < 0" | "d \<noteq> 0" "\<not> sint d < 0" by auto
  then show ?thesis
  proof cases
    case 1
    then show ?thesis by (simp add: format_d_def fmt_d_def dec_digits_dec_nat)
  next
    case 2
    then show ?thesis by (simp add: format_d_def fmt_d_def dec_digits_dec_nat dec_nat.simps char_zero)
  next
    case 3
    then have "d \<noteq> 0" by auto
    with 3 show ?thesis using assms sint_magnitude(1) [of d] by (auto simp: format_d_def fmt_d_def dec_digits_dec_nat Let_def)
  next
    case 4
    then have "d \<noteq> 0x80000000" by auto
    with 4 show ?thesis using sint_magnitude(2) [of d] by (simp add: format_d_def fmt_d_def dec_digits_dec_nat)
  qed
qed


lemma dec_len: "ud \<noteq> 0 \<Longrightarrow> u32_dev_len ud = length (dec_nat (unat ud))"
  using length_dec_digits [of ud] by (simp add: dec_digits_dec_nat)

theorem format_d_padded:
  assumes "d \<noteq> 0" and "d \<noteq> 0x80000000"
  shows "format_d (CHR '' '') width d = pad_left width (CHR '' '') (fmt_d (sint d))"
    and "0 < sint d \<Longrightarrow> format_d (CHR ''0'') width d = pad_left width (CHR ''0'') (fmt_d (sint d))"
proof -
  have pos: "format_d padding width d = pad_left width padding (fmt_d (sint d))" if "\<not> sint d < 0" for padding
    using assms that sint_magnitude(2) [of d] by (simp add: format_d_def fmt_d_def pad_left_def dec_len dec_digits_dec_nat)
  have "- d \<noteq> 0" using assms(1) by simp
  then have "format_d (CHR '' '') width d = pad_left width (CHR '' '') (fmt_d (sint d))" if "sint d < 0"
    using assms that sint_magnitude(1) [of d] dec_len [of "- d"]
    by (simp add: format_d_def fmt_d_def pad_left_def dec_digits_dec_nat Let_def)
  with pos show "format_d (CHR '' '') width d = pad_left width (CHR '' '') (fmt_d (sint d))" by blast
  show "0 < sint d \<Longrightarrow> format_d (CHR ''0'') width d = pad_left width (CHR ''0'') (fmt_d (sint d))"
    using pos by simp
qed

text \<open>With zeros, a negative number comes out one character wider than asked for.\<close>

lemma format_d_zero_negative:
  assumes "sint d < 0" and "d \<noteq> 0x80000000"
  shows "length (format_d (CHR ''0'') width d) = Suc (max width (u32_dev_len (- d)))"
proof -
  have "d \<noteq> 0" using assms(1) by auto
  then show ?thesis using assms by (simp add: format_d_def Let_def length_dec_digits)
qed

theorem format_x_hex:
  "format_x padding width x = (if x = 0 then replicate width padding else pad_left width padding (hex_nat (unat x)))"
  using length_hex_digits [of x] by (auto simp: format_x_def pad_left_def hex_digits_hex_nat u32_hex_len.simps [of 0])

section \<open>Formats\<close>

lemma vsprintf_text: "CHR ''%'' \<notin> set s \<Longrightarrow> vsprintf (s @ fmt) ap = bindE (vsprintf fmt ap) (\<lambda>out. Inr (s @ out))"
  by (induction s) (auto simp: bindE_def split: sum.splits)

text \<open>A run of digits after \<open>%\<close> is the width, in decimal; a leading zero asks for zeros.\<close>

lemma parse_width_stops:
  assumes "\<not> (CHR ''0'' \<le> c \<and> c \<le> CHR ''9'')"
  shows "parse_width (c # fmt) w = (w, c # fmt)"
  using assms by auto

lemma conv_not_digit: "c = CHR ''d'' \<or> c = CHR ''x'' \<or> c = CHR ''s'' \<or> c = CHR ''c'' \<Longrightarrow> \<not> (CHR ''0'' \<le> c \<and> c \<le> CHR ''9'') \<and> c \<noteq> CHR ''0''"
  by (elim disjE; simp add: less_eq_char_def)

lemma vsprintf_plain:
  assumes "c = CHR ''d'' \<or> c = CHR ''x'' \<or> c = CHR ''s'' \<or> c = CHR ''c''"
  shows "vsprintf (CHR ''%'' # c # fmt) ap =
    bindE (conversion c (CHR '' '') 0 ap) (\<lambda>(s, ap'). bindE (vsprintf fmt ap') (\<lambda>out. Inr (s @ out)))"
proof -
  have "parse_spec (c # fmt) = (CHR '' '', 0, c # fmt)"
    using conv_not_digit [OF assms] by (auto simp: parse_spec_def)
  then show ?thesis by simp
qed

theorem vsprintf_d: "vsprintf (''%d'' @ fmt) (VInt d # ap) = bindE (vsprintf fmt ap) (\<lambda>out. Inr (fmt_d (sint d) @ out))"
  using vsprintf_plain [of "CHR ''d''" fmt "VInt d # ap"] by (simp add: format_d_plain)

theorem vsprintf_s: "vsprintf (''%s'' @ fmt) (VStr s # ap) = bindE (vsprintf fmt ap) (\<lambda>out. Inr (s @ out))"
  using vsprintf_plain [of "CHR ''s''" fmt "VStr s # ap"] by simp

lemma vsprintf_x: "x \<noteq> 0 \<Longrightarrow> vsprintf (''%x'' @ fmt) (VInt x # ap) = bindE (vsprintf fmt ap) (\<lambda>out. Inr (hex_nat (unat x) @ out))"
  using vsprintf_plain [of "CHR ''x''" fmt "VInt x # ap"] by (simp add: format_x_hex pad_left_def)

lemma vsprintf_x_zero: "vsprintf ''%x'' [VInt 0] = Inr []"
  using vsprintf_plain [of "CHR ''x''" "[]" "[VInt 0]"] by (simp add: format_x_hex)

section \<open>Back from memory\<close>

lemma put_bytes_at:
  assumes "fits p (length bs)"
  shows "put_bytes m p bs x = (if inside p (length bs) x then bs ! (unat x - unat p) else m x)"
  using assms
proof (induction bs arbitrary: p m)
  case Nil
  then show ?case by (auto simp: inside_def)
next
  case (Cons b bs)
  show ?case
  proof (cases "bs = []")
    case True
    then show ?thesis by (auto simp: inside_def word_unat_eq_iff)
  next
    case False
    then have u: "unat (p + 1) = Suc (unat p)" using unat_offset [OF Cons.prems, of 1] by (cases bs) simp_all
    then have "fits (p + 1) (length bs)" using Cons.prems by (simp add: fits_def)
    from Cons.IH [OF this] show ?thesis using u by (auto simp: inside_def word_unat_eq_iff nth_Cons')
  qed
qed

lemma put_bytes_cstring:
  assumes "fits p (Suc (length bs))" and "0 \<notin> set bs"
  shows "cstring (put_bytes m p (bs @ [0])) p bs"
proof -
  have at: "put_bytes m p (bs @ [0]) (p + of_nat i) = (bs @ [0]) ! i" if "i \<le> length bs" for i
    using put_bytes_at [of p "bs @ [0]"] unat_offset [OF assms(1), of i] that assms(1) by (simp add: inside_def)
  then have "bytes (put_bytes m p (bs @ [0])) p (length bs) = bs"
    by (intro nth_equalityI) (auto simp: nth_bytes nth_append)
  then show ?thesis using at [of "length bs"] assms(2) by (simp add: cstring_bytes)
qed

lemma digit_byte:
  fixes n :: nat
  assumes "n < 10"
  shows "unat (of_char (char_of (48 + n)) :: u8) = 48 + n"
proof -
  have "of_char (char_of (48 + n)) = (of_nat (of_char (char_of (48 + n))) :: u8)" by (simp only: of_nat_of_char)
  moreover have "of_char (char_of (48 + n)) = 48 + n" using assms by simp
  ultimately have "of_char (char_of (48 + n)) = (of_nat (48 + n) :: u8)" by simp
  moreover have "unat (of_nat (48 + n) :: u8) = (48 + n) mod 256" unfolding unsigned_of_nat by (simp add: take_bit_eq_mod)
  ultimately show ?thesis using assms by simp
qed

lemma dec_nat_bytes:
  "digit_bytes (map of_char (dec_nat n)) \<and> decimal (map of_char (dec_nat n)) = n"
proof (induction n rule: dec_nat.induct)
  case (1 n)
  have d: "digit_bytes [of_char (char_of (48 + k))]" if "k < 10" for k :: nat
    using digit_byte [OF that] that by (simp add: digit_bytes_def word_le_nat_alt)
  show ?case
  proof (cases "n < 10")
    case True
    then show ?thesis using d digit_byte by (subst (1 2) dec_nat.simps) (simp add: decimal_def)
  next
    case False
    then show ?thesis using 1 d [of "n mod 10"] digit_byte [of "n mod 10"]
      by (subst (1 2) dec_nat.simps) (auto simp: decimal_def digit_bytes_def)
  qed
qed

theorem atoi_sprintf:
  assumes "\<not> sint d < 0" and "fits out (Suc (length (fmt_d (sint d))))"
  shows "\<exists>m'. sprintf m out ''%d'' [VInt d] = Inr (length (fmt_d (sint d)), m') \<and> atoi m' out = Some d"
proof -
  let ?bs = "map of_char (fmt_d (sint d)) :: u8 list"
  have f: "fmt_d (sint d) = dec_nat (unat d)" using assms(1) sint_magnitude(2) by (simp add: fmt_d_def)
  then have b: "digit_bytes ?bs" "decimal ?bs = unat d" using dec_nat_bytes by simp_all
  then have "0 \<notin> set ?bs" by (auto simp: digit_bytes_def)
  then have "cstring (put_bytes m out (?bs @ [0])) out ?bs" using assms(2) by (intro put_bytes_cstring) simp_all
  then have "atoi (put_bytes m out (?bs @ [0])) out = Some (of_nat (decimal ?bs))"
    using atoi_reads_decimal [of _ out 0 ?bs] b(1) by simp
  moreover have "vsprintf ''%d'' [VInt d] = Inr (fmt_d (sint d))" using vsprintf_d [of "[]" d "[]"] by simp
  ultimately show ?thesis using b(2) by (simp add: sprintf_def)
qed

end
