(* ===== verification/Am_Boot.thy ===== *)
theory Am_Boot
  imports Prelude
begin

text \<open>
  Guest code that works on words of memory: the two stages of the ysyxSoC boot loader
  (\<open>am/src/riscv/ysyxsoc/bootloader.c\<close>) and the context code of the trap handler (\<open>am/src/riscv/nemu/cte.c\<close>;
  the ysyxSoC copy is the same). A memory is a function from byte addresses to words; a pointer to
  \<open>uint32_t\<close> moves by 4. The symbols of the linker script are the record \<open>layout\<close>.

  The lemmas show that booting leaves every section at its run address with the contents of its load
  address and the zero sections clear, and what a trap and a new context leave in memory.
\<close>

type_synonym wmem = "u32 \<Rightarrow> u32"

section \<open>Boot loader\<close>

text \<open>\<open>fsbl_copy\<close> and \<open>ssbl_copy\<close> are the same loop.\<close>

fun copy_words :: "nat \<Rightarrow> u32 \<Rightarrow> u32 \<Rightarrow> wmem \<Rightarrow> wmem" where
  "copy_words 0 dst src m = m"
| "copy_words (Suc size') dst src m = copy_words size' (dst + 4) (src + 4) (m(dst := m src))"

definition fsbl_copy :: "u32 \<Rightarrow> u32 \<Rightarrow> u32 \<Rightarrow> wmem \<Rightarrow> wmem" where
  "fsbl_copy dst src sz m = copy_words (unat sz) dst src m"

definition ssbl_copy :: "u32 \<Rightarrow> u32 \<Rightarrow> u32 \<Rightarrow> wmem \<Rightarrow> wmem" where
  "ssbl_copy dst src sz m = copy_words (unat sz) dst src m"

fun zero_words :: "nat \<Rightarrow> u32 \<Rightarrow> wmem \<Rightarrow> wmem" where
  "zero_words 0 dst m = m"
| "zero_words (Suc size') dst m = zero_words size' (dst + 4) (m(dst := 0))"

definition ssbl_zero :: "u32 \<Rightarrow> u32 \<Rightarrow> wmem \<Rightarrow> wmem" where
  "ssbl_zero dst sz m = zero_words (unat sz) dst m"

record sect =
  s_start :: u32
  s_end :: u32
  s_lma :: u32

text \<open>\<open>&_x_end - &_x_start\<close>, a difference of pointers to words.\<close>

definition sect_words :: "sect \<Rightarrow> u32" where
  "sect_words s = signed_drop_bit 2 (s_end s - s_start s)"

record layout =
  ssbl_text :: sect
  ssbl_start :: u32
  text_sect :: sect
  rodata_sect :: sect
  data_sect :: sect
  data_extra :: sect
  bss_sect :: sect
  bss_extra :: sect
  start_symbol :: u32

text \<open>Both stages end with a jump; the result is the memory and the address jumped to.\<close>

definition fs_bootloader :: "layout \<Rightarrow> wmem \<Rightarrow> u32 \<times> wmem" where
  "fs_bootloader l m = (ssbl_start l, fsbl_copy (s_start (ssbl_text l)) (s_lma (ssbl_text l)) (sect_words (ssbl_text l)) m)"

definition load_sect :: "sect \<Rightarrow> wmem \<Rightarrow> wmem" where
  "load_sect s m = ssbl_copy (s_start s) (s_lma s) (sect_words s) m"

definition clear_sect :: "sect \<Rightarrow> wmem \<Rightarrow> wmem" where
  "clear_sect s m = ssbl_zero (s_start s) (sect_words s) m"

definition ss_bootloader :: "layout \<Rightarrow> wmem \<Rightarrow> u32 \<times> wmem" where
  "ss_bootloader l m =
     (let m = load_sect (text_sect l) m;
          m = load_sect (rodata_sect l) m;
          m = load_sect (data_sect l) m;
          m = load_sect (data_extra l) m;
          m = clear_sect (bss_sect l) m;
          m = clear_sect (bss_extra l) m
      in (start_symbol l, m))"

section \<open>Contexts\<close>

text \<open>\<open>struct Context\<close>: \<open>nr\<close> registers (16 on RV32E), then \<open>mcause\<close>, \<open>mstatus\<close>, \<open>mepc\<close>, \<open>pdir\<close>.\<close>

definition ctx_gpr :: "nat \<Rightarrow> u32" where "ctx_gpr i = of_nat (4 * i)"

definition ctx_mcause :: "nat \<Rightarrow> u32" where "ctx_mcause nr = of_nat (4 * nr)"

definition ctx_mstatus :: "nat \<Rightarrow> u32" where "ctx_mstatus nr = of_nat (4 * (nr + 1))"

definition ctx_mepc :: "nat \<Rightarrow> u32" where "ctx_mepc nr = of_nat (4 * (nr + 2))"

definition ctx_size :: "nat \<Rightarrow> u32" where "ctx_size nr = of_nat (4 * (nr + 4))"

datatype event = EVENT_NULL | EVENT_YIELD | EVENT_SYSCALL | EVENT_PAGEFAULT | EVENT_ERROR | EVENT_IRQ_TIMER | EVENT_IRQ_IODEV

type_synonym user_handler = "event \<Rightarrow> u32 \<Rightarrow> wmem \<Rightarrow> u32 \<times> wmem"

definition am_irq_handle :: "nat \<Rightarrow> user_handler option \<Rightarrow> u32 \<Rightarrow> wmem \<Rightarrow> (u32 \<times> wmem) result" where
  "am_irq_handle nr user_handler c m =
     (case user_handler of None \<Rightarrow> Inr (c, m)
      | Some h \<Rightarrow>
        let (ev, m) = (if m (c + ctx_mcause nr) = 11
              then (EVENT_YIELD, m(c + ctx_mepc nr := m (c + ctx_mepc nr) + 4)) else (EVENT_ERROR, m));
            (c, m) = h ev c m
        in bindE (assertE (c \<noteq> 0)) (\<lambda>_. Inr (c, m)))"

text \<open>\<open>cte_init\<close> sets \<open>mtvec\<close> and remembers the handler.\<close>

definition cte_init :: "u32 \<Rightarrow> user_handler option \<Rightarrow> u32 \<times> user_handler option" where
  "cte_init am_asm_trap h = (am_asm_trap, h)"

definition kcontext :: "nat \<Rightarrow> u32 \<Rightarrow> u32 \<Rightarrow> u32 \<Rightarrow> wmem \<Rightarrow> u32 \<times> wmem" where
  "kcontext nr kstack_end entry arg m =
     (let cp = kstack_end - ctx_size nr;
          m = m(cp + ctx_mepc nr := entry);
          m = m(cp + ctx_mstatus nr := 0x1800);
          m = m(cp + ctx_gpr 10 := arg);
          m = m(cp + ctx_gpr 2 := cp)
      in (cp, m))"

section \<open>Loading sections\<close>

definition wregion :: "u32 \<Rightarrow> nat \<Rightarrow> u32 set" where
  "wregion p n = (\<lambda>i. p + of_nat i * 4) ` {..<n}"

lemma wregion_Suc: "wregion p (Suc n) = insert p (wregion (p + 4) n)"
  unfolding wregion_def lessThan_Suc_eq_insert_0 image_insert image_image by (simp add: algebra_simps)

lemma wregion_in: "i < n \<Longrightarrow> p + of_nat i * 4 \<in> wregion p n"
  by (auto simp: wregion_def)

lemma copy_words_outside: "a \<notin> wregion dst n \<Longrightarrow> copy_words n dst src m a = m a"
  by (induction n arbitrary: dst src m) (auto simp: wregion_Suc)

lemma zero_words_outside: "a \<notin> wregion dst n \<Longrightarrow> zero_words n dst m a = m a"
  by (induction n arbitrary: dst m) (auto simp: wregion_Suc)

lemma head_not_in_tail:
  assumes "4 * Suc n \<le> 2 ^ 32"
  shows "p \<notin> wregion (p + 4) n"
proof
  assume "p \<in> wregion (p + 4) n"
  then obtain i where i: "i < n" and "p = p + 4 + of_nat i * 4" by (auto simp: wregion_def)
  then have "(of_nat (4 * Suc i) :: u32) = 0" by (simp add: algebra_simps)
  moreover have "4 * Suc i < 2 ^ 32" using i assms by simp
  ultimately have "4 * Suc i = 0" using unat_of_small [of "4 * Suc i"] by simp
  then show False by simp
qed

lemma zero_words_at:
  assumes "4 * n \<le> 2 ^ 32" and "i < n"
  shows "zero_words n dst m (dst + of_nat i * 4) = 0"
  using assms
proof (induction n arbitrary: dst m i)
  case (Suc n)
  show ?case
  proof (cases i)
    case 0
    then show ?thesis using zero_words_outside [OF head_not_in_tail [OF Suc.prems(1)]] by simp
  next
    case (Suc k)
    then show ?thesis using Suc.IH [of k "dst + 4"] Suc.prems by (simp add: algebra_simps)
  qed
qed simp

lemma copy_words_at:
  assumes "4 * n \<le> 2 ^ 32" and "wregion dst n \<inter> wregion src n = {}" and "i < n"
  shows "copy_words n dst src m (dst + of_nat i * 4) = m (src + of_nat i * 4)"
  using assms
proof (induction n arbitrary: dst src m i)
  case (Suc n)
  have dis: "wregion (dst + 4) n \<inter> wregion (src + 4) n = {}" "dst \<notin> wregion (src + 4) n"
    using Suc.prems(2) by (auto simp: wregion_Suc)
  show ?case
  proof (cases i)
    case 0
    then show ?thesis using copy_words_outside [OF head_not_in_tail [OF Suc.prems(1)]] by simp
  next
    case (Suc k)
    then have "copy_words n (dst + 4) (src + 4) (m(dst := m src)) (dst + 4 + of_nat k * 4) = (m(dst := m src)) (src + 4 + of_nat k * 4)"
      using Suc.IH [OF _ dis(1)] Suc.prems by simp
    moreover have "src + 4 + of_nat k * 4 \<in> wregion (src + 4) n" using Suc Suc.prems by (intro wregion_in) simp
    ultimately show ?thesis using dis(2) Suc by (auto simp: algebra_simps)
  qed
qed simp

text \<open>The second stage as a list of steps: which section, and whether it has a load image.\<close>

definition boot_step :: "wmem \<Rightarrow> bool \<times> sect \<Rightarrow> wmem" where
  "boot_step m st = (if fst st then load_sect (snd st) m else clear_sect (snd st) m)"

definition boot_steps :: "layout \<Rightarrow> (bool \<times> sect) list" where
  "boot_steps l = [(True, text_sect l), (True, rodata_sect l), (True, data_sect l), (True, data_extra l),
     (False, bss_sect l), (False, bss_extra l)]"

definition dest_of :: "sect \<Rightarrow> u32 set" where
  "dest_of s = wregion (s_start s) (unat (sect_words s))"

definition image_of :: "sect \<Rightarrow> u32 set" where
  "image_of s = wregion (s_lma s) (unat (sect_words s))"

definition steps_ok :: "(bool \<times> sect) list \<Rightarrow> bool" where
  "steps_ok ss \<longleftrightarrow> sorted_wrt (\<lambda>s t. dest_of (snd s) \<inter> dest_of (snd t) = {}) ss
     \<and> (\<forall>s \<in> set ss. 4 * unat (sect_words (snd s)) \<le> 2 ^ 32)
     \<and> (\<forall>s \<in> set ss. \<forall>t \<in> set ss. fst s \<longrightarrow> image_of (snd s) \<inter> dest_of (snd t) = {})"

definition sect_done :: "wmem \<Rightarrow> wmem \<Rightarrow> bool \<times> sect \<Rightarrow> bool" where
  "sect_done m m' st \<longleftrightarrow> (\<forall>i < unat (sect_words (snd st)). m' (s_start (snd st) + of_nat i * 4)
     = (if fst st then m (s_lma (snd st) + of_nat i * 4) else 0))"

lemma ss_bootloader_steps: "ss_bootloader l m = (start_symbol l, foldl boot_step m (boot_steps l))"
  by (simp add: ss_bootloader_def boot_steps_def boot_step_def Let_def)

lemma boot_step_outside: "a \<notin> dest_of (snd st) \<Longrightarrow> boot_step m st a = m a"
  by (simp add: boot_step_def dest_of_def load_sect_def clear_sect_def ssbl_copy_def ssbl_zero_def copy_words_outside zero_words_outside)

lemma boot_steps_outside: "a \<notin> (\<Union>st \<in> set ss. dest_of (snd st)) \<Longrightarrow> foldl boot_step m ss a = m a"
  by (induction ss arbitrary: m) (auto simp: boot_step_outside)

lemma boot_step_done:
  assumes "steps_ok (st # ss)"
  shows "sect_done m (boot_step m st) st"
proof (cases st)
  case (Pair b s)
  have "4 * unat (sect_words s) \<le> 2 ^ 32" using assms Pair by (simp add: steps_ok_def)
  moreover have "b \<Longrightarrow> wregion (s_start s) (unat (sect_words s)) \<inter> wregion (s_lma s) (unat (sect_words s)) = {}"
    using assms Pair by (auto simp: steps_ok_def dest_of_def image_of_def)
  ultimately show ?thesis using Pair
    by (simp add: sect_done_def boot_step_def load_sect_def clear_sect_def ssbl_copy_def ssbl_zero_def copy_words_at zero_words_at)
qed

lemma boot_steps_done:
  assumes "steps_ok ss" and "st \<in> set ss"
  shows "sect_done m (foldl boot_step m ss) st"
  using assms
proof (induction ss arbitrary: m)
  case (Cons s ss)
  have ok: "steps_ok ss" using Cons.prems(1) by (auto simp: steps_ok_def)
  have keep: "foldl boot_step (boot_step m s) ss a = boot_step m s a" if "a \<in> dest_of (snd s)" for a
    using Cons.prems(1) that by (intro boot_steps_outside) (auto simp: steps_ok_def)
  show ?case
  proof (cases "st = s")
    case True
    then show ?thesis using boot_step_done [OF Cons.prems(1), of m] keep
      by (simp add: sect_done_def dest_of_def wregion_in)
  next
    case False
    then have "sect_done (boot_step m s) (foldl boot_step (boot_step m s) ss) st" using Cons.IH [OF ok] Cons.prems by simp
    moreover have "boot_step m s a = m a" if "fst st" "a \<in> image_of (snd st)" for a
      using that Cons.prems by (intro boot_step_outside) (fastforce simp: steps_ok_def)
    ultimately show ?thesis by (auto simp: sect_done_def image_of_def intro: wregion_in)
  qed
qed simp

lemma ss_bootloader_done:
  assumes "steps_ok (boot_steps l)"
  shows "fst (ss_bootloader l m) = start_symbol l" and "st \<in> set (boot_steps l) \<Longrightarrow> sect_done m (snd (ss_bootloader l m)) st"
    and "a \<notin> (\<Union>st \<in> set (boot_steps l). dest_of (snd st)) \<Longrightarrow> snd (ss_bootloader l m) a = m a"
  using boot_steps_done [OF assms] boot_steps_outside by (simp_all add: ss_bootloader_steps)

section \<open>Sections as ranges of bytes\<close>

text \<open>
  What the boot loader is for, in terms of the symbols alone: the byte at an address of the word memory, the bytes of a section
  and of its load image, and layouts in which they do not meet. Sections and images start at words; where a section ends
  is left open, and the bytes behind its last whole word are not loaded.
\<close>

definition byte_at :: "wmem \<Rightarrow> u32 \<Rightarrow> u8" where
  "byte_at m a = ucast (drop_bit (8 * (unat a mod 4)) (m (of_nat (4 * (unat a div 4)))))"

definition sect_size :: "sect \<Rightarrow> nat" where
  "sect_size s = unat (s_end s) - unat (s_start s)"

definition whole_words :: "sect \<Rightarrow> nat" where
  "whole_words s = 4 * (sect_size s div 4)"

definition span_of :: "u32 \<Rightarrow> nat \<Rightarrow> nat set" where
  "span_of p n = {unat p..<unat p + n}"

definition sect_ok :: "sect \<Rightarrow> bool" where
  "sect_ok s \<longleftrightarrow> 4 dvd unat (s_start s) \<and> 4 dvd unat (s_lma s) \<and> s_start s \<le> s_end s
     \<and> sect_size s < 2 ^ 31 \<and> unat (s_lma s) + sect_size s \<le> 2 ^ 32"

definition layout_ok :: "(bool \<times> sect) list \<Rightarrow> bool" where
  "layout_ok ss \<longleftrightarrow> (\<forall>s \<in> set ss. sect_ok (snd s))
     \<and> sorted_wrt (\<lambda>s t. span_of (s_start (snd s)) (sect_size (snd s)) \<inter> span_of (s_start (snd t)) (sect_size (snd t)) = {}) ss
     \<and> (\<forall>s \<in> set ss. \<forall>t \<in> set ss. fst s \<longrightarrow>
          span_of (s_lma (snd s)) (sect_size (snd s)) \<inter> span_of (s_start (snd t)) (sect_size (snd t)) = {})"

lemma wregion_span:
  assumes "unat p + 4 * n \<le> 2 ^ 32" and "a \<in> wregion p n"
  shows "unat a \<in> span_of p (4 * n)"
proof -
  obtain i where i: "i < n" "a = p + of_nat (4 * i)" using assms(2) by (auto simp: wregion_def mult.commute)
  then have "unat a = unat p + 4 * i" using assms(1) unat_of_small [of "4 * i"] by (simp add: unat_plus_simple [THEN iffD1] unat_word_ariths)
  then show ?thesis using i(1) by (simp add: span_of_def)
qed

lemma round_down:
  fixes p n x :: nat
  assumes "4 dvd p" "4 dvd n" "p \<le> 4 * (x div 4)" "4 * (x div 4) < p + n"
  shows "p \<le> x \<and> x < p + n"
proof -
  obtain k j where k: "p = 4 * k" "n = 4 * j" using assms(1,2) by (elim dvdE)
  obtain q r where x: "x = 4 * q + r" "r < 4" using div_mult_mod_eq [of x 4] mod_less_divisor [of 4 x] by (metis mult.commute zero_less_numeral)
  then have q: "x div 4 = q" by simp
  then have "4 * q < 4 * (k + j)" using assms(4) k by simp
  then have "q + 1 \<le> k + j" by simp
  then show ?thesis using x k assms(3) unfolding q by simp
qed

lemma sect_words_size: "sect_ok s \<Longrightarrow> 4 * unat (sect_words s) = whole_words s"
proof -
  assume ok: "sect_ok s"
  let ?d = "s_end s - s_start s"
  have d: "unat ?d = sect_size s" using ok by (simp add: sect_ok_def sect_size_def unat_sub)
  then have "\<not> bit (unat ?d) 31" using ok by (simp add: bit_iff_odd sect_ok_def)
  then have "\<not> bit ?d 31" by (simp add: bit_unsigned_iff)
  then have "signed_drop_bit 2 ?d = drop_bit 2 ?d"
    by (intro bit_word_eqI) (auto simp: bit_simps dest: bit_imp_le_length)
  then show ?thesis using d by (simp add: sect_words_def whole_words_def drop_bit_eq_div unat_div)
qed

lemma whole_words_le: "whole_words s \<le> sect_size s" "4 dvd whole_words s"
  by (simp_all add: whole_words_def)

lemma span_whole: "n \<in> span_of p (whole_words s) \<Longrightarrow> n \<in> span_of p (sect_size s)"
  using whole_words_le(1) [of s] by (simp add: span_of_def)

lemma sect_dest: "sect_ok s \<Longrightarrow> a \<in> dest_of s \<Longrightarrow> unat a \<in> span_of (s_start s) (whole_words s)"
proof -
  assume s: "sect_ok s" "a \<in> dest_of s"
  have "unat (s_start s) + sect_size s \<le> 2 ^ 32"
    using s(1) unsigned_less [of "s_end s", where ?'a = nat] by (simp add: sect_ok_def sect_size_def word_le_nat_alt)
  then have "unat (s_start s) + whole_words s \<le> 2 ^ 32" using whole_words_le(1) [of s] by linarith
  then show ?thesis using s wregion_span [of "s_start s" "unat (sect_words s)" a] by (simp add: sect_words_size dest_of_def)
qed

lemma sect_image: "sect_ok s \<Longrightarrow> a \<in> image_of s \<Longrightarrow> unat a \<in> span_of (s_lma s) (sect_size s)"
  using wregion_span [of "s_lma s" "unat (sect_words s)" a] whole_words_le(1) [of s] span_whole
  by (auto simp: sect_words_size image_of_def sect_ok_def)

lemma layout_steps_ok: "layout_ok ss \<Longrightarrow> steps_ok ss"
proof -
  assume l: "layout_ok ss"
  then have ok: "sect_ok (snd s)" if "s \<in> set ss" for s using that by (simp add: layout_ok_def)
  have "sorted_wrt (\<lambda>s t. dest_of (snd s) \<inter> dest_of (snd t) = {}) ss"
  proof (rule sorted_wrt_mono_rel [rotated])
    show "sorted_wrt (\<lambda>s t. span_of (s_start (snd s)) (sect_size (snd s)) \<inter> span_of (s_start (snd t)) (sect_size (snd t)) = {}) ss"
      using l by (simp add: layout_ok_def)
  qed (use ok sect_dest span_whole in blast)
  moreover have "4 * unat (sect_words (snd s)) \<le> 2 ^ 32" if "s \<in> set ss" for s
    using ok [OF that] whole_words_le(1) [of "snd s"] by (simp add: sect_words_size sect_ok_def)
  moreover have "image_of (snd s) \<inter> dest_of (snd t) = {}" if "s \<in> set ss" "t \<in> set ss" "fst s" for s t
    using l that ok sect_dest sect_image span_whole unfolding layout_ok_def by blast
  ultimately show ?thesis by (simp add: steps_ok_def)
qed

lemma byte_at_plus:
  assumes "4 dvd unat p" and "unat p + o' < 2 ^ 32"
  shows "byte_at m (p + of_nat o') = ucast (drop_bit (8 * (o' mod 4)) (m (p + of_nat (o' div 4) * 4)))"
proof -
  obtain k where k: "unat p = 4 * k" using assms(1) by (elim dvdE)
  have u: "unat (p + of_nat o') = 4 * k + o'" using assms k unat_of_small [of o'] by (simp add: unat_word_ariths)
  have "unat (p + of_nat o') div 4 = k + o' div 4" using u by simp
  moreover have "p = of_nat (4 * k)" using k using unat_of_small [of "4 * k"] unsigned_less [of p, where ?'a = nat] by (simp add: word_unat_eq_iff)
  ultimately have "of_nat (4 * (unat (p + of_nat o') div 4)) = p + of_nat (o' div 4) * 4" by (simp add: algebra_simps)
  moreover have "unat (p + of_nat o') mod 4 = o' mod 4" using u by simp
  ultimately show ?thesis by (simp add: byte_at_def)
qed

text \<open>The second stage, byte by byte.\<close>

lemma ss_bootloader_loaded:
  assumes l: "layout_ok (boot_steps l)" and st: "(b, s) \<in> set (boot_steps l)" "o' < whole_words s"
  shows "byte_at (snd (ss_bootloader l m)) (s_start s + of_nat o') = (if b then byte_at m (s_lma s + of_nat o') else 0)"
proof -
  have ok: "sect_ok s" using l st(1) by (auto simp: layout_ok_def)
  have i: "o' div 4 < unat (sect_words s)" using st(2) sect_words_size [OF ok] by linarith
  have "o' < sect_size s" using st(2) whole_words_le(1) [of s] by linarith
  then have "unat (s_start s) + o' < 2 ^ 32" "unat (s_lma s) + o' < 2 ^ 32"
    using ok unsigned_less [of "s_end s", where ?'a = nat] by (auto simp: sect_ok_def sect_size_def word_le_nat_alt)
  moreover have "4 dvd unat (s_start s)" "4 dvd unat (s_lma s)" using ok by (simp_all add: sect_ok_def)
  ultimately show ?thesis
    using ss_bootloader_done(2) [OF layout_steps_ok [OF l] st(1), of m] i by (simp add: byte_at_plus sect_done_def)
qed

lemma ss_bootloader_unchanged:
  assumes l: "layout_ok (boot_steps l)"
    and out: "\<And>b s. (b, s) \<in> set (boot_steps l) \<Longrightarrow> unat a \<notin> span_of (s_start s) (whole_words s)"
  shows "byte_at (snd (ss_bootloader l m)) a = byte_at m a"
proof -
  let ?w = "of_nat (4 * (unat a div 4)) :: u32"
  have "?w \<notin> dest_of (snd st)" if "st \<in> set (boot_steps l)" for st
  proof
    assume "?w \<in> dest_of (snd st)"
    moreover have ok: "sect_ok (snd st)" using l that by (simp add: layout_ok_def)
    ultimately have "unat ?w \<in> span_of (s_start (snd st)) (whole_words (snd st))" by (rule sect_dest [rotated])
    moreover have "unat ?w = 4 * (unat a div 4)"
      by (intro unat_of_small) (use unsigned_less [of a, where ?'a = nat] in simp)
    moreover have "4 dvd unat (s_start (snd st))" using ok by (simp add: sect_ok_def)
    ultimately have "unat a \<in> span_of (s_start (snd st)) (whole_words (snd st))"
      using round_down [of "unat (s_start (snd st))" "whole_words (snd st)" "unat a"] whole_words_le(2) by (simp add: span_of_def)
    then show False using out [of "fst st" "snd st"] that by simp
  qed
  then show ?thesis using ss_bootloader_done(3) [OF layout_steps_ok [OF l], of ?w m] by (simp add: byte_at_def)
qed

text \<open>The bytes of an incomplete last word stay as they were: no other section reaches them.\<close>

lemma ss_bootloader_rest:
  assumes l: "layout_ok (boot_steps l)" and st: "(b, s) \<in> set (boot_steps l)" "whole_words s \<le> o'" "o' < sect_size s"
  shows "byte_at (snd (ss_bootloader l m)) (s_start s + of_nat o') = byte_at m (s_start s + of_nat o')"
proof (rule ss_bootloader_unchanged [OF l])
  fix b' t
  assume t: "(b', t) \<in> set (boot_steps l)"
  have ok: "sect_ok s" using l st(1) by (auto simp: layout_ok_def)
  have "unat (s_start s) + o' < 2 ^ 32"
    using ok st(3) unsigned_less [of "s_end s", where ?'a = nat] by (auto simp: sect_ok_def sect_size_def word_le_nat_alt)
  then have u: "unat (s_start s + of_nat o') = unat (s_start s) + o'" using unat_of_small [of o'] by (simp add: unat_word_ariths)
  have "(b, s) = (b', t) \<or> span_of (s_start s) (sect_size s) \<inter> span_of (s_start t) (sect_size t) = {}"
    using l st(1) t unfolding layout_ok_def sorted_wrt_iff_nth_less in_set_conv_nth
    by (metis (no_types, lifting) Int_commute linorder_neqE_nat snd_conv)
  moreover have "unat (s_start s) + o' \<in> span_of (s_start s) (sect_size s)" using st(3) by (simp add: span_of_def)
  ultimately have "unat (s_start s) + o' \<notin> span_of (s_start t) (whole_words t)"
    using span_whole [of "unat (s_start s) + o'" "s_start t" t] st(2) by (auto simp: span_of_def)
  then show "unat (s_start s + of_nat o') \<notin> span_of (s_start t) (whole_words t)" unfolding u .
qed

section \<open>Traps and new contexts\<close>

lemma irq_yield:
  assumes "m (c + ctx_mcause nr) = 11" and "h EVENT_YIELD c (m(c + ctx_mepc nr := m (c + ctx_mepc nr) + 4)) = (c', m')" and "c' \<noteq> 0"
  shows "am_irq_handle nr (Some h) c m = Inr (c', m')"
  using assms by (simp add: am_irq_handle_def)

lemma ctx_offsets:
  assumes "nr = 16 \<or> nr = 32"
  shows "distinct [ctx_mepc nr, ctx_mstatus nr, ctx_gpr 10, ctx_gpr 2]"
  using assms by (elim disjE) (simp_all add: ctx_mepc_def ctx_mstatus_def ctx_gpr_def)

lemma kcontext_fields:
  assumes "nr = 16 \<or> nr = 32" and "kcontext nr kend entry arg m = (cp, m')"
  shows "m' (cp + ctx_mepc nr) = entry \<and> m' (cp + ctx_mstatus nr) = 0x1800 \<and> m' (cp + ctx_gpr 10) = arg
    \<and> m' (cp + ctx_gpr 2) = cp \<and> cp + ctx_size nr = kend
    \<and> (\<forall>a. a \<notin> {cp + ctx_mepc nr, cp + ctx_mstatus nr, cp + ctx_gpr 10, cp + ctx_gpr 2} \<longrightarrow> m' a = m a)"
  using ctx_offsets [OF assms(1)] assms(2) by (auto simp: kcontext_def Let_def)

text \<open>
  A yield to a fresh context: a handler that returns the context made by \<open>kcontext\<close> makes the trap return
  to \<open>entry\<close> with its argument, and the interrupted context resumes behind its \<open>ecall\<close>.
\<close>

lemma yield_to_new:
  assumes "nr = 16 \<or> nr = 32" and "kcontext nr kend entry arg m = (cp, m1)" and "cp \<noteq> 0"
    and "m1 (c + ctx_mcause nr) = 11"
    and "c + ctx_mepc nr \<notin> {cp + ctx_mepc nr, cp + ctx_mstatus nr, cp + ctx_gpr 10, cp + ctx_gpr 2}"
  shows "\<exists>m'. am_irq_handle nr (Some (\<lambda>ev _ m. (if ev = EVENT_YIELD then cp else 0, m))) c m1 = Inr (cp, m')
    \<and> m' (cp + ctx_mepc nr) = entry \<and> m' (cp + ctx_gpr 10) = arg \<and> m' (c + ctx_mepc nr) = m (c + ctx_mepc nr) + 4"
  using kcontext_fields [OF assms(1,2)] assms(3-) by (auto simp: am_irq_handle_def)

end
