(* ===== verification/Gdb_Protocol.thy ===== *)
theory Gdb_Protocol
  imports Text_Format
begin

text \<open>
  The client of the GDB remote protocol that drives QEMU as a reference, \<open>tools/qemu-diff/src/protocol.c\<close>
  and \<open>gdb-host.c\<close>. A connection is the bytes the server will have sent, the bytes written so far and the
  \<open>ack\<close> flag; the socket calls that set it up are not modelled. \<open>fgetc\<close> at the end of the input gives
  \<open>EOF\<close>: receiving then ends the process, and sending repeats the packet for ever. The buffer of
  \<open>recv_packet\<close> is the list of its bytes with its capacity; a store outside it is an error.

  The lemmas show that hexadecimal numbers are read back, that a packet encoded by the rules of the
  protocol is received unchanged and confirmed, that the buffer is never left, and that the
  register and memory packets carry what they should.
\<close>

record conn =
  inp :: "u8 list"
  outp :: "u8 list"
  ack :: bool

abbreviation Dollar :: u8 where "Dollar \<equiv> 0x24"
abbreviation Hash :: u8 where "Hash \<equiv> 0x23"
abbreviation Brace :: u8 where "Brace \<equiv> 0x7d"
abbreviation Star :: u8 where "Star \<equiv> 0x2a"

definition text_bytes :: "string \<Rightarrow> u8 list" where
  "text_bytes s = map of_char s"

section \<open>Hexadecimal\<close>

definition isdigit :: "u8 \<Rightarrow> bool" where
  "isdigit c \<longleftrightarrow> 0x30 \<le> c \<and> c \<le> 0x39"

definition isxdigit :: "u8 \<Rightarrow> bool" where
  "isxdigit c \<longleftrightarrow> isdigit c \<or> 0x41 \<le> c \<and> c \<le> 0x46 \<or> 0x61 \<le> c \<and> c \<le> 0x66"

definition tolower :: "u8 \<Rightarrow> u8" where
  "tolower c = (if 0x41 \<le> c \<and> c \<le> 0x5a then c + 0x20 else c)"

definition hex_nibble :: "u8 \<Rightarrow> u8" where
  "hex_nibble hex = (if isdigit hex then hex - 0x30 else tolower hex - 0x61 + 10)"

definition hex_encode :: "u8 \<Rightarrow> u8" where
  "hex_encode digit = (if digit > 9 then 0x61 + digit - 10 else 0x30 + digit)"

definition gdb_decode_hex :: "u8 \<Rightarrow> u8 \<Rightarrow> u16" where
  "gdb_decode_hex msb lsb =
     (if \<not> isxdigit msb \<or> \<not> isxdigit lsb then 0xFFFF else 16 * ucast (hex_nibble msb) + ucast (hex_nibble lsb))"

text \<open>The loop stops at the NUL behind the list at the latest.\<close>

fun decode_loop :: "u8 list \<Rightarrow> u64 \<Rightarrow> u64 \<Rightarrow> u64" where
  "decode_loop (b0 # b1 # bytes) val weight =
     (if isxdigit b0 \<and> isxdigit b1
      then decode_loop bytes (val + weight * ucast (gdb_decode_hex b0 b1)) (weight * (16 * 16)) else val)"
| "decode_loop _ val weight = val"

definition gdb_decode_hex_str :: "u8 list \<Rightarrow> u64" where
  "gdb_decode_hex_str bytes = decode_loop bytes 0 1"

section \<open>Packets\<close>

definition checksum :: "u8 list \<Rightarrow> u8" where
  "checksum command = foldl (+) 0 command"

definition send_packet :: "u8 list \<Rightarrow> u8 list \<Rightarrow> u8 list" where
  "send_packet out command = out @ [Dollar] @ command @ [Hash] @ text_bytes (fmt_X 2 (unat (checksum command)))"

function gdb_send :: "u8 list \<Rightarrow> conn \<Rightarrow> conn result" where
  "gdb_send command c =
     (let c = c\<lparr>outp := send_packet (outp c) command\<rparr> in
      if \<not> ack c then Inr c
      else case inp c of [] \<Rightarrow> Inl Diverges
        | a # rest \<Rightarrow> if a = 0x2b then Inr (c\<lparr>inp := rest\<rparr>) else gdb_send command (c\<lparr>inp := rest\<rparr>))"
  by auto
termination by (relation "measure (\<lambda>(command, c). length (inp c))") auto

declare gdb_send.simps [simp del]

text \<open>\<open>fgetc\<close> for the checksum digits: \<open>EOF\<close> becomes the byte \<open>ff\<close>.\<close>

definition get_digit :: "u8 list \<Rightarrow> u8 \<times> u8 list" where
  "get_digit ip = (case ip of [] \<Rightarrow> (0xFF, []) | c # rest \<Rightarrow> (c, rest))"

text \<open>
  The terminating NUL: one more byte is allocated when the buffer is full. The caller gets the buffer and \<open>ret_size\<close>, its
  length before the NUL.
\<close>

definition terminate :: "u8 list \<Rightarrow> nat \<Rightarrow> u8 list result" where
  "terminate reply size' =
     (let capacity = (if length reply = size' then size' + 1 else size')
      in if length reply < capacity then Inr (reply @ [0]) else Inl Out_of_bounds)"

definition packet_end :: "u8 list \<Rightarrow> u8 list \<Rightarrow> nat \<Rightarrow> u8 \<Rightarrow> (u8 list \<times> bool \<times> u8 list) result" where
  "packet_end ip reply size' chk =
     (let (msb, ip) = get_digit ip; (lsb, ip) = get_digit ip; ret_size = length reply
      in bindE (terminate reply size') (\<lambda>buf. Inr (take ret_size buf, ucast chk = gdb_decode_hex msb lsb, ip)))"

lemma terminate_ok: "length reply \<le> size' \<Longrightarrow> terminate reply size' = Inr (reply @ [0])"
  by (simp add: terminate_def)

text \<open>One more character, with the buffer doubled when it is full.\<close>

definition add_char :: "u8 list \<Rightarrow> nat \<Rightarrow> u8 \<Rightarrow> (u8 list \<times> nat) result" where
  "add_char reply size' c =
     (let size' = (if length reply = size' then size' * 2 else size')
      in if length reply < size' then Inr (reply @ [c], size') else Inl Out_of_bounds)"

definition run_count :: "u8 \<Rightarrow> bool" where
  "run_count c2 \<longleftrightarrow> \<not> (c2 < 29 \<or> c2 > 126 \<or> c2 = Dollar \<or> c2 = Hash)"

definition add_run :: "u8 list \<Rightarrow> nat \<Rightarrow> u8 \<Rightarrow> (u8 list \<times> nat) result" where
  "add_run reply size' c2 =
     (let count = unat c2 - 29;
          size' = (if length reply + count > size' then size' * 2 else size')
      in if length reply + count \<le> size' then Inr (reply @ replicate count (last reply), size') else Inl Out_of_bounds)"

function (sequential) recv_loop :: "u8 list \<Rightarrow> u8 list \<Rightarrow> nat \<Rightarrow> u8 \<Rightarrow> bool \<Rightarrow> (u8 list \<times> bool \<times> u8 list) result" where
  "recv_loop [] reply size' chk escape = Inl (Panic ''recv: Connection closed'')"
| "recv_loop (c # ip) reply size' chk escape =
     (if c = Dollar then recv_loop ip [] size' 0 False
      else if c = Hash then packet_end ip reply size' (chk + c - c)
      else if c = Brace then recv_loop ip reply size' (chk + c) True
      else if c = Star \<and> reply \<noteq> [] \<and> ip \<noteq> [] \<and> run_count (hd ip)
        then bindE (add_run reply size' (hd ip)) (\<lambda>(reply, size'). recv_loop (tl ip) reply size' (chk + c + hd ip) escape)
      else bindE (add_char reply size' (if escape then c XOR 0x20 else c)) (\<lambda>(reply, size'). recv_loop ip reply size' (chk + c) False))"
  by pat_completeness auto
termination by (relation "measure (\<lambda>(ip, reply, size', chk, escape). length ip)") auto

declare recv_loop.simps [simp del]

definition skip_to_start :: "u8 list \<Rightarrow> u8 list" where
  "skip_to_start ip = tl (dropWhile (\<lambda>c. c \<noteq> Dollar) ip)"

definition recv_packet :: "u8 list \<Rightarrow> (u8 list \<times> bool \<times> u8 list) result" where
  "recv_packet ip = recv_loop (skip_to_start ip) [] 4096 0 False"

lemma packet_end_length: "packet_end ip reply size' chk = Inr (r, ok, rest) \<Longrightarrow> length rest \<le> length ip"
  by (auto simp: packet_end_def get_digit_def bindE_eq_Inr Let_def split: list.splits)

text \<open>The cases of the switch.\<close>

definition run_follows :: "u8 \<Rightarrow> u8 list \<Rightarrow> u8 list \<Rightarrow> bool" where
  "run_follows c reply ip \<longleftrightarrow> c = Star \<and> reply \<noteq> [] \<and> ip \<noteq> [] \<and> run_count (hd ip)"

lemma recv_end: "recv_loop [] reply size' chk escape = Inl (Panic ''recv: Connection closed'')"
  by (rule recv_loop.simps)

lemma recv_dollar: "recv_loop (Dollar # ip) reply size' chk escape = recv_loop ip [] size' 0 False"
  by (subst recv_loop.simps) simp

lemma recv_hash: "recv_loop (Hash # ip) reply size' chk escape = packet_end ip reply size' chk"
  by (subst recv_loop.simps) simp

lemma recv_brace: "recv_loop (Brace # ip) reply size' chk escape = recv_loop ip reply size' (chk + Brace) True"
  by (subst recv_loop.simps) simp

lemma recv_run: "run_follows c reply ip \<Longrightarrow> recv_loop (c # ip) reply size' chk escape
    = bindE (add_run reply size' (hd ip)) (\<lambda>(reply, size'). recv_loop (tl ip) reply size' (chk + c + hd ip) escape)"
  unfolding run_follows_def by (subst recv_loop.simps) simp

lemma recv_char: "c \<notin> {Dollar, Hash, Brace} \<Longrightarrow> \<not> run_follows c reply ip \<Longrightarrow> recv_loop (c # ip) reply size' chk escape
    = bindE (add_char reply size' (if escape then c XOR 0x20 else c)) (\<lambda>(reply, size'). recv_loop ip reply size' (chk + c) False)"
  unfolding run_follows_def by (subst recv_loop.simps) auto

lemma recv_cases:
  obtains "ip = []"
  | ip' where "ip = Dollar # ip'"
  | ip' where "ip = Hash # ip'"
  | ip' where "ip = Brace # ip'"
  | c ip' where "ip = c # ip'" "run_follows c reply ip'"
  | c ip' where "ip = c # ip'" "c \<notin> {Dollar, Hash, Brace}" "\<not> run_follows c reply ip'"
  by (cases ip) auto

lemma recv_loop_length: "recv_loop ip reply size' chk escape = Inr (r, ok, rest) \<Longrightarrow> length rest < length ip"
proof (induction "length ip" arbitrary: ip reply size' chk escape rule: less_induct)
  case less
  note IH = less.hyps and eq = less.prems
  show ?case
  proof (cases ip rule: recv_cases [where reply = reply])
    case 1
    then show ?thesis using eq by (simp add: recv_end)
  next
    case (2 ip')
    then show ?thesis using IH [of ip'] eq by (force simp: recv_dollar)
  next
    case (3 ip')
    then show ?thesis using packet_end_length [of ip' reply size' chk r ok rest] eq by (simp add: recv_hash)
  next
    case (4 ip')
    then show ?thesis using IH [of ip'] eq by (force simp: recv_brace)
  next
    case (5 c ip')
    then obtain x y where "recv_loop (tl ip') x y (chk + c + hd ip') escape = Inr (r, ok, rest)"
      using eq by (auto simp: recv_run bindE_eq_Inr)
    then show ?thesis using IH [of "tl ip'"] 5 by fastforce
  next
    case (6 c ip')
    then obtain x y where "recv_loop ip' x y (chk + c) False = Inr (r, ok, rest)"
      using eq unfolding 6(1) recv_char [OF 6(2,3)] by (auto simp: bindE_eq_Inr)
    then show ?thesis using IH [of ip'] 6 by fastforce
  qed
qed

lemma recv_packet_length: "recv_packet ip = Inr (r, ok, rest) \<Longrightarrow> length rest < length ip"
proof -
  have "length (skip_to_start ip) \<le> length ip"
    using length_dropWhile_le [of "\<lambda>c. c \<noteq> Dollar" ip] by (simp add: skip_to_start_def)
  then show "recv_packet ip = Inr (r, ok, rest) \<Longrightarrow> length rest < length ip"
    using recv_loop_length [of "skip_to_start ip"] unfolding recv_packet_def by fastforce
qed

function gdb_recv :: "conn \<Rightarrow> (u8 list \<times> conn) result" where
  "gdb_recv c = (case recv_packet (inp c) of Inl e \<Rightarrow> Inl e
     | Inr (reply, acked, rest) \<Rightarrow>
       if \<not> ack c then Inr (reply, c\<lparr>inp := rest\<rparr>)
       else let c = c\<lparr>inp := rest, outp := outp c @ [if acked then 0x2b else 0x2d]\<rparr>
         in if acked then Inr (reply, c) else gdb_recv c)"
  by auto
termination by (relation "measure (\<lambda>c. length (inp c))") (auto dest: recv_packet_length)

declare gdb_recv.simps [simp del]

definition gdb_start_noack :: "conn \<Rightarrow> (string \<times> conn) result" where
  "gdb_start_noack c = bindE (gdb_send (text_bytes ''QStartNoAckMode'') c) (\<lambda>c.
     bindE (gdb_recv c) (\<lambda>(reply, c).
       if reply = text_bytes ''OK'' then Inr (''OK'', c\<lparr>ack := False\<rparr>) else Inr ('''', c)))"

section \<open>Commands\<close>

definition hex_bytes :: "u8 list \<Rightarrow> u8 list" where
  "hex_bytes bs = concat (map (\<lambda>b. [hex_encode (drop_bit 4 b), hex_encode (b AND 0xf)]) bs)"

text \<open>\<open>strcmp\<close> reads the reply up to its first NUL.\<close>

definition reply_ok :: "u8 list \<Rightarrow> bool" where
  "reply_ok reply \<longleftrightarrow> takeWhile (\<lambda>b. b \<noteq> 0) reply = text_bytes ''OK''"

definition memcpy_command :: "u32 \<Rightarrow> u8 list \<Rightarrow> u8 list" where
  "memcpy_command dest src = text_bytes (''M0x'' @ hex_nat (unat dest) @ '','' @ hex_nat (length src) @ '':'') @ hex_bytes src"

definition gdb_memcpy_to_qemu_small :: "u32 \<Rightarrow> u8 list \<Rightarrow> conn \<Rightarrow> (bool \<times> conn) result" where
  "gdb_memcpy_to_qemu_small dest src c = bindE (gdb_send (memcpy_command dest src) c) (\<lambda>c.
     bindE (gdb_recv c) (\<lambda>(reply, c). Inr (reply_ok reply, c)))"

definition mtu :: nat where "mtu = 1500"

function gdb_memcpy_loop :: "bool \<Rightarrow> u32 \<Rightarrow> u8 list \<Rightarrow> conn \<Rightarrow> (bool \<times> conn) result" where
  "gdb_memcpy_loop ok dest src c =
     (if length src > mtu then
        bindE (gdb_memcpy_to_qemu_small dest (take mtu src) c) (\<lambda>(r, c). gdb_memcpy_loop (ok \<and> r) (dest + of_nat mtu) (drop mtu src) c)
      else bindE (gdb_memcpy_to_qemu_small dest src c) (\<lambda>(r, c). Inr (ok \<and> r, c)))"
  by pat_completeness auto
termination by (relation "measure (\<lambda>(ok, dest, src, c). length src)") (auto simp: mtu_def)

declare gdb_memcpy_loop.simps [simp del]

definition gdb_memcpy_to_qemu :: "u32 \<Rightarrow> u8 list \<Rightarrow> conn \<Rightarrow> (bool \<times> conn) result" where
  "gdb_memcpy_to_qemu dest src c = gdb_memcpy_loop True dest src c"

text \<open>The registers of a reply: eight digits each, the last zero-padded by the NUL behind the reply.\<close>

primrec decode_regs :: "nat \<Rightarrow> u8 list \<Rightarrow> u32 list" where
  "decode_regs 0 p = []"
| "decode_regs (Suc n) p = ucast (gdb_decode_hex_str (take 8 p)) # decode_regs n (drop 8 p)"

definition gdb_getregs :: "nat \<Rightarrow> conn \<Rightarrow> (u32 list \<times> conn) result" where
  "gdb_getregs n c = bindE (gdb_send (text_bytes ''g'') c) (\<lambda>c. bindE (gdb_recv c) (\<lambda>(reply, c).
     if 8 * n \<le> length reply then Inr (decode_regs n reply, c) else Inl Out_of_bounds))"

definition gdb_setregs :: "u32 list \<Rightarrow> conn \<Rightarrow> (bool \<times> conn) result" where
  "gdb_setregs r c = bindE (gdb_send (text_bytes ''G'' @ hex_bytes (concat (map (to_bytes 4) r))) c) (\<lambda>c.
     bindE (gdb_recv c) (\<lambda>(reply, c). Inr (reply_ok reply, c)))"

definition gdb_si :: "conn \<Rightarrow> (bool \<times> conn) result" where
  "gdb_si c = bindE (gdb_send (text_bytes ''vCont;s:1'') c) (\<lambda>c. bindE (gdb_recv c) (\<lambda>(reply, c). Inr (True, c)))"

section \<open>Hexadecimal is read back\<close>

lemma nibble_cases: "d < 16 \<Longrightarrow> d \<in> {0, 1, 2, 3, 4, 5, 6, 7, 8, 9, 10, 11, 12, 13, 14, 15 :: u8}"
proof -
  assume "d < 16"
  then have "unat d < 16" by (simp add: word_less_nat_alt)
  then have "unat d \<in> {0, 1, 2, 3, 4, 5, 6, 7, 8, 9, 10, 11, 12, 13, 14, 15}" by (simp, arith)
  then show ?thesis by (auto simp: word_unat_eq_iff)
qed

lemma nibble_round:
  assumes "d < 16"
  shows "isxdigit (hex_encode d)" and "hex_nibble (hex_encode d) = d"
  using nibble_cases [OF assms]
  by (auto simp: hex_encode_def isxdigit_def isdigit_def hex_nibble_def tolower_def)

lemma byte_nibbles: "drop_bit 4 (b :: u8) < 16" "b AND 0xf < (16 :: u8)" "16 * ucast (drop_bit 4 b) + ucast (b AND 0xf) = (ucast b :: u16)"
proof -
  show h: "drop_bit 4 b < 16" using unsigned_less [of b, where ?'a = nat] by (simp add: word_less_nat_alt unat_drop_bit)
  have m: "b AND 0xf = take_bit 4 b" by (simp add: take_bit_eq_mask mask_eq_exp_minus_1)
  have l: "unat (take_bit 4 b) = unat b mod 16" by (simp add: take_bit_eq_mod unat_mod_distrib)
  then show "b AND 0xf < 16" unfolding m by (simp add: word_less_nat_alt)
  have "unat (16 * ucast (drop_bit 4 b) + ucast (take_bit 4 b) :: u16) = 16 * (unat b div 16) + unat b mod 16"
    using l h unsigned_less [of b, where ?'a = nat]
    by (simp add: unat_word_ariths unsigned_ucast_eq take_bit_nat_eq_self unat_drop_bit word_less_nat_alt)
  moreover have "unat b < 2 ^ 16" using unsigned_less [of b, where ?'a = nat] by simp
  ultimately show "16 * ucast (drop_bit 4 b) + ucast (b AND 0xf) = (ucast b :: u16)"
    unfolding m by (simp add: word_unat_eq_iff unsigned_ucast_eq take_bit_nat_eq_self)
qed


lemma decode_hex_round: "gdb_decode_hex (hex_encode (drop_bit 4 b)) (hex_encode (b AND 0xf)) = ucast b"
  using byte_nibbles [of b] by (simp add: gdb_decode_hex_def nibble_round)

lemma of_bytes_plus: "of_bytes (b # bs) = (ucast b + 256 * of_bytes bs :: 'a :: len word)"
proof -
  have "ucast b AND push_bit 8 (of_bytes bs) = (0 :: 'a word)"
    by (rule bit_word_eqI) (auto simp: bit_simps dest: bit_imp_le_length)
  then show ?thesis by (simp add: push_bit_eq_mult mult.commute flip: disjunctive_add_eq_or)
qed

lemma decode_loop_bytes: "decode_loop (hex_bytes bs) val weight = val + weight * of_bytes bs"
proof (induction bs arbitrary: val weight)
  case (Cons b bs)
  have "isxdigit (hex_encode (drop_bit 4 b))" "isxdigit (hex_encode (b AND 0xf))" using byte_nibbles nibble_round by blast+
  moreover have "ucast (ucast b :: u16) = (ucast b :: u64)" by (rule bit_word_eqI) (auto simp: bit_simps dest: bit_imp_le_length)
  ultimately show ?case using Cons
    by (simp add: hex_bytes_def decode_hex_round of_bytes_plus algebra_simps del: of_bytes.simps)
qed (simp add: hex_bytes_def)

theorem decode_hex_str_bytes: "gdb_decode_hex_str (hex_bytes bs) = of_bytes bs"
  by (simp add: gdb_decode_hex_str_def decode_loop_bytes)

lemma ucast_of_bytes: "ucast (of_bytes bs :: u64) = (of_bytes bs :: u32)"
proof (induction bs)
  case (Cons b bs)
  have "ucast (ucast b OR push_bit 8 (of_bytes bs) :: u64) = (ucast b OR push_bit 8 (ucast (of_bytes bs :: u64)) :: u32)"
    by (rule bit_word_eqI) (auto simp: bit_simps)
  then show ?case by (simp add: Cons)
qed simp

lemma length_hex_bytes: "length (hex_bytes bs) = 2 * length bs"
  by (induction bs) (simp_all add: hex_bytes_def)

lemma hex_bytes_append: "hex_bytes (as @ bs) = hex_bytes as @ hex_bytes bs"
  by (simp add: hex_bytes_def)

theorem decode_regs_round: "decode_regs (length rs) (hex_bytes (concat (map (to_bytes 4) rs))) = rs"
proof (induction rs)
  case (Cons r rs)
  have "length (hex_bytes (to_bytes 4 r)) = 8" by (simp add: length_hex_bytes)
  with Cons show ?case
    by (simp add: hex_bytes_append decode_hex_str_bytes ucast_of_bytes of_bytes_to_bytes_full del: to_bytes.simps)
qed simp

section \<open>Packets are received\<close>

text \<open>The encoding of a payload by the sender: the four special characters are escaped.\<close>

definition rsp_special :: "u8 \<Rightarrow> bool" where
  "rsp_special b \<longleftrightarrow> b \<in> {Dollar, Hash, Brace, Star}"

definition rsp_encode :: "u8 list \<Rightarrow> u8 list" where
  "rsp_encode bs = concat (map (\<lambda>b. if rsp_special b then [Brace, b XOR 0x20] else [b]) bs)"

definition rsp_packet :: "u8 list \<Rightarrow> u8 list" where
  "rsp_packet bs = Dollar # rsp_encode bs @ Hash # hex_bytes [checksum (rsp_encode bs)]"

lemma checksum_sum: "checksum bs = sum_list bs"
proof -
  have "foldl (+) a bs = a + sum_list bs" for a by (induction bs arbitrary: a) (simp_all add: add.assoc)
  then show ?thesis by (simp add: checksum_def)
qed

lemma add_char_ok: "0 < s \<Longrightarrow> length reply \<le> s \<Longrightarrow> \<exists>s'. add_char reply s c = Inr (reply @ [c], s') \<and> s \<le> s' \<and> Suc (length reply) \<le> s'"
  by (auto simp: add_char_def Let_def)

lemma escaped_plain: "rsp_special b \<Longrightarrow> b XOR 0x20 \<notin> {Dollar, Hash, Brace, Star} \<and> (b XOR 0x20) XOR 0x20 = b"
  by (auto simp: rsp_special_def)

lemma recv_plain:
  assumes "c \<notin> {Dollar, Hash, Brace, Star}" and "0 < s" and "length reply \<le> s"
  shows "\<exists>s'. s \<le> s' \<and> Suc (length reply) \<le> s' \<and> recv_loop (c # ip) reply s chk escape
    = recv_loop ip (reply @ [if escape then c XOR 0x20 else c]) s' (chk + c) False"
proof -
  have "c \<notin> {Dollar, Hash, Brace}" "\<not> run_follows c reply ip" using assms(1) by (auto simp: run_follows_def)
  note recv_char [OF this, of s chk escape]
  moreover obtain s' where "add_char reply s (if escape then c XOR 0x20 else c) = Inr (reply @ [if escape then c XOR 0x20 else c], s')"
    "s \<le> s'" "Suc (length reply) \<le> s'" using add_char_ok [OF assms(2,3)] by blast
  ultimately show ?thesis by auto
qed

lemma recv_encoded:
  assumes "0 < s" and "length reply \<le> s"
  shows "\<exists>s'. length (reply @ bs) \<le> s'
    \<and> recv_loop (rsp_encode bs @ rest) reply s chk False = recv_loop rest (reply @ bs) s' (chk + sum_list (rsp_encode bs)) False"
  using assms
proof (induction bs arbitrary: reply s chk)
  case Nil
  then show ?case by (auto simp: rsp_encode_def)
next
  case (Cons b bs)
  show ?case
  proof (cases "rsp_special b")
    case True
    let ?x = "b XOR 0x20"
    have "rsp_encode (b # bs) @ rest = Brace # ?x # rsp_encode bs @ rest" using True by (simp add: rsp_encode_def)
    moreover obtain s' where s': "s \<le> s'" "Suc (length reply) \<le> s'"
      "recv_loop (?x # rsp_encode bs @ rest) reply s (chk + Brace) True = recv_loop (rsp_encode bs @ rest) (reply @ [b]) s' (chk + Brace + ?x) False"
      using recv_plain [of ?x s reply "rsp_encode bs @ rest" "chk + Brace" True] escaped_plain [OF True] Cons.prems by auto
    moreover obtain s'' where "length ((reply @ [b]) @ bs) \<le> s''" "recv_loop (rsp_encode bs @ rest) (reply @ [b]) s' (chk + Brace + ?x) False
        = recv_loop rest ((reply @ [b]) @ bs) s'' (chk + Brace + ?x + sum_list (rsp_encode bs)) False"
      using Cons.IH [of s' "reply @ [b]" "chk + Brace + ?x"] s' Cons.prems by auto
    ultimately show ?thesis using True by (auto simp: recv_brace rsp_encode_def add.assoc)
  next
    case False
    have "rsp_encode (b # bs) @ rest = b # rsp_encode bs @ rest" using False by (simp add: rsp_encode_def)
    moreover obtain s' where s': "s \<le> s'" "Suc (length reply) \<le> s'"
      "recv_loop (b # rsp_encode bs @ rest) reply s chk False = recv_loop (rsp_encode bs @ rest) (reply @ [b]) s' (chk + b) False"
      using recv_plain [of b s reply "rsp_encode bs @ rest" chk False] False Cons.prems by (auto simp: rsp_special_def)
    moreover obtain s'' where "length ((reply @ [b]) @ bs) \<le> s''" "recv_loop (rsp_encode bs @ rest) (reply @ [b]) s' (chk + b) False
        = recv_loop rest ((reply @ [b]) @ bs) s'' (chk + b + sum_list (rsp_encode bs)) False"
      using Cons.IH [of s' "reply @ [b]" "chk + b"] s' Cons.prems by auto
    ultimately show ?thesis using False by (auto simp: rsp_encode_def add.assoc)
  qed
qed

theorem recv_packet_encoded:
  assumes "Dollar \<notin> set noise"
  shows "recv_packet (noise @ rsp_packet bs @ rest) = Inr (bs, True, rest)"
proof -
  let ?k = "checksum (rsp_encode bs)"
  have "skip_to_start (noise @ rsp_packet bs @ rest) = rsp_encode bs @ (Hash # hex_bytes [?k] @ rest)"
    using assms by (induction noise) (simp_all add: skip_to_start_def rsp_packet_def)
  then obtain s' where "length bs \<le> s'" "recv_packet (noise @ rsp_packet bs @ rest) = recv_loop (Hash # hex_bytes [?k] @ rest) bs s' ?k False"
    using recv_encoded [of 4096 "[]" bs "Hash # hex_bytes [?k] @ rest" 0] by (auto simp: recv_packet_def checksum_sum)
  then show ?thesis by (simp add: recv_hash packet_end_def terminate_ok get_digit_def hex_bytes_def decode_hex_round)
qed


section \<open>The buffer is never left\<close>

lemma add_run_ok:
  assumes "length reply \<le> s" and "97 \<le> s" and "run_count c2"
  shows "\<exists>r s'. add_run reply s c2 = Inr (r, s') \<and> length r \<le> s' \<and> 97 \<le> s'"
proof -
  have "unat c2 - 29 \<le> 97" using assms(3) by (auto simp: run_count_def word_less_nat_alt)
  then show ?thesis using assms(1,2) by (auto simp: add_run_def Let_def)
qed

lemma recv_loop_safe:
  assumes "length reply \<le> s" and "97 \<le> s"
  shows "recv_loop ip reply s chk escape \<noteq> Inl Out_of_bounds"
  using assms
proof (induction "length ip" arbitrary: ip reply s chk escape rule: less_induct)
  case less
  note IH = less.hyps and inv = less.prems
  show ?case
  proof (cases ip rule: recv_cases [where reply = reply])
    case 1
    then show ?thesis by (simp add: recv_end)
  next
    case (2 ip')
    then show ?thesis using IH [of ip' "[]" s] inv by (simp add: recv_dollar)
  next
    case (3 ip')
    then show ?thesis using inv by (simp add: recv_hash packet_end_def terminate_ok split: prod.splits)
  next
    case (4 ip')
    then show ?thesis using IH [of ip' reply s] inv by (simp add: recv_brace)
  next
    case (5 c ip')
    then have "run_count (hd ip')" "length (tl ip') < length ip" by (auto simp: run_follows_def)
    then obtain r s' where "add_run reply s (hd ip') = Inr (r, s')" "length r \<le> s'" "97 \<le> s'"
      using add_run_ok inv by blast
    then show ?thesis using IH [of "tl ip'" r s'] 5 \<open>length (tl ip') < length ip\<close> by (simp add: recv_run)
  next
    case (6 c ip')
    obtain s' where "add_char reply s (if escape then c XOR 0x20 else c) = Inr (reply @ [if escape then c XOR 0x20 else c], s')"
      "s \<le> s'" "Suc (length reply) \<le> s'" using add_char_ok [of s reply] inv by auto
    then show ?thesis using IH [of ip' "reply @ [if escape then c XOR 0x20 else c]" s' "chk + c" False] inv
      unfolding 6(1) recv_char [OF 6(2,3)] by simp
  qed
qed

theorem recv_packet_safe: "recv_packet ip \<noteq> Inl Out_of_bounds"
  unfolding recv_packet_def by (rule recv_loop_safe) simp_all

section \<open>Exchanges\<close>

definition wire :: "u8 list \<Rightarrow> u8 list" where
  "wire command = send_packet [] command"

lemma send_packet_wire: "send_packet out command = out @ wire command"
  by (simp add: send_packet_def wire_def)

text \<open>The packet is repeated for every answer that is not \<open>+\<close>.\<close>

theorem gdb_send_retries:
  assumes "ack c" and "0x2b \<notin> set nacks" and "inp c = nacks @ 0x2b # rest"
  shows "gdb_send command c = Inr (c\<lparr>inp := rest, outp := outp c @ concat (replicate (Suc (length nacks)) (wire command))\<rparr>)"
  using assms
proof (induction nacks arbitrary: c)
  case Nil
  then show ?case by (subst gdb_send.simps) (simp add: send_packet_wire)
next
  case (Cons a nacks)
  let ?c = "c\<lparr>outp := outp c @ wire command, inp := nacks @ 0x2b # rest\<rparr>"
  have "gdb_send command c = gdb_send command ?c"
    using Cons.prems by (subst gdb_send.simps) (simp add: send_packet_wire)
  also have "\<dots> = Inr (?c\<lparr>inp := rest, outp := outp ?c @ concat (replicate (Suc (length nacks)) (wire command))\<rparr>)"
    using Cons.prems by (intro Cons.IH) simp_all
  finally show ?case by simp
qed

lemma gdb_send_noack: "\<not> ack c \<Longrightarrow> gdb_send command c = Inr (c\<lparr>outp := outp c @ wire command\<rparr>)"
  by (subst gdb_send.simps) (simp add: send_packet_wire)

lemma gdb_recv_noack: "\<not> ack c \<Longrightarrow> inp c = rsp_packet bs @ rest \<Longrightarrow> gdb_recv c = Inr (bs, c\<lparr>inp := rest\<rparr>)"
  using recv_packet_encoded [of "[]" bs rest] by (subst gdb_recv.simps) simp

text \<open>A damaged packet is refused and the next one taken.\<close>

lemma gdb_recv_damaged:
  assumes "ack c" and "recv_packet (inp c) = Inr (junk, False, rsp_packet bs @ rest)"
  shows "gdb_recv c = Inr (bs, c\<lparr>inp := rest, outp := outp c @ [0x2d, 0x2b]\<rparr>)"
  using assms recv_packet_encoded [of "[]" bs rest] by (subst gdb_recv.simps; subst gdb_recv.simps) simp

text \<open>Memory is copied in pieces of at most \<open>mtu\<close> bytes.\<close>

function chunks :: "u32 \<Rightarrow> u8 list \<Rightarrow> (u32 \<times> u8 list) list" where
  "chunks dest src = (if length src > mtu then (dest, take mtu src) # chunks (dest + of_nat mtu) (drop mtu src) else [(dest, src)])"
  by pat_completeness auto
termination by (relation "measure (\<lambda>(dest, src). length src)") (auto simp: mtu_def)

declare chunks.simps [simp del]

lemma chunks_cover: "concat (map snd (chunks dest src)) = src"
proof (induction dest src rule: chunks.induct)
  case (1 dest src)
  then show ?case by (subst chunks.simps) simp
qed

lemma chunks_small: "(p, bs) \<in> set (chunks dest src) \<Longrightarrow> length bs \<le> mtu \<and> (\<exists>k. p = dest + of_nat k \<and> bs = take (length bs) (drop k src))"
proof (induction dest src rule: chunks.induct)
  case (1 dest src)
  show ?case
  proof (cases "length src > mtu")
    case True
    show ?thesis
    proof (cases "(p, bs) \<in> set (chunks (dest + of_nat mtu) (drop mtu src))")
      case inl: True
      then obtain k where "length bs \<le> mtu" "p = dest + of_nat mtu + of_nat k" "bs = take (length bs) (drop k (drop mtu src))"
        using 1(1) [OF True] by blast
      then show ?thesis by (intro conjI exI [of _ "mtu + k"]) (simp_all add: add.commute)
    next
      case False
      then have "p = dest" "bs = take mtu src" using 1(2) True by (auto simp: chunks.simps [of dest src])
      with True show ?thesis by (auto intro!: exI [of _ 0])
    qed
  next
    case False
    then have "p = dest" "bs = src" using 1(2) by (auto simp: chunks.simps [of dest src])
    with False show ?thesis by (auto intro!: exI [of _ 0])
  qed
qed

theorem gdb_memcpy_sends:
  assumes "\<not> ack c" and "inp c = concat (replicate (length (chunks dest src)) (rsp_packet (text_bytes ''OK''))) @ rest"
  shows "gdb_memcpy_to_qemu dest src c
    = Inr (True, c\<lparr>inp := rest, outp := outp c @ concat (map (\<lambda>(p, bs). wire (memcpy_command p bs)) (chunks dest src))\<rparr>)"
proof -
  have small: "gdb_memcpy_to_qemu_small p bs c = Inr (True, c\<lparr>outp := outp c @ wire (memcpy_command p bs), inp := rest\<rparr>)"
    if "\<not> ack c" "inp c = rsp_packet (text_bytes ''OK'') @ rest" for p bs c rest
    using that by (simp add: gdb_memcpy_to_qemu_small_def gdb_send_noack gdb_recv_noack reply_ok_def text_bytes_def)
  have "gdb_memcpy_loop True dest src c
    = Inr (True, c\<lparr>inp := rest, outp := outp c @ concat (map (\<lambda>(p, bs). wire (memcpy_command p bs)) (chunks dest src))\<rparr>)"
    using assms
  proof (induction dest src arbitrary: c rule: chunks.induct)
    case (1 dest src)
    show ?case
    proof (cases "length src > mtu")
      case True
      let ?c = "c\<lparr>outp := outp c @ wire (memcpy_command dest (take mtu src)),
        inp := concat (replicate (length (chunks (dest + of_nat mtu) (drop mtu src))) (rsp_packet (text_bytes ''OK''))) @ rest\<rparr>"
      have "gdb_memcpy_loop True dest src c = gdb_memcpy_loop True (dest + of_nat mtu) (drop mtu src) ?c"
        using True 1(2,3) small [of c "concat (replicate (length (chunks (dest + of_nat mtu) (drop mtu src))) (rsp_packet (text_bytes ''OK''))) @ rest" dest "take mtu src"]
        by (subst gdb_memcpy_loop.simps) (simp add: chunks.simps [of dest src])
      also have "\<dots> = Inr (True, ?c\<lparr>inp := rest, outp := outp ?c
          @ concat (map (\<lambda>(p, bs). wire (memcpy_command p bs)) (chunks (dest + of_nat mtu) (drop mtu src)))\<rparr>)"
        using 1(2) by (intro 1(1) [OF True]) simp_all
      finally show ?thesis using True by (simp add: chunks.simps [of dest src])
    next
      case False
      then show ?thesis using 1(2,3) small [of c rest dest src]
        by (subst gdb_memcpy_loop.simps) (simp add: chunks.simps [of dest src])
    qed
  qed
  then show ?thesis by (simp add: gdb_memcpy_to_qemu_def)
qed

theorem gdb_getregs_reads:
  assumes "\<not> ack c" and "inp c = rsp_packet (hex_bytes (concat (map (to_bytes 4) rs))) @ rest"
  shows "gdb_getregs (length rs) c = Inr (rs, c\<lparr>outp := outp c @ wire (text_bytes ''g''), inp := rest\<rparr>)"
proof -
  have "length (concat (map (to_bytes 4) rs)) = 4 * length rs" by (induction rs) (simp_all del: to_bytes.simps)
  then have "8 * length rs \<le> length (hex_bytes (concat (map (to_bytes 4) rs)))" by (simp add: length_hex_bytes)
  then show ?thesis using assms by (simp add: gdb_getregs_def gdb_send_noack gdb_recv_noack decode_regs_round)
qed

end
