(* ===== verification/Spec2Isabelle.thy ===== *)
theory Spec2Isabelle
  imports Riscv_Arch Expr_Spec Guest_Time Native_Vme Vme_Example Libgcc Gen_Expr Boot Minirv_Nemu Guest_Io Klib_Int64 Klib_Stdio Am_Devices Am_Boot Gdb_Protocol
begin

text \<open>
  \<^bold>\<open>A verification of the NEMU emulator, its guest library and its test tools\<close>

  The repository builds a RISC-V processor and what is needed to run and check it. The C programs of it
  modelled here are
  \<^item> NEMU (\<open>src/nemu\<close>), an emulator of a riscv32 machine with memory areas, devices, a debugger (\<open>sdb\<close>) and
    differential testing against a reference implementation;
  \<^item> the abstract machine (\<open>src/abstract-machine\<close>), the run-time environment of the guest programs: its C
    library \<open>klib\<close>, its device layer for NEMU and for the ysyxSoC board, boot loader, trap code and page tables, and the
    macros that let compiled programs run on a processor with eight instructions (\<open>tools/minirv\<close>);
  \<^item> the client of the GDB protocol by which NEMU uses QEMU as a reference (\<open>src/nemu/tools/qemu-diff\<close>) and the
    generator of test expressions for its debugger (\<open>src/nemu/tools/gen-expr\<close>).

  The emulator's main loop (\<open>cpu_exec\<close>, \<open>execute\<close>, \<open>exec_once\<close>) fetches a word through the memory system,
  matches it against the pattern table of the instruction set, executes the body of the line, traces it,
  compares the state with the reference, checks the watchpoints and lets the devices run. Memory accesses
  outside RAM go to the device table, whose callbacks read and write the device registers. The debugger
  evaluates expressions over registers and memory and drives the loop.

  \<^bold>\<open>Theories and sources\<close>
  \<^item> \<open>Prelude\<close>, \<open>Config\<close>, \<open>Text_Format\<close>: C integers as words, results that can panic, fail an assertion,
    leave an array or not return; computations over a state; little-endian bytes; the Kconfig symbols
    (\<open>include/common.h\<close>, \<open>macro.h\<close>, \<open>memory/paddr.h\<close>); the \<open>printf\<close> conversions used.
  \<^item> \<open>Decode_Pattern\<close>: \<open>include/cpu/decode.h\<close>. \<open>Host_Memory\<close>, \<open>Paddr\<close>: \<open>memory/host.h\<close>, \<open>memory/paddr.c\<close>,
    \<open>vaddr.c\<close>. \<open>Machine\<close>: the global variables as one record, \<open>utils/state.c\<close>, \<open>timer.c\<close>.
  \<^item> \<open>Keyboard\<close>, \<open>Devices\<close>, \<open>Device_Map\<close>: \<open>src/device\<close> with \<open>io/map.c\<close>, \<open>mmio.c\<close>, \<open>port-io.c\<close>.
  \<^item> \<open>Riscv_Isa\<close>: \<open>isa/riscv32\<close>, the table and every instruction body. \<open>Riscv_Spec\<close> is the independent
    description of the instructions it is compared with.
  \<^item> \<open>Watchpoint\<close>, \<open>Trace\<close>, \<open>Sdb_Expr\<close>, \<open>Sdb\<close>: \<open>monitor/sdb\<close>. \<open>Difftest\<close>, \<open>Cpu_Exec\<close>: \<open>cpu\<close>.
    \<open>Monitor\<close>, \<open>Boot\<close>: \<open>monitor/monitor.c\<close>, \<open>nemu-main.c\<close>, \<open>difftest/ref.c\<close> and the built-in image.
  \<^item> \<open>Klib_Int64\<close>, \<open>Klib_String\<close>, \<open>Klib_Stdlib\<close>, \<open>Klib_Stdio\<close>: \<open>klib/src\<close> over the guest's 32-bit address space.
  \<^item> \<open>Am_Devices\<close>, \<open>Am_Boot\<close>: \<open>am/src/platform/nemu\<close>, \<open>am/src/riscv/ysyxsoc\<close>, \<open>am/src/riscv/nemu/cte.c\<close>; the
    hardware is a record of access functions.
  \<^item> \<open>Am_Vme\<close>: the page tables of \<open>am/src/x86/qemu/vme.c\<close> over a memory of words. \<open>Vme_Spaces\<close>: the translation of the
    processor and what the operations make of it. \<open>Vme_Example\<close>: a page allocator that meets the hypotheses.
    \<open>Native_Vme\<close>: \<open>am/src/native/vme.c\<close>, address spaces of a host process.
  \<^item> \<open>Libgcc\<close>: \<open>am/src/riscv/npc/libgcc\<close>, arithmetic for processors without a multiplier.
  \<^item> \<open>Guest_Io\<close>: the guest's keyboard driver on the emulated bus.
  \<^item> \<open>Minirv_Base\<close>, \<open>Minirv_Alu\<close>, \<open>Minirv_Flow\<close>, \<open>Minirv\<close>: the base machine, the tables of \<open>gen-lut.c\<close> and every macro
    of \<open>inst-replace.h\<close>. \<open>Minirv_Nemu\<close>: the emulator as the base machine.
  \<^item> \<open>Gen_Expr\<close>: \<open>gen-expr.c\<close>, its output read by the debugger's evaluator.
  \<^item> \<open>Gdb_Protocol\<close>: \<open>protocol.c\<close> and \<open>gdb-host.c\<close> of \<open>qemu-diff\<close> over the byte streams of the connection.

  \<^bold>\<open>What is shown\<close>
  The properties C1 to C40 are in this theory, each with an instance on concrete inputs.
  \<^item> Instruction set and loop (C1 to C5): decoding and executing a word is the specified instruction; the
    loop is the specified machine; the table is unambiguous; \<open>x0\<close> stays zero; the built-in image
    runs to its good trap.
  \<^item> Instruction replacement (C6 to C8): an expansion implements its instruction, NEMU runs the words of a block
    of expansions as the block, expansions fit the instruction formats.
  \<^item> Memory and devices (C9 to C14): reads after writes, areas in bounds, errors outside them, a
    device table without overlaps, confinement of device accesses, the key queue.
  \<^item> Debugger (C15 to C22): the watchpoint pool and its numbers, termination of its loops, expression
    evaluation against the expression tree and on generated expressions, the instruction ring.
  \<^item> Guest and emulator together (C23): keys pressed on the host arrive in the guest's driver.
  \<^item> Differential testing (C24, C25): what a step compares, what a skip synchronises.
  \<^item> Page tables (C26 to C31): \<open>map\<close> refines a map from pages to frames, address spaces do not influence each
    other, releasing one returns its pages, the kernel stays where it is when paging is switched on; what a
    switch of spaces leaves in the host process, and how mapping a page twice breaks it.
  \<^item> Guest library and tools (C32 to C40): 64-bit division, software arithmetic against the instructions, \<open>memmove\<close>,
    printing and reading numbers, \<open>malloc\<close>, the clock, the keyboard, the boot loader, the GDB packets.
  Further results are lemmas of the component theories, e.g. that a pattern compares exactly the bits it fixes
  (\<open>Decode_Pattern\<close>), that the immediates follow the formats (\<open>Riscv_Spec\<close>), that 32 watchpoints can be created
  (\<open>wp.alloc_exhausts\<close>), that the key queue is first in, first out (\<open>kq.fifo\<close>), that guest time does not run
  backwards (\<open>Machine\<close>) and that the mask ROM is read-only (\<open>Paddr\<close>).

  Interfaces are locales interpreted on the model: \<open>sized_memory\<close> on host memory (\<open>Host_Memory\<close>) and on guest
  memory (\<open>Paddr\<close>), \<open>bounded_queue\<close> on the key queue (\<open>Keyboard\<close>), \<open>slot_pool\<close> on the watchpoints
  (\<open>Watchpoint\<close>), \<open>area_registry\<close> on the device table (\<open>Device_Map\<close>), and \<open>reference\<close> (\<open>Difftest\<close>) on the
  emulator itself, which \<open>ref.c\<close> exports as a reference (\<open>Monitor\<close>).

  \<^bold>\<open>Bounds and termination\<close>
  Loops over data are structural or have a measure. The loops that the C code bounds by the state
  only are partial functions into \<open>option\<close> (string scans, polling loops) or carry fuel that is proved
  sufficient where a theorem says that they return: the watchpoint lists (at most 32 nodes), the
  expression evaluator (nesting at most the number of tokens), the expression generator (a hundred nested calls), the
  lists of address spaces, the clock loop (the high half can change
  \<open>2 ^ 32\<close> times). An access outside an array, a division by zero and a missing \<open>printf\<close> argument, which C
  leaves undefined, are error values on which no property relies.

  \<^bold>\<open>Parameters\<close>
  Code outside the repository is an argument: the reference implementation, the disassembler, the SDL scan
  codes and events, file contents, the lines typed at the prompt, the host clock, random numbers and the compiler, the
  device bus of the guest, its page allocator, and the heap and the linker symbols of a guest image.

  \<^bold>\<open>Not modelled\<close>
  The x86, mips32 and loongarch32r guests, which this project does not build; log output and the
  disassembler; the SD card driver for Linux; the kernel's build tools under \<open>tools/kconfig\<close> and
  \<open>tools/fixdep\<close>; kvm-diff and spike-diff, adapters of foreign emulators; the spike platform
  of the abstract machine and, of its native and x86 platforms, everything but the address spaces; start-up
  assembly and SystemVerilog; the simulation harness, which is C++. Within the modelled files: opening files and
  sockets, signals and signal contexts, the window of the VGA device, and the four-level tables of 64-bit x86.
\<close>

unbundle bit_operations_syntax

section \<open>The state at program start\<close>

definition gen_start :: gstate where
  "gen_start = \<lparr>gbuf = replicate BUF_SIZE NUL, position = 0, gcnt = 0, draws = 0\<rparr>"

definition wp_start :: wp_state where
  "wp_start = \<lparr>wp_pool = replicate NR_WP \<lparr>NO = 0, wp_next = None, addr_expr = [], last_val = 0, cnt = 0\<rparr>,
     wp_head = None, free_list = None\<rparr>"

definition nemu_start :: "'r \<Rightarrow> 'r nemu" where
  "nemu_start r = \<lparr>
     cpu = \<lparr>gpr = replicate 32 0, pc = 0, csr = (\<lambda>_. 0)\<rparr>,
     mem = (\<lambda>_ _. 0),
     nemu_state = \<lparr>state = NEMU_STOP, halt_pc = 0, halt_ret = 0\<rparr>,
     io = \<lparr>p_space = 0, mmio_maps = [], pio_maps = []\<rparr>,
     dev = \<lparr>serial_base = None, serial_out = [], rtc_port_base = None, audio_base = None, sbuf = None,
       vgactl_port_base = None, vmem = None, screen_updates = 0, nr_alarm_handler = 0, sdl_queue = [],
       last_update = 0\<rparr>,
     kbd = keyboard_init,
     sd = \<lparr>sd_base = None, sd_fp = None, sd_pos = 0, blkcnt = 0, blk_addr = 0, sd_addr = 0,
       write_cmd = False, read_ext_csd = False\<rparr>,
     clk = \<lparr>boot_time = 0, host_clock = (\<lambda>k. of_nat k + 1), clock_reads = 0\<rparr>,
     dt = \<lparr>is_skip_ref = False, skip_dut_nr_inst = 0, ref_st = r\<rparr>,
     wps = wp_start,
     itr = itrace_init,
     pc_trace_file = [],
     g_nr_guest_inst = 0, g_timer = 0, g_print_step = False\<rparr>"

text \<open>A reference design that ignores every request, and external parameters built on it.\<close>

definition null_ref :: "'r ref_ops" where
  "null_ref = \<lparr>ref_difftest_memcpy = (\<lambda>_ _. Inr), ref_regcpy_ref = (\<lambda>_. Inr), ref_regcpy_dut = (\<lambda>cp _. Inr cp),
     ref_difftest_exec = (\<lambda>_. Inr), ref_difftest_init = (\<lambda>_. Inr)\<rparr>"

definition null_external :: "'r external" where
  "null_external = \<lparr>ref = null_ref, uninit_ref_r = \<lparr>gpr = replicate 32 0, pc = 0, csr = (\<lambda>_. 0)\<rparr>,
     disassemble = (\<lambda>_ _ _. [])\<rparr>"

text \<open>The state at the start of a minirv block: its code, the tables, and the machine it stands for.\<close>

definition mini_luts :: luts where
  "mini_luts = \<lparr>same_result_table = 0x80100000, check_8bit_0_table = 0x80100100, slt1_table = 0x80100200,
     sltu1_table = 0x80100208, or1_table = 0x80100210, logic_shift_table = 0x80100300, check_same_array = 0x80148300\<rparr>"

definition mini_code :: "u8 list" where
  "mini_code = [179, 133, 181, 0, 35, 36, 177, 254, 3, 69, 177, 254, 51, 5, 165, 0, 35, 36, 161, 254, 3, 69, 145, 254]"

definition mini_block :: "base list" where
  "mini_block = [M_add 11 11 11, M_sw 11 (- 24) 2, M_lbu 10 (- 21) 2, M_add 10 10 10, M_sw 10 (- 24) 2,
     M_lbu 10 (- 23) 2]"

definition mini_start :: mini where
  "mini_start = \<lparr>mreg = (\<lambda>_. 0)(2 := 0x80200000, 11 := 0x40000001, 12 := 5),
     mmem = rom_image ([(0x80000000, mini_code)] @ rodata mini_luts @ [(check_same_array mini_luts, replicate 256 0)]),
     mpc = 0x80000000\<rparr>"

definition mini_nemu :: "unit nemu" where
  "mini_nemu = (nemu_start ())\<lparr>cpu := \<lparr>gpr = map (mreg mini_start) [0..<32], pc = mpc mini_start, csr = (\<lambda>_. 0)\<rparr>,
     mem := (\<lambda>_ x. mmem mini_start (0x80000000 + word_of_int x)),
     nemu_state := \<lparr>state = NEMU_RUNNING, halt_pc = 0, halt_ret = 0\<rparr>\<rparr>"

lemma mini_env: "env mini_luts (mreg mini_start 2) (mmem mini_start)"
  unfolding mini_start_def
  by (simp only: mini.simps, rule laid_out_env [of 0])
    (simp_all add: rodata_def mini_luts_def length_lut_bin mini_code_def)

lemma mini_block_assembled: "assemble mini_luts [RV_op ADD 11 11 11, RV_sltz 10 11] = Some mini_block"
  by (simp add: mini_block_def sltz_m_def msb_m_def getbyte_m_def slli_m.simps SP_VAR_def SP_VAR_BYTE_def)

lemma mini_block_safe: "safe_run mini_luts [RV_op ADD 11 11 11, RV_sltz 10 11] s"
  by (simp add: src_ok_def dest_ok_def safe_def)

lemma mini_words:
  "encodes 0x00b585b3 (M_add 11 11 11)" "encodes 0xfeb12423 (M_sw 11 (- 24) 2)"
  "encodes 0xfeb14503 (M_lbu 10 (- 21) 2)" "encodes 0x00a50533 (M_add 10 10 10)"
  "encodes 0xfea12423 (M_sw 10 (- 24) 2)" "encodes 0xfe914503 (M_lbu 10 (- 23) 2)"
  by code_simp+

lemma mini_block_in_memory:
  "code_at kconfig_default (mmem mini_start) (mpc mini_start) mini_block"
  "accesses_ok kconfig_default (code_bytes (mpc mini_start) mini_block) mini_block mini_start"
proof -
  show "code_at kconfig_default (mmem mini_start) (mpc mini_start) mini_block"
    using mini_words
    by (simp add: mini_block_def mini_start_def ldw_def mini_code_def in_ram_def kconfig_default_def word4_def)
  show "accesses_ok kconfig_default (code_bytes (mpc mini_start) mini_block) mini_block mini_start"
    by (simp add: mini_block_def mini_start_def in_ram_def kconfig_default_def step.simps)
qed

lemma mini_nemu_emulates:
  "plain_run kconfig_default mini_nemu" "plain_machine kconfig_default" "emulates kconfig_default mini_nemu mini_start"
  by (auto simp: plain_run_def plain_machine_def areas_ok_def soc_memory_def emulates_def mini_nemu_def nemu_start_def
      wp_start_def regs_ok_def RISCV_GPR_NUM_def xreg_def kconfig_default_def mini_start_def)

text \<open>A queue of scan codes and a small image layout: inputs of the device and boot theorems.\<close>

definition fifo_bus :: "u8 list bus" where
  "fifo_bus = \<lparr>inb = (\<lambda>_ d. case d of [] \<Rightarrow> (0, []) | c # cs \<Rightarrow> (c, cs)), inl = (\<lambda>_ d. (0, d)),
     outb = (\<lambda>_ _ d. d), outl = (\<lambda>_ _ d. d)\<rparr>"

lemma fifo_bus_port: "ps2_port fifo_bus (\<lambda>d. d)"
  by (simp add: ps2_port_def fifo_bus_def split: list.splits)

definition small_layout :: layout where
  "small_layout = (let none = \<lparr>s_start = 0x40, s_end = 0x40, s_lma = 0x200\<rparr> in
     \<lparr>ssbl_text = none, ssbl_start = 0x40, text_sect = \<lparr>s_start = 0, s_end = 8, s_lma = 0x100\<rparr>,
      rodata_sect = \<lparr>s_start = 8, s_end = 14, s_lma = 0x108\<rparr>, data_sect = none, data_extra = none,
      bss_sect = \<lparr>s_start = 16, s_end = 20, s_lma = 0x200\<rparr>, bss_extra = none, start_symbol = 0\<rparr>)"

lemma small_spans: "span_of 0 0 = {}" "span_of p 0 = {}" "sect_size \<lparr>s_start = 0x40, s_end = 0x40, s_lma = 0x200\<rparr> = 0"
  "sect_size \<lparr>s_start = 0, s_end = 8, s_lma = 0x100\<rparr> = 8" "sect_size \<lparr>s_start = 8, s_end = 14, s_lma = 0x108\<rparr> = 6"
  "sect_size \<lparr>s_start = 16, s_end = 20, s_lma = 0x200\<rparr> = 4"
  by (simp_all add: span_of_def sect_size_def)

text \<open>A configuration with devices, and scan codes for its keys.\<close>

definition device_config :: config where
  "device_config = kconfig_default\<lparr>CONFIG_DEVICE := True\<rparr>"

definition scancodes :: "string \<Rightarrow> u8" where
  "scancodes k = ucast (AM_KEY k)"

lemma scancodes_inj: "inj_on scancodes (set NEMU_KEYS)"
proof -
  have "distinct (map scancodes NEMU_KEYS)" by code_simp
  then show ?thesis by (simp add: distinct_map)
qed

lemma device_start:
  obtains s where "init_i8042 device_config scancodes (nemu_start ()) = Inr ((), s)"
proof (cases "init_i8042 device_config scancodes (nemu_start ())")
  case (Inl e)
  then show ?thesis
    by (simp add: init_i8042_def new_space_def page_align_4 set_reg32_def reg_ptr_def register_def register_mmio_def host_writeM_apply
        host_write_def hp_add_def ptr_ok_def bindM_def thenM_def liftM_def nemu_start_def device_config_def kconfig_default_def IO_SPACE_MAX_def
        add_mmio_map_def NR_MAP_def in_pmem_def Let_def split: sum.splits if_splits)
qed (use that in auto)

text \<open>The emulator before the timer is set up, on a host whose clock carries into its high half.\<close>

definition timer_start :: "unit nemu" where
  "timer_start = (nemu_start ())\<lparr>clk := \<lparr>boot_time = 0,
     host_clock = (\<lambda>k. if k = 0 then 1 else if k = 1 then 0xFFFFFFFF else 0x100000005), clock_reads = 0\<rparr>\<rparr>"

lemma timer_initialised:
  obtains s where "init_timer device_config timer_start = Inr ((), s)"
proof (cases "init_timer device_config timer_start")
  case (Inl e)
  then show ?thesis
    by (simp add: init_timer_def new_space_def page_align_8 modify_dev_def register_def register_mmio_def add_alarm_handle_def MAX_HANDLER_def
        bindM_def thenM_def liftM_def timer_start_def nemu_start_def device_config_def kconfig_default_def trace_target_def IO_SPACE_MAX_def
        add_mmio_map_def NR_MAP_def in_pmem_def Let_def split: sum.splits if_splits)
qed (use that in auto)

text \<open>Two address spaces of the native platform, the first with one page, none of them running.\<close>

definition native_alloc :: "nat \<Rightarrow> u64 \<times> nat" where
  "native_alloc n = (0x10000 + 0x1000 * of_nat n, n + 1)"

definition native_lists :: "u64 \<Rightarrow> u64 list" where
  "native_lists h = (if h = 0x1000 then [0x2000] else [])"

definition native_host :: host where
  "native_host = \<lparr>am_pgsize = 0x1000, mmap_ok = (\<lambda>va pa _ _. va mod 0x1000 = 0 \<and> pa mod 0x1000 = 0),
     munmap_ok = (\<lambda>va _. va mod 0x1000 = 0), hcreate = Some\<rparr>"

definition native_start :: "nat native" where
  "native_start = \<lparr>
     objs = (\<lambda>p. if p = 0x1000 then Head_obj \<lparr>vh_head = 0x2000, vh_hash = [page_key 0x40000000 \<mapsto> 0x2000], vh_size = 0x80000, vh_nr_page = 1\<rparr>
       else if p = 0x2000 then Page_obj \<lparr>pm_va = 0x40000000, pm_pa = 0x8000, pm_next = 0, pm_prot = 3, pm_mapped = False,
         pm_key = page_key 0x40000000\<rparr>
       else if p = 0x3000 then Head_obj \<lparr>vh_head = 0, vh_hash = Map.empty, vh_size = 0x80000, vh_nr_page = 0\<rparr>
       else No_obj),
     spaces = (\<lambda>as. \<lparr>nas_pgsize = 0x1000, nas_start = USER_START, nas_end = USER_END,
       nas_ptr = (if as = 1 then 0x1000 else 0x3000)\<rparr>),
     cpu_vm_head = 0, native_enable = True, native_pool = 0, host_map = Map.empty\<rparr>"

lemma native_start_ok: "native_ok native_host {0x1000, 0x3000} native_lists native_start"
  by (simp add: native_ok_def space_inv_def page_inv_def native_start_def native_lists_def native_host_def aligned_to_def nodes_def heads_def
      in_user_def USER_START_def USER_END_def)

lemma native_host_accepts: "host_accepts native_host"
  by (simp add: host_accepts_def aligned_to_def native_host_def)

lemma nemu_start_regs_ok: "regs_ok kconfig_default (nemu_start r)"
  by (simp add: regs_ok_def nemu_start_def RISCV_GPR_NUM_def kconfig_default_def)

lemma nemu_start_plain: "plain_run kconfig_default (nemu_start r)"
  by (simp add: plain_run_def nemu_start_def wp_start_def kconfig_default_def)

lemma default_not_RVE: "\<not> CONFIG_RVE kconfig_default"
  by (simp add: kconfig_default_def)

text \<open>Two lines of the decode table clash when they ask different values of some field.\<close>

definition conds_clash :: "u32 option list \<Rightarrow> u32 option list \<Rightarrow> bool" where
  "conds_clash cs ds = list_ex (\<lambda>(a, b). a \<noteq> None \<and> b \<noteq> None \<and> a \<noteq> b) (zip cs ds)"

lemma table_clash: "sorted_wrt (\<lambda>a b. conds_clash (fst a) (fst b)) (butlast table_conds)"
  by code_simp

lemma conds_clash_disjoint: "conds_clash cs ds \<Longrightarrow> conds_ok cs w \<Longrightarrow> \<not> conds_ok ds w"
  by (fastforce simp: conds_clash_def conds_ok_def list_ex_iff list_all2_iff set_zip split: option.splits)

section \<open>The interpreter\<close>

text \<open>
  C1. Executing an instruction word, \<open>decode_exec\<close> matches the pattern table of \<open>inst.c\<close> and runs the selected body.
  For every word that the listing of RV32IM gives to one of its integer, load, store, branch and jump instructions it has
  exactly the effect of that instruction: same registers, same memory traffic, same next program counter. A jump goes to a
  multiple of four, as the architecture demands of it. \<open>FENCE\<close>, which NEMU does not have, and \<open>ECALL\<close> and \<open>EBREAK\<close>, whose
  effect belongs to the environment, are not part of the claim.
\<close>

theorem decode_exec_implements_rv32im:
  assumes "regs_ok c s" and "fields_ok c (isa_inst d)" and "rv32im (isa_inst d) = Some i" and "i \<notin> {FENCE, ECALL, EBREAK}"
    and "snpc d = d_pc d + 4" and "jump_aligned i (isa_inst d) (d_pc d) s"
  shows "decode_exec c d s = bindM (rv32_exec c i (isa_inst d) (d_pc d)) (\<lambda>npc. retM (d\<lparr>dnpc := npc\<rparr>)) s"
  using decode_exec_spec [OF assms(1,2)] rv32_exec_spec [OF assms(3-5), of c s] by (simp add: bindM_def)

theorem decode_exec_implements_rv32im_witness:
  "let d = \<lparr>d_pc = 0x80000000, snpc = 0x80000004, dnpc = 0x80000000, isa_inst = 0x00410513\<rparr> in
   decode_exec kconfig_default d (nemu_start ()) = Inr (d\<lparr>dnpc := 0x80000004\<rparr>, set_xreg 10 4 (nemu_start ()))"
proof -
  let ?d = "\<lparr>d_pc = 0x80000000, snpc = 0x80000004, dnpc = 0x80000000, isa_inst = 0x00410513\<rparr>"
  have i: "rv32im (isa_inst ?d) = Some (OP_IMM ADD)" by simp code_simp
  have f: "rd_field 0x00410513 = 10" "rs1_field 0x00410513 = 2" "spec_immI 0x00410513 = 4" by code_simp+
  have x: "xreg (nemu_start ()) 2 = 0" by (simp add: xreg_def nemu_start_def)
  from decode_exec_implements_rv32im [OF nemu_start_regs_ok fields_ok_full [OF default_not_RVE] i]
  have "decode_exec kconfig_default ?d (nemu_start ())
      = bindM (rv32_exec kconfig_default (OP_IMM ADD) 0x00410513 0x80000000) (\<lambda>npc. retM (?d\<lparr>dnpc := npc\<rparr>)) (nemu_start ())"
    by (simp add: jump_aligned_def)
  also have "\<dots> = Inr (?d\<lparr>dnpc := 0x80000004\<rparr>, set_xreg 10 4 (nemu_start ()))"
    by (simp add: bindM_def retM_def f x)
  finally show ?thesis by simp
qed

text \<open>
  C2. The main loop: with tracing, devices and differential testing off, running \<open>execute\<close> for up to
  \<open>n\<close> instructions is running the machine of \<open>Riscv_Spec\<close> for up to \<open>n\<close> steps: fetch, decode, execute, until the run
  state changes. That machine is RV32IM where C1 says so; it has no \<open>FENCE\<close>, and its traps leave \<open>mstatus\<close> alone.
\<close>

theorem execute_refines_arch_run:
  assumes "plain_run c s" and "regs_ok c s"
  shows "execute c ex n s = arch_run c n s"
  using assms by (rule execute_arch)

theorem execute_refines_arch_run_witness:
  "execute kconfig_default null_external 6 mini_nemu = arch_run kconfig_default 6 mini_nemu
    \<and> (\<exists>n'. arch_run kconfig_default 6 mini_nemu = Inr ((), n'))"
proof -
  have "regs_ok kconfig_default mini_nemu" using mini_nemu_emulates(3) by (simp add: emulates_def)
  note run = execute_refines_arch_run [OF mini_nemu_emulates(1) this]
  have "length mini_block = 6" "pc (cpu mini_nemu) = mpc mini_start" "even (mpc mini_start)"
    by (simp_all add: mini_block_def mini_nemu_def mini_start_def)
  then have "\<exists>n'. execute kconfig_default null_external 6 mini_nemu = Inr ((), n')"
    using execute_block [OF mini_nemu_emulates _ _ mini_block_assembled mini_block_safe mini_env mini_block_in_memory, of null_external] by auto
  then show ?thesis unfolding run by blast
qed

text \<open>
  C3. The built-in image: after \<open>init_isa\<close> has loaded it, \<open>cpu_exec(-1)\<close> returns with the good trap, at
  the address of its \<open>ebreak\<close>, with exit code 0, after four instructions.
\<close>

theorem builtin_image_good_trap:
  assumes "length (gpr (cpu s)) = 32" and "wp_head (wps s) = None" and "state (nemu_state s) = NEMU_STOP"
  shows "\<exists>s'. thenM (init_isa kconfig_default) (cpu_exec kconfig_default ex (-1)) s = Inr ((), s')
    \<and> nemu_state s' = \<lparr>state = NEMU_END, halt_pc = 0x8000000c, halt_ret = 0\<rparr>
    \<and> g_nr_guest_inst s' = g_nr_guest_inst s + 4"
  using assms by (rule boot_cpu_exec)

theorem builtin_image_good_trap_witness:
  "\<exists>s'. thenM (init_isa kconfig_default) (cpu_exec kconfig_default null_external (-1)) (nemu_start ()) = Inr ((), s')
    \<and> nemu_state s' = \<lparr>state = NEMU_END, halt_pc = 0x8000000c, halt_ret = 0\<rparr> \<and> g_nr_guest_inst s' = 4"
proof -
  have "length (gpr (cpu (nemu_start ()))) = 32" "wp_head (wps (nemu_start ())) = None"
    "state (nemu_state (nemu_start ())) = NEMU_STOP" and z: "g_nr_guest_inst (nemu_start ()) = 0"
    by (simp_all add: nemu_start_def wp_start_def)
  from builtin_image_good_trap [OF this(1-3)] show ?thesis by (simp add: z)
qed

text \<open>
  C4. The decode table is unambiguous: below the final catch-all line, no word matches two of its
  patterns, so the order of the lines does not matter.
\<close>

theorem decode_table_unambiguous:
  assumes "i < j" and "j < length instpats - 1" and "INSTPAT (fst (instpats ! i)) w = Inr True"
  shows "INSTPAT (fst (instpats ! j)) w = Inr False"
proof -
  have match: "INSTPAT (fst (instpats ! k)) w = Inr (conds_ok (fst (table_conds ! k)) w)"
    if "k < length instpats" for k
    using that table_patterns unfolding table_conds [symmetric]
    by (simp add: INSTPAT_fields fields_conds list_all_length split_beta del: pat_segments.simps)
  have len: "length table_conds = length instpats" unfolding table_conds [symmetric] by simp
  have "conds_clash (fst (table_conds ! i)) (fst (table_conds ! j))"
    using sorted_wrt_nth_less [OF table_clash, of i j] assms(1,2) by (simp add: len nth_butlast)
  moreover have "i < length instpats" "j < length instpats" using assms(1,2) by linarith+
  ultimately show ?thesis
    using match [of i] match [of j] assms(3) conds_clash_disjoint by auto
qed

theorem decode_table_unambiguous_witness:
  "INSTPAT (fst (instpats ! 0)) 0x00000297 = Inr True \<and> INSTPAT (fst (instpats ! 1)) 0x00000297 = Inr False"
proof -
  have "INSTPAT (fst (instpats ! 0)) 0x00000297 = Inr True" by code_simp
  moreover have "1 < length instpats - 1" by code_simp
  ultimately show ?thesis using decode_table_unambiguous [of 0 1 "0x00000297"] by simp
qed

text \<open>
  C5. Running the machine keeps the register file in shape: its length is the number of registers of the
  configuration and \<open>x0\<close> reads zero, whatever is executed and whatever the devices, watchpoints and the
  reference design do.
\<close>

theorem cpu_exec_keeps_x0:
  assumes "regs_ok c s" and "cpu_exec c ex n s = Inr (u, s')"
  shows "length (gpr (cpu s')) = RISCV_GPR_NUM c \<and> gpr (cpu s') ! 0 = 0"
  using keepsD [OF keeps_cpu_exec assms] by (simp add: regs_ok_def)

theorem cpu_exec_keeps_x0_witness:
  "\<exists>s s'. init_isa kconfig_default (nemu_start ()) = Inr ((), s) \<and> cpu_exec kconfig_default null_external (-1) s = Inr ((), s')
    \<and> length (gpr (cpu s')) = RISCV_GPR_NUM kconfig_default \<and> gpr (cpu s') ! 0 = 0"
proof -
  have start: "length (gpr (cpu (nemu_start ()))) = 32" "wp_head (wps (nemu_start ())) = None"
    "state (nemu_state (nemu_start ())) = NEMU_STOP" by (simp_all add: nemu_start_def wp_start_def)
  from boot_cpu_exec [OF this, of null_external] obtain s s' where
    s: "init_isa kconfig_default (nemu_start ()) = Inr ((), s)" "cpu_exec kconfig_default null_external (-1) s = Inr ((), s')"
    by (auto simp: thenM_def bindM_def split: sum.splits)
  have "regs_ok kconfig_default s"
    using s(1) start(1) unfolding init_isa_default [OF start(1)] by (auto simp: regs_ok_def RISCV_GPR_NUM_def kconfig_default_def)
  from cpu_exec_keeps_x0 [OF this s(2)] s show ?thesis by blast
qed

section \<open>Instruction replacement\<close>

text \<open>
  C6. The replacement of instructions by the eight base instructions: for every instruction that \<open>inst-replace.h\<close>
  redefines except \<open>seqz s0, rs\<close>, with the lookup tables in place and the stack clear of them, running the expansion leaves
  every register the program uses, every byte of memory outside the temporaries and the program counter as the instruction
  itself does. The operands are those of \<open>ops_ok\<close>: no \<open>gp\<close> and \<open>tp\<close>, which the header reserves; the zero register
  and the stack pointer are not the result of a macro of several instructions; jump targets are even. The expansion of
  \<open>seqz s0, rs\<close> leaves \<open>s0\<close> as it was, whatever \<open>rs\<close> holds.
\<close>

theorem minirv_expansion_correct:
  assumes "expand L nxt i = Some code" "ops_ok i" "access_ok L s i" "env L (mreg s 2) (mmem s)" "mreg s 0 = 0"
    and "nxt = mpc s + 4 * of_nat (length code)" "even nxt"
  shows "if seqz_to_s0 i then mreg (mrun code s) 8 = mreg s 8 else agree L (mreg s 2) (mrun code s) (rv_exec nxt i s)"
proof (cases "seqz_to_s0 i")
  case True
  then obtain a where "i = RV_seqz 8 a" by (cases i) auto
  then show ?thesis using seqz_keeps_s0 [OF assms(4,5), of a] assms(1) by simp
qed (use expand_correct [OF assms(1,2) _ assms(3-7)] in simp)

theorem minirv_expansion_correct_witness:
  "\<exists>code nxt. expand mini_luts nxt (RV_op SRA 10 11 12) = Some code
     \<and> agree mini_luts (mreg mini_start 2) (mrun code mini_start) (rv_exec nxt (RV_op SRA 10 11 12) mini_start)
     \<and> mreg (mrun (seqz_m mini_luts 8 10) mini_start) 8 = mreg mini_start 8"
proof -
  let ?code = "shift_right_template mini_luts 10 11 12 True False"
  let ?n = "mpc mini_start + 4 * of_nat (length ?code)"
  have x: "expand mini_luts ?n (RV_op SRA 10 11 12) = Some ?code" by simp
  have "ops_ok (RV_op SRA 10 11 12)" "access_ok mini_luts mini_start (RV_op SRA 10 11 12)" "mreg mini_start 0 = 0" "even ?n"
    by (simp_all add: src_ok_def dest_ok_def mini_start_def)
  from minirv_expansion_correct [OF x this(1,2) mini_env this(3) refl this(4)]
  have "agree mini_luts (mreg mini_start 2) (mrun ?code mini_start) (rv_exec ?n (RV_op SRA 10 11 12) mini_start)" by simp
  moreover
  let ?z = "mpc mini_start + 4 * of_nat (length (seqz_m mini_luts 8 10))"
  have y: "expand mini_luts ?z (RV_seqz 8 10) = Some (seqz_m mini_luts 8 10)" by simp
  have "ops_ok (RV_seqz 8 10)" "access_ok mini_luts mini_start (RV_seqz 8 10)" "mreg mini_start 0 = 0" "even ?z"
    by (simp_all add: src_ok_def dest_ok_def mini_start_def)
  from minirv_expansion_correct [OF y this(1,2) mini_env this(3) refl this(4)]
  have "mreg (mrun (seqz_m mini_luts 8 10) mini_start) 8 = mreg mini_start 8" by simp
  ultimately show ?thesis using x by blast
qed

text \<open>
  C7. The whole tool chain on the emulator: when the words of an assembled block lie in the RAM of NEMU, its
  main loop runs them without an error and leaves the registers and the memory of the program as the
  instructions of the block would.
\<close>

theorem minirv_block_on_nemu:
  assumes "plain_run c n" "plain_machine c" "emulates c n s" "pc (cpu n) = mpc s" "even (mpc s)"
    and "assemble L is = Some code" "safe_run L is s" "env L (mreg s 2) (mmem s)"
    and "code_at c (mmem s) (mpc s) code" "accesses_ok c (code_bytes (mpc s) code) code s"
  shows "\<exists>n'. execute c ex (length code) n = Inr ((), n') \<and> shows_state c L (mreg s 2) n' (rv_run is s)"
  using assms by (rule execute_block)

theorem minirv_block_on_nemu_witness:
  "\<exists>n'. execute kconfig_default null_external 6 mini_nemu = Inr ((), n') \<and> xreg n' 10 = 1 \<and> xreg n' 11 = 0x80000002"
proof -
  have p: "pc (cpu mini_nemu) = mpc mini_start" "even (mpc mini_start)"
    by (simp_all add: mini_nemu_def mini_start_def)
  have l: "length mini_block = 6" by (simp add: mini_block_def)
  obtain n' where n': "execute kconfig_default null_external 6 mini_nemu = Inr ((), n')"
    "shows_state kconfig_default mini_luts (mreg mini_start 2) n' (rv_run [RV_op ADD 11 11 11, RV_sltz 10 11] mini_start)"
    using minirv_block_on_nemu [OF mini_nemu_emulates p mini_block_assembled mini_block_safe mini_env
        mini_block_in_memory, of null_external] unfolding l by blast
  then have "xreg n' 10 = mreg (rv_run [RV_op ADD 11 11 11, RV_sltz 10 11] mini_start) 10"
    "xreg n' 11 = mreg (rv_run [RV_op ADD 11 11 11, RV_sltz 10 11] mini_start) 11"
    unfolding shows_state_def by (simp_all add: src_ok_def)
  then show ?thesis using n'(1) by (simp add: set_x_def mini_start_def)
qed

text \<open>
  C8. The expansions are programs of the base machine: their registers are machine registers, their
  immediates fit the twelve bits of the instruction, and \<open>lui\<close> gets a multiple of \<open>4096\<close>, whatever the addresses of
  tables, targets and symbols. The one exception are \<open>lh\<close>, \<open>lhu\<close> and \<open>sh\<close> at offset 2047, legal instructions whose second
  byte the expansion addresses by an offset of 2048.
\<close>

theorem minirv_expansion_encodable:
  assumes "expand L nxt i = Some code" "well_formed i"
  shows "list_all encodable code \<longleftrightarrow> \<not> half_at_end i"
  using assms by (rule expand_encodable)

theorem minirv_expansion_encodable_witness:
  "(\<exists>code. expand mini_luts 0x80000100 (RV_branch CMP_LT 10 11 0x80001234) = Some code \<and> list_all encodable code)
   \<and> (\<exists>code. expand mini_luts 0x80000100 (RV_lhu 10 2047 11) = Some code \<and> \<not> list_all encodable code)"
proof -
  have x: "expand mini_luts 0x80000100 (RV_branch CMP_LT 10 11 0x80001234) = Some (blt_m mini_luts 10 11 0x80001234 0x80000100)"
    by simp
  obtain code where y: "expand mini_luts 0x80000100 (RV_lhu 10 2047 11) = Some code" by simp
  have "well_formed (RV_lhu 10 2047 11)" by (simp add: imm12_def)
  then show ?thesis using minirv_expansion_encodable [OF x] minirv_expansion_encodable [OF y] x y by simp
qed

section \<open>Memory\<close>

text \<open>
  C9. Guest memory is memory: after a write of 1, 2 or 4 bytes into an area of RAM, a read of the same
  place returns the bytes written, zero-extended, and every read whose bytes are elsewhere returns what it
  returned before.
\<close>

theorem paddr_read_after_write:
  assumes "access_size n" and "ram_ptr c a = Some p" and w: "paddr_write c a n v s = Inr (u, s')"
  shows "paddr_read c a n s' = Inr (take_bit (8 * nat n) v, s')
    \<and> (\<forall>b k q. access_size k \<longrightarrow> ram_ptr c b = Some q \<longrightarrow> ptr_disjoint p n q k \<longrightarrow>
         map_sum id fst (paddr_read c b k s') = map_sum id fst (paddr_read c b k s))"
proof -
  obtain m where m: "s' = s\<lparr>mem := m\<rparr>" "host_write c (mem s) p n v = Inr m"
    using paddr_write_cpu [OF assms(2) w] by blast
  have "host_read c m p n = Inr (take_bit (8 * nat n) v)" by (rule host.rd_wr_same [OF assms(1) m(2)])
  moreover have "host_read c m q k = host_read c (mem s) q k"
    if "access_size k" "ptr_disjoint p n q k" for q k
    by (rule host.rd_wr_apart [OF assms(1) that(1) m(2) that(2)])
  ultimately show ?thesis
    using assms(2) m(1) by (auto simp: paddr_read_ram host_readM_apply split: sum.splits)
qed

theorem paddr_read_after_write_witness:
  "\<exists>s'. paddr_write kconfig_default 0x80000010 2 0x12345678 (nemu_start ()) = Inr ((), s')
    \<and> paddr_read kconfig_default 0x80000010 2 s' = Inr (0x5678, s')"
proof -
  have p: "ram_ptr kconfig_default 0x80000010 = Some (PMEM, 16)"
    by (simp add: ram_ptr_def kconfig_default_def soc_memory_def in_pmem_def pmem_guest_to_host_def)
  have "writable_ptr kconfig_default 0x80000010 = Some (PMEM, 16)" by (simp add: writable_ptr_def p)
  moreover have "ptr_ok kconfig_default (PMEM, 16) 2" by (simp add: ptr_ok_def kconfig_default_def)
  ultimately obtain s' where "paddr_write kconfig_default 0x80000010 2 0x12345678 (nemu_start ()) = Inr ((), s')"
    by (simp add: paddr_write_ram host_writeM_apply host_write_def)
  with paddr_read_after_write [OF _ p this] show ?thesis by (auto simp: access_size_def)
qed

text \<open>
  C10. The memory map: with the areas laid out as numbers, an access goes to the host array of the first area that contains
  its address, at the distance of the address from the start of the area, except that the mask ROM refuses writes; every
  other address belongs to memory-mapped I/O when devices are configured and stops the emulator otherwise.
\<close>

theorem paddr_follows_map:
  assumes "areas_ok c"
  shows "paddr_read c a n s = (case area_of c a of
      Some (r, base, _) \<Rightarrow> host_readM c (r, uint a - base) n s
    | None \<Rightarrow> if CONFIG_DEVICE c then mmio_read c a n s else Inl (Panic ''address is out of bound of pmem''))
  \<and> paddr_write c a n v s = (case area_of c a of
      Some (r, base, _) \<Rightarrow> if r = MROM then Inl (Panic ''address in mrom is not writable'')
        else host_writeM c (r, uint a - base) n v s
    | None \<Rightarrow> if CONFIG_DEVICE c then mmio_write c a n v s else Inl (Panic ''address is out of bound of pmem''))"
proof (cases "area_of c a")
  case None
  then have "ram_ptr c a = None" by (simp add: ram_ptr_area [OF assms])
  then show ?thesis using None by (simp add: paddr_read_outside paddr_write_outside out_of_bound_def failM_def)
next
  case (Some e)
  obtain r base len where e: "e = (r, base, len)" by (cases e)
  have p: "ram_ptr c a = Some (r, uint a - base)" using Some e by (simp add: ram_ptr_area [OF assms])
  have "paddr_write c a n v s = (if r = MROM then Inl (Panic ''address in mrom is not writable'')
      else host_writeM c (r, uint a - base) n v s)"
    using paddr_write_mrom [of c a "(MROM, uint a - base)"] p by (auto simp: paddr_write_ram writable_ptr_def)
  then show ?thesis using p Some e by (simp add: paddr_read_ram)
qed

theorem paddr_follows_map_witness:
  "paddr_read kconfig_default 0x80000010 4 (nemu_start ()) = host_readM kconfig_default (PMEM, 16) 4 (nemu_start ())
    \<and> paddr_write kconfig_default 0 4 7 (nemu_start ()) = Inl (Panic ''address is out of bound of pmem'')"
proof -
  have a: "area_of kconfig_default 0x80000010 = Some (PMEM, 0x80000000, 0x2000000)" "area_of kconfig_default 0 = None"
    by (simp_all add: area_of_def memory_map_def kconfig_default_def soc_memory_def)
  have "\<not> CONFIG_DEVICE kconfig_default" by (simp add: kconfig_default_def)
  then show ?thesis using a paddr_follows_map [OF areas_ok_default, of "0x80000010" 4 "nemu_start ()"]
      paddr_follows_map [OF areas_ok_default, of 0 4 "nemu_start ()" 7] by simp
qed

text \<open>
  C11. The range tests are tight: in a configuration whose areas do not wrap around the address space, an
  address that an area accepts denotes a byte inside the host array of that area.
\<close>

theorem ram_address_in_bounds:
  assumes "areas_ok c" and "ram_ptr c a = Some p"
  shows "0 \<le> snd p \<and> snd p < region_size c (fst p)"
  using ram_ptr_byte_ok [OF assms] by (auto simp: ptr_ok_def)

theorem ram_address_in_bounds_witness:
  "ram_ptr kconfig_default 0x81ffffff = Some (PMEM, 0x1ffffff)
    \<and> (0 :: int) \<le> 0x1ffffff \<and> 0x1ffffff < region_size kconfig_default PMEM"
proof -
  have "ram_ptr kconfig_default 0x81ffffff = Some (PMEM, 0x1ffffff)"
    by (simp add: ram_ptr_def kconfig_default_def soc_memory_def in_pmem_def pmem_guest_to_host_def)
  with ram_address_in_bounds [OF areas_ok_default this] show ?thesis by simp
qed

section \<open>Devices\<close>

text \<open>
  C12. Registering a memory-mapped device in a table of disjoint areas: when \<open>add_mmio_map\<close> accepts it the
  areas are disjoint again, exactly the addresses of the new area find the new device, and every other address finds what
  it found before, a device or nothing.
\<close>

theorem add_mmio_map_registers:
  assumes "maps_inv maps" and "add_mmio_map c nm addr sp len cb maps = Inr maps'"
  shows "maps_inv maps'
    \<and> (\<forall>a. addr \<le> a \<and> a \<le> addr + len - 1 \<longrightarrow> lookup_map maps' a = Some (mk_iomap nm addr sp len cb))
    \<and> (\<forall>a. \<not> (addr \<le> a \<and> a \<le> addr + len - 1) \<longrightarrow> lookup_map maps' a = lookup_map maps a)
    \<and> (\<forall>a m. lookup_map maps a = Some m \<longrightarrow> lookup_map maps' a = Some m)"
proof -
  have "add_entry c (mk_iomap nm addr sp len cb) maps = Inr maps'" using assms(2) by simp
  note facts = mmio.add_inv [OF assms(1) this] mmio.find_new [OF assms(1) this] mmio.find_old [OF this]
    mmio.find_outside [OF this]
  then show ?thesis by (auto simp: map_inside_def mk_iomap_def)
qed

theorem add_mmio_map_registers_witness:
  "\<exists>maps'. add_mmio_map kconfig_default ''serial'' 0xa00003f8 (IO_SPACE, 0) 8 (Some serial_io) [] = Inr maps'
    \<and> maps_inv maps' \<and> lookup_map maps' 0xa00003f9 = Some (mk_iomap ''serial'' 0xa00003f8 (IO_SPACE, 0) 8 (Some serial_io))
    \<and> lookup_map maps' 0xa0000400 = None"
proof -
  obtain maps' where "add_mmio_map kconfig_default ''serial'' 0xa00003f8 (IO_SPACE, 0) 8 (Some serial_io) [] = Inr maps'"
    by (simp add: add_mmio_map_def NR_MAP_def in_pmem_def kconfig_default_def)
  with add_mmio_map_registers [OF maps_inv_Nil this] show ?thesis by simp
qed

text \<open>
  C13. A device access is confined to the devices: reading or writing memory-mapped I/O, callbacks
  included, changes neither the registers, nor the run state, nor any byte of guest memory.
\<close>

theorem mmio_access_confined:
  assumes "maps_in_io (mmio_maps (io s))" and "dev_inv s"
    and "mmio_write c a n v s = Inr (u, s') \<or> mmio_read c a n s = Inr (w, s')"
  shows "cpu s' = cpu s \<and> nemu_state s' = nemu_state s \<and> (\<forall>r. r \<noteq> IO_SPACE \<longrightarrow> mem s' r = mem s r)"
proof -
  have "guest_frame s s" using assms(2) by (simp add: guest_frame_def same_guest_def)
  then have "guest_frame s s'"
    using assms(3) mmio_write_frame [OF assms(1)] keepsD [OF keeps_mmio_read] by blast
  then show ?thesis by (simp add: guest_frame_def same_guest_def)
qed

theorem mmio_access_confined_witness:
  "let s = (nemu_start ())\<lparr>io := \<lparr>p_space = 4096, mmio_maps = [mk_iomap ''rom'' 0xa0000000 (IO_SPACE, 0) 8 None],
       pio_maps = []\<rparr>\<rparr>
   in \<exists>s'. mmio_write kconfig_default 0xa0000000 4 7 s = Inr ((), s') \<and> cpu s' = cpu s
     \<and> nemu_state s' = nemu_state s \<and> (\<forall>r. r \<noteq> IO_SPACE \<longrightarrow> mem s' r = mem s r)"
proof -
  let ?s = "(nemu_start ())\<lparr>io := \<lparr>p_space = 4096, mmio_maps = [mk_iomap ''rom'' 0xa0000000 (IO_SPACE, 0) 8 None],
       pio_maps = []\<rparr>\<rparr>"
  have "lookup_map (mmio_maps (io ?s)) 0xa0000000 = Some (mk_iomap ''rom'' 0xa0000000 (IO_SPACE, 0) 8 None)"
    by (simp add: map_inside_def mk_iomap_def)
  then obtain s' where run: "mmio_write kconfig_default 0xa0000000 4 7 ?s = Inr ((), s')"
    by (simp add: mmio_write_def fetch_mmio_map_def find_map_by_addr_def map_write_def check_bound_def
        difftest_skip_ref_def invoke_callback_def mk_iomap_def hp_add_def host_writeM_apply host_write_def ptr_ok_def
        IO_SPACE_MAX_def kconfig_default_def)
  have "maps_in_io (mmio_maps (io ?s))" by (simp add: maps_in_io_def mk_iomap_def)
  moreover have "dev_inv ?s" by (simp add: dev_inv_def io_base_def nemu_start_def keyboard_init_def)
  ultimately show ?thesis
    unfolding Let_def using run mmio_access_confined [of ?s kconfig_default "0xa0000000" 4 7 "()" s'] by blast
qed

text \<open>
  C14. The queue never loses a key silently: with 1023 codes waiting, the next key stops the emulator,
  and with fewer it is appended.
\<close>

theorem key_enqueue_full_or_appends:
  assumes "kb_inv kb"
  shows "if length (kb_list kb) \<ge> 1023 then key_enqueue k kb = Inl (Panic ''key queue overflow!'')
    else \<exists>kb'. key_enqueue k kb = Inr kb' \<and> kb_inv kb' \<and> kb_list kb' = kb_list kb @ [k]"
  using key_enqueue_full [OF assms] key_enqueue_room [OF assms] by (simp add: KEY_QUEUE_LEN_def)

theorem key_enqueue_full_or_appends_witness:
  "\<exists>kb'. key_enqueue 5 keyboard_init = Inr kb' \<and> kb_inv kb' \<and> kb_list kb' = [5]"
  using key_enqueue_full_or_appends [OF kq.inv_empty, of 5] by (simp add: kq.elems_empty del: length_kb_list)

section \<open>The debugger\<close>

text \<open>
  C15. Deleting a watchpoint: \<open>free_wp\<close> terminates on every list the operations can build, takes exactly
  that node out of the list, keeps the order of the others and makes the node the next one to be reused.
\<close>

theorem free_wp_releases:
  assumes "pool_view w used free" and "x \<in> set used"
  shows "\<exists>w1 w2. free_wp x w = Some w1 \<and> pool_view w1 (remove1 x used) (x # free) \<and> new_wp w1 = Inr (x, w2)"
  using free_wp_view [OF assms] wp.alloc_ok by blast

lemma two_watchpoints: "\<exists>w. pool_view w [1, 0] [2..<NR_WP]"
proof -
  have "[0..<NR_WP] = 0 # 1 # [2..<NR_WP]" by code_simp
  then have "pool_view (init_wp_pool wp_start) [] (0 # 1 # [2..<NR_WP])"
    using init_wp_pool_view [of wp_start] by simp
  then show ?thesis using wp.alloc_ok by blast
qed

theorem free_wp_releases_witness:
  "\<exists>w w1 w2. free_wp 0 w = Some w1 \<and> pool_view w1 [1] (0 # [2..<NR_WP]) \<and> new_wp w1 = Inr (0, w2)"
proof -
  obtain w where "pool_view w [1, 0] [2..<NR_WP]" using two_watchpoints by blast
  from free_wp_releases [OF this, of 0] show ?thesis by auto
qed

text \<open>
  C16. The command \<open>w EXPR\<close> takes the first free node, gives it the number after the newest watchpoint (1
  when there is none) and the expression, cut to the buffer; the numbers along the list stay strictly decreasing and between
  1 and \<open>INT_MAX\<close>, so they are unique. A number is a C \<open>int\<close>: after the last one the addition overflows, which is an
  error here, and the command is taken to return.
\<close>

theorem cmd_w_numbers:
  assumes "wp_inv (wps s) used (f # free)" and "cmd_w c (Some a) s = Inr ((st, out), s')"
  shows "wp_inv (wps s') (f # used) free \<and> addr_expr (wp_pool (wps s') ! f) = take 127 a
    \<and> nums (wps s') (f # used) = (case nums (wps s) used of [] \<Rightarrow> 1 | n # _ \<Rightarrow> n + 1) # nums (wps s) used"
  using assms by (rule cmd_w_adds)

text \<open>The state with the pool initialised, and with one watchpoint of number 1.\<close>

lemma start_inv: "wp_inv (init_wp_pool wp_start) [] (0 # [1..<NR_WP])"
proof -
  have "[0..<NR_WP] = 0 # [1..<NR_WP]" by code_simp
  then show ?thesis using init_wp_pool_view [of wp_start] by (simp add: wp_inv_def nums_def)
qed

lemma expr_five: "expr kconfig_default ''5'' False t = Inr ((5, False), t)"
proof -
  have "first_rule rules ''5'' = Some (1, TK_DEC)" by code_simp
  then have "make_token ''5'' = Inr (True, [\<lparr>tk_type = TK_DEC, tk_str = ''5''\<rparr>])"
    by (simp add: make_token_def NR_TOKEN_def token_of_def)
  moreover have "eval kconfig_default [\<lparr>tk_type = TK_DEC, tk_str = ''5''\<rparr>] 0 0 t = Inr (5, t)"
    by (subst eval.simps)
      (simp add: single_token_def strtol_def strtol_unsigned_def isspace_def digit_val_def LONG_MAX_def LONG_MIN_def)
  ultimately show ?thesis by (simp add: expr_def)
qed

lemma cmd_w_five:
  obtains out s' where "cmd_w kconfig_default (Some ''5'') ((nemu_start ())\<lparr>wps := init_wp_pool wp_start\<rparr>) = Inr ((0, out), s')"
proof -
  have v: "pool_view (init_wp_pool wp_start) [] (0 # [1..<NR_WP])" using start_inv by (simp add: wp_inv_def)
  then obtain w1 where w1: "new_wp (init_wp_pool wp_start) = Inr (0, w1)" using new_wp_view by blast
  have "wp_next (wp_pool w1 ! 0) = None" "0 < length (wp_pool w1)"
    using new_wp_links [OF v w1] v by (simp_all add: pool_view_def)
  then show thesis using w1 that by (simp add: cmd_w_def set_wp_def expr_five wp_number_def)
qed

theorem cmd_w_numbers_witness:
  "let s = (nemu_start ())\<lparr>wps := init_wp_pool wp_start\<rparr> in
   \<exists>out s'. cmd_w kconfig_default (Some ''5'') s = Inr ((0, out), s') \<and> nums (wps s') [0] = [1]"
proof -
  let ?s = "(nemu_start ())\<lparr>wps := init_wp_pool wp_start\<rparr>"
  obtain out s' where run: "cmd_w kconfig_default (Some ''5'') ?s = Inr ((0, out), s')" by (rule cmd_w_five)
  moreover have "wp_inv (wps ?s) [] (0 # [1..<NR_WP])" using start_inv by simp
  from cmd_w_numbers [OF this run] have "nums (wps s') [0] = [1]" by (simp add: nums_def)
  ultimately show ?thesis unfolding Let_def by blast
qed

text \<open>
  C17. The command \<open>d N\<close> deletes the watchpoint with number \<open>N\<close> and no other; a number that is not in use
  leaves the list as it is.
\<close>

theorem cmd_d_deletes:
  assumes "wp_inv (wps s) used free"
  shows "\<exists>out w' used' free'. cmd_d (Some a) s = Inr ((0, out), s\<lparr>wps := w'\<rparr>) \<and> wp_inv w' used' free'
    \<and> nums w' used' = filter (\<lambda>n. n \<noteq> int32 (strtol a)) (nums (wps s) used)"
proof (cases "int32 (strtol a) \<in> set (nums (wps s) used)")
  case True
  then obtain i where i: "i \<in> set used" "cnt (wp_pool (wps s) ! i) = int32 (strtol a)" by (auto simp: nums_def)
  from cmd_d_present [OF assms this] obtain out w' where "cmd_d (Some a) s = Inr ((0, out), s\<lparr>wps := w'\<rparr>)"
    and w': "free_wp i (wps s) = Some w'" and inv: "wp_inv w' (remove1 i used) (i # free)" by blast
  moreover have "nums w' (remove1 i used) = nums (wps s) (remove1 i used)"
    using nums_cong [OF cnt_free_wp [OF w'], of "remove1 i used"] assms pool_view_bound [of "wps s" used free]
    by (auto simp: wp_inv_def dest!: set_remove1_subset [THEN subsetD])
  ultimately show ?thesis using nums_remove [OF assms i(1)] i(2) by metis
next
  case False
  from cmd_d_absent [OF assms False] obtain out where "cmd_d (Some a) s = Inr ((0, out), s\<lparr>wps := wps s\<rparr>)" by auto
  moreover have "filter (\<lambda>n. n \<noteq> int32 (strtol a)) (nums (wps s) used) = nums (wps s) used"
    using False by (intro filter_True) auto
  ultimately show ?thesis using assms by metis
qed

theorem cmd_d_deletes_witness:
  "\<exists>s :: unit nemu. nums (wps s) [0] = [1] \<and> wp_inv (wps s) [0] [1..<NR_WP]
    \<and> (\<exists>out w' used' free'. cmd_d (Some ''1'') s = Inr ((0, out), s\<lparr>wps := w'\<rparr>) \<and> wp_inv w' used' free' \<and> nums w' used' = [])"
proof -
  obtain out s where run: "cmd_w kconfig_default (Some ''5'') ((nemu_start ())\<lparr>wps := init_wp_pool wp_start\<rparr>) = Inr ((0, out), s)"
    by (rule cmd_w_five)
  have "wp_inv (wps ((nemu_start ())\<lparr>wps := init_wp_pool wp_start\<rparr>)) [] (0 # [1..<NR_WP])" using start_inv by simp
  from cmd_w_adds [OF this run] have s: "wp_inv (wps s) [0] [1..<NR_WP]" "nums (wps s) [0] = [1]" by (simp_all add: nums_def)
  have "int32 (strtol ''1'') = 1"
    by (simp add: strtol_def strtol_unsigned_def isspace_def digit_val_def LONG_MAX_def LONG_MIN_def int32_def)
  then show ?thesis using s cmd_d_deletes [OF s(1), of "''1''"] by (intro exI [of _ s]) simp
qed

text \<open>
  C18. Checking watchpoints after an instruction: the loop over the list ends and evaluates every
  watchpoint in use exactly once, in the order of the list.
\<close>

theorem watchpoints_checked_once:
  assumes "pool_view (wps s) used free"
  shows "wp_loop c NR_WP (find_head_wp (wps s)) s = check_all c used s"
  using assms by (rule wp_loop_used)

theorem watchpoints_checked_once_witness:
  "\<exists>w. let s = (nemu_start ())\<lparr>wps := w\<rparr> in
    wp_loop kconfig_default NR_WP (find_head_wp (wps s)) s = check_all kconfig_default [1, 0] s"
proof -
  obtain w where "pool_view w [1, 0] [2..<NR_WP]" using two_watchpoints by blast
  then have "pool_view (wps ((nemu_start ())\<lparr>wps := w\<rparr>)) [1, 0] [2..<NR_WP]" by simp
  from watchpoints_checked_once [OF this, of kconfig_default] show ?thesis unfolding Let_def by blast
qed

text \<open>
  C19. The expression evaluator: on the tokens of an expression over numbers, the registers by their ABI names, dereference,
  parentheses and \<open>+ - * / == &&\<close>, written with the parentheses that C's levels and left association ask for, evaluation
  returns the value of the expression: arithmetic on 32 bits, operands from left to right, a dereference reads four bytes
  of guest memory, and dividing by zero gives the dividend. The comparisons are left out: for them the code and its comments
  disagree.
\<close>

theorem eval_computes_value:
  assumes "legal_ex e"
  shows "eval c (c_tokens e) 0 (int (length (c_tokens e)) - 1) = c_val c e"
  using assms by (rule eval_c_tokens)

theorem eval_computes_value_witness:
  "let e = C_bin C_sub (C_bin C_sub (C_num 9) (C_num 4)) (C_bin C_mul (C_num 2) (C_hex 16))
   in eval kconfig_default (c_tokens e) 0 (int (length (c_tokens e)) - 1) (nemu_start ()) = Inr (-27, nemu_start ())"
proof -
  let ?e = "C_bin C_sub (C_bin C_sub (C_num 9) (C_num 4)) (C_bin C_mul (C_num 2) (C_hex 16))"
  have "legal_ex ?e" by simp
  moreover have "c_val kconfig_default ?e (nemu_start ()) = Inr (-27, nemu_start ())" by (simp add: bindM_def retM_def)
  ultimately show ?thesis unfolding Let_def using eval_computes_value [of ?e kconfig_default] by metis
qed

text \<open>
  C20. The test generator agrees with the debugger: from any sequence of random numbers without a zero literal, a round of the
  generator returns, prints the line it made when the compiler accepts the source, and the expression
  in it is one the debugger reads completely and evaluates to the value the generator computed.
\<close>

theorem generated_expressions_evaluate:
  assumes "length (gbuf s) = BUF_SIZE" and "no_zeros rnd"
  shows "\<exists>v s1 w s'. gen_rand_expr rnd 100 (s\<lparr>position := 0, gcnt := 0\<rparr>) = Inr (v, s1)
    \<and> gen_round rnd gcc run s = Inr (if gcc (code_format w)
        then Some (dec_nat (unat (run (code_format w))) @ '' '' @ w @ [CHR 0x0A]) else None, s')
    \<and> (\<forall>c ok (t :: 'r nemu). expr c w ok t = Inr ((v, ok), t))"
proof -
  obtain v s1 w s' e where r: "gen_rand_expr rnd 100 (s\<lparr>position := 0, gcnt := 0\<rparr>) = Inr (v, s1)" "length w \<le> 1393"
    "gen_round rnd gcc run s = Inr (if gcc (code_format w)
        then Some (dec_nat (unat (run (code_format w))) @ '' '' @ w @ [CHR 0x0A]) else None, s')" "denotes e w v"
    using gen_round_run [OF assms(1), of rnd gcc run] assms(2) by metis
  have "expr c w ok t = Inr ((v, ok), t)" for c ok and t :: "'r nemu"
    by (rule denotes_expr [OF r(4)]) (use r(2) in \<open>simp add: NR_TOKEN_def\<close>)
  then show ?thesis using r(1,3) by blast
qed

theorem generated_expressions_evaluate_witness:
  "\<exists>v s1 w s'. gen_rand_expr (\<lambda>i. i mod 5 + 1) 100 gen_start = Inr (v, s1)
    \<and> gen_round (\<lambda>i. i mod 5 + 1) (\<lambda>_. True) (\<lambda>_. v) gen_start = Inr (Some (dec_nat (unat v) @ '' '' @ w @ [CHR 0x0A]), s')
    \<and> expr kconfig_default w True (nemu_start ()) = Inr ((v, True), nemu_start ())"
proof -
  let ?r = "\<lambda>i. i mod 5 + 1 :: nat"
  have l: "length (gbuf gen_start) = BUF_SIZE" and n: "gen_start\<lparr>position := 0, gcnt := 0\<rparr> = gen_start"
    by (simp_all add: gen_start_def)
  have "?r i < 1000000" for i using mod_less_divisor [of 5 i] by linarith
  then have z: "no_zeros ?r" by (simp add: no_zeros_def)
  obtain v s1 where v: "gen_rand_expr ?r 100 gen_start = Inr (v, s1)"
    using gen_start_run [OF l, of ?r] unfolding n by blast
  from generated_expressions_evaluate [OF l z, of "\<lambda>_. True" "\<lambda>_. v", unfolded n] v show ?thesis by auto
qed

text \<open>
  C21. The generator ends and stays in its buffers: whatever the random numbers, it makes at most 199 calls and writes at most 1393
  characters, and a run of any number of rounds returns, with at most one line for each round.
\<close>

theorem gen_expr_returns:
  assumes "length (gbuf s) = BUF_SIZE"
  shows "(\<exists>v s'. gen_rand_expr rnd 100 (s\<lparr>position := 0, gcnt := 0\<rparr>) = Inr (v, s') \<and> gcnt s' \<le> 199 \<and> unat (position s') \<le> 1393)
    \<and> (\<exists>ls s'. gen_main rnd gcc run n s = Inr (ls, s') \<and> length ls \<le> n)"
proof -
  obtain v s' where "gen_rand_expr rnd 100 (s\<lparr>position := 0, gcnt := 0\<rparr>) = Inr (v, s')" "buf_ok s'"
    "gcnt s' \<le> 199" "length (written s') \<le> 1393"
    using gen_start_run [OF assms] by blast
  then show ?thesis using gen_main_run [OF assms] by (metis length_written)
qed

theorem gen_expr_returns_witness:
  "\<exists>ls s'. gen_main (\<lambda>_. 0) (\<lambda>_. False) (\<lambda>_. 0) 3 gen_start = Inr (ls, s') \<and> length ls \<le> 3"
  using gen_expr_returns [of gen_start "\<lambda>_. 0" "\<lambda>_. False" "\<lambda>_. 0" 3] by (simp add: gen_start_def)

text \<open>
  C22. The instruction trace keeps the last 16 lines: after any number of lines, each of the last 16 is in
  its slot of the ring, the write position is the number of lines modulo 16, and slots never written are
  marked invalid.
\<close>

theorem itrace_keeps_last_lines:
  assumes "\<forall>x \<in> set xs. length x < 128"
  shows "\<exists>t. itrace_push_all xs itrace_init = Inr t \<and> ring_p t = length xs mod NR_RB
    \<and> (\<forall>k < length xs. length xs \<le> k + NR_RB \<longrightarrow> iringbuf t ! (k mod NR_RB) = \<lparr>logbuf = xs ! k, valid = 1\<rparr>)
    \<and> (\<forall>i < NR_RB. length xs \<le> i \<longrightarrow> valid (iringbuf t ! i) = 0)"
  using itrace_push_all_ring [OF assms] by blast

theorem itrace_keeps_last_lines_witness:
  "\<exists>t. itrace_push_all [''a'', ''b'', ''c''] itrace_init = Inr t \<and> ring_p t = 3
    \<and> iringbuf t ! 1 = \<lparr>logbuf = ''b'', valid = 1\<rparr> \<and> valid (iringbuf t ! 3) = 0"
proof -
  have "\<forall>x \<in> set [''a'', ''b'', ''c'']. length x < 128" by simp
  from itrace_keeps_last_lines [OF this] obtain t where "itrace_push_all [''a'', ''b'', ''c''] itrace_init = Inr t"
    "ring_p t = 3 mod NR_RB"
    and ring: "\<And>k. k < 3 \<Longrightarrow> 3 \<le> k + NR_RB \<Longrightarrow> iringbuf t ! (k mod NR_RB) = \<lparr>logbuf = [''a'', ''b'', ''c''] ! k, valid = 1\<rparr>"
    and rest: "\<And>i. i < NR_RB \<Longrightarrow> 3 \<le> i \<Longrightarrow> valid (iringbuf t ! i) = 0"
    by (auto simp: numeral_3_eq_3)
  then show ?thesis using ring [of 1] rest [of 3] by (auto simp: NR_RB_def)
qed

section \<open>The keyboard from the host to the guest\<close>

text \<open>
  C23. Keys pressed on the host reach the guest: with the keyboard controller registered where the guest
  expects it, the guest's driver, reading through the emulated bus, gets the events in the order
  they were made, each with the number the abstract machine gives to the key.
\<close>

theorem keys_reach_guest:
  assumes "kbd_ready c s" and "state (nemu_state s) = NEMU_RUNNING" and "kb_list (kbd s) = []"
    and "inj_on SDL_SCANCODE (set NEMU_KEYS)" and "keymap (kbd s) = keymap (init_keymap SDL_SCANCODE kb)"
    and "\<forall>e \<in> set es. fst e \<in> set NEMU_KEYS" and "length es < KEY_QUEUE_LEN"
  shows "\<exists>s1 s2. press_keys (map (\<lambda>(k, down). (SDL_SCANCODE k, down)) es) s = Inr ((), s1)
    \<and> guest_keys c (length es) s1 = Inr (map (\<lambda>(k, down). \<lparr>keydown = down, keycode = AM_KEY k\<rparr>) es, s2)"
proof -
  let ?es = "map (\<lambda>(k, down). (SDL_SCANCODE k, down)) es"
  have num: "keymap (kbd s) (SDL_SCANCODE k) = AM_KEY k" if "k \<in> set NEMU_KEYS" for k
    using keymap_numbers [OF assms(4) that] assms(5) by simp
  then have "\<forall>e \<in> set ?es. key_known (kbd s) e"
    using assms(6) AM_KEY_small by (auto simp: key_known_def NEMU_KEY_NONE_def keys_agree)
  moreover have "length ?es \<le> KEY_QUEUE_LEN - 1" using assms(7) by simp
  ultimately obtain s1 s2 where "press_keys ?es s = Inr ((), s1)"
    "guest_keys c (length ?es) s1 = Inr (map (\<lambda>e. \<lparr>keydown = snd e, keycode = keymap (kbd s) (fst e)\<rparr>) ?es, s2)"
    using keys_arrive [OF assms(1-3)] by blast
  moreover have "map (\<lambda>e. \<lparr>keydown = snd e, keycode = keymap (kbd s) (fst e)\<rparr>) ?es
    = map (\<lambda>(k, down). \<lparr>keydown = down, keycode = AM_KEY k\<rparr>) es"
    using num assms(6) by (auto simp: split_beta)
  ultimately show ?thesis by auto
qed

theorem keys_reach_guest_witness:
  "\<exists>s s1 s2. init_i8042 device_config scancodes (nemu_start ()) = Inr ((), s)
    \<and> press_keys [(scancodes ''A'', True), (scancodes ''A'', False)] (s\<lparr>nemu_state := (nemu_state s)\<lparr>state := NEMU_RUNNING\<rparr>\<rparr>) = Inr ((), s1)
    \<and> guest_keys device_config 2 s1
      = Inr ([\<lparr>keydown = True, keycode = AM_KEY ''A''\<rparr>, \<lparr>keydown = False, keycode = AM_KEY ''A''\<rparr>], s2)"
proof -
  obtain s where s: "init_i8042 device_config scancodes (nemu_start ()) = Inr ((), s)" by (rule device_start)
  let ?s = "s\<lparr>nemu_state := (nemu_state s)\<lparr>state := NEMU_RUNNING\<rparr>\<rparr>"
  have start: "\<not> CONFIG_HAS_PORT_IO device_config" "CONFIG_I8042_DATA_MMIO device_config = KBD_ADDR" "CONFIG_DEVICE device_config"
    "ram_ptr device_config KBD_ADDR = None" "kb_inv (kbd (nemu_start ()))" "0 \<le> p_space (io (nemu_start ()))"
    by (simp_all add: device_config_def kconfig_default_def KBD_ADDR_def DEVICE_BASE_def ram_ptr_def soc_memory_def in_pmem_def
        nemu_start_def kq.inv_empty)
  note r = init_i8042_ready [OF s start]
  have "kbd_ready device_config ?s" using r by (simp add: kbd_ready_def)
  moreover have "kb_list (kbd ?s) = []" using r by (simp add: nemu_start_def kq.elems_empty)
  ultimately have "\<exists>s1 s2. press_keys (map (\<lambda>(k, down). (scancodes k, down)) [(''A'', True), (''A'', False)]) ?s = Inr ((), s1)
    \<and> guest_keys device_config (length [(''A'', True), (''A'', False)]) s1
      = Inr (map (\<lambda>(k, down). \<lparr>keydown = down, keycode = AM_KEY k\<rparr>) [(''A'', True), (''A'', False)], s2)"
    using r by (intro keys_reach_guest [where kb = "kbd (nemu_start ())"] scancodes_inj) (simp_all add: KEY_QUEUE_LEN_def NEMU_KEYS_def)
  with s show ?thesis by (auto simp: numeral_2_eq_2)
qed

section \<open>Differential testing\<close>

text \<open>
  C24. A step of the comparison with no skip pending runs the reference for one instruction and stops the
  run with \<open>ABORT\<close> at the given address exactly when the registers or the program counters differ; it does
  not change the machine under test.
\<close>

theorem difftest_step_compares:
  assumes "skip_dut_nr_inst (dt s) \<le> 0" and "\<not> is_skip_ref (dt s)"
    and "ref_difftest_exec ro 1 (ref_st (dt s)) = Inr r" and "ref_regcpy_dut ro junk r = Inr x"
    and "length (gpr (cpu s)) = 32" and "length (gpr x) = 32"
  shows "\<exists>s'. difftest_step ro junk p n s = Inr ((), s') \<and> cpu s' = cpu s \<and> mem s' = mem s \<and> ref_st (dt s') = r
    \<and> nemu_state s' = (if gpr (cpu s) = gpr x \<and> pc (cpu s) = pc x then nemu_state s
        else (nemu_state s)\<lparr>state := NEMU_ABORT, halt_pc := p\<rparr>)"
  using assms by (rule difftest_step_compare)

theorem difftest_step_compares_witness:
  "\<exists>s'. difftest_step null_ref (\<lparr>gpr = replicate 32 1, pc = 0, csr = (\<lambda>_. 0)\<rparr>) 0x80000000 0x80000004 (nemu_start ()) = Inr ((), s')
    \<and> state (nemu_state s') = NEMU_ABORT \<and> halt_pc (nemu_state s') = 0x80000000"
proof -
  have ne: "replicate 32 (0 :: u32) \<noteq> replicate 32 1" by (simp add: replicate_eq_replicate)
  show ?thesis
    using difftest_step_compares [of "nemu_start ()" null_ref "()" "\<lparr>gpr = replicate 32 1, pc = 0, csr = (\<lambda>_. 0)\<rparr>"
        "\<lparr>gpr = replicate 32 1, pc = 0, csr = (\<lambda>_. 0)\<rparr>" "0x80000000" "0x80000004"] ne
    by (auto simp: nemu_start_def null_ref_def)
qed



section \<open>Page tables\<close>

text \<open>
  C26. Mapping a page: in an address space whose tables are in order, \<open>map\<close> on page-aligned addresses of the user area
  stops when the page is to be entered and is there, is to be taken out and is not there, or a table is needed and
  there is no memory. Otherwise the walk of the processor finds the frame with the permissions asked
  for at the addresses of that page (nothing when the page was taken out), what it found before at every other address, and the
  tables are in order again.
\<close>

theorem vme_map_refines:
  assumes "pager_ok ops used" "pager_avoids ops (as_ptr as)" "space_ok used U as s" "map_ok va pa"
  shows "case vme_map ops as va pa prot s of
      Inl e \<Rightarrow> e = Panic ''cannot allocate page'' \<and> lookup s as va = None \<and> no_page ops (page_pool s)
        \<or> e = Panic ''unmapping a non-mapped page'' \<and> lookup s as va = None \<and> prot = MMAP_NONE
        \<or> e = Panic ''remapping a mapped page'' \<and> lookup s as va \<noteq> None \<and> prot \<noteq> MMAP_NONE
    | Inr (u, s') \<Rightarrow> space_ok used U as s' \<and> (lookup s as va = None \<longleftrightarrow> prot \<noteq> MMAP_NONE)
        \<and> (\<forall>x. lookup s' as x = (if baseof x = va
             then if prot = MMAP_NONE then None else Some (pa + offset x, prot AND MMAP_WRITE \<noteq> 0, True)
             else lookup s as x))"
  using assms by (rule vme_map_lookup)

theorem vme_map_refines_witness:
  "\<exists>s s'. protect page_ops 0x9000 vme_start = Inr ((), s)
    \<and> vme_map page_ops 0x9000 0x40000000 0x2000000 MMAP_WRITE s = Inr ((), s')
    \<and> lookup s' 0x9000 0x40000123 = Some (0x2000123, True, True)"
proof (rule vme_start_space)
  fix s
  assume s: "protect page_ops 0x9000 vme_start = Inr ((), s)" and sp: "space_ok set {0x100000} 0x9000 s"
    and r: "represents (translate (words vme_start) (kpt vme_start)) Map.empty s 0x9000"
  have g: "map_ok 0x40000000 0x2000000" by code_simp
  have av: "pager_avoids page_ops (as_ptr 0x9000)" by (rule avoids_root [OF vme_start_ok(2)])
  obtain s' where s': "vme_map page_ops 0x9000 0x40000000 0x2000000 MMAP_WRITE s = Inr ((), s')"
    using vme_map_served [OF page_ops_ok av page_ops_serves sp r g, of MMAP_WRITE] by (auto simp: MMAP_NONE_def MMAP_WRITE_def)
  have "baseof (0x40000123 :: u32) = 0x40000000" "0x2000000 + offset 0x40000123 = (0x2000123 :: u32)" by code_simp+
  then show ?thesis using vme_map_refines [OF page_ops_ok av sp g, of MMAP_WRITE] s s'
    by (auto simp: MMAP_NONE_def MMAP_WRITE_def)
qed

text \<open>
  C27. Address spaces are isolated and live: with enough free pages, two spaces that are made and filled one after the other
  by legal requests are served, and in the end each of them maps exactly the pages its own requests left, together
  with the kernel's part.
\<close>

theorem vme_spaces_isolated:
  assumes "pager_ok ops used" "serves ops used (card (used (page_pool s)) + 2050)" "kernel_ok used s"
    "object_ok ops (used (page_pool s)) as1" "object_ok ops (used (page_pool s)) as2" "as_ptr as1 \<notin> as_fields as2"
    "legal Map.empty reqs1" "legal Map.empty reqs2"
  shows "\<exists>s'. thenM (thenM (protect ops as1) (map_all ops as1 reqs1)) (thenM (protect ops as2) (map_all ops as2 reqs2)) s
        = Inr ((), s')
    \<and> represents (translate (words s) (kpt s)) (fold spec_map reqs1 Map.empty) s' as1
    \<and> represents (translate (words s) (kpt s)) (fold spec_map reqs2 Map.empty) s' as2"
  using assms by (rule spaces_isolated)

theorem vme_spaces_isolated_witness:
  "\<exists>s'. thenM (thenM (protect page_ops 0x9000) (map_all page_ops 0x9000 vme_requests))
        (thenM (protect page_ops 0xa000) (map_all page_ops 0xa000 vme_requests)) vme_start = Inr ((), s')
    \<and> represents (translate (words vme_start) (kpt vme_start)) (fold spec_map vme_requests Map.empty) s' 0x9000
    \<and> represents (translate (words vme_start) (kpt vme_start)) (fold spec_map vme_requests Map.empty) s' 0xa000"
  by (rule vme_spaces_isolated [OF page_ops_ok _ vme_start_ok(1)])
    (simp_all add: vme_start_pool page_ops_serves vme_start_ok vme_requests_legal as_fields_def as_ptr_def as_pgsize_def
      as_area_start_def as_area_end_def)

text \<open>
  C28. No page leaks: releasing a space with \<open>unprotect\<close> returns, and afterwards exactly the pages that were in use
  before the space was made are in use, whatever was mapped in between.
\<close>

theorem vme_space_releases_pages:
  assumes "pager_ok ops used" "kernel_ok used s" "object_ok ops (used (page_pool s)) as"
    "thenM (protect ops as) (map_all ops as reqs) s = Inr (u, s1)"
  shows "\<exists>s'. unprotect ops as s1 = Inr ((), s') \<and> used (page_pool s') = used (page_pool s)"
  using assms by (rule space_returns_pages)

theorem vme_space_releases_pages_witness:
  "\<exists>s1 s'. thenM (protect page_ops 0x9000) (map_all page_ops 0x9000 vme_requests) vme_start = Inr ((), s1)
    \<and> unprotect page_ops 0x9000 s1 = Inr ((), s') \<and> set (page_pool s') = {0x100000}"
proof -
  have o: "object_ok page_ops (set (page_pool vme_start)) 0x9000" by (simp add: vme_start_pool vme_start_ok)
  obtain s1 where s1: "thenM (protect page_ops 0x9000) (map_all page_ops 0x9000 vme_requests) vme_start = Inr ((), s1)"
    using space_served [OF page_ops_ok page_ops_serves vme_start_ok(1) o vme_requests_legal] by (auto simp: vme_start_pool)
  from vme_space_releases_pages [OF page_ops_ok vme_start_ok(1) o s1] s1 show ?thesis by (simp add: vme_start_pool)
qed

text \<open>
  C29. The kernel runs unchanged when paging is switched on: given pages for a directory and 268 tables, \<open>vme_init\<close>
  returns with paging enabled and the processor translates every address of the kernel areas to itself, writable and not
  for the user, and no other address.
\<close>

theorem vme_init_maps_identity:
  assumes "pager_ok ops used" "pager_avoids ops (as_ptr as)" "serves ops used (card (used (page_pool s)) + 268)"
    "\<And>p. p \<in> used (page_pool s) \<Longrightarrow> baseof p = p \<and> \<not> in_page p (as_ptr as)"
  shows "\<exists>s'. vme_init ops 0 as s = Inr (True, s') \<and> cr3 s' = kpt s' \<and> bit (cr0 s') 31 \<and> kernel_ok used s'
    \<and> (\<forall>x. translate (words s') (cr3 s') x = (if kernel_index (pd_index x) then Some (x, True, False) else None))"
  using assms by (rule vme_init_identity)

theorem vme_init_maps_identity_witness:
  "\<exists>s'. vme_init page_ops 0 0x9000 (vme_start\<lparr>page_pool := []\<rparr>) = Inr (True, s') \<and> cr3 s' = kpt s' \<and> bit (cr0 s') 31
    \<and> kernel_ok set s'
    \<and> (\<forall>x. translate (words s') (cr3 s') x = (if kernel_index (pd_index x) then Some (x, True, False) else None))"
  by (rule vme_init_maps_identity [OF page_ops_ok avoids_root [OF vme_start_ok(2)]]) (simp_all add: page_ops_serves)

text \<open>
  C30. Address spaces of the native platform, on a host that grants the mappings it is asked for: entering a page that the
  space does not have, with a descriptor in a page that no space uses for its head or for a descriptor, and then switching to
  any space returns. Afterwards the host process has mapped exactly the pages of the space switched to, with the new page
  if it is that space, and the lists of all spaces are in order again.
\<close>

theorem native_switch_installs_space:
  assumes "native_ok w H L s" "map_args_ok w as va pa" "nas_ptr (spaces s as) = h" "h \<in> H"
    and "vh_hash (heads s h) (page_key va) = None" "length (L h) < vh_size (heads s h)"
    and "get_page (native_pool s) = (b, p')" "b \<noteq> 0" "b \<notin> H" "\<And>k. k \<in> H \<Longrightarrow> b \<notin> set (L k)"
    and "host_accepts w" "k \<in> H" "\<And>l. l \<in> H \<Longrightarrow> length (L l) < fuel"
  shows "\<exists>s1 s2. native_map get_page w as va pa prot s = Inr ((), s1) \<and> am_switch w fuel k s1 = Inr ((), s2)
    \<and> cpu_vm_head s2 = k \<and> native_ok w H (L(h := b # L h)) s2
    \<and> host_map s2 = (if k = h then (table (nodes s) (L h))(va \<mapsto> (pa, mmap_prot prot)) else table (nodes s) (L k))"
  using map_then_switch [where pgalloc = get_page, OF assms(1-9)] assms(10-) by blast

theorem native_switch_installs_space_witness:
  "\<exists>s1 s2. native_map native_alloc native_host 1 0x40001000 0x9000 1 native_start = Inr ((), s1)
    \<and> am_switch native_host 2 0x1000 s1 = Inr ((), s2)
    \<and> host_map s2 = [0x40000000 \<mapsto> (0x8000, mmap_prot 3), 0x40001000 \<mapsto> (0x9000, mmap_prot 1)]"
proof -
  have "page_key 0x40001000 \<noteq> page_key 0x40000000"
    using page_key_inj [of "0x40001000" "0x40000000"] by (simp add: in_user_def USER_START_def USER_END_def)
  then have f: "vh_hash (heads native_start 0x1000) (page_key 0x40001000) = None" by (simp add: native_start_def heads_def)
  have a: "map_args_ok native_host 1 0x40001000 0x9000" by code_simp
  have l: "length (native_lists 0x1000) < vh_size (heads native_start 0x1000)" "nas_ptr (spaces native_start 1) = 0x1000"
    "native_alloc (native_pool native_start) = (0x10000, 1)"
    by (simp_all add: native_start_def native_lists_def native_alloc_def heads_def)
  have "table (nodes native_start) (native_lists 0x1000) = [0x40000000 \<mapsto> (0x8000, mmap_prot 3)]"
    by (simp add: table_def page_entry_def native_start_def native_lists_def nodes_def)
  then show ?thesis
    using native_switch_installs_space [where get_page = native_alloc and k = "0x1000" and fuel = 2 and prot = 1,
        OF native_start_ok a l(2) _ f l(1,3) _ _ _ native_host_accepts] by (force simp: native_lists_def)
qed

text \<open>
  C31. Mapping a page again breaks the space: \<open>map\<close> on a page that the space has returns, but the list of the space is then a
  cycle, so that switching to it never returns, however many rounds its loops are given: it runs for ever, unless the host
  refuses a mapping on the way and an assertion ends the program.
\<close>

theorem native_remap_never_returns:
  assumes "native_ok w H L s" "map_args_ok w as va pa" "nas_ptr (spaces s as) = h" "h \<in> H"
    and "table (nodes s) (L h) va \<noteq> None" "h \<noteq> cpu_vm_head s"
  shows "\<exists>s'. native_map get_page w as va pa prot s = Inr ((), s')
    \<and> (\<forall>fuel. am_switch w fuel h s' = Inl Diverges \<or> am_switch w fuel h s' = Inl Assert_fail \<and> \<not> host_accepts w)"
  using remap_diverges [OF assms, of get_page prot] by (simp add: never_returns_def)

theorem native_remap_never_returns_witness:
  "\<exists>s'. native_map native_alloc native_host 1 0x40000000 0x9000 1 native_start = Inr ((), s')
    \<and> (\<forall>fuel. am_switch native_host fuel 0x1000 s' = Inl Diverges)"
proof -
  have "map_args_ok native_host 1 0x40000000 0x9000" by code_simp
  moreover have "nas_ptr (spaces native_start 1) = 0x1000" "table (nodes native_start) (native_lists 0x1000) 0x40000000 \<noteq> None"
    "0x1000 \<noteq> cpu_vm_head native_start"
    by (simp_all add: native_start_def table_def page_entry_def native_lists_def nodes_def)
  ultimately show ?thesis
    using native_remap_never_returns [OF native_start_ok, where get_page = native_alloc and prot = 1] native_host_accepts by simp
qed

section \<open>Guest library and tools\<close>

text \<open>
  C32. The 64-bit division of the guest's C library, built from shifts and 32-bit operations, is division:
  for every dividend and every non-zero divisor the unsigned entry points give quotient and
  remainder, and the signed ones those of division that rounds towards zero.
\<close>

theorem klib_division:
  assumes "b \<noteq> 0"
  shows "udivmoddi4 a b = Inr (a div b, a mod b) \<and> udivdi3 a b = Inr (a div b) \<and> umoddi3 a b = Inr (a mod b)
    \<and> divdi3 a b = Inr (word_of_int (sint a sdiv sint b)) \<and> moddi3 a b = Inr (word_of_int (sint a smod sint b))
    \<and> divmoddi4 a b = Inr (word_of_int (sint a sdiv sint b), word_of_int (sint a smod sint b))"
  using assms by (simp add: udivmoddi4_divides udivdi3_divides umoddi3_divides divdi3_truncates moddi3_truncates divmoddi4_agrees)

theorem klib_division_witness:
  "udivmoddi4 0x123456789ABCDEF0 0x1000000001 = Inr (0x1234567, 0x899999989) \<and> divdi3 (- 7) 2 = Inr (- 3) \<and> moddi3 (- 7) 2 = Inr (- 1)"
  using klib_division [of "0x1000000001" "0x123456789ABCDEF0"] klib_division [of 2 "- 7"]
  by (simp add: signed_divide_int_def signed_modulo_int_def)

text \<open>
  C33. Arithmetic without a multiplier: on all arguments, division by zero and overflow included, the routines that a compiled
  program calls return what the instructions of the M extension return, and the 64-bit
  multiplication and shift are those of 64-bit words.
\<close>

theorem libgcc_replaces_instructions:
  assumes "0 \<le> k" and "k < 64"
  shows "mulsi3 a b = alu_spec MUL a b \<and> fst (udivsi3 a b) = alu_spec DIVU a b \<and> umodsi3 a b = alu_spec REMU a b
    \<and> divsi3 a b = alu_spec DIVV a b \<and> modsi3 a b = alu_spec REM a b
    \<and> muldi3 x y = x * y \<and> ashldi3 x k = Inr (push_bit (nat k) x)"
  using libgcc_unsigned [of a b] divsi3_divides [of a b] modsi3_remainder [of a b] muldi3_product [of x y] ashldi3_shifts [OF assms, of x]
  by (simp only: simp_thms)

theorem libgcc_replaces_instructions_witness:
  "divsi3 (- 7) 2 = - 3 \<and> modsi3 (- 7) 2 = - 1 \<and> divsi3 5 0 = - 1 \<and> muldi3 0x100000001 0xFFFFFFFF = 0xFFFFFFFFFFFFFFFF
    \<and> ashldi3 0x80000001 33 = Inr 0x200000000"
  using libgcc_replaces_instructions [of 33 "- 7" 2 "0x100000001" "0xFFFFFFFF"]
    libgcc_replaces_instructions [of 33 5 0 "0x80000001" 0]
  by (simp add: signed_divide_int_def signed_modulo_int_def push_bit_eq_mult)

text \<open>
  C34. \<open>memmove\<close> copies a range to any other range of the same length, overlapping or not: afterwards the
  destination holds the former bytes of the source and every byte outside it is unchanged.
\<close>

theorem memmove_copies:
  assumes "fits d (unat n)" and "fits s (unat n)"
  shows "bytes (memmove m d s n) d (unat n) = bytes m s (unat n)
    \<and> (\<forall>x. \<not> inside d (unat n) x \<longrightarrow> memmove m d s n x = m x)"
  using memmove_moves [OF assms, of m] bytes_moved [OF assms(1), of m s] by (simp add: moved_def)

theorem memmove_copies_witness:
  "bytes (memmove (\<lambda>x. ucast x) 0x101 0x100 4) 0x101 4 = [0, 1, 2, 3]"
proof -
  have "fits 0x101 (unat (4 :: u32))" "fits 0x100 (unat (4 :: u32))" by (simp_all add: fits_def)
  note memmove_copies [OF this, of "\<lambda>x. ucast x"]
  moreover have "bytes (\<lambda>x. ucast x) 0x100 4 = [0, 1, 2, 3 :: u8]" by code_simp
  ultimately show ?thesis by simp
qed

text \<open>
  C35. What \<open>sprintf\<close> prints with \<open>%d\<close> for a number that is not negative, \<open>atoi\<close> reads back.
\<close>

theorem sprintf_atoi_roundtrip:
  assumes "\<not> sint d < 0" and "fits out (Suc (length (fmt_d (sint d))))"
  shows "\<exists>m'. sprintf m out ''%d'' [VInt d] = Inr (length (fmt_d (sint d)), m') \<and> atoi m' out = Some d"
  using assms by (rule atoi_sprintf)

theorem sprintf_atoi_roundtrip_witness:
  "\<exists>m'. sprintf (\<lambda>_. 0) 0x100 ''%d'' [VInt 7] = Inr (1, m') \<and> atoi m' 0x100 = Some 7"
  using sprintf_atoi_roundtrip [of 7 "0x100" "\<lambda>_. 0"] by (simp add: fits_def fmt_d_def dec_nat.simps)

text \<open>
  C36. The blocks a sequence of \<open>malloc\<close> calls returns are 8-byte aligned, lie inside the heap, have room for
  what was asked for and do not overlap, when the heap starts aligned and no request is so large that the
  sum of addresses wraps.
\<close>

theorem malloc_blocks_disjoint:
  assumes "heap_ok heap" and "\<forall>n \<in> set ns. small_request heap n \<and> n \<noteq> 0" and "mallocs heap ns 0 = Inr (ps, addr)"
  shows "length ps = length ns \<and> (\<forall>i < length ns. area_start heap \<le> ps ! i \<and> unat (ps ! i) mod 8 = 0
      \<and> unat (ps ! i) + unat (ns ! i) \<le> unat (area_end heap))
    \<and> (\<forall>i j. i < j \<longrightarrow> j < length ns \<longrightarrow> unat (ps ! i) + unat (ns ! i) \<le> unat (ps ! j))"
  using mallocs_blocks [OF assms(1) addr_ok_start [OF assms(1)] assms(2,3)] by (simp add: brk_of_def word_le_nat_alt)

theorem malloc_blocks_disjoint_witness:
  "\<exists>ps addr. mallocs \<lparr>area_start = 0x80100000, area_end = 0x80200000\<rparr> [5, 16] 0 = Inr (ps, addr) \<and> unat (ps ! 0) + 5 \<le> unat (ps ! 1)"
proof -
  let ?h = "\<lparr>area_start = 0x80100000, area_end = 0x80200000\<rparr>"
  have m: "mallocs ?h [5, 16] 0 = Inr ([0x80100000, 0x80100008], 0x80100018)" by code_simp
  have "heap_ok ?h" "\<forall>n \<in> set [5, 16]. small_request ?h n \<and> n \<noteq> 0" by (simp_all add: heap_ok_def small_request_def)
  from malloc_blocks_disjoint [OF this m] m show ?thesis by fastforce
qed

text \<open>
  C37. The guest reads the 64-bit clock of the emulator in two halves: with the timer registered at the guest's address and a
  host clock that does not run backwards, the driver's loop ends, without an error of the emulator, and returns a time
  between the clock's values at its start and at its end, though the timer looks at the clock only when its high half is
  read.
\<close>

theorem uptime_on_emulated_timer:
  assumes "rtc_ready c s" and "clock_ok (clk s)"
  shows "\<exists>t s'. nemu_timer_uptime (nemu_bus c) (Inr s) = Some (t, Inr s') \<and> guest_time s \<le> t \<and> t \<le> guest_time s'"
  using uptime_on_nemu [OF assms] by blast

theorem uptime_on_emulated_timer_witness:
  "\<exists>s t s'. init_timer device_config timer_start = Inr ((), s)
    \<and> nemu_timer_uptime (nemu_bus device_config) (Inr s) = Some (t, Inr s') \<and> 0xFFFFFFFE \<le> t \<and> t \<le> guest_time s'"
proof -
  obtain s where s: "init_timer device_config timer_start = Inr ((), s)" by (rule timer_initialised)
  have "rtc_ready device_config s \<and> clk s = clk timer_start"
    by (rule init_timer_ready [OF s])
      (simp_all add: device_config_def kconfig_default_def timer_start_def nemu_start_def trace_target_def RTC_ADDR_def DEVICE_BASE_def
        ram_ptr_def soc_memory_def in_pmem_def maps_inv_Nil)
  moreover have "clock_ok (clk timer_start)" by (simp add: clock_ok_def timer_start_def)
  moreover have "guest_time s = 0xFFFFFFFE" if "clk s = clk timer_start"
    using that by (simp add: guest_time_def clock_get_time_def get_time_internal_def timer_start_def)
  ultimately show ?thesis using s uptime_on_emulated_timer [of device_config s] by metis
qed

text \<open>
  C38. The scan code decoder of the ysyxSoC platform: as many calls as there are key events on the wire return
  exactly these events, in their order, and leave what follows. A call that finds only the first
  bytes of an event reports no key and keeps them, and the call that finds the rest reports the event.
\<close>

theorem keyboard_decodes_events:
  assumes "ps2_port b q"
  shows "((\<forall>e \<in> set es. proper_code e) \<longrightarrow> q d = concat (map scan_bytes es) @ rest \<longrightarrow>
      (\<exists>d'. q d' = rest \<and> polls b (length es) no_prefix d = Some (map event_of es, no_prefix, d')))
    \<and> (proper_code e \<longrightarrow> scan_bytes e = sent @ missing \<longrightarrow> missing \<noteq> [] \<longrightarrow> prefix_bytes sent \<longrightarrow> q d1 = sent \<longrightarrow> q d2 = missing @ rest \<longrightarrow>
      (\<exists>d1' st d2'. soc_input_keybrd b no_prefix d1 = Some (\<lparr>keydown = False, keycode = AM_KEY_NONE\<rparr>, st, d1') \<and> q d1' = []
        \<and> soc_input_keybrd b st d2 = Some (event_of e, no_prefix, d2') \<and> q d2' = rest))"
  using polls_events [OF assms] keybrd_waits [OF assms] keybrd_event [OF assms] by blast

theorem keyboard_decodes_events_witness:
  "polls fifo_bus 2 no_prefix [0x1c, 0xe0, 0xf0, 0x75] =
    Some ([\<lparr>keydown = True, keycode = AM_KEY ''A''\<rparr>, \<lparr>keydown = False, keycode = AM_KEY ''UP''\<rparr>], no_prefix, [])"
proof -
  let ?es = "[\<lparr>ext_key = False, pressed = True, code_of = 0x1c\<rparr>, \<lparr>ext_key = True, pressed = False, code_of = 0x75\<rparr>]"
  have "polls fifo_bus (length ?es) no_prefix [0x1c, 0xe0, 0xf0, 0x75] = Some (map event_of ?es, no_prefix, [])"
    using keyboard_decodes_events [OF fifo_bus_port, of ?es "[0x1c, 0xe0, 0xf0, 0x75]" "[]"]
    by (simp add: proper_code_def scan_bytes_def)
  moreover have "map event_of ?es = [\<lparr>keydown = True, keycode = AM_KEY ''A''\<rparr>, \<lparr>keydown = False, keycode = AM_KEY ''UP''\<rparr>]"
    by (simp add: event_of_def key_entry_def soc_keymap_def soc_ext_keymap_def)
  ultimately show ?thesis by (simp add: numeral_2_eq_2)
qed

text \<open>
  C39. The second boot stage, byte by byte: when the sections start at words and meet neither each other nor the load images, it
  jumps to \<open>_start\<close> with the bytes of every section loaded from its image, or zero, up to its last whole word. The bytes
  behind that word, if the section ends in the middle of one, and all bytes outside the sections are as before.
\<close>

theorem bootloader_loads_sections:
  assumes "layout_ok (boot_steps l)"
  shows "fst (ss_bootloader l m) = start_symbol l
    \<and> (\<forall>(b, sec) \<in> set (boot_steps l). \<forall>n < sect_size sec. byte_at (snd (ss_bootloader l m)) (s_start sec + of_nat n) =
        (if 4 * (sect_size sec div 4) \<le> n then byte_at m (s_start sec + of_nat n)
         else if b then byte_at m (s_lma sec + of_nat n) else 0))
    \<and> (\<forall>a. (\<forall>(b, sec) \<in> set (boot_steps l). unat a \<notin> {unat (s_start sec)..<unat (s_start sec) + sect_size sec}) \<longrightarrow>
        byte_at (snd (ss_bootloader l m)) a = byte_at m a)"
proof -
  have "byte_at (snd (ss_bootloader l m)) a = byte_at m a"
    if "\<And>b sec. (b, sec) \<in> set (boot_steps l) \<Longrightarrow> unat a \<notin> span_of (s_start sec) (sect_size sec)" for a
    using that span_whole by (intro ss_bootloader_unchanged [OF assms]) blast
  then have "\<forall>a. (\<forall>(b, sec) \<in> set (boot_steps l). unat a \<notin> {unat (s_start sec)..<unat (s_start sec) + sect_size sec}) \<longrightarrow>
        byte_at (snd (ss_bootloader l m)) a = byte_at m a" unfolding span_of_def by blast
  moreover have "fst (ss_bootloader l m) = start_symbol l" by (rule ss_bootloader_done(1) [OF layout_steps_ok [OF assms]])
  ultimately show ?thesis
    using ss_bootloader_loaded [OF assms] ss_bootloader_rest [OF assms] by (fastforce simp: whole_words_def not_le)
qed

theorem bootloader_loads_sections_witness:
  "let m = (\<lambda>a. a + 0x01020304); m' = snd (ss_bootloader small_layout m) in
   byte_at m' 5 = byte_at m 0x105 \<and> byte_at m' 11 = byte_at m 0x10b \<and> byte_at m' 13 = byte_at m 13 \<and> byte_at m' 16 = 0
    \<and> byte_at m' 0x24 = byte_at m 0x24"
proof -
  define m :: wmem where "m = (\<lambda>a. a + 0x01020304)"
  let ?r = "snd (ss_bootloader small_layout m)"
  have "layout_ok (boot_steps small_layout)"
    by (simp add: layout_ok_def boot_steps_def small_layout_def Let_def small_spans sect_ok_def) (simp add: span_of_def)
  note res = bootloader_loads_sections [OF this, of m]
  have steps: "(True, text_sect small_layout) \<in> set (boot_steps small_layout)" "(True, rodata_sect small_layout) \<in> set (boot_steps small_layout)"
    "(False, bss_sect small_layout) \<in> set (boot_steps small_layout)" by (simp_all add: boot_steps_def)
  have at: "byte_at ?r (s_start sec + of_nat n) = (if 4 * (sect_size sec div 4) \<le> n then byte_at m (s_start sec + of_nat n)
         else if b then byte_at m (s_lma sec + of_nat n) else 0)" if "(b, sec) \<in> set (boot_steps small_layout)" "n < sect_size sec" for b sec n
    using res that by blast
  have "byte_at ?r 5 = byte_at m 0x105" "byte_at ?r 11 = byte_at m 0x10b" "byte_at ?r 13 = byte_at m 13" "byte_at ?r 16 = 0"
    using at [OF steps(1), of 5] at [OF steps(2), of 3] at [OF steps(2), of 5] at [OF steps(3), of 0]
    by (simp_all add: small_layout_def Let_def small_spans)
  moreover have "byte_at ?r 0x24 = byte_at m 0x24"
    using res by (simp add: boot_steps_def small_layout_def Let_def small_spans)
  ultimately show ?thesis unfolding Let_def m_def by blast
qed

text \<open>
  C40. A packet of the GDB remote protocol, with its special bytes escaped and its checksum, is received as the
  payload it encodes and found intact, whatever precedes it and follows it; no input makes the receiver
  store outside its buffer, which it enlarges when it is full, also for the terminating zero.
\<close>

theorem gdb_packets_received:
  "(0x24 \<notin> set noise \<longrightarrow> recv_packet (noise @ rsp_packet bs @ rest) = Inr (bs, True, rest))
   \<and> recv_packet ip \<noteq> Inl Out_of_bounds"
  using recv_packet_encoded recv_packet_safe by blast

theorem gdb_packets_received_witness:
  "recv_packet (text_bytes ''+'' @ rsp_packet (text_bytes ''a}b'') @ [1]) = Inr (text_bytes ''a}b'', True, [1])"
  using gdb_packets_received [of "text_bytes ''+''" "text_bytes ''a}b''" "[1]" "[]"] by (simp add: text_bytes_def)

end
